(* ===== verification/Prelude.thy ===== *)
theory Prelude
  imports Main "HOL-Library.Word"
begin

text \<open>
  Shared vocabulary of the development.

  \<^item> Wide strings: \<open>wchar_t\<close> is 16 bits wide on Windows, so a NUL-terminated
    \<open>const wchar_t *\<close> is the list of the code units before its terminator
    (\<open>wstr\<close>), and reading the terminator gives 0 (\<open>wat\<close>). Narrow
    strings are lists of bytes in the same way (\<open>bytes\<close>, \<open>bat\<close>).
  \<^item> The C library's case folding in the C locale, which is the locale of the loader
    (nothing in the repository calls \<open>setlocale\<close>): only ASCII letters fold.
  \<^item> The allocator (\<open>src/src/common/allocator.c\<close> forwards to the vendored mimalloc):
    the outcomes of the allocations still to come, a stream of booleans that each
    allocation consumes one element of. Every failing allocation of the code is
    therefore a branch of the model; which branch is taken is not constrained.
  \<^item> Results of fallible code: a sum with the Windows error code on the left, threaded
    with the state by \<open>res_bind\<close>.
\<close>

named_theorems path_simps "evaluation of the path helpers"
named_theorems inv_intros "preservation of the components' invariants"

subsection \<open>Wide strings\<close>

type_synonym wchar = "16 word"
type_synonym wstr = "wchar list"

text \<open>\<open>L ''abc''\<close> is the C literal \<open>L"abc"\<close>.\<close>

definition L :: "string \<Rightarrow> wstr" where
  "L s = map of_char s"

definition wat :: "wstr \<Rightarrow> nat \<Rightarrow> wchar" where
  "wat s i = (if i < length s then s ! i else 0)"

text \<open>A list is the content of a C string when it holds no terminator.\<close>

definition cstr :: "wstr \<Rightarrow> bool" where
  "cstr s \<longleftrightarrow> 0 \<notin> set s"

abbreviation BSLASH :: wchar where "BSLASH \<equiv> 92"
abbreviation SLASH :: wchar where "SLASH \<equiv> 47"
abbreviation COLON :: wchar where "COLON \<equiv> 58"
abbreviation DOT :: wchar where "DOT \<equiv> 46"
abbreviation QMARK :: wchar where "QMARK \<equiv> 63"

lemma L_Nil [simp]: "L [] = []"
  by (simp add: L_def)

lemma L_Cons [simp]: "L (c # s) = of_char c # L s"
  by (simp add: L_def)

lemma length_L [simp]: "length (L s) = length s"
  by (simp add: L_def)

lemma wat_Nil [simp]: "wat [] i = 0"
  by (simp add: wat_def)

lemma wat_Cons_0 [simp]: "wat (c # s) 0 = c"
  by (simp add: wat_def)

lemma wat_Cons_Suc [simp]: "wat (c # s) (Suc i) = wat s i"
  by (simp add: wat_def)

lemma wat_Cons_numeral [simp]: "wat (c # s) (numeral k) = wat s (numeral k - 1)"
  by (simp add: wat_def nth_Cons')

lemma wat_drop: "wat (drop n s) i = wat s (n + i)"
  by (auto simp: wat_def)

lemma cstr_Nil [simp]: "cstr []"
  by (simp add: cstr_def)

lemma cstr_Cons [simp]: "cstr (c # s) \<longleftrightarrow> c \<noteq> 0 \<and> cstr s"
  by (auto simp: cstr_def)

lemma cstr_append [simp]: "cstr (s @ t) \<longleftrightarrow> cstr s \<and> cstr t"
  by (auto simp: cstr_def)

subsection \<open>Byte strings\<close>

type_synonym bytes = "8 word list"

text \<open>\<open>B ''abc''\<close> is the C literal \<open>"abc"\<close>.\<close>

definition B :: "string \<Rightarrow> bytes" where
  "B s = map of_char s"

lemma B_Nil [simp]: "B [] = []"
  by (simp add: B_def)

lemma B_Cons [simp]: "B (c # s) = of_char c # B s"
  by (simp add: B_def)

definition bat :: "bytes \<Rightarrow> nat \<Rightarrow> 8 word" where
  "bat s i = (if i < length s then s ! i else 0)"

subsection \<open>Case folding of the C locale\<close>

definition towlower :: "wchar \<Rightarrow> wchar" where
  "towlower c = (if 65 \<le> c \<and> c \<le> 90 then c + 32 else c)"

text \<open>
  \<open>wcsnicmp_eq a b n\<close> is \<open>_wcsnicmp(a, b, n) == 0\<close> and \<open>wcsicmp_eq a b\<close> is
  \<open>_wcsicmp(a, b) == 0\<close>: both compare folded characters up to the first difference,
  the end of a string, or (for the first) \<open>n\<close> characters.
\<close>

definition wcsicmp_eq :: "wstr \<Rightarrow> wstr \<Rightarrow> bool" where
  "wcsicmp_eq a b \<longleftrightarrow> map towlower a = map towlower b"

definition wcsnicmp_eq :: "wstr \<Rightarrow> wstr \<Rightarrow> nat \<Rightarrow> bool" where
  "wcsnicmp_eq a b n \<longleftrightarrow> wcsicmp_eq (take n a) (take n b)"

lemma towlower_idem [simp]: "towlower (towlower c) = towlower c"
proof (cases "65 \<le> c \<and> c \<le> 90")
  case True
  then have "unat c + 32 < 2 ^ 16" by (simp add: word_le_nat_alt)
  then have "unat (c + 32) = unat c + 32" by (simp add: unat_word_ariths)
  with True have "\<not> c + 32 \<le> 90" by (simp add: word_le_nat_alt)
  with True show ?thesis by (simp add: towlower_def)
qed (auto simp: towlower_def)

text \<open>Folding neither makes nor hides a character outside the letters.\<close>

lemma towlower_fix:
  assumes "\<not> (97 \<le> k \<and> k \<le> 122)" and "\<not> (65 \<le> k \<and> k \<le> 90)"
  shows "towlower c = k \<longleftrightarrow> c = k"
proof (cases "65 \<le> c \<and> c \<le> 90")
  case True
  then have "unat c + 32 < 2 ^ 16" by (simp add: word_le_nat_alt)
  then have "unat (c + 32) = unat c + 32" by (simp add: unat_word_ariths)
  with True have "97 \<le> c + 32 \<and> c + 32 \<le> 122" by (simp add: word_le_nat_alt)
  with True assms show ?thesis by (auto simp: towlower_def)
qed (use assms in \<open>auto simp: towlower_def\<close>)

lemma towlower_special [simp]:
  "towlower c = 0 \<longleftrightarrow> c = 0"
  "towlower c = BSLASH \<longleftrightarrow> c = BSLASH"
  "towlower c = SLASH \<longleftrightarrow> c = SLASH"
  "towlower c = COLON \<longleftrightarrow> c = COLON"
  "towlower c = DOT \<longleftrightarrow> c = DOT"
  by (simp_all add: towlower_fix)

lemma towlower_const [simp]:
  "towlower 0 = 0" "towlower BSLASH = BSLASH" "towlower SLASH = SLASH"
  "towlower COLON = COLON" "towlower DOT = DOT"
  by simp_all

lemma wcsicmp_eq_refl [simp]: "wcsicmp_eq a a"
  by (simp add: wcsicmp_eq_def)

lemma wcsicmp_eq_length: "wcsicmp_eq a b \<Longrightarrow> length a = length b"
  unfolding wcsicmp_eq_def by (metis length_map)

subsection \<open>The allocator\<close>

type_synonym heap = "nat \<Rightarrow> bool"

text \<open>One allocation: its outcome and the outcomes after it.\<close>

definition ml_mem_alloc :: "heap \<Rightarrow> bool \<times> heap" where
  "ml_mem_alloc h = (h 0, \<lambda>n. h (Suc n))"

definition heap_ok :: "heap \<Rightarrow> bool" where
  "heap_ok h \<longleftrightarrow> (\<forall>n. h n)"

lemma ml_mem_alloc_ok [simp]: "heap_ok h \<Longrightarrow> ml_mem_alloc h = (True, h)"
  by (auto simp: heap_ok_def ml_mem_alloc_def)

lemma heap_ok_const [simp]: "heap_ok (\<lambda>_. True)"
  by (simp add: heap_ok_def)

subsection \<open>Results\<close>

text \<open>The Windows error codes the modelled code sets.\<close>

datatype win_error =
    ERROR_INVALID_PARAMETER
  | ERROR_NOT_ENOUGH_MEMORY
  | ERROR_FILENAME_EXCED_RANGE
  | ERROR_BAD_PATHNAME
  | ERROR_PATH_NOT_FOUND
  | ERROR_NOT_SUPPORTED
  | ERROR_NEGATIVE_SEEK
  | ERROR_INVALID_DATA
  | ERROR_READ_FAULT
  | ERROR_WRITE_FAULT
  | ERROR_CRC
  | ERROR_OS nat  \<comment> \<open>a code set by a system call\<close>

definition res_bind ::
  "('e + 'a) \<times> 's \<Rightarrow> ('a \<Rightarrow> 's \<Rightarrow> ('e + 'b) \<times> 's) \<Rightarrow> ('e + 'b) \<times> 's" where
  "res_bind m f = (case m of (Inl e, s) \<Rightarrow> (Inl e, s) | (Inr x, s) \<Rightarrow> f x s)"

lemma res_bind_Inl [simp]: "res_bind (Inl e, s) f = (Inl e, s)"
  by (simp add: res_bind_def)

lemma res_bind_Inr [simp]: "res_bind (Inr x, s) f = f x s"
  by (simp add: res_bind_def)

lemma res_bind_InrE:
  assumes "res_bind m f = (Inr y, t)"
  obtains x s where "m = (Inr x, s)" "f x s = (Inr y, t)"
  using assms by (auto simp: res_bind_def split: prod.splits sum.splits)

subsection \<open>Lists\<close>

text \<open>The first index that satisfies a predicate, as a C search loop finds it.\<close>

fun find_index :: "('a \<Rightarrow> bool) \<Rightarrow> 'a list \<Rightarrow> nat option" where
  "find_index P [] = None"
| "find_index P (x # xs) = (if P x then Some 0 else map_option Suc (find_index P xs))"

lemma find_index_None [simp]: "find_index P xs = None \<longleftrightarrow> (\<forall>x\<in>set xs. \<not> P x)"
  by (induction xs) auto

lemma find_index_Some:
  "find_index P xs = Some i \<longleftrightarrow> i < length xs \<and> P (xs ! i) \<and> (\<forall>j<i. \<not> P (xs ! j))"
proof (induction xs arbitrary: i)
  case (Cons x xs)
  show ?case
    by (cases i) (use Cons.IH in \<open>auto simp: All_less_Suc2\<close>)
qed simp

lemma find_index_cong: "(\<And>x. x \<in> set xs \<Longrightarrow> P x = Q x) \<Longrightarrow> find_index P xs = find_index Q xs"
  by (induction xs) auto

lemma find_find_index: "find P xs = map_option (\<lambda>i. xs ! i) (find_index P xs)"
  by (induction xs) (auto simp: option.map_comp comp_def)

lemma takeWhile_neq_map:
  "(\<And>x. P (f x) = P x) \<Longrightarrow> takeWhile P (map f xs) = map f (takeWhile P xs)"
  by (induction xs) auto

lemma dropWhile_neq_map:
  "(\<And>x. P (f x) = P x) \<Longrightarrow> dropWhile P (map f xs) = map f (dropWhile P xs)"
  by (induction xs) auto

end
