(* ===== verification/KHash.thy ===== *)
theory KHash
  imports Prelude "HOL-Library.AList"
begin

text \<open>
  The hash tables of the loader (the vendored \<open>khash.h\<close> instantiated at wide strings in
  \<open>src/src/common/khash_wstr.h\<close>). The tables' clients rely on the laws of the locale
  \<open>table\<close>: what a lookup returns after an insertion or a deletion, and that iteration
  meets exactly the stored keys. The model of a table is an association list with distinct
  keys, on which the locale is interpreted; its order stands for the bucket order, which no
  client depends on. The hash function itself is \<open>kh_wstr_hash_func\<close>.

  The tables are used as caches: \<open>coherent\<close> says that every stored value is the one
  a reference function computes, and the lemmas of the locale show that the code's
  "insert what was computed" and "clear" keep it.
\<close>

subsection \<open>The interface\<close>

locale table =
  fixes empty :: "'t"
    and get :: "'t \<Rightarrow> 'k \<Rightarrow> 'v option"
    and put :: "'k \<Rightarrow> 'v \<Rightarrow> 't \<Rightarrow> 't"
    and del :: "'k \<Rightarrow> 't \<Rightarrow> 't"
    and keys :: "'t \<Rightarrow> 'k list"
    and invar :: "'t \<Rightarrow> bool"
  assumes invar_empty: "invar empty"
    and invar_put: "invar t \<Longrightarrow> invar (put k v t)"
    and invar_del: "invar t \<Longrightarrow> invar (del k t)"
    and get_empty: "get empty k = None"
    and get_put: "get (put k v t) k' = (if k' = k then Some v else get t k')"
    and get_del: "get (del k t) k' = (if k' = k then None else get t k')"
    and keys_get: "k \<in> set (keys t) \<longleftrightarrow> get t k \<noteq> None"
    and keys_distinct: "invar t \<Longrightarrow> distinct (keys t)"
begin

lemma get_put_same: "get (put k v t) k = Some v"
  by (simp add: get_put)

lemma del_put_get: "get t k = None \<Longrightarrow> get (del k (put k v t)) k' = get t k'"
  by (auto simp: get_put get_del)

lemma coherent_empty: "\<forall>k v. get empty k = Some v \<longrightarrow> v = f k"
  by (simp add: get_empty)

lemma coherent_put:
  assumes "\<forall>k v. get t k = Some v \<longrightarrow> v = f k"
  shows "\<forall>k' v. get (put k (f k) t) k' = Some v \<longrightarrow> v = f k'"
  using assms by (simp add: get_put)

lemma coherent_put_eq:
  assumes "\<forall>k v. get t k = Some v \<longrightarrow> v = f k" and "w = f k"
  shows "\<forall>k' v. get (put k w t) k' = Some v \<longrightarrow> v = f k'"
  using coherent_put [OF assms(1)] assms(2) by simp

lemma size_put: "invar t \<Longrightarrow> length (keys (put k v t)) =
    (if get t k = None then Suc (length (keys t)) else length (keys t))"
proof -
  assume inv: "invar t"
  then have d: "distinct (keys t)" "distinct (keys (put k v t))"
    by (simp_all add: keys_distinct invar_put)
  have s: "set (keys (put k v t)) = insert k (set (keys t))"
    by (auto simp: keys_get get_put split: if_splits)
  have "length (keys (put k v t)) = card (insert k (set (keys t)))"
    using d(2) s by (metis distinct_card)
  also have "\<dots> = (if k \<in> set (keys t) then length (keys t) else Suc (length (keys t)))"
    using d(1) by (simp add: distinct_card card_insert_if)
  finally show ?thesis by (auto simp: keys_get)
qed

lemma size_del: "invar t \<Longrightarrow> get t k \<noteq> None \<Longrightarrow> length (keys (del k t)) = length (keys t) - 1"
proof -
  assume inv: "invar t" and k: "get t k \<noteq> None"
  from inv have d: "distinct (keys t)" "distinct (keys (del k t))"
    by (simp_all add: keys_distinct invar_del)
  have s: "set (keys (del k t)) = set (keys t) - {k}"
    by (auto simp: keys_get get_del split: if_splits)
  have "length (keys (del k t)) = card (set (keys t) - {k})"
    using d(2) s by (metis distinct_card)
  also have "\<dots> = length (keys t) - 1"
    using d(1) k by (simp add: distinct_card keys_get)
  finally show ?thesis .
qed

end

subsection \<open>Tables as association lists\<close>

type_synonym ('k, 'v) khash = "('k \<times> 'v) list"

definition kh_init :: "('k, 'v) khash" where
  "kh_init = []"

definition kh_get :: "('k, 'v) khash \<Rightarrow> 'k \<Rightarrow> 'v option" where
  "kh_get t k = map_of t k"

text \<open>Storing a value in the slot that \<open>kh_put\<close> found or made for a key.\<close>

definition kh_set :: "'k \<Rightarrow> 'v \<Rightarrow> ('k, 'v) khash \<Rightarrow> ('k, 'v) khash" where
  "kh_set k v t = AList.update k v t"

definition kh_del :: "'k \<Rightarrow> ('k, 'v) khash \<Rightarrow> ('k, 'v) khash" where
  "kh_del k t = AList.delete k t"

definition kh_keys :: "('k, 'v) khash \<Rightarrow> 'k list" where
  "kh_keys t = map fst t"

definition kh_size :: "('k, 'v) khash \<Rightarrow> nat" where
  "kh_size t = length (kh_keys t)"

definition kh_distinct :: "('k, 'v) khash \<Rightarrow> bool" where
  "kh_distinct t \<longleftrightarrow> distinct (kh_keys t)"

interpretation kh: table kh_init kh_get kh_set kh_del kh_keys kh_distinct
proof unfold_locales
  fix t :: "('k, 'v) khash" and k k' :: 'k and v :: 'v
  show "kh_distinct (kh_init :: ('k, 'v) khash)"
    by (simp add: kh_distinct_def kh_init_def kh_keys_def)
  show "kh_distinct t \<Longrightarrow> kh_distinct (kh_set k v t)"
    by (simp add: kh_distinct_def kh_keys_def kh_set_def distinct_update)
  show "kh_distinct t \<Longrightarrow> kh_distinct (kh_del k t)"
    by (simp add: kh_distinct_def kh_keys_def kh_del_def distinct_delete)
  show "kh_get (kh_init :: ('k, 'v) khash) k = None"
    by (simp add: kh_get_def kh_init_def)
  show "kh_get (kh_set k v t) k' = (if k' = k then Some v else kh_get t k')"
    by (simp add: kh_get_def kh_set_def update_conv')
  show "kh_get (kh_del k t) k' = (if k' = k then None else kh_get t k')"
    by (simp add: kh_get_def kh_del_def delete_conv')
  show "(k \<in> set (kh_keys t)) = (kh_get t k \<noteq> None)"
    by (simp add: kh_keys_def kh_get_def map_of_eq_None_iff)
  show "kh_distinct t \<Longrightarrow> distinct (kh_keys t)"
    by (simp add: kh_distinct_def)
qed

lemmas kh_simps = kh.get_empty kh.get_put kh.get_del
lemmas kh_invars = kh.invar_empty kh.invar_put kh.invar_del

declare kh_invars [inv_intros]

subsection \<open>The hash function\<close>

text \<open>FNV-1a over the UTF-16LE bytes, in 32-bit arithmetic.\<close>

definition fnv_step :: "32 word \<Rightarrow> 32 word \<Rightarrow> 32 word" where
  "fnv_step h b = (xor h b) * 16777619"

fun kh_wstr_hash_loop :: "32 word \<Rightarrow> wstr \<Rightarrow> 32 word" where
  "kh_wstr_hash_loop h [] = h"
| "kh_wstr_hash_loop h (c # s) =
     kh_wstr_hash_loop (fnv_step (fnv_step h (and (ucast c) 255)) (drop_bit 8 (ucast c))) s"

definition kh_wstr_hash_func :: "wstr \<Rightarrow> 32 word" where
  "kh_wstr_hash_func s = kh_wstr_hash_loop 2166136261 s"

definition kh_wstr_hash_equal :: "wstr \<Rightarrow> wstr \<Rightarrow> bool" where
  "kh_wstr_hash_equal a b \<longleftrightarrow> a = b"

text \<open>The bytes of a wide string in memory order, and the textbook FNV-1a over bytes.\<close>

fun utf16le_bytes :: "wstr \<Rightarrow> 8 word list" where
  "utf16le_bytes [] = []"
| "utf16le_bytes (c # s) = ucast c # ucast (drop_bit 8 c) # utf16le_bytes s"

fun fnv1a :: "32 word \<Rightarrow> 8 word list \<Rightarrow> 32 word" where
  "fnv1a h [] = h"
| "fnv1a h (b # bs) = fnv1a ((xor h (ucast b)) * 16777619) bs"

lemma ucast_low_byte: "(ucast (ucast c :: 8 word) :: 32 word) = and (ucast (c :: 16 word)) 255"
proof -
  have m: "(255 :: 32 word) = mask 8" by (simp add: mask_eq_exp_minus_1)
  show ?thesis unfolding m by (auto intro!: bit_word_eqI simp: bit_simps)
qed

lemma ucast_high_byte:
  "(ucast (ucast (drop_bit 8 c) :: 8 word) :: 32 word) = drop_bit 8 (ucast (c :: 16 word))"
  by (rule bit_word_eqI) (auto simp: bit_simps dest: bit_imp_le_length)

lemma kh_wstr_hash_loop_fnv1a: "kh_wstr_hash_loop h s = fnv1a h (utf16le_bytes s)"
  by (induction s arbitrary: h) (simp_all add: fnv_step_def flip: ucast_low_byte ucast_high_byte)

text \<open>The one-pass hash of wide strings is FNV-1a over their UTF-16LE bytes.\<close>

theorem kh_wstr_hash_is_fnv1a:
  "kh_wstr_hash_func s = fnv1a 2166136261 (utf16le_bytes s)"
  by (simp add: kh_wstr_hash_func_def kh_wstr_hash_loop_fnv1a)

end
