(* ===== verification/Paths.thy ===== *)
theory Paths
  imports KHash
begin

text \<open>
  The path helpers of \<open>src/src/common/path.h\<close>.

  A C pointer into a string is modelled by its offset (\<open>ml_path_dos_body\<close>,
  \<open>ml_path_root_length\<close>) or by the suffix it points to (\<open>ml_path_filename\<close>,
  \<open>ml_path_extension\<close>); in-place edits return the new string. Allocating helpers take
  the allocator's coming outcomes and return an error code or the new string. The system
  calls are parameters: \<open>GetFullPathNameW\<close>, \<open>GetModuleFileNameW\<close>,
  \<open>GetEnvironmentVariableW\<close> and \<open>GetFileAttributesW\<close>; where the code calls one in
  a loop, the answer may differ from call to call and the loop has fuel.
\<close>

subsection \<open>Buffers\<close>

definition ML_PATH_MAX_CCH :: nat where
  "ML_PATH_MAX_CCH = 32768"

definition MAX_PATH :: nat where
  "MAX_PATH = 260"

definition ml_path_buffer :: "nat \<Rightarrow> heap \<Rightarrow> (win_error + unit) \<times> heap" where
  "ml_path_buffer count h =
     (if count = 0 \<or> count > ML_PATH_MAX_CCH then (Inl ERROR_FILENAME_EXCED_RANGE, h)
      else case ml_mem_alloc h of
        (True, h) \<Rightarrow> (Inr (), h)
      | (False, h) \<Rightarrow> (Inl ERROR_NOT_ENOUGH_MEMORY, h))"

definition ml_path_copy_alloc :: "wstr \<Rightarrow> heap \<Rightarrow> (win_error + wstr) \<times> heap" where
  "ml_path_copy_alloc path h =
     res_bind (ml_path_buffer (length path + 1) h) (\<lambda>_ h. (Inr path, h))"

subsection \<open>Parts of a path\<close>

definition ml_path_separator :: "wchar \<Rightarrow> bool" where
  "ml_path_separator ch \<longleftrightarrow> ch = BSLASH \<or> ch = SLASH"

fun ml_path_filename_loop :: "wstr \<Rightarrow> wstr \<Rightarrow> wstr" where
  "ml_path_filename_loop [] filename = filename"
| "ml_path_filename_loop (c # path) filename =
     ml_path_filename_loop path (if ml_path_separator c then path else filename)"

definition ml_path_filename :: "wstr \<Rightarrow> wstr" where
  "ml_path_filename path = ml_path_filename_loop path path"

text \<open>\<open>wcsrchr\<close>: the suffix from the last occurrence of a character.\<close>

fun wcsrchr :: "wstr \<Rightarrow> wchar \<Rightarrow> wstr option" where
  "wcsrchr [] c = None"
| "wcsrchr (x # s) c =
     (case wcsrchr s c of Some t \<Rightarrow> Some t | None \<Rightarrow> if x = c then Some (x # s) else None)"

definition ml_path_extension :: "wstr \<Rightarrow> wstr" where
  "ml_path_extension path =
     (case wcsrchr (ml_path_filename path) DOT of None \<Rightarrow> [] | Some extension \<Rightarrow> extension)"

definition ml_path_dos_body :: "wstr \<Rightarrow> nat \<times> bool" where
  "ml_path_dos_body path =
     (if \<not> ml_path_separator (wat path 0) \<or> \<not> ml_path_separator (wat path 1) then (0, False)
      else if (wat path 2 = QMARK \<or> wat path 2 = DOT) \<and> ml_path_separator (wat path 3) then
        if wcsnicmp_eq (drop 4 path) (L ''UNC'') 3 \<and> ml_path_separator (wat path 7) then (8, True)
        else if wat path 4 \<noteq> 0 \<and> wat path 5 = COLON \<and> ml_path_separator (wat path 6) then (4, False)
        else (0, False)
      else (2, True))"

definition ml_path_normalize_input :: "wstr \<Rightarrow> wstr" where
  "ml_path_normalize_input path =
     (let path = map (\<lambda>c. if c = SLASH then BSLASH else c) path;
          (body, unc) = ml_path_dos_body path;
          offset = (if unc then 2 else 0)
      in if body \<noteq> offset then take offset path @ drop body path else path)"

definition ml_path_is_absolute :: "wstr option \<Rightarrow> bool" where
  "ml_path_is_absolute path =
     (case path of None \<Rightarrow> False
      | Some path \<Rightarrow>
          length path \<ge> 3 \<and>
          ((wat path 1 = COLON \<and> ml_path_separator (wat path 2)) \<or>
           (ml_path_separator (wat path 0) \<and> ml_path_separator (wat path 1))))"

text \<open>
  In the UNC branch the two \<open>while\<close> loops skip the server and the share name; each is the
  length of a separator-free prefix.
\<close>

definition ml_path_root_length :: "wstr \<Rightarrow> nat" where
  "ml_path_root_length path =
     (let (p, unc) = ml_path_dos_body path
      in if \<not> unc then
           (if wat path p \<noteq> 0 \<and> wat path (p + 1) = COLON \<and> ml_path_separator (wat path (p + 2))
            then p + 3 else 0)
         else
           let p = p + length (takeWhile (\<lambda>c. \<not> ml_path_separator c) (drop p path))
           in if wat path p = 0 then 0
              else let p = p + 1;
                       p = p + length (takeWhile (\<lambda>c. \<not> ml_path_separator c) (drop p path))
                   in p + (if wat path p \<noteq> 0 then 1 else 0))"

text \<open>\<open>while (length > root \<and> P(path[length - 1])) --length;\<close>\<close>

fun trim_back :: "(wchar \<Rightarrow> bool) \<Rightarrow> wstr \<Rightarrow> nat \<Rightarrow> nat \<Rightarrow> nat" where
  "trim_back P path root 0 = 0"
| "trim_back P path root (Suc n) =
     (if Suc n > root \<and> P (wat path n) then trim_back P path root n else Suc n)"

definition ml_path_remove_filename :: "wstr \<Rightarrow> wstr" where
  "ml_path_remove_filename path =
     (let root = ml_path_root_length path;
          n = trim_back (\<lambda>c. \<not> ml_path_separator c) path root (length path);
          n = trim_back ml_path_separator path root n
      in take n path)"

subsection \<open>Extended names\<close>

text \<open>The literals \<^verbatim>\<open>L"\\\\?\\"\<close> and \<^verbatim>\<open>L"\\\\?\\UNC\\"\<close>.\<close>

abbreviation EXT_PREFIX :: wstr where
  "EXT_PREFIX \<equiv> [BSLASH, BSLASH, QMARK, BSLASH]"

abbreviation EXT_UNC_PREFIX :: wstr where
  "EXT_UNC_PREFIX \<equiv> [BSLASH, BSLASH, QMARK, BSLASH, 85, 78, 67, BSLASH]"

definition ml_path_extend :: "wstr option \<Rightarrow> heap \<Rightarrow> (win_error + wstr option) \<times> heap" where
  "ml_path_extend path h =
     (case path of None \<Rightarrow> (Inr None, h)
      | Some path \<Rightarrow>
          if length path < MAX_PATH - 12 then (Inr (Some path), h)
          else if wat path 1 = COLON \<and> wat path 2 = BSLASH then
            res_bind (ml_path_buffer (4 + length path + 1) h)
              (\<lambda>_ h. (Inr (Some (EXT_PREFIX @ path)), h))
          else if wat path 0 = BSLASH \<and> wat path 1 = BSLASH \<and> wat path 2 \<noteq> QMARK \<and> wat path 2 \<noteq> DOT then
            res_bind (ml_path_buffer (8 + length path - 2 + 1) h)
              (\<lambda>_ h. (Inr (Some (EXT_UNC_PREFIX @ drop 2 path)), h))
          else (Inr (Some path), h))"

text \<open>Both callers pass a non-null path; for them the result is a string.\<close>

definition ml_path_extend_str :: "wstr \<Rightarrow> heap \<Rightarrow> (win_error + wstr) \<times> heap" where
  "ml_path_extend_str path h =
     res_bind (ml_path_extend (Some path) h)
       (\<lambda>r h. (case r of None \<Rightarrow> Inr path | Some p \<Rightarrow> Inr p, h))"

subsection \<open>Resolving a name against a directory\<close>

text \<open>
  \<open>GetFullPathNameW\<close> as the code calls it: the \<open>k\<close>-th call for a name yields an error
  code or the full name, whose length decides what the call returns (the length, or the
  needed capacity when the buffer is too small).
\<close>

type_synonym full_path_api = "nat \<Rightarrow> wstr \<Rightarrow> nat + wstr"

definition GetFullPathNameW :: "full_path_api \<Rightarrow> nat \<Rightarrow> wstr \<Rightarrow> nat \<Rightarrow> nat" where
  "GetFullPathNameW fpn k path capacity =
     (case fpn k path of Inl e \<Rightarrow> 0
      | Inr s \<Rightarrow> if length s < capacity then length s else length s + 1)"

text \<open>
  The loop from \<open>while (capacity != 0)\<close> on; \<open>k\<close> counts the calls. \<open>None\<close> is running out
  of fuel, which needs a full name that grows in every round.
\<close>

fun resolve_loop ::
  "nat \<Rightarrow> full_path_api \<Rightarrow> nat \<Rightarrow> wstr \<Rightarrow> nat \<Rightarrow> heap \<Rightarrow> (win_error + wstr) option \<times> heap" where
  "resolve_loop 0 fpn k joined capacity h = (None, h)"
| "resolve_loop (Suc fuel) fpn k joined capacity h =
     (case ml_path_buffer capacity h of
        (Inl e, h) \<Rightarrow> (Some (Inl e), h)
      | (Inr _, h) \<Rightarrow>
          (case fpn k joined of
             Inl e \<Rightarrow> (Some (Inl (ERROR_OS e)), h)
           | Inr full \<Rightarrow>
               if length full = 0 then (Some (Inl (ERROR_OS 0)), h)
               else if length full < capacity then
                 (case ml_path_extend_str full h of (r, h) \<Rightarrow> (Some r, h))
               else resolve_loop fuel fpn (Suc k) joined (length full + 1) h))"

text \<open>
  The part of \<open>ml_path_resolve_alloc\<close> that joins \<open>requested\<close> to \<open>base\<close>: the
  directory without trailing backslashes, or nothing, and the name to put after it.
\<close>

definition resolve_directory ::
  "wstr option \<Rightarrow> wstr \<Rightarrow> heap \<Rightarrow> (win_error + (wstr \<times> wstr)) \<times> heap" where
  "resolve_directory base name h =
     (case base of
        Some base \<Rightarrow>
          if \<not> ml_path_is_absolute (Some name) then
            res_bind (ml_path_copy_alloc base h) (\<lambda>directory h.
              let directory = ml_path_normalize_input directory in
              if \<not> ml_path_is_absolute (Some directory) then (Inl ERROR_BAD_PATHNAME, h)
              else
                let base_length = (if wat name 0 = BSLASH then ml_path_root_length directory
                                   else length directory)
                in if base_length = 0 then (Inl ERROR_BAD_PATHNAME, h)
                   else let base_length = trim_back (\<lambda>c. c = BSLASH) directory 0 base_length
                        in (Inr (take base_length directory,
                                 if wat name 0 = BSLASH then drop 1 name else name), h))
          else (Inr ([], name), h)
      | None \<Rightarrow> (Inr ([], name), h))"

text \<open>The joined string; \<open>base_length\<close> 0 means no directory.\<close>

definition resolve_join :: "wstr \<Rightarrow> wstr \<Rightarrow> wstr" where
  "resolve_join directory name = (if directory \<noteq> [] then directory @ [BSLASH] @ name else name)"

definition drive_relative :: "wstr \<Rightarrow> bool" where
  "drive_relative name \<longleftrightarrow>
     length name \<ge> 2 \<and> wat name 1 = COLON \<and> (length name < 3 \<or> wat name 2 \<noteq> BSLASH)"

definition ml_path_resolve_alloc ::
  "nat \<Rightarrow> full_path_api \<Rightarrow> wstr option \<Rightarrow> wstr option \<Rightarrow> heap \<Rightarrow> (win_error + wstr) option \<times> heap" where
  "ml_path_resolve_alloc fuel fpn base requested h =
     (let requested = (case requested of None \<Rightarrow> base | Some r \<Rightarrow> if r = [] then base else Some r)
      in case requested of
           None \<Rightarrow> (Some (Inl ERROR_INVALID_PARAMETER), h)
         | Some requested \<Rightarrow>
             if requested = [] then (Some (Inl ERROR_INVALID_PARAMETER), h)
             else case
               res_bind (ml_path_copy_alloc requested h) (\<lambda>name h.
                 let name = ml_path_normalize_input name in
                 if drive_relative name then (Inl ERROR_BAD_PATHNAME, h)
                 else res_bind (resolve_directory base name h) (\<lambda>(directory, name) h.
                   res_bind (ml_path_buffer
                       (length directory + length name + (if directory \<noteq> [] then 2 else 1)) h)
                     (\<lambda>_ h. (Inr (resolve_join directory name), h))))
             of
               (Inl e, h) \<Rightarrow> (Some (Inl e), h)
             | (Inr joined, h) \<Rightarrow>
                 (case fpn 0 joined of
                    Inl e \<Rightarrow> (Some (Inl (ERROR_OS e)), h)
                  | Inr full \<Rightarrow>
                      resolve_loop fuel fpn 1 joined (GetFullPathNameW fpn 0 joined 0) h))"

subsection \<open>The other path queries\<close>

definition ml_path_plain_alloc :: "wstr \<Rightarrow> nat \<Rightarrow> heap \<Rightarrow> (win_error + wstr) \<times> heap" where
  "ml_path_plain_alloc path limit h =
     res_bind (ml_path_copy_alloc path h) (\<lambda>plain h.
       let plain = ml_path_normalize_input plain in
       if length plain < limit then (Inr plain, h) else ml_path_copy_alloc path h)"

text \<open>
  \<open>GetModuleFileNameW\<close> truncates and returns the capacity when the name does not fit, so the
  buffer doubles until it does.
\<close>

function module_filename_loop :: "nat + wstr \<Rightarrow> nat \<Rightarrow> heap \<Rightarrow> (win_error + wstr) \<times> heap" where
  "module_filename_loop module capacity h =
     (if capacity \<le> ML_PATH_MAX_CCH then
        (case ml_path_buffer capacity h of
           (Inl e, h) \<Rightarrow> (Inl e, h)
         | (Inr _, h) \<Rightarrow>
             (case module of
                Inl e \<Rightarrow> (Inl (ERROR_OS e), h)
              | Inr name \<Rightarrow>
                  if length name = 0 then (Inl (ERROR_OS 0), h)
                  else if length name < capacity then (Inr name, h)
                  else module_filename_loop module (capacity * 2) h))
      else (Inl ERROR_FILENAME_EXCED_RANGE, h))"
  by pat_completeness auto
termination
  by (relation "measure (\<lambda>(m, capacity, h). Suc ML_PATH_MAX_CCH - capacity)")
    (auto simp: ml_path_buffer_def ML_PATH_MAX_CCH_def split: if_splits prod.splits bool.splits)

declare module_filename_loop.simps [simp del]

definition ml_path_module_filename_alloc :: "nat + wstr \<Rightarrow> heap \<Rightarrow> (win_error + wstr) \<times> heap" where
  "ml_path_module_filename_alloc module h = module_filename_loop module 256 h"

text \<open>
  \<open>env k\<close> is the value of the variable at the \<open>k\<close>-th call, an error code when it is unset.
  \<open>Some None\<close> is the null result, which an unset or empty variable gives.
\<close>

fun environment_loop ::
  "nat \<Rightarrow> (nat \<Rightarrow> nat + wstr) \<Rightarrow> nat \<Rightarrow> nat \<Rightarrow> heap \<Rightarrow> wstr option option \<times> heap" where
  "environment_loop 0 env k capacity h = (None, h)"
| "environment_loop (Suc fuel) env k capacity h =
     (if capacity > 1 then
        (case ml_path_buffer capacity h of
           (Inl e, h) \<Rightarrow> (Some None, h)
         | (Inr _, h) \<Rightarrow>
             (case env k of
                Inl e \<Rightarrow> (Some None, h)
              | Inr value \<Rightarrow>
                  if length value = 0 then (Some None, h)
                  else if length value < capacity then (Some (Some value), h)
                  else environment_loop fuel env (Suc k) (length value + 1) h))
      else (Some None, h))"

definition ml_path_environment_alloc ::
  "nat \<Rightarrow> (nat \<Rightarrow> nat + wstr) \<Rightarrow> heap \<Rightarrow> wstr option option \<times> heap" where
  "ml_path_environment_alloc fuel env h =
     environment_loop fuel env 1 (case env 0 of Inl e \<Rightarrow> 0 | Inr value \<Rightarrow> length value + 1) h"

record file_attributes =
  attr_directory :: bool
  attr_reparse :: bool

text \<open>\<open>GetFileAttributesW\<close>: \<open>None\<close> is \<open>INVALID_FILE_ATTRIBUTES\<close>.\<close>

type_synonym attributes_api = "wstr \<Rightarrow> file_attributes option"

definition ml_path_is_directory :: "attributes_api \<Rightarrow> wstr \<Rightarrow> bool" where
  "ml_path_is_directory attrs path =
     (case attrs path of None \<Rightarrow> False | Some a \<Rightarrow> attr_directory a)"

subsection \<open>Lemmas\<close>

lemma ml_path_separator_simps [path_simps, simp]:
  "ml_path_separator BSLASH" "ml_path_separator SLASH" "\<not> ml_path_separator 0"
  "\<not> ml_path_separator COLON" "\<not> ml_path_separator QMARK" "\<not> ml_path_separator DOT"
  by (simp_all add: ml_path_separator_def)

lemma ml_path_buffer_Inr: "ml_path_buffer n h = (Inr u, h') \<Longrightarrow> 0 < n \<and> n \<le> ML_PATH_MAX_CCH"
  by (auto simp: ml_path_buffer_def split: if_splits)

lemma ml_path_buffer_ok:
  "heap_ok h \<Longrightarrow> ml_path_buffer n h =
     (if n = 0 \<or> n > ML_PATH_MAX_CCH then (Inl ERROR_FILENAME_EXCED_RANGE, h) else (Inr (), h))"
  by (simp add: ml_path_buffer_def)

lemma ml_path_dos_body_le: "fst (ml_path_dos_body path) \<le> length path"
proof -
  have "i < length path" if "wat path i \<noteq> 0" for i
    using that by (simp add: wat_def split: if_splits)
  then have "ml_path_separator (wat path i) \<Longrightarrow> i < length path" for i
    by (metis ml_path_separator_simps(3))
  then show ?thesis
    by (auto simp: ml_path_dos_body_def Suc_le_eq numeral_eq_Suc)
qed

lemma ml_path_root_length_le: "ml_path_root_length path \<le> length path"
proof -
  obtain p unc where body: "ml_path_dos_body path = (p, unc)" by fastforce
  then have p: "p \<le> length path" using ml_path_dos_body_le [of path] by simp
  have tk: "q + length (takeWhile P (drop q path)) \<le> length path" if "q \<le> length path" for q P
    using that length_takeWhile_le [of P "drop q path"] by simp
  show ?thesis
  proof (cases unc)
    case True
    let ?q = "p + length (takeWhile (\<lambda>c. \<not> ml_path_separator c) (drop p path))"
    have q: "?q \<le> length path" using tk p by blast
    show ?thesis
    proof (cases "wat path ?q = 0")
      case False
      then have q1: "?q + 1 \<le> length path" using q by (simp add: wat_def split: if_splits)
      then have "?q + 1 + length (takeWhile (\<lambda>c. \<not> ml_path_separator c) (drop (?q + 1) path))
                 \<le> length path" by (rule tk)
      then show ?thesis
        using True body False by (auto simp: ml_path_root_length_def Let_def wat_def)
    qed (use True body in \<open>simp add: ml_path_root_length_def\<close>)
  next
    case False
    have "p + 3 \<le> length path" if "ml_path_separator (wat path (p + 2))"
      using that by (cases "p + 2 < length path") (auto simp: wat_def)
    with False body show ?thesis by (simp add: ml_path_root_length_def)
  qed
qed

lemma trim_back_le: "trim_back P path root n \<le> n"
  by (induction n) (auto simp: le_SucI)

lemma trim_back_ge: "root \<le> n \<Longrightarrow> root \<le> trim_back P path root n"
  by (induction n) (auto simp: le_Suc_eq)

lemma trim_back_range:
  "trim_back P path root n \<le> i \<Longrightarrow> i < n \<Longrightarrow> P (wat path i)"
  by (induction n) (auto simp: less_Suc_eq split: if_splits)

lemma trim_back_stop:
  "root \<le> n \<Longrightarrow> trim_back P path root n = root \<or>
     (trim_back P path root n > 0 \<and> \<not> P (wat path (trim_back P path root n - 1)))"
  by (induction n) (auto simp: le_Suc_eq)

lemma trim_back_Suc_stop:
  "s \<noteq> [] \<Longrightarrow> \<not> P (last s) \<Longrightarrow> trim_back P s 0 (length s) = length s"
  by (cases s rule: rev_cases) (auto simp: wat_def)

text \<open>The slice of a string between two offsets.\<close>

lemma split_at_two:
  assumes "a \<le> b" and "b \<le> length s"
  shows "s = take a s @ take (b - a) (drop a s) @ drop b s"
  using assms by (metis append_take_drop_id drop_drop le_add_diff_inverse2)

lemma in_slice: "c \<in> set (take (b - a) (drop a s)) \<Longrightarrow> \<exists>i. a \<le> i \<and> i < b \<and> i < length s \<and> wat s i = c"
proof -
  assume "c \<in> set (take (b - a) (drop a s))"
  then obtain j where "j < b - a" "a + j < length s" "c = s ! (a + j)"
    by (auto simp: in_set_conv_nth)
  then show ?thesis by (intro exI [of _ "a + j"]) (simp add: wat_def)
qed

lemma last_take_wat: "0 < m \<Longrightarrow> m \<le> length s \<Longrightarrow> last (take m s) = wat s (m - 1)"
  by (subst last_conv_nth) (auto simp: wat_def)

text \<open>
  Removing the file name cuts a path into a directory, the separators after it and a
  separator-free name, and it never cuts into the root: the directory is the root itself or
  does not end in a separator.
\<close>

theorem ml_path_remove_filename_split:
  "\<exists>seps name. path = ml_path_remove_filename path @ seps @ name
     \<and> (\<forall>c\<in>set seps. ml_path_separator c)
     \<and> (\<forall>c\<in>set name. \<not> ml_path_separator c)
     \<and> ml_path_root_length path \<le> length (ml_path_remove_filename path)
     \<and> (length (ml_path_remove_filename path) = ml_path_root_length path
        \<or> \<not> ml_path_separator (last (ml_path_remove_filename path)))"
proof -
  let ?root = "ml_path_root_length path"
  let ?n = "trim_back (\<lambda>c. \<not> ml_path_separator c) path ?root (length path)"
  let ?m = "trim_back ml_path_separator path ?root ?n"
  have root: "?root \<le> length path" by (rule ml_path_root_length_le)
  then have n: "?root \<le> ?n" "?n \<le> length path" by (rule trim_back_ge, simp add: trim_back_le)
  then have m: "?root \<le> ?m" "?m \<le> ?n" by (simp_all add: trim_back_ge trim_back_le)
  have r: "ml_path_remove_filename path = take ?m path"
    by (simp add: ml_path_remove_filename_def Let_def)
  let ?seps = "take (?n - ?m) (drop ?m path)" and ?name = "drop ?n path"
  have split: "path = take ?m path @ ?seps @ ?name"
    using m(2) n(2) by (rule split_at_two)
  have seps: "ml_path_separator c" if "c \<in> set ?seps" for c
    using in_slice [OF that] trim_back_range [of ml_path_separator path ?root ?n] by blast
  have name: "\<not> ml_path_separator c" if "c \<in> set ?name" for c
  proof -
    have "?name = take (length path - ?n) (drop ?n path)" by simp
    with that obtain i where "?n \<le> i" "i < length path" "wat path i = c"
      using in_slice [of c "length path" ?n path] by auto
    then show ?thesis
      using trim_back_range [of "\<lambda>c. \<not> ml_path_separator c" path ?root "length path" i] by auto
  qed
  have len: "length (take ?m path) = ?m" using m(2) n(2) by simp
  have stop: "?m = ?root \<or> \<not> ml_path_separator (last (take ?m path))"
    using trim_back_stop [OF n(1), of ml_path_separator path] last_take_wat [of ?m path] m(2) n(2)
    by fastforce
  show ?thesis unfolding r using split seps name m(1) stop len by metis
qed

theorem ml_path_remove_filename_split_witness:
  "\<exists>seps name. [67, COLON, BSLASH, 97, BSLASH, 98] = [67, COLON, BSLASH, 97] @ seps @ name
     \<and> (\<forall>c\<in>set seps. ml_path_separator c) \<and> (\<forall>c\<in>set name. \<not> ml_path_separator c)"
proof -
  have r: "ml_path_remove_filename [67, COLON, BSLASH, 97, BSLASH, 98] = [67, COLON, BSLASH, 97]"
    by code_simp
  show ?thesis
    using ml_path_remove_filename_split [of "[67, COLON, BSLASH, 97, BSLASH, 98]"] unfolding r by blast
qed

text \<open>
  The two spellings that \<open>GetFullPathNameW\<close> gives a disk path: a drive name and an UNC
  name, both with backslashes only.
\<close>

definition drive_path :: "wstr \<Rightarrow> bool" where
  "drive_path path \<longleftrightarrow>
     SLASH \<notin> set path \<and> wat path 0 \<noteq> 0 \<and> wat path 1 = COLON \<and> wat path 2 = BSLASH"

definition unc_path :: "wstr \<Rightarrow> bool" where
  "unc_path path \<longleftrightarrow>
     SLASH \<notin> set path \<and> wat path 0 = BSLASH \<and> wat path 1 = BSLASH \<and>
     wat path 2 \<noteq> QMARK \<and> wat path 2 \<noteq> DOT"

lemma map_slash_id: "SLASH \<notin> set path \<Longrightarrow> map (\<lambda>c. if c = SLASH then BSLASH else c) path = path"
  by (rule map_idI) auto

lemma wat_split2: "wat p 1 \<noteq> 0 \<Longrightarrow> \<exists>a b q. p = a # b # q"
  by (cases p; cases "tl p") (auto simp: wat_def)

lemma wat_split3: "wat p 2 \<noteq> 0 \<Longrightarrow> \<exists>a b c q. p = a # b # c # q"
  by (cases p; cases "tl p"; cases "tl (tl p)") (auto simp: wat_def)

lemma not_unc_prefix: "wat p 1 = COLON \<Longrightarrow> \<not> wcsnicmp_eq p (L ''UNC'') 3"
proof -
  assume "wat p 1 = COLON"
  moreover from this obtain a b q where "p = a # b # q" using wat_split2 [of p] by auto
  ultimately show ?thesis by (simp add: wcsnicmp_eq_def wcsicmp_eq_def towlower_def)
qed

lemma normalize_input_drive:
  assumes "drive_path p"
  shows "ml_path_normalize_input p = p" and "ml_path_normalize_input (EXT_PREFIX @ p) = p"
proof -
  from assms have c: "wat p 1 = COLON" "wat p 2 = BSLASH" "wat p 0 \<noteq> 0" "SLASH \<notin> set p"
    by (simp_all add: drive_path_def)
  show "ml_path_normalize_input p = p"
    using c by (simp add: ml_path_normalize_input_def map_slash_id ml_path_dos_body_def)
  obtain a b d q where p: "p = a # b # d # q" using wat_split3 [of p] c(2) by auto
  show "ml_path_normalize_input (EXT_PREFIX @ p) = p"
    using c p not_unc_prefix [of p]
    by (simp add: ml_path_normalize_input_def map_slash_id ml_path_dos_body_def)
qed

lemma normalize_input_unc:
  assumes "unc_path p"
  shows "ml_path_normalize_input p = p" and "ml_path_normalize_input (EXT_UNC_PREFIX @ drop 2 p) = p"
proof -
  from assms have c: "wat p 0 = BSLASH" "wat p 1 = BSLASH" "wat p 2 \<noteq> QMARK" "wat p 2 \<noteq> DOT"
      "SLASH \<notin> set p"
    by (simp_all add: unc_path_def)
  show "ml_path_normalize_input p = p"
    using c by (simp add: ml_path_normalize_input_def map_slash_id ml_path_dos_body_def)
  obtain q where p: "p = BSLASH # BSLASH # q" using wat_split2 [of p] c(1,2) by auto
  have unc: "wcsnicmp_eq (85 # 78 # 67 # r) [85, 78, 67] 3" for r
    by (simp add: wcsnicmp_eq_def)
  show "ml_path_normalize_input (EXT_UNC_PREFIX @ drop 2 p) = p"
    using c p by (simp add: ml_path_normalize_input_def map_slash_id ml_path_dos_body_def unc)
qed

text \<open>
  Extending a long disk path and reading it back are inverse. Whatever the length of the
  path and the outcome of the allocator, an extended name that \<open>ml_path_extend\<close> returns is
  converted back to the original drive or UNC path by \<open>ml_path_normalize_input\<close>; an error
  only comes from the allocator or from a name beyond 32768 characters.
\<close>

theorem ml_path_extend_normalize_roundtrip:
  assumes "drive_path p \<or> unc_path p"
  shows "case fst (ml_path_extend_str p h) of
           Inr q \<Rightarrow> ml_path_normalize_input q = p
         | Inl e \<Rightarrow> e = ERROR_NOT_ENOUGH_MEMORY \<and> \<not> heap_ok h
             \<or> e = ERROR_FILENAME_EXCED_RANGE \<and> ML_PATH_MAX_CCH < length p + 7"
proof -
  have cases: "ml_path_normalize_input p = p"
    using assms normalize_input_drive(1) normalize_input_unc(1) by blast
  have buf: "ml_path_buffer n h = (Inr (), snd (ml_path_buffer n h))
      \<or> (fst (ml_path_buffer n h) = Inl ERROR_NOT_ENOUGH_MEMORY \<and> \<not> heap_ok h)
      \<or> (fst (ml_path_buffer n h) = Inl ERROR_FILENAME_EXCED_RANGE \<and> ML_PATH_MAX_CCH < n)"
    if "0 < n" for n
    using that by (auto simp: ml_path_buffer_def split: prod.splits bool.splits)
  show ?thesis
  proof (cases "length p < MAX_PATH - 12")
    case True
    with cases show ?thesis by (simp add: ml_path_extend_str_def ml_path_extend_def)
  next
    case long: False
    show ?thesis
    proof (cases "wat p 1 = COLON \<and> wat p 2 = BSLASH")
      case True
      with assms have "drive_path p" by (auto simp: unc_path_def)
      then have "ml_path_normalize_input (EXT_PREFIX @ p) = p" by (rule normalize_input_drive(2))
      with long True buf [of "4 + length p + 1"] show ?thesis
        by (auto simp: ml_path_extend_str_def ml_path_extend_def res_bind_def
            split: prod.splits sum.splits)
    next
      case False
      with assms have u: "unc_path p" by (auto simp: drive_path_def)
      then have "ml_path_normalize_input (EXT_UNC_PREFIX @ drop 2 p) = p"
        by (rule normalize_input_unc(2))
      with long False u buf [of "8 + length p - 2 + 1"] show ?thesis
        by (auto simp: ml_path_extend_str_def ml_path_extend_def res_bind_def unc_path_def
            split: prod.splits sum.splits)
    qed
  qed
qed

theorem ml_path_extend_normalize_roundtrip_witness:
  "let p = L ''C:'' @ BSLASH # replicate 300 (97 :: wchar) in
     fst (ml_path_extend_str p (\<lambda>_. True)) = Inr (EXT_PREFIX @ p)
     \<and> ml_path_normalize_input (EXT_PREFIX @ p) = p"
proof -
  let ?p = "L ''C:'' @ BSLASH # replicate 300 (97 :: wchar)"
  have d: "drive_path ?p \<or> unc_path ?p" by (simp add: drive_path_def)
  have r: "fst (ml_path_extend_str ?p (\<lambda>_. True)) = Inr (EXT_PREFIX @ ?p)"
    by (simp add: ml_path_extend_str_def ml_path_extend_def MAX_PATH_def ml_path_buffer_ok
        ML_PATH_MAX_CCH_def)
  show ?thesis
    using ml_path_extend_normalize_roundtrip [OF d, of "\<lambda>_. True"] r by simp
qed

subsection \<open>Resolution\<close>

lemma resolve_loop_stable:
  assumes "fpn k joined = Inr full" and "length full < capacity"
  shows "fst (resolve_loop (Suc fuel) fpn k joined capacity h) \<noteq> None"
  using assms by (auto split: prod.splits sum.splits)

text \<open>
  Resolving a name. When \<open>GetFullPathNameW\<close> answers the same in both calls, one round
  of the loop is enough. A relative name is looked up below the base directory, with exactly
  one backslash between them, and a drive-relative name is rejected before the system is
  asked.
\<close>

theorem ml_path_resolve_relative:
  assumes heap: "heap_ok h"
    and base: "drive_path base" "last base \<noteq> BSLASH"
    and name: "name \<noteq> []" "SLASH \<notin> set name" "wat name 0 \<noteq> BSLASH" "wat name 1 \<noteq> COLON"
    and fits: "length base + length name + 2 \<le> ML_PATH_MAX_CCH"
    and full: "\<forall>k. fpn k (base @ [BSLASH] @ name) = Inr full"
      "full \<noteq> []" "length full < ML_PATH_MAX_CCH"
  shows "ml_path_resolve_alloc (Suc fuel) fpn (Some base) (Some name) h
         = (Some (fst (ml_path_extend_str full h)), h)"
proof -
  have n0: "\<not> ml_path_separator (wat name 0)"
    using name(1-3) by (cases name) (auto simp: ml_path_separator_def)
  have norm: "ml_path_normalize_input name = name"
    using n0 by (simp add: ml_path_normalize_input_def map_slash_id [OF name(2)] ml_path_dos_body_def)
  have rel: "\<not> ml_path_is_absolute (Some name)" "\<not> drive_relative name"
    using n0 name(4) by (simp_all add: ml_path_is_absolute_def drive_relative_def)
  obtain a b c q where b: "base = a # b # c # q"
    using base(1) wat_split3 [of base] by (auto simp: drive_path_def)
  have abs: "ml_path_is_absolute (Some base)"
    using base(1) b by (simp add: drive_path_def ml_path_is_absolute_def)
  have trim: "trim_back (\<lambda>c. c = BSLASH) base 0 (length base) = length base"
    using trim_back_Suc_stop [of base "\<lambda>c. c = BSLASH"] base(2) b by blast
  have copy: "ml_path_copy_alloc s h = (Inr s, h)" if "length s < ML_PATH_MAX_CCH" for s
    using that heap by (simp add: ml_path_copy_alloc_def ml_path_buffer_ok)
  have dir: "resolve_directory (Some base) name h = (Inr (base, name), h)"
    using rel abs trim fits name(3) b copy normalize_input_drive(1) [OF base(1)]
    by (simp add: resolve_directory_def)
  have join: "resolve_join base name = base @ [BSLASH] @ name"
    using b by (simp add: resolve_join_def)
  have buf: "ml_path_buffer n h = (Inr (), h)" if "0 < n" "n \<le> ML_PATH_MAX_CCH" for n
    using that heap by (simp add: ml_path_buffer_ok)
  have ext: "snd (ml_path_extend_str full h) = h"
    using heap by (auto simp: ml_path_extend_str_def ml_path_extend_def ml_path_buffer_ok)
  have loop: "resolve_loop (Suc fuel) fpn 1 (base @ [BSLASH] @ name) (length full + 1) h
      = (Some (fst (ml_path_extend_str full h)), h)"
    using full buf ext by (simp add: case_prod_unfold)
  have buf2: "ml_path_buffer (length base + length name + 2) h = (Inr (), h)"
    using fits by (intro buf) auto
  have nn: "base \<noteq> []" using b by simp
  show ?thesis
    using name(1) copy fits norm rel dir join loop full(1) buf2 nn
    by (simp add: ml_path_resolve_alloc_def GetFullPathNameW_def del: resolve_loop.simps)
qed

theorem ml_path_resolve_relative_witness:
  "ml_path_resolve_alloc 1 (\<lambda>_ s. Inr s) (Some [67, COLON, BSLASH, 109]) (Some (L ''x''))
     (\<lambda>_. True) = (Some (Inr [67, COLON, BSLASH, 109, BSLASH, 120]), \<lambda>_. True)"
  using ml_path_resolve_relative [of "\<lambda>_. True" "[67, COLON, BSLASH, 109]" "L ''x''"
      "\<lambda>_ s. Inr s" "[67, COLON, BSLASH, 109, BSLASH, 120]" 0]
  by (simp add: drive_path_def ML_PATH_MAX_CCH_def ml_path_extend_str_def ml_path_extend_def
      MAX_PATH_def)

end
