(* ===== verification/VfsPath.thy ===== *)
theory VfsPath
  imports Paths
begin

text \<open>
  The path functions of the virtual file system (\<open>src/src/modloader/vfs.c\<close>): stripping the
  game folder from a request, joining names and normalizing a request to the key under which
  the index files it.

  \<open>CompareStringOrdinal\<close> with \<open>bIgnoreCase\<close> compares two strings after mapping every
  character with the operating system's uppercase table; the table is the parameter
  \<open>up\<close>, and \<open>ordinal_ascii\<close> is the documented behaviour of its ASCII part.
\<close>

definition SIZE_MAX :: nat where
  "SIZE_MAX = 2 ^ 64 - 1"

definition CompareStringOrdinal :: "(wchar \<Rightarrow> wchar) \<Rightarrow> wstr \<Rightarrow> wstr \<Rightarrow> bool" where
  "CompareStringOrdinal up a b \<longleftrightarrow> map up a = map up b"

definition ordinal_ascii :: "(wchar \<Rightarrow> wchar) \<Rightarrow> bool" where
  "ordinal_ascii up \<longleftrightarrow>
     (\<forall>c < 128. up c = (if 97 \<le> c \<and> c \<le> 122 then c - 32 else c))"

definition vfs_char_equal_ignore_case :: "(wchar \<Rightarrow> wchar) \<Rightarrow> wchar \<Rightarrow> wchar \<Rightarrow> bool" where
  "vfs_char_equal_ignore_case up a b =
     (if a = b then True
      else if a < 128 \<and> b < 128 then
        let a = (if 65 \<le> a \<and> a \<le> 90 then a - 65 + 97 else a);
            b = (if 65 \<le> b \<and> b \<le> 90 then b - 65 + 97 else b)
        in a = b
      else CompareStringOrdinal up [a] [b])"

subsection \<open>Stripping the game folder\<close>

fun strip_loop :: "(wchar \<Rightarrow> wchar) \<Rightarrow> wstr \<Rightarrow> wstr \<Rightarrow> wstr option" where
  "strip_loop up path [] = Some path"
| "strip_loop up [] (q # prefix) = None"
| "strip_loop up (p # path) (q # prefix) =
     (if ml_path_separator p \<noteq> ml_path_separator q
         \<or> (\<not> ml_path_separator p \<and> \<not> vfs_char_equal_ignore_case up p q) then None
      else strip_loop up path prefix)"

definition vfs_strip_path_prefix ::
  "(wchar \<Rightarrow> wchar) \<Rightarrow> wstr option \<Rightarrow> wstr option \<Rightarrow> wstr option" where
  "vfs_strip_path_prefix up path prefix =
     (case (path, prefix) of
        (Some path, Some prefix) \<Rightarrow>
          (let (path_off, path_unc) = ml_path_dos_body path;
               (prefix_off, prefix_unc) = ml_path_dos_body prefix
           in if path_unc \<noteq> prefix_unc then None
              else case strip_loop up (drop path_off path) (drop prefix_off prefix) of
                     None \<Rightarrow> None
                   | Some rest \<Rightarrow>
                       if rest = [] \<or> ml_path_separator (hd rest) then Some rest else None)
      | _ \<Rightarrow> None)"

subsection \<open>Joining\<close>

definition vfs_join :: "wstr \<Rightarrow> wstr \<Rightarrow> heap \<Rightarrow> wstr option \<times> heap" where
  "vfs_join left right h =
     (if length left > SIZE_MAX div 2 - 2 \<or> length right > SIZE_MAX div 2 - length left - 2
      then (None, h)
      else case ml_mem_alloc h of
        (False, h) \<Rightarrow> (None, h)
      | (True, h) \<Rightarrow>
          (case ml_path_extend_str
              ((if left \<noteq> [] \<and> last left \<noteq> BSLASH then left @ [BSLASH] else left) @ right) h of
             (Inl e, h) \<Rightarrow> (None, h)
           | (Inr path, h) \<Rightarrow> (Some path, h)))"

subsection \<open>Normalization\<close>

abbreviation not_separator :: "wchar \<Rightarrow> bool" where
  "not_separator c \<equiv> \<not> ml_path_separator c"

text \<open>
  The main loop: \<open>out\<close> is the result written so far and \<open>starts\<close> the offsets in
  \<open>segment_starts\<close>, the last one first.
\<close>

function norm_loop :: "wstr \<Rightarrow> wstr \<Rightarrow> nat list \<Rightarrow> wstr option" where
  "norm_loop path out starts =
     (if path = [] then Some out
      else
        let part = takeWhile not_separator path;
            path = dropWhile ml_path_separator (dropWhile not_separator path)
        in if part = [] \<or> part = [DOT] then norm_loop path out starts
           else if part = [DOT, DOT] then
             (case starts of
                [] \<Rightarrow> None
              | s # ss \<Rightarrow> norm_loop path (take s out) ss)
           else norm_loop path
                  ((if out \<noteq> [] then out @ [BSLASH] else out) @ map towlower part)
                  (length out # starts))"
  by pat_completeness auto

lemma drop_part_shorter:
  "path \<noteq> [] \<Longrightarrow> length (dropWhile ml_path_separator (dropWhile not_separator path)) < length path"
proof (cases path)
  case (Cons c s)
  have "length (dropWhile ml_path_separator (dropWhile not_separator s)) \<le> length s"
    by (meson length_dropWhile_le order_trans)
  moreover have "length (dropWhile ml_path_separator s) \<le> length s"
    by (rule length_dropWhile_le)
  ultimately show ?thesis using Cons by (simp add: less_Suc_eq_le)
qed simp

termination norm_loop
  by (relation "measure (\<lambda>(path, out, starts). length path)") (auto simp: drop_part_shorter)

declare norm_loop.simps [simp del]

text \<open>
  The device or drive prefix: everything up to a colon in the first component.
\<close>

definition strip_device :: "wstr \<Rightarrow> wstr" where
  "strip_device path =
     (let path = dropWhile ml_path_separator path
      in dropWhile ml_path_separator
           (if COLON \<in> set (takeWhile not_separator path)
            then drop 1 (dropWhile (\<lambda>c. c \<noteq> COLON) path) else path))"

definition vfs_normalize_path :: "wstr option \<Rightarrow> heap \<Rightarrow> wstr option \<times> heap" where
  "vfs_normalize_path path h =
     (case path of None \<Rightarrow> (None, h)
      | Some path \<Rightarrow>
          if length path = SIZE_MAX \<or> length path + 1 > SIZE_MAX div 2
             \<or> length path + 1 > SIZE_MAX div 8 then (None, h)
          else case ml_mem_alloc h of
            (False, h) \<Rightarrow> (None, h)
          | (True, h) \<Rightarrow>
              (case ml_mem_alloc h of
                 (False, h) \<Rightarrow> (None, h)
               | (True, h) \<Rightarrow> (norm_loop (strip_device path) [] [], h)))"

text \<open>The key of a path, for memory that suffices.\<close>

definition vfs_key :: "wstr \<Rightarrow> wstr option" where
  "vfs_key path = norm_loop (strip_device path) [] []"

lemma vfs_normalize_path_ok:
  assumes "heap_ok h" and "length p < 2 ^ 60"
  shows "vfs_normalize_path (Some p) h = (vfs_key p, h)"
  using assms by (simp add: vfs_normalize_path_def vfs_key_def SIZE_MAX_def)

subsection \<open>The last segment\<close>

definition vfs_last_segment :: "wstr \<Rightarrow> wstr option" where
  "vfs_last_segment path =
     (let segment = ml_path_filename path
      in if wat segment 0 = 0 then None
         else if wat segment 0 = DOT
              \<and> (wat segment 1 = 0 \<or> (wat segment 1 = DOT \<and> wat segment 2 = 0)) then None
         else if COLON \<in> set segment then None
         else Some segment)"

subsection \<open>Specification of the normal form\<close>

text \<open>
  Independently of the loop: the components of a path are the non-empty strings between
  separators, \<open>.\<close> and \<open>..\<close> are resolved on a stack, and the key joins the folded
  components with backslashes.
\<close>

fun split_seps :: "wstr \<Rightarrow> wstr list" where
  "split_seps [] = [[]]"
| "split_seps (c # s) =
     (if ml_path_separator c then [] # split_seps s
      else case split_seps s of [] \<Rightarrow> [[c]] | x # xs \<Rightarrow> (c # x) # xs)"

definition components :: "wstr \<Rightarrow> wstr list" where
  "components path = filter (\<lambda>s. s \<noteq> []) (split_seps path)"

fun resolve_dots :: "wstr list \<Rightarrow> wstr list \<Rightarrow> wstr list option" where
  "resolve_dots stack [] = Some (rev stack)"
| "resolve_dots stack (p # ps) =
     (if p = [DOT] then resolve_dots stack ps
      else if p = [DOT, DOT] then
        (case stack of [] \<Rightarrow> None | _ # stack \<Rightarrow> resolve_dots stack ps)
      else resolve_dots (map towlower p # stack) ps)"

fun join_parts :: "wstr list \<Rightarrow> wstr" where
  "join_parts [] = []"
| "join_parts [p] = p"
| "join_parts (p # q # ps) = p @ [BSLASH] @ join_parts (q # ps)"

definition key_spec :: "wstr \<Rightarrow> wstr option" where
  "key_spec path = map_option join_parts (resolve_dots [] (components path))"

lemma split_seps_ne: "split_seps p \<noteq> []"
  by (induction p) (auto split: list.splits)

lemma components_sep: "ml_path_separator c \<Longrightarrow> components (c # s) = components s"
  by (simp add: components_def)

lemma components_dropWhile: "components (dropWhile ml_path_separator p) = components p"
  by (induction p) (auto simp: components_sep)

lemma components_not_sep: 
  "\<not> ml_path_separator c \<Longrightarrow> components (c # s) =
     (c # takeWhile not_separator s) # components (dropWhile not_separator s)"
proof (induction s arbitrary: c)
  case (Cons d s)
  show ?case
  proof (cases "ml_path_separator d")
    case True
    with Cons.prems show ?thesis by (simp add: components_def)
  next
    case False
    from Cons.IH [OF False] Cons.prems False show ?thesis
      using split_seps_ne [of s] by (auto simp: components_def split: list.splits)
  qed
qed (simp add: components_def)

lemma components_step:
  "components p = (if takeWhile not_separator p = [] then [] else [takeWhile not_separator p])
     @ components (dropWhile ml_path_separator (dropWhile not_separator p))"
proof (cases p)
  case (Cons c s)
  show ?thesis
    by (cases "ml_path_separator c")
      (simp_all add: Cons components_sep components_not_sep components_dropWhile)
qed (simp add: components_def)

lemma join_parts_snoc:
  "join_parts (ps @ [p]) = (if ps = [] then p else join_parts ps @ [BSLASH] @ p)"
  by (induction ps rule: join_parts.induct) auto

lemma join_parts_eq_Nil: "\<forall>p\<in>set ps. p \<noteq> [] \<Longrightarrow> join_parts ps = [] \<longleftrightarrow> ps = []"
  by (induction ps rule: join_parts.induct) auto

text \<open>What the loop keeps: the buffer holds the joined stack, the offsets its cut points.\<close>

fun cut_points :: "wstr list \<Rightarrow> nat list" where
  "cut_points [] = []"
| "cut_points (p # stack) = length (join_parts (rev stack)) # cut_points stack"

lemma take_join_parts: "take (length (join_parts ps)) (join_parts (ps @ [p])) = join_parts ps"
  by (simp add: join_parts_snoc)

lemma norm_loop_spec:
  assumes "\<forall>p\<in>set stack. p \<noteq> []"
  shows "norm_loop path (join_parts (rev stack)) (cut_points stack)
         = map_option join_parts (resolve_dots stack (components path))"
  using assms
proof (induction path arbitrary: stack rule: length_induct)
  case (1 path)
  show ?case
  proof (cases "path = []")
    case True
    then show ?thesis by (simp add: norm_loop.simps [of "[]"] components_def)
  next
    case False
    let ?part = "takeWhile not_separator path"
    let ?rest = "dropWhile ml_path_separator (dropWhile not_separator path)"
    have IH: "norm_loop ?rest (join_parts (rev st)) (cut_points st)
        = map_option join_parts (resolve_dots st (components ?rest))"
      if "\<forall>p\<in>set st. p \<noteq> []" for st
      using 1(1) drop_part_shorter [OF False] that by blast
    have out: "join_parts (rev stack) = [] \<longleftrightarrow> stack = []"
      using join_parts_eq_Nil [of "rev stack"] 1(2) by simp
    show ?thesis
    proof (cases "?part = [] \<or> ?part = [DOT]")
      case True
      with IH [OF 1(2)] False show ?thesis
        by (subst norm_loop.simps, subst components_step) (auto simp: Let_def)
    next
      case nodot: False
      show ?thesis
      proof (cases "?part = [DOT, DOT]")
        case True
        show ?thesis
        proof (cases stack)
          case Nil
          with True False show ?thesis
            by (subst norm_loop.simps, subst components_step) (simp add: Let_def)
        next
          case (Cons p st)
          with IH [of st] 1(2) True False show ?thesis
            by (subst norm_loop.simps, subst components_step) (simp add: Let_def take_join_parts)
        qed
      next
        case dd: False
        have "\<forall>p\<in>set (map towlower ?part # stack). p \<noteq> []" using 1(2) nodot by simp
        note rec = IH [OF this]
        have j: "join_parts (rev stack @ [map towlower ?part]) =
            (if join_parts (rev stack) \<noteq> [] then join_parts (rev stack) @ [BSLASH]
             else join_parts (rev stack)) @ map towlower ?part"
          using out by (simp add: join_parts_snoc)
        have "norm_loop path (join_parts (rev stack)) (cut_points stack)
            = norm_loop ?rest (join_parts (rev (map towlower ?part # stack)))
                (cut_points (map towlower ?part # stack))"
          using nodot dd False by (subst norm_loop.simps) (simp add: Let_def j)
        also have "\<dots> = map_option join_parts (resolve_dots stack (?part # components ?rest))"
          using rec nodot dd by simp
        also have "?part # components ?rest = components path"
          using nodot by (subst (2) components_step) simp
        finally show ?thesis .
      qed
    qed
  qed
qed

lemma vfs_key_is_spec: "vfs_key path = key_spec (strip_device path)"
  using norm_loop_spec [of "[]" "strip_device path"] by (simp add: vfs_key_def key_spec_def)

text \<open>
  C21: the normalization loop, with its in-place buffer and its stack of offsets, computes the
  specification: the components after the device prefix, with dots resolved, folded and
  joined; it fails exactly where a \<open>..\<close> would leave the root.
\<close>

theorem vfs_normalize_path_spec:
  "vfs_key path = key_spec (strip_device path)"
  by (rule vfs_key_is_spec)

lemma components_Nil [simp]: "components [] = []"
  by (simp add: components_def)

text \<open>The components of a key, as a group of facts.\<close>

definition key_part :: "wstr \<Rightarrow> bool" where
  "key_part q \<longleftrightarrow> q \<noteq> [] \<and> q \<noteq> [DOT] \<and> q \<noteq> [DOT, DOT] \<and> map towlower q = q
     \<and> (\<forall>c\<in>set q. not_separator c)"

definition key_parts :: "wstr list \<Rightarrow> bool" where
  "key_parts qs \<longleftrightarrow> (\<forall>q\<in>set qs. key_part q)"

lemma towlower_sep [simp]: "ml_path_separator (towlower c) = ml_path_separator c"
  by (simp add: ml_path_separator_def)

lemma map_towlower_dots [simp]:
  "map towlower p = [DOT] \<longleftrightarrow> p = [DOT]" "map towlower p = [DOT, DOT] \<longleftrightarrow> p = [DOT, DOT]"
  by (auto simp: map_eq_Cons_conv)

lemma key_part_lower:
  "p \<noteq> [] \<Longrightarrow> p \<noteq> [DOT] \<Longrightarrow> p \<noteq> [DOT, DOT] \<Longrightarrow> \<forall>c\<in>set p. not_separator c \<Longrightarrow> key_part (map towlower p)"
  by (simp add: key_part_def)

lemma resolve_dots_ok:
  assumes "resolve_dots stack ps = Some qs" and "key_parts stack"
    and "\<forall>p\<in>set ps. p \<noteq> [] \<and> (\<forall>c\<in>set p. not_separator c)"
  shows "key_parts qs"
  using assms
proof (induction stack ps rule: resolve_dots.induct)
  case (1 stack)
  then show ?case by (auto simp: key_parts_def)
next
  case (2 stack p ps)
  have rest: "\<forall>p\<in>set ps. p \<noteq> [] \<and> (\<forall>c\<in>set p. not_separator c)" using "2.prems"(3) by simp
  consider "p = [DOT]" | "p = [DOT, DOT]" | "p \<noteq> [DOT]" "p \<noteq> [DOT, DOT]" by blast
  then show ?case
  proof cases
    case 1
    then show ?thesis using "2.IH"(1) "2.prems" rest by simp
  next
    case 2
    then obtain q st where "stack = q # st" using "2.prems"(1) by (cases stack) auto
    then show ?thesis using 2 "2.IH"(2) "2.prems" rest by (simp add: key_parts_def)
  next
    case 3
    then have "key_part (map towlower p)" using "2.prems"(3) by (intro key_part_lower) auto
    then show ?thesis using 3 "2.IH"(3) "2.prems" rest by (simp add: key_parts_def)
  qed
qed

lemma split_seps_no_sep: "\<forall>p\<in>set (split_seps s). \<forall>c\<in>set p. not_separator c"
  by (induction s) (auto split: list.splits)

lemma components_no_sep: "p \<in> set (components s) \<Longrightarrow> p \<noteq> [] \<and> (\<forall>c\<in>set p. not_separator c)"
  using split_seps_no_sep by (auto simp: components_def)

lemma vfs_key_parts:
  assumes "vfs_key path = Some key"
  obtains qs where "key = join_parts qs" and "key_parts qs"
    and "resolve_dots [] (components (strip_device path)) = Some qs"
proof -
  from assms obtain qs where qs: "resolve_dots [] (components (strip_device path)) = Some qs"
      "key = join_parts qs"
    by (auto simp: vfs_key_is_spec key_spec_def)
  have "key_parts qs"
    by (rule resolve_dots_ok [OF qs(1)]) (auto simp: key_parts_def dest: components_no_sep)
  with qs that show ?thesis by blast
qed

lemma components_append_sep:
  assumes "\<forall>c\<in>set p. not_separator c" and "p \<noteq> []"
  shows "components (p @ BSLASH # s) = p # components s"
proof -
  obtain c r where p: "p = c # r" using assms(2) by (cases p) auto
  with assms(1) have "takeWhile not_separator (r @ BSLASH # s) = r"
      "dropWhile not_separator (r @ BSLASH # s) = BSLASH # s"
    by (auto simp: takeWhile_append dropWhile_append)
  with p assms(1) show ?thesis by (simp add: components_not_sep components_sep)
qed

lemma components_single:
  assumes "\<forall>c\<in>set p. not_separator c" and "p \<noteq> []"
  shows "components p = [p]"
proof -
  obtain c r where p: "p = c # r" using assms(2) by (cases p) auto
  have t: "takeWhile not_separator r = r" and d: "dropWhile not_separator r = []"
    using assms(1) p by (auto simp: takeWhile_eq_all_conv)
  have "components (c # r) = (c # takeWhile not_separator r) # components (dropWhile not_separator r)"
    by (rule components_not_sep) (use assms(1) p in simp)
  then show ?thesis by (simp only: p t d components_Nil)
qed

lemma components_join: "key_parts qs \<Longrightarrow> components (join_parts qs) = qs"
  by (induction qs rule: join_parts.induct)
    (auto simp: key_parts_def key_part_def components_append_sep components_single)

lemma resolve_dots_id: "key_parts qs \<Longrightarrow> resolve_dots stack qs = Some (rev stack @ qs)"
  by (induction qs arbitrary: stack) (auto simp: key_parts_def key_part_def)

lemma dropWhile_sep_key: "key_parts qs \<Longrightarrow> dropWhile ml_path_separator (join_parts qs) = join_parts qs"
proof (induction qs rule: join_parts.induct)
  case (2 p) then show ?case by (cases p) (auto simp: key_parts_def key_part_def)
next
  case (3 p q ps) then show ?case by (cases p) (auto simp: key_parts_def key_part_def)
qed simp

lemma strip_device_id:
  "dropWhile ml_path_separator p = p \<Longrightarrow> COLON \<notin> set (takeWhile not_separator p) \<Longrightarrow> strip_device p = p"
  by (simp add: strip_device_def)

text \<open>
  Normal forms are stable. The key of a path is a key of its own (unless its first
  component still holds a colon, which a second pass would take for a device): its
  components are folded, non-empty, separator-free and neither \<open>.\<close> nor \<open>..\<close>.
\<close>

theorem vfs_key_idempotent:
  assumes "vfs_key path = Some key" and "COLON \<notin> set (takeWhile not_separator key)"
  shows "vfs_key key = Some key \<and> (\<exists>qs. key = join_parts qs \<and> key_parts qs)"
proof -
  from assms(1) obtain qs where key: "key = join_parts qs" and qs: "key_parts qs"
    by (rule vfs_key_parts)
  have "strip_device key = key"
    using assms(2) dropWhile_sep_key [OF qs] key by (intro strip_device_id) auto
  then have "vfs_key key = Some key"
    using key qs by (simp add: vfs_key_is_spec key_spec_def components_join resolve_dots_id)
  with key qs show ?thesis by blast
qed

theorem vfs_key_idempotent_witness:
  "vfs_key (L ''/Menu/./X/../A'') = Some (L ''menu'' @ BSLASH # L ''a'')
   \<and> vfs_key (L ''menu'' @ BSLASH # L ''a'') = Some (L ''menu'' @ BSLASH # L ''a'')"
proof -
  have a: "vfs_key (L ''/Menu/./X/../A'') = Some (L ''menu'' @ BSLASH # L ''a'')"
    by code_simp
  have b: "COLON \<notin> set (takeWhile not_separator (L ''menu'' @ BSLASH # L ''a''))"
    by code_simp
  show ?thesis using a vfs_key_idempotent [OF a b] by blast
qed

text \<open>Two spellings of a path that differ in case and in the kind of separator only.\<close>

definition same_char :: "wchar \<Rightarrow> wchar \<Rightarrow> bool" where
  "same_char a b \<longleftrightarrow> towlower a = towlower b \<or> (ml_path_separator a \<and> ml_path_separator b)"

definition same_spelling :: "wstr \<Rightarrow> wstr \<Rightarrow> bool" where
  "same_spelling = list_all2 same_char"

lemma same_char_sep: "same_char a b \<Longrightarrow> ml_path_separator a = ml_path_separator b"
  unfolding same_char_def ml_path_separator_def by (metis towlower_special)

lemma same_char_colon: "same_char a b \<Longrightarrow> (a = COLON) = (b = COLON)"
  unfolding same_char_def by (metis ml_path_separator_simps(4) towlower_special(4))

lemma list_all2_dropWhile:
  assumes "list_all2 R a b" and "\<And>x y. R x y \<Longrightarrow> P x = P y"
  shows "list_all2 R (dropWhile P a) (dropWhile P b)"
  using assms by (induction rule: list_all2_induct) auto

lemma list_all2_takeWhile:
  assumes "list_all2 R a b" and "\<And>x y. R x y \<Longrightarrow> P x = P y"
  shows "list_all2 R (takeWhile P a) (takeWhile P b)"
  using assms by (induction rule: list_all2_induct) auto

lemma list_all2_mem: "list_all2 R a b \<Longrightarrow> (\<And>x y. R x y \<Longrightarrow> (x = c) = (y = c)) \<Longrightarrow> c \<in> set a \<longleftrightarrow> c \<in> set b"
  by (induction rule: list_all2_induct) auto

lemma list_all2_drop1: "list_all2 R a b \<Longrightarrow> list_all2 R (drop 1 a) (drop 1 b)"
  by (rule list_all2_dropI)

lemma strip_device_same:
  assumes "same_spelling a b"
  shows "same_spelling (strip_device a) (strip_device b)"
proof -
  let ?dw = "dropWhile ml_path_separator"
  have d: "list_all2 same_char (?dw a) (?dw b)"
    using assms unfolding same_spelling_def by (rule list_all2_dropWhile) (rule same_char_sep)
  have t: "list_all2 same_char (takeWhile not_separator (?dw a)) (takeWhile not_separator (?dw b))"
    by (rule list_all2_takeWhile [OF d]) (simp add: same_char_sep)
  have c: "COLON \<in> set (takeWhile not_separator (?dw a)) \<longleftrightarrow> COLON \<in> set (takeWhile not_separator (?dw b))"
    by (rule list_all2_mem [OF t]) (rule same_char_colon)
  have e: "list_all2 same_char (drop 1 (dropWhile (\<lambda>c. c \<noteq> COLON) (?dw a))) (drop 1 (dropWhile (\<lambda>c. c \<noteq> COLON) (?dw b)))"
    by (intro list_all2_drop1 list_all2_dropWhile [OF d]) (simp add: same_char_colon)
  show ?thesis
    using c d e unfolding same_spelling_def strip_device_def Let_def
    by (auto intro!: list_all2_dropWhile simp: same_char_sep)
qed

lemma same_no_sep_fold:
  "list_all2 same_char a b \<Longrightarrow> \<forall>c\<in>set a. not_separator c \<Longrightarrow> map towlower a = map towlower b"
  by (induction rule: list_all2_induct) (auto simp: same_char_def)

lemma components_same:
  "list_all2 same_char a b \<Longrightarrow> map (map towlower) (components a) = map (map towlower) (components b)"
proof (induction a arbitrary: b rule: length_induct)
  case (1 a)
  show ?case
  proof (cases "a = []")
    case False
    let ?ta = "takeWhile not_separator a" and ?tb = "takeWhile not_separator b"
    let ?ra = "dropWhile ml_path_separator (dropWhile not_separator a)"
      and ?rb = "dropWhile ml_path_separator (dropWhile not_separator b)"
    have r: "list_all2 same_char ?ra ?rb"
      by (intro list_all2_dropWhile 1(2)) (simp_all add: same_char_sep)
    have t: "list_all2 same_char ?ta ?tb"
      by (rule list_all2_takeWhile [OF 1(2)]) (simp add: same_char_sep)
    have fold: "map towlower ?ta = map towlower ?tb"
      by (rule same_no_sep_fold [OF t]) (auto dest: set_takeWhileD)
    have nil: "?ta = [] \<longleftrightarrow> ?tb = []" using t by (auto dest: list_all2_lengthD)
    have "map (map towlower) (components ?ra) = map (map towlower) (components ?rb)"
      using 1(1) drop_part_shorter [OF False] r by blast
    then show ?thesis
      using fold nil by (subst components_step, subst (2) components_step) simp
  qed (use 1(2) in simp)
qed

lemma resolve_dots_same:
  "map (map towlower) ps = map (map towlower) qs \<Longrightarrow> resolve_dots stack ps = resolve_dots stack qs"
proof (induction stack ps arbitrary: qs rule: resolve_dots.induct)
  case (2 stack p ps)
  obtain q qs' where qs: "qs = q # qs'" and pq: "map towlower p = map towlower q"
      and rest: "map (map towlower) ps = map (map towlower) qs'"
    using 2(4) by (cases qs) auto
  have dots: "(p = [DOT]) = (q = [DOT])" "(p = [DOT, DOT]) = (q = [DOT, DOT])"
    using pq by (metis map_towlower_dots)+
  show ?case
    using 2(1-3) rest pq dots unfolding qs by (auto split: list.splits)
qed simp

text \<open>
  The index is insensitive to case and to the kind of separator: two spellings of the same
  request have the same key, or are both rejected.
\<close>

theorem vfs_key_same_spelling:
  assumes "same_spelling a b"
  shows "vfs_key a = vfs_key b"
proof -
  have "list_all2 same_char (strip_device a) (strip_device b)"
    using strip_device_same [OF assms] by (simp add: same_spelling_def)
  then have "resolve_dots [] (components (strip_device a)) = resolve_dots [] (components (strip_device b))"
    by (intro resolve_dots_same components_same)
  then show ?thesis by (simp add: vfs_key_is_spec key_spec_def)
qed

theorem vfs_key_same_spelling_witness:
  "same_spelling (L ''Data0:/Menu/Hi'') (L ''dATA0:'' @ BSLASH # L ''menu'' @ BSLASH # L ''HI'')
   \<and> vfs_key (L ''Data0:/Menu/Hi'') = vfs_key (L ''dATA0:'' @ BSLASH # L ''menu'' @ BSLASH # L ''HI'')"
proof -
  have s: "same_spelling (L ''Data0:/Menu/Hi'') (L ''dATA0:'' @ BSLASH # L ''menu'' @ BSLASH # L ''HI'')"
    by code_simp
  show ?thesis using s vfs_key_same_spelling [OF s] by blast
qed

subsection \<open>The prefix test\<close>

lemma ascii_case_fold:
  fixes a b :: wchar
  assumes "a < 128" "b < 128"
  shows "((if 65 \<le> a \<and> a \<le> 90 then a - 65 + 97 else a) = (if 65 \<le> b \<and> b \<le> 90 then b - 65 + 97 else b))
     \<longleftrightarrow> ((if 97 \<le> a \<and> a \<le> 122 then a - 32 else a) = (if 97 \<le> b \<and> b \<le> 122 then b - 32 else b))"
proof -
  have lo: "unat (if 65 \<le> c \<and> c \<le> 90 then c - 65 + 97 else c)
      = (if 65 \<le> unat c \<and> unat c \<le> 90 then unat c + 32 else unat c)" if "c < 128" for c :: wchar
    using that by (auto simp: word_less_nat_alt word_le_nat_alt unat_word_ariths unat_sub)
  have up: "unat (if 97 \<le> c \<and> c \<le> 122 then c - 32 else c)
      = (if 97 \<le> unat c \<and> unat c \<le> 122 then unat c - 32 else unat c)" if "c < 128" for c :: wchar
    using that by (auto simp: word_less_nat_alt word_le_nat_alt unat_sub)
  show ?thesis
    unfolding word_unat_eq_iff lo [OF assms(1)] lo [OF assms(2)] up [OF assms(1)] up [OF assms(2)]
    using assms by (auto simp: word_less_nat_alt split: if_splits)
qed

text \<open>
  The fast path of the per-character comparison agrees with the system call it replaces,
  for every pair of characters.
\<close>

theorem vfs_char_equal_is_ordinal:
  assumes "ordinal_ascii up"
  shows "vfs_char_equal_ignore_case up a b \<longleftrightarrow> CompareStringOrdinal up [a] [b]"
proof (cases "a < 128 \<and> b < 128")
  case True
  with assms have "up a = (if 97 \<le> a \<and> a \<le> 122 then a - 32 else a)"
      "up b = (if 97 \<le> b \<and> b \<le> 122 then b - 32 else b)"
    by (simp_all add: ordinal_ascii_def)
  with True ascii_case_fold [of a b] show ?thesis
    by (simp add: vfs_char_equal_ignore_case_def CompareStringOrdinal_def)
next
  case False
  then show ?thesis by (auto simp: vfs_char_equal_ignore_case_def CompareStringOrdinal_def)
qed

theorem vfs_char_equal_is_ordinal_witness:
  "let up = (\<lambda>c. if 97 \<le> c \<and> c \<le> 122 then c - 32 else c) in
     ordinal_ascii up \<and> vfs_char_equal_ignore_case up 97 65 = CompareStringOrdinal up [97] [65]"
proof -
  let ?up = "\<lambda>c :: wchar. if 97 \<le> c \<and> c \<le> 122 then c - 32 else c"
  have up: "ordinal_ascii ?up" by (simp add: ordinal_ascii_def)
  show ?thesis unfolding Let_def using up vfs_char_equal_is_ordinal [OF up, of 97 65] by blast
qed

text \<open>Two characters that the prefix test accepts.\<close>

definition prefix_char :: "(wchar \<Rightarrow> wchar) \<Rightarrow> wchar \<Rightarrow> wchar \<Rightarrow> bool" where
  "prefix_char up p q \<longleftrightarrow>
     (ml_path_separator p \<and> ml_path_separator q)
     \<or> (\<not> ml_path_separator p \<and> \<not> ml_path_separator q \<and> vfs_char_equal_ignore_case up p q)"

lemma strip_loop_iff:
  "strip_loop up path prefix = Some rest \<longleftrightarrow>
     (\<exists>pre. path = pre @ rest \<and> list_all2 (prefix_char up) pre prefix)"
proof (induction up path prefix rule: strip_loop.induct)
  case (3 up p path q prefix)
  have "(\<exists>pre. p # path = pre @ rest \<and> list_all2 (prefix_char up) pre (q # prefix)) \<longleftrightarrow>
      prefix_char up p q \<and> (\<exists>pre. path = pre @ rest \<and> list_all2 (prefix_char up) pre prefix)"
    by (auto simp: list_all2_Cons2)
  moreover have "(ml_path_separator p \<noteq> ml_path_separator q
      \<or> (\<not> ml_path_separator p \<and> \<not> vfs_char_equal_ignore_case up p q)) = (\<not> prefix_char up p q)"
    by (auto simp: prefix_char_def)
  ultimately show ?case using 3 by (simp del: append_Cons)
qed (auto simp: list_all2_Cons2)

text \<open>
  C29: stripping the game folder. A result is what follows a prefix that equals the folder
  character by character up to case and kind of separator, and it is empty or starts with a
  separator, so \<open>C:\Game2\x\<close> is not below \<open>C:\Game\<close>; and every such split is found.
  Spelling the request or the folder with an extended prefix makes no difference.
\<close>

theorem vfs_strip_path_prefix_spec:
  assumes "drive_path path" and "drive_path root"
  shows "(vfs_strip_path_prefix up (Some path) (Some root) = Some rest \<longleftrightarrow>
      (\<exists>pre. path = pre @ rest \<and> list_all2 (prefix_char up) pre root
         \<and> (rest = [] \<or> ml_path_separator (hd rest))))
    \<and> vfs_strip_path_prefix up (Some (EXT_PREFIX @ path)) (Some root)
      = vfs_strip_path_prefix up (Some path) (Some root)
    \<and> vfs_strip_path_prefix up (Some path) (Some (EXT_PREFIX @ root))
      = vfs_strip_path_prefix up (Some path) (Some root)"
proof -
  have body: "ml_path_dos_body p = (0, False)" "ml_path_dos_body (EXT_PREFIX @ p) = (4, False)"
    if "drive_path p" for p
  proof -
    from that have c: "wat p 1 = COLON" "wat p 2 = BSLASH" "wat p 0 \<noteq> 0"
      by (simp_all add: drive_path_def)
    then show "ml_path_dos_body p = (0, False)" by (simp add: ml_path_dos_body_def)
    show "ml_path_dos_body (EXT_PREFIX @ p) = (4, False)"
      using c not_unc_prefix [of p] by (simp add: ml_path_dos_body_def)
  qed
  note b = body [OF assms(1)] body [OF assms(2)]
  have "vfs_strip_path_prefix up (Some path) (Some root) = Some rest \<longleftrightarrow>
      strip_loop up path root = Some rest \<and> (rest = [] \<or> ml_path_separator (hd rest))"
    using b by (auto simp: vfs_strip_path_prefix_def split: option.splits if_splits)
  then have "vfs_strip_path_prefix up (Some path) (Some root) = Some rest \<longleftrightarrow>
      (\<exists>pre. path = pre @ rest \<and> list_all2 (prefix_char up) pre root
         \<and> (rest = [] \<or> ml_path_separator (hd rest)))"
    unfolding strip_loop_iff by blast
  with b show ?thesis by (simp add: vfs_strip_path_prefix_def)
qed

theorem vfs_strip_path_prefix_spec_witness:
  "let up = (\<lambda>c :: wchar. c); root = [67, COLON, BSLASH, 71] in
     vfs_strip_path_prefix up (Some [99, COLON, BSLASH, 103, BSLASH, 120]) (Some root) = Some [BSLASH, 120]
     \<and> vfs_strip_path_prefix up (Some (EXT_PREFIX @ [99, COLON, BSLASH, 103, BSLASH, 120])) (Some root)
       = Some [BSLASH, 120]"
proof -
  let ?up = "\<lambda>c :: wchar. c" and ?root = "[67, COLON, BSLASH, 71] :: wstr"
    and ?path = "[99, COLON, BSLASH, 103, BSLASH, 120] :: wstr"
  have d: "drive_path ?path" "drive_path ?root" by (simp_all add: drive_path_def)
  have pre: "?path = [99, COLON, BSLASH, 103] @ [BSLASH, 120]
      \<and> list_all2 (prefix_char ?up) [99, COLON, BSLASH, 103] ?root"
    by (simp add: prefix_char_def ml_path_separator_def vfs_char_equal_ignore_case_def)
  show ?thesis
    using vfs_strip_path_prefix_spec [OF d, of ?up "[BSLASH, 120]"] pre
    by (metis list.sel(1) ml_path_separator_simps(1))
qed

end
