(* ===== verification/ZipPackage.thy ===== *)
theory ZipPackage
  imports VfsPath "HOL-Library.Sublist"
begin

text \<open>
  ZIP packages and their forward-only streams (\<open>src/src/modloader/zip_package.c\<close>).

  The archive is read by the vendored miniz: what \<open>mz_zip_reader_file_stat\<close> and
  \<open>mz_zip_reader_get_filename\<close> return for each file is the list \<open>zp_entries\<close>, and the
  inflater and the CRC are the parameters \<open>inflate\<close> and \<open>crc32\<close>. An inflater is a
  deterministic function of the calls made so far, so its state is their history. The disk
  file is the function \<open>zp_disk\<close> of offset and size, which gives what one \<open>ReadFile\<close>
  call returns. The reference count lives with the packages' users.
\<close>

type_synonym byte = "8 word"

definition INT64_MAX :: nat where "INT64_MAX = 2 ^ 63 - 1"
definition INT_MAX :: nat where "INT_MAX = 2 ^ 31 - 1"
definition UINT_MAX :: nat where "UINT_MAX = 2 ^ 32 - 1"
definition MAXDWORD :: nat where "MAXDWORD = 2 ^ 32 - 1"
definition MZ_DEFLATED :: nat where "MZ_DEFLATED = 8"
definition ZIP_STREAM_BUFFER_SIZE :: nat where "ZIP_STREAM_BUFFER_SIZE = 65536"
definition ZIP_STORED_CHUNK_SIZE :: nat where "ZIP_STORED_CHUNK_SIZE = 1024 * 1024"

record mz_stat =
  m_filename :: "byte list"
  m_is_directory :: bool
  m_is_supported :: bool
  m_is_encrypted :: bool
  m_bit_flag :: "16 word"
  m_method :: nat
  m_comp_size :: nat
  m_uncomp_size :: nat
  m_crc32 :: "32 word"
  m_local_header_ofs :: nat

record zip_file =
  zf_relative :: wstr
  zf_archive_index :: nat
  zf_size :: nat

record zip_package =
  zp_id :: nat
  zp_path :: wstr
  zp_root :: wstr
  zp_files :: "zip_file list"
  zp_entries :: "mz_stat option list"
  zp_archive_size :: nat
  zp_disk :: "nat \<Rightarrow> nat \<Rightarrow> byte list option"

datatype mz_error =
    MZ_ZIP_INVALID_FILENAME | MZ_ZIP_UNSUPPORTED_ENCRYPTION | MZ_ZIP_UNSUPPORTED_METHOD
  | MZ_ZIP_ALLOC_FAILED | MZ_ZIP_FILE_NOT_FOUND | MZ_ZIP_FILE_OPEN_FAILED | MZ_ZIP_READER

subsection \<open>The root suffix of a package path\<close>

text \<open>
  \<open>zip_package_root_separator\<close> (\<open>zip_package.h\<close>): the offset of the colon that starts the
  ZIP root, after a drive colon and an extended or device prefix.
\<close>

definition zip_package_root_separator :: "wstr option \<Rightarrow> nat option" where
  "zip_package_root_separator path =
     (case path of None \<Rightarrow> None
      | Some path \<Rightarrow>
          if path = [] then None
          else
            let off = (if ml_path_separator (wat path 0) \<and> ml_path_separator (wat path 1)
                         \<and> (wat path 2 = QMARK \<or> wat path 2 = DOT) \<and> ml_path_separator (wat path 3)
                       then 4 else 0);
                off = off + (if wat path off \<noteq> 0 \<and> wat path (off + 1) = COLON then 2 else 0)
            in map_option (\<lambda>i. off + i) (find_index (\<lambda>c. c = COLON) (drop off path)))"

subsection \<open>Reading the disk file\<close>

text \<open>\<open>ReadFile\<close> in a loop; a failed or empty read ends it. \<open>fuel\<close> counts the bytes left.\<close>

fun zip_read_loop :: "nat \<Rightarrow> (nat \<Rightarrow> nat \<Rightarrow> byte list option) \<Rightarrow> nat \<Rightarrow> byte list \<Rightarrow> nat \<Rightarrow> byte list" where
  "zip_read_loop 0 disk offset acc sz = acc"
| "zip_read_loop (Suc fuel) disk offset acc sz =
     (if length acc < sz then
        let chunk = (if sz - length acc > MAXDWORD then MAXDWORD else sz - length acc)
        in case disk (offset + length acc) chunk of
             None \<Rightarrow> acc
           | Some bytes \<Rightarrow>
               if bytes = [] then acc
               else zip_read_loop fuel disk offset (acc @ take chunk bytes) sz
      else acc)"

definition zip_read :: "zip_package \<Rightarrow> nat \<Rightarrow> nat \<Rightarrow> byte list" where
  "zip_read package offset sz =
     (if offset > INT64_MAX then [] else zip_read_loop sz (zp_disk package) offset [] sz)"

subsection \<open>Indexing\<close>

definition valid_virtual_name :: "wstr \<Rightarrow> bool" where
  "valid_virtual_name name \<longleftrightarrow>
     list_all (\<lambda>c. \<not> c < 32 \<and> c \<notin> set [COLON, 60, 62, 34, 124, QMARK, 42]) name"

text \<open>\<open>MultiByteToWideChar\<close>: code page and strictness; \<open>None\<close> when it returns 0.\<close>

datatype code_page = CP_UTF8_STRICT | CP_437

type_synonym mbtwc_api = "code_page \<Rightarrow> byte list \<Rightarrow> wstr option"

definition zip_filename :: "mbtwc_api \<Rightarrow> byte list \<Rightarrow> 16 word \<Rightarrow> heap \<Rightarrow> wstr option \<times> heap" where
  "zip_filename mbtwc name flags h =
     (if length name + 1 \<le> 1 \<or> length name > INT_MAX then (None, h)
      else case ml_mem_alloc h of
        (False, h) \<Rightarrow> (None, h)
      | (True, h) \<Rightarrow>
          if 0 \<in> set name then (None, h)
          else
            let converted =
              (case mbtwc CP_UTF8_STRICT name of
                 Some wide \<Rightarrow> Some wide
               | None \<Rightarrow> if and flags 2048 = 0 then mbtwc CP_437 name else None)
            in case converted of
                 None \<Rightarrow> (None, h)
               | Some wide \<Rightarrow>
                   (case ml_mem_alloc h of (True, h) \<Rightarrow> (Some wide, h) | (False, h) \<Rightarrow> (None, h)))"

text \<open>The index being built: the files, the capacity of their array, whether the root was seen.\<close>

record zip_index_state =
  zi_files :: "zip_file list"
  zi_capacity :: nat
  zi_found :: bool

definition zip_add_file ::
  "wstr \<Rightarrow> nat \<Rightarrow> nat \<Rightarrow> zip_index_state \<Rightarrow> heap \<Rightarrow> (mz_error + zip_index_state) \<times> heap" where
  "zip_add_file relative file sz st h =
     (let added = (\<lambda>st. st\<lparr>zi_files := zi_files st
            @ [\<lparr>zf_relative = relative, zf_archive_index = file, zf_size = sz\<rparr>]\<rparr>)
      in if length (zi_files st) = zi_capacity st then
           let capacity = (if zi_capacity st = 0 then 128 else zi_capacity st * 2)
           in if capacity < zi_capacity st \<or> capacity > SIZE_MAX div 24
              then (Inl MZ_ZIP_ALLOC_FAILED, h)
              else case ml_mem_alloc h of
                (False, h) \<Rightarrow> (Inl MZ_ZIP_ALLOC_FAILED, h)
              | (True, h) \<Rightarrow> (Inr (added (st\<lparr>zi_capacity := capacity\<rparr>)), h)
         else (Inr (added st), h))"

text \<open>One round of the loop over the archive's files.\<close>

definition zip_index_step ::
  "mbtwc_api \<Rightarrow> wstr \<Rightarrow> nat \<Rightarrow> mz_stat option \<Rightarrow> zip_index_state \<Rightarrow> heap
     \<Rightarrow> (mz_error + zip_index_state) \<times> heap" where
  "zip_index_step mbtwc root file entry st h =
     (case entry of None \<Rightarrow> (Inl MZ_ZIP_READER, h)
      | Some stat \<Rightarrow>
        (case zip_filename mbtwc (m_filename stat) (m_bit_flag stat) h of
           (None, h) \<Rightarrow> (Inl MZ_ZIP_INVALID_FILENAME, h)
         | (Some name, h) \<Rightarrow>
           if wat name 0 = SLASH \<or> wat name 0 = BSLASH \<or> \<not> valid_virtual_name name
           then (Inl MZ_ZIP_INVALID_FILENAME, h)
           else case vfs_normalize_path (Some name) h of
             (None, h) \<Rightarrow> (Inl MZ_ZIP_INVALID_FILENAME, h)
           | (Some key, h) \<Rightarrow>
             if key = [] then
               (if m_is_directory stat then (Inr st, h) else (Inl MZ_ZIP_INVALID_FILENAME, h))
             else
               let st = (if root \<noteq> [] \<and> key = root \<and> m_is_directory stat
                         then st\<lparr>zi_found := True\<rparr> else st)
               in if root \<noteq> [] \<and> (take (length root) key \<noteq> root \<or> wat key (length root) \<noteq> BSLASH)
                  then (Inr st, h)
                  else
                    let st = (if root \<noteq> [] then st\<lparr>zi_found := True\<rparr> else st);
                        relative = (if root \<noteq> [] then drop (length root + 1) key else key)
                    in if m_is_directory stat then (Inr st, h)
                       else if \<not> m_is_supported stat then
                         (Inl (if m_is_encrypted stat then MZ_ZIP_UNSUPPORTED_ENCRYPTION
                               else MZ_ZIP_UNSUPPORTED_METHOD), h)
                       else zip_add_file relative file (m_uncomp_size stat) st h))"

fun zip_index_loop ::
  "mbtwc_api \<Rightarrow> wstr \<Rightarrow> nat \<Rightarrow> mz_stat option list \<Rightarrow> zip_index_state \<Rightarrow> heap
     \<Rightarrow> (mz_error + zip_index_state) \<times> heap" where
  "zip_index_loop mbtwc root file [] st h = (Inr st, h)"
| "zip_index_loop mbtwc root file (e # es) st h =
     res_bind (zip_index_step mbtwc root file e st h)
       (\<lambda>st h. zip_index_loop mbtwc root (Suc file) es st h)"

text \<open>
  The whole of \<open>zip_index\<close>: on success the normalized root and the package's files.
\<close>

definition zip_index ::
  "mbtwc_api \<Rightarrow> mz_stat option list \<Rightarrow> wstr \<Rightarrow> heap \<Rightarrow> (mz_error + wstr \<times> zip_file list) \<times> heap" where
  "zip_index mbtwc entries root h =
     (if \<not> valid_virtual_name root then (Inl MZ_ZIP_INVALID_FILENAME, h)
      else case vfs_normalize_path (Some root) h of
        (None, h) \<Rightarrow> (Inl MZ_ZIP_INVALID_FILENAME, h)
      | (Some root, h) \<Rightarrow>
          res_bind (zip_index_loop mbtwc root 0 entries
              \<lparr>zi_files = [], zi_capacity = 0, zi_found = (root = [])\<rparr> h)
            (\<lambda>st h. if \<not> zi_found st then (Inl MZ_ZIP_FILE_NOT_FOUND, h)
                    else (Inr (root, zi_files st), h)))"

text \<open>
  What opening an archive meets outside the program: the file and miniz's reader.
\<close>

record zip_archive =
  za_entries :: "mz_stat option list"
  za_size :: nat
  za_disk :: "nat \<Rightarrow> nat \<Rightarrow> byte list option"
  za_reader_init :: bool

type_synonym archive_api = "wstr \<Rightarrow> zip_archive option"

text \<open>\<open>None\<close> of the archive is a file that does not open; \<open>pid\<close> names the new package.\<close>

definition zip_package_open ::
  "archive_api \<Rightarrow> mbtwc_api \<Rightarrow> nat \<Rightarrow> wstr option \<Rightarrow> wstr option \<Rightarrow> heap \<Rightarrow> zip_package option \<times> heap" where
  "zip_package_open archives mbtwc pid path root h =
     (case path of None \<Rightarrow> (None, h)
      | Some path \<Rightarrow>
          if path = [] then (None, h)
          else case ml_mem_alloc h of
            (False, h) \<Rightarrow> (None, h)
          | (True, h) \<Rightarrow>
              (case ml_mem_alloc h of
                 (False, h) \<Rightarrow> (None, h)
               | (True, h) \<Rightarrow>
                   (case archives path of None \<Rightarrow> (None, h)
                    | Some a \<Rightarrow>
                        if \<not> za_reader_init a then (None, h)
                        else case zip_index mbtwc (za_entries a)
                                    (case root of None \<Rightarrow> [] | Some r \<Rightarrow> r) h of
                          (Inl e, h) \<Rightarrow> (None, h)
                        | (Inr (nroot, files), h) \<Rightarrow>
                            (Some \<lparr>zp_id = pid, zp_path = path, zp_root = nroot, zp_files = files,
                                   zp_entries = za_entries a, zp_archive_size = za_size a,
                                   zp_disk = za_disk a\<rparr>, h))))"

definition zip_package_count :: "zip_package \<Rightarrow> nat" where
  "zip_package_count package = length (zp_files package)"

definition zip_package_relative_path :: "zip_package \<Rightarrow> nat \<Rightarrow> wstr" where
  "zip_package_relative_path package file = zf_relative (zp_files package ! file)"

definition zip_package_file_size :: "zip_package \<Rightarrow> nat \<Rightarrow> nat" where
  "zip_package_file_size package file = zf_size (zp_files package ! file)"

subsection \<open>Streams\<close>

datatype mz_status = MZ_STREAM_END | MZ_OK | MZ_BUF_ERROR | MZ_ERROR

text \<open>
  One call of \<open>mz_inflate\<close> after the calls in the history: how much input it consumes, the
  bytes it writes and its status, for the given input and output room.
\<close>

type_synonym inflate_calls = "(byte list \<times> nat) list"
type_synonym inflate_api = "inflate_calls \<Rightarrow> byte list \<Rightarrow> nat \<Rightarrow> nat \<times> byte list \<times> mz_status"
type_synonym crc_api = "32 word \<Rightarrow> byte list \<Rightarrow> 32 word"

record zip_stream =
  zs_package :: zip_package
  zs_stat :: mz_stat
  zs_calls :: inflate_calls
  zs_avail_in :: "byte list"
  zs_data_offset :: nat
  zs_compressed_loaded :: nat
  zs_position :: nat
  zs_crc :: "32 word"
  zs_error :: "win_error option"
  zs_ended :: bool

definition zip_u16 :: "byte list \<Rightarrow> nat \<Rightarrow> nat" where
  "zip_u16 p i = unat (p ! i) + 256 * unat (p ! (i + 1))"

definition zip_header_ok :: "mz_stat \<Rightarrow> byte list \<Rightarrow> bool" where
  "zip_header_ok stat header \<longleftrightarrow>
     length header = 30 \<and> take 4 header = [80, 75, 3, 4] \<and>
     zip_u16 header 8 = m_method stat \<and>
     and (header ! 6) 97 = 0"

definition zip_stream_open ::
  "zip_package option \<Rightarrow> nat \<Rightarrow> heap \<Rightarrow> (win_error + zip_stream) \<times> heap" where
  "zip_stream_open package file h =
     (case package of None \<Rightarrow> (Inl ERROR_INVALID_PARAMETER, h)
      | Some package \<Rightarrow>
        if file \<ge> length (zp_files package) then (Inl ERROR_INVALID_PARAMETER, h)
        else case zp_entries package ! zf_archive_index (zp_files package ! file) of
          None \<Rightarrow> (Inl ERROR_INVALID_DATA, h)
        | Some stat \<Rightarrow>
          let header = zip_read package (m_local_header_ofs stat) 30
          in if m_uncomp_size stat > INT64_MAX \<or> \<not> zip_header_ok stat header
             then (Inl ERROR_INVALID_DATA, h)
             else
               let stat = (if m_method stat = MZ_DEFLATED \<and> m_comp_size stat = 0
                             \<and> m_uncomp_size stat = 0 then stat\<lparr>m_method := 0\<rparr> else stat)
               in case ml_mem_alloc h of
                    (False, h) \<Rightarrow> (Inl ERROR_NOT_ENOUGH_MEMORY, h)
                  | (True, h) \<Rightarrow>
                    let offset = m_local_header_ofs stat + 30 + zip_u16 header 26 + zip_u16 header 28;
                        stream = \<lparr>zs_package = package, zs_stat = stat, zs_calls = [],
                          zs_avail_in = [], zs_data_offset = offset, zs_compressed_loaded = 0,
                          zs_position = 0, zs_crc = 0, zs_error = None, zs_ended = False\<rparr>
                    in if offset > zp_archive_size package
                          \<or> m_comp_size stat > zp_archive_size package - offset
                          \<or> (m_method stat = 0 \<and> m_comp_size stat \<noteq> m_uncomp_size stat)
                       then (Inl ERROR_INVALID_DATA, h)
                       else if m_method stat = MZ_DEFLATED then
                         (case ml_mem_alloc h of
                            (False, h) \<Rightarrow> (Inl ERROR_NOT_ENOUGH_MEMORY, h)
                          | (True, h) \<Rightarrow> (Inr stream, h))
                       else (Inr stream, h))"

definition zip_stream_size :: "zip_stream \<Rightarrow> nat" where
  "zip_stream_size stream = m_uncomp_size (zs_stat stream)"

definition zip_stream_error :: "win_error \<Rightarrow> zip_stream \<Rightarrow> zip_stream" where
  "zip_stream_error error stream = stream\<lparr>zs_error := Some error\<rparr>"

text \<open>A bounded read of compressed data; a short one is recorded as the stream's error.\<close>

definition zip_stream_input :: "zip_stream \<Rightarrow> nat \<Rightarrow> nat \<Rightarrow> byte list option \<times> zip_stream" where
  "zip_stream_input stream offset sz =
     (let bytes = zip_read (zs_package stream) (zs_data_offset stream + offset) sz
      in if length bytes = sz then (Some bytes, stream)
         else (None, zip_stream_error ERROR_READ_FAULT stream))"

text \<open>
  Results of a read: success, the bytes put into the buffer (\<open>*read\<close> of them) and the stream.
\<close>

type_synonym stream_read = "bool \<times> byte list \<times> zip_stream"

text \<open>The loop for stored entries; every round reads at least one byte.\<close>

fun stored_loop :: "nat \<Rightarrow> crc_api \<Rightarrow> zip_stream \<Rightarrow> nat \<Rightarrow> byte list \<Rightarrow> stream_read option" where
  "stored_loop 0 crc32 stream sz acc = None"
| "stored_loop (Suc fuel) crc32 stream sz acc =
     (if length acc < sz then
        let chunk = (if sz - length acc < ZIP_STORED_CHUNK_SIZE then sz - length acc
                     else ZIP_STORED_CHUNK_SIZE)
        in case zip_stream_input stream (zs_position stream) chunk of
             (None, stream) \<Rightarrow> Some (False, acc, stream)
           | (Some target, stream) \<Rightarrow>
               stored_loop fuel crc32
                 (stream\<lparr>zs_crc := crc32 (zs_crc stream) target,
                         zs_position := zs_position stream + chunk\<rparr>)
                 sz (acc @ target)
      else if zs_position stream = m_uncomp_size (zs_stat stream)
              \<and> zs_crc stream \<noteq> m_crc32 (zs_stat stream)
      then Some (False, acc, zip_stream_error ERROR_CRC stream)
      else Some (True, acc, stream))"

text \<open>
  One call of the inflater: it consumes a prefix of the input and writes at most
  \<open>avail_out\<close> bytes.
\<close>

definition mz_inflate ::
  "inflate_api \<Rightarrow> zip_stream \<Rightarrow> nat \<Rightarrow> byte list \<times> mz_status \<times> zip_stream" where
  "mz_inflate inflate stream avail_out =
     (let (consumed, produced, status) = inflate (zs_calls stream) (zs_avail_in stream) avail_out
      in (take avail_out produced, status,
          stream\<lparr>zs_calls := zs_calls stream @ [(zs_avail_in stream, avail_out)],
                 zs_avail_in := drop consumed (zs_avail_in stream)\<rparr>))"

text \<open>Refilling the input buffer when it is empty and compressed data is left.\<close>

definition inflate_refill :: "zip_stream \<Rightarrow> bool \<times> zip_stream" where
  "inflate_refill stream =
     (if zs_avail_in stream = [] \<and> zs_compressed_loaded stream < m_comp_size (zs_stat stream) then
        let remaining = m_comp_size (zs_stat stream) - zs_compressed_loaded stream;
            chunk = (if remaining < ZIP_STREAM_BUFFER_SIZE then remaining else ZIP_STREAM_BUFFER_SIZE)
        in case zip_stream_input stream (zs_compressed_loaded stream) chunk of
             (None, stream) \<Rightarrow> (False, stream)
           | (Some bytes, stream) \<Rightarrow>
               (True, stream\<lparr>zs_compressed_loaded := zs_compressed_loaded stream + chunk,
                             zs_avail_in := bytes\<rparr>)
      else (True, stream))"

text \<open>
  One round of the loop for deflated entries: \<open>Inl\<close> is a return (with \<open>false\<close>), \<open>Inr\<close>
  the next state of the loop.
\<close>

definition inflate_round ::
  "inflate_api \<Rightarrow> crc_api \<Rightarrow> zip_stream \<Rightarrow> nat \<Rightarrow> byte list
     \<Rightarrow> (byte list \<times> zip_stream) + (byte list \<times> zip_stream)" where
  "inflate_round inflate crc32 stream sz acc =
     (let at_end = (zs_position stream = m_uncomp_size (zs_stat stream))
      in case inflate_refill stream of
           (False, stream) \<Rightarrow> Inl (acc, stream)
         | (True, stream) \<Rightarrow>
             let avail_out = (if at_end then 1
                              else if sz - length acc > UINT_MAX then UINT_MAX else sz - length acc);
                 before_in = length (zs_avail_in stream);
                 (produced, status, stream) = mz_inflate inflate stream avail_out
             in if at_end \<and> produced \<noteq> [] then Inl (acc, zip_stream_error ERROR_INVALID_DATA stream)
                else
                  let stream = (if produced \<noteq> []
                                then stream\<lparr>zs_crc := crc32 (zs_crc stream) produced\<rparr> else stream);
                      stream = stream\<lparr>zs_position := zs_position stream + length produced\<rparr>;
                      acc = acc @ produced
                  in if status = MZ_STREAM_END then
                       let stream = stream\<lparr>zs_ended := True\<rparr>
                       in if zs_position stream \<noteq> m_uncomp_size (zs_stat stream)
                          then Inl (acc, zip_stream_error ERROR_INVALID_DATA stream)
                          else if zs_crc stream \<noteq> m_crc32 (zs_stat stream)
                          then Inl (acc, zip_stream_error ERROR_CRC stream)
                          else Inr (acc, stream)
                     else if (status \<noteq> MZ_OK \<and> status \<noteq> MZ_BUF_ERROR)
                          \<or> (produced = [] \<and> before_in = length (zs_avail_in stream))
                     then Inl (acc, zip_stream_error ERROR_INVALID_DATA stream)
                     else Inr (acc, stream))"

fun inflate_loop ::
  "nat \<Rightarrow> inflate_api \<Rightarrow> crc_api \<Rightarrow> zip_stream \<Rightarrow> nat \<Rightarrow> byte list \<Rightarrow> stream_read option" where
  "inflate_loop 0 inflate crc32 stream sz acc = None"
| "inflate_loop (Suc fuel) inflate crc32 stream sz acc =
     (if \<not> zs_ended stream
         \<and> (length acc < sz \<or> zs_position stream = m_uncomp_size (zs_stat stream)) then
        (case inflate_round inflate crc32 stream sz acc of
           Inl (acc, stream) \<Rightarrow> Some (False, acc, stream)
         | Inr (acc, stream) \<Rightarrow> inflate_loop fuel inflate crc32 stream sz acc)
      else Some (True, acc, stream))"

text \<open>Rounds that can still happen: each one consumes input, writes output or ends the stream.\<close>

definition inflate_budget :: "zip_stream \<Rightarrow> nat \<Rightarrow> byte list \<Rightarrow> nat" where
  "inflate_budget stream sz acc =
     (m_comp_size (zs_stat stream) - zs_compressed_loaded stream) + length (zs_avail_in stream)
     + (sz - length acc) + (if zs_ended stream then 0 else 1)"

definition zip_stream_decode ::
  "inflate_api \<Rightarrow> crc_api \<Rightarrow> zip_stream \<Rightarrow> nat \<Rightarrow> stream_read option" where
  "zip_stream_decode inflate crc32 stream sz =
     (if m_method (zs_stat stream) = 0 then stored_loop (sz + 1) crc32 stream sz []
      else inflate_loop (inflate_budget stream sz [] + 1) inflate crc32 stream sz [])"

definition zip_stream_read ::
  "inflate_api \<Rightarrow> crc_api \<Rightarrow> zip_stream \<Rightarrow> nat \<Rightarrow> stream_read option" where
  "zip_stream_read inflate crc32 stream sz =
     (case zs_error stream of
        Some e \<Rightarrow> Some (False, [], stream)
      | None \<Rightarrow>
          if sz = 0 then Some (True, [], stream)
          else
            let left = m_uncomp_size (zs_stat stream) - zs_position stream
            in zip_stream_decode inflate crc32 stream (if sz > left then left else sz))"

subsection \<open>Lemmas about streams\<close>

lemma zip_stream_input_Some:
  "zip_stream_input stream offset sz = (Some bytes, stream') \<Longrightarrow> stream' = stream \<and> length bytes = sz"
  by (auto simp: zip_stream_input_def Let_def split: if_splits)

lemma zip_stream_input_None:
  "zip_stream_input stream offset sz = (None, stream') \<Longrightarrow> zs_error stream' = Some ERROR_READ_FAULT"
  by (auto simp: zip_stream_input_def zip_stream_error_def Let_def split: if_splits)

lemma zip_stream_error_sel [simp]: "zs_error (zip_stream_error e stream) = Some e"
  by (simp add: zip_stream_error_def)

lemma stored_loop_total:
  "sz - length acc < fuel \<Longrightarrow> stored_loop fuel crc32 stream sz acc \<noteq> None"
proof (induction fuel arbitrary: stream acc)
  case (Suc fuel)
  show ?case
  proof (cases "length acc < sz")
    case True
    let ?chunk = "if sz - length acc < ZIP_STORED_CHUNK_SIZE then sz - length acc else ZIP_STORED_CHUNK_SIZE"
    obtain r st where i: "zip_stream_input stream (zs_position stream) ?chunk = (r, st)" by fastforce
    show ?thesis
    proof (cases r)
      case None
      with i True show ?thesis by (simp add: Let_def)
    next
      case (Some target)
      with i have "length target = ?chunk" using zip_stream_input_Some by blast
      then have "sz - length (acc @ target) < fuel"
        using Suc.prems True by (auto simp: ZIP_STORED_CHUNK_SIZE_def)
      with Suc.IH i Some True show ?thesis by (simp add: Let_def)
    qed
  qed auto
qed simp

lemma inflate_refill_inv:
  assumes "inflate_refill stream = (True, stream')"
  shows "zs_stat stream' = zs_stat stream" "zs_position stream' = zs_position stream"
    "zs_ended stream' = zs_ended stream" "zs_crc stream' = zs_crc stream"
    "zs_error stream' = zs_error stream"
    "(m_comp_size (zs_stat stream') - zs_compressed_loaded stream') + length (zs_avail_in stream')
     = (m_comp_size (zs_stat stream) - zs_compressed_loaded stream) + length (zs_avail_in stream)"
  using assms
  by (auto simp: inflate_refill_def Let_def split: if_splits prod.splits option.splits
      dest: zip_stream_input_Some)

text \<open>What a round that goes on does.\<close>

lemma inflate_round_Inr:
  assumes "inflate_round inflate crc32 stream sz acc = Inr (acc', stream')"
    and "\<not> zs_ended stream"
  obtains produced where "acc' = acc @ produced"
    and "zs_stat stream' = zs_stat stream" and "zs_error stream' = zs_error stream"
    and "zs_position stream' = zs_position stream + length produced"
    and "zs_position stream \<noteq> m_uncomp_size (zs_stat stream) \<Longrightarrow> length produced \<le> sz - length acc"
    and "zs_position stream = m_uncomp_size (zs_stat stream) \<Longrightarrow> produced = []"
    and "zs_ended stream' \<Longrightarrow> zs_position stream' = m_uncomp_size (zs_stat stream')
           \<and> zs_crc stream' = m_crc32 (zs_stat stream')"
    and "inflate_budget stream' sz acc' < inflate_budget stream sz acc"
proof -
  obtain s1 where refill: "inflate_refill stream = (True, s1)"
    using assms(1) by (cases "inflate_refill stream"; cases "fst (inflate_refill stream)")
      (auto simp: inflate_round_def Let_def)
  note inv = inflate_refill_inv [OF refill]
  let ?atend = "zs_position stream = m_uncomp_size (zs_stat stream)"
  let ?out = "if ?atend then 1 else if sz - length acc > UINT_MAX then UINT_MAX else sz - length acc"
  obtain consumed raw status where call:
      "inflate (zs_calls s1) (zs_avail_in s1) ?out = (consumed, raw, status)"
    by (cases "inflate (zs_calls s1) (zs_avail_in s1) ?out") auto
  let ?p = "take ?out raw"
  let ?s2 = "s1\<lparr>zs_calls := zs_calls s1 @ [(zs_avail_in s1, ?out)],
                zs_avail_in := drop consumed (zs_avail_in s1)\<rparr>"
  have infl: "mz_inflate inflate s1 ?out = (?p, status, ?s2)"
    using call by (simp add: mz_inflate_def)
  define p where "p = ?p"
  define s2 where "s2 = (if p \<noteq> [] then ?s2\<lparr>zs_crc := crc32 (zs_crc ?s2) p\<rparr> else ?s2)"
  define s3 where "s3 = s2\<lparr>zs_position := zs_position s2 + length p\<rparr>"
  have eq: "inflate_round inflate crc32 stream sz acc =
      (if ?atend \<and> p \<noteq> [] then Inl (acc, zip_stream_error ERROR_INVALID_DATA ?s2)
       else if status = MZ_STREAM_END then
         (if zs_position s3 \<noteq> m_uncomp_size (zs_stat s3)
          then Inl (acc @ p, zip_stream_error ERROR_INVALID_DATA (s3\<lparr>zs_ended := True\<rparr>))
          else if zs_crc s3 \<noteq> m_crc32 (zs_stat s3)
          then Inl (acc @ p, zip_stream_error ERROR_CRC (s3\<lparr>zs_ended := True\<rparr>))
          else Inr (acc @ p, s3\<lparr>zs_ended := True\<rparr>))
       else if (status \<noteq> MZ_OK \<and> status \<noteq> MZ_BUF_ERROR)
               \<or> (p = [] \<and> length (zs_avail_in s1) = length (zs_avail_in s3))
       then Inl (acc @ p, zip_stream_error ERROR_INVALID_DATA s3)
       else Inr (acc @ p, s3))"
    unfolding inflate_round_def refill Let_def prod.case infl bool.case
      p_def [symmetric] s2_def [symmetric] s3_def [symmetric]
    by simp
  have noend: "?atend \<Longrightarrow> p = []"
    using assms(1) unfolding eq by (simp split: if_splits)
  have res: "acc' = acc @ p \<and>
      (status = MZ_STREAM_END \<and> stream' = s3\<lparr>zs_ended := True\<rparr>
         \<and> zs_position s3 = m_uncomp_size (zs_stat s3) \<and> zs_crc s3 = m_crc32 (zs_stat s3)
       \<or> status \<noteq> MZ_STREAM_END \<and> stream' = s3
         \<and> (p \<noteq> [] \<or> length (zs_avail_in s3) \<noteq> length (zs_avail_in s1)))"
    using assms(1) unfolding eq by (auto split: if_splits)
  have fields: "zs_stat s3 = zs_stat stream" "zs_error s3 = zs_error stream" "zs_ended s3 = False"
      "zs_position s3 = zs_position stream + length p"
      "m_comp_size (zs_stat s3) - zs_compressed_loaded s3 + length (zs_avail_in s1)
       = m_comp_size (zs_stat stream) - zs_compressed_loaded stream + length (zs_avail_in stream)"
      "length (zs_avail_in s3) \<le> length (zs_avail_in s1)"
    using inv assms(2) by (simp_all add: s3_def s2_def)
  have le: "\<not> ?atend \<Longrightarrow> length p \<le> sz - length acc"
    by (auto simp: p_def)
  have room: "sz - length acc = (sz - length (acc @ p)) + length p"
    using le noend by (cases ?atend) auto
  have dec: "inflate_budget stream' sz acc' < inflate_budget stream sz acc"
  proof (cases "status = MZ_STREAM_END")
    case True
    with res fields assms(2) room show ?thesis by (simp add: inflate_budget_def)
  next
    case False
    with res have "p \<noteq> [] \<or> length (zs_avail_in s3) < length (zs_avail_in s1)"
      using fields(6) by linarith
    then have "0 < length p + (length (zs_avail_in s1) - length (zs_avail_in s3))" by auto
    with False res fields assms(2) room show ?thesis
      by (simp add: inflate_budget_def del: add_gr_0 length_greater_0_conv)
  qed
  show ?thesis
    by (rule that [of p]) (use res fields le noend dec in auto)
qed

lemma inflate_loop_total:
  "inflate_budget stream sz acc < fuel \<Longrightarrow> inflate_loop fuel inflate crc32 stream sz acc \<noteq> None"
proof (induction fuel arbitrary: stream acc)
  case (Suc fuel)
  show ?case
  proof (cases "\<not> zs_ended stream \<and> (length acc < sz \<or> zs_position stream = m_uncomp_size (zs_stat stream))")
    case True
    show ?thesis
    proof (cases "inflate_round inflate crc32 stream sz acc")
      case (Inr r)
      then obtain acc' stream' where r: "inflate_round inflate crc32 stream sz acc = Inr (acc', stream')"
        by (cases r) auto
      from inflate_round_Inr [OF r] True
      have "inflate_budget stream' sz acc' < inflate_budget stream sz acc" by blast
      with Suc True r show ?thesis by simp
    qed (use True in auto)
  qed auto
qed simp

lemma zip_stream_read_total: "zip_stream_read inflate crc32 stream sz \<noteq> None"
proof -
  have "zip_stream_decode inflate crc32 stream n \<noteq> None" for n
    using stored_loop_total [of n "[]" "n + 1" crc32 stream]
      inflate_loop_total [of stream n "[]" "inflate_budget stream n [] + 1" inflate crc32]
    by (simp add: zip_stream_decode_def)
  then show ?thesis by (auto simp: zip_stream_read_def Let_def split: option.splits)
qed

text \<open>
  C26: reading a stream always returns. The loops of \<open>zip_stream_decode\<close> end for every
  archive content and for every behaviour of the inflater, because each round consumes
  input, produces output, ends the stream or fails.
\<close>

theorem zip_stream_read_returns: "zip_stream_read inflate crc32 stream sz \<noteq> None"
  by (rule zip_stream_read_total)

text \<open>The state of a stream that has not failed.\<close>

definition stream_ok :: "zip_stream \<Rightarrow> bool" where
  "stream_ok stream \<longleftrightarrow>
     zs_position stream \<le> m_uncomp_size (zs_stat stream)
     \<and> (m_method (zs_stat stream) \<noteq> 0 \<and> zs_ended stream \<longrightarrow>
          zs_position stream = m_uncomp_size (zs_stat stream)
          \<and> zs_crc stream = m_crc32 (zs_stat stream))"

lemma stored_loop_ok:
  assumes "stored_loop fuel crc32 stream sz acc = Some (True, out, stream')"
    and "zs_position stream + (sz - length acc) \<le> m_uncomp_size (zs_stat stream)"
    and "length acc \<le> sz" and "m_method (zs_stat stream) = 0"
  shows "length out = sz \<and> zs_stat stream' = zs_stat stream
     \<and> zs_position stream' = zs_position stream + (sz - length acc)
     \<and> (zs_position stream' = m_uncomp_size (zs_stat stream') \<longrightarrow> zs_crc stream' = m_crc32 (zs_stat stream'))"
  using assms
proof (induction fuel arbitrary: stream acc)
  case (Suc fuel)
  show ?case
  proof (cases "length acc < sz")
    case True
    let ?chunk = "if sz - length acc < ZIP_STORED_CHUNK_SIZE then sz - length acc else ZIP_STORED_CHUNK_SIZE"
    obtain target where i: "zip_stream_input stream (zs_position stream) ?chunk = (Some target, stream)"
      using Suc.prems(1) True
      by (auto simp: Let_def split: prod.splits option.splits dest: zip_stream_input_Some)
    then have len: "length target = ?chunk" using zip_stream_input_Some by blast
    let ?s = "stream\<lparr>zs_crc := crc32 (zs_crc stream) target, zs_position := zs_position stream + ?chunk\<rparr>"
    have "stored_loop fuel crc32 ?s sz (acc @ target) = Some (True, out, stream')"
      using Suc.prems(1) True i by (simp add: Let_def)
    moreover have "length (acc @ target) \<le> sz"
      "sz - length acc = (sz - length (acc @ target)) + ?chunk"
      using len True by auto
    ultimately show ?thesis using Suc.IH [of ?s "acc @ target"] Suc.prems(2,4) by simp
  next
    case False
    with Suc.prems show ?thesis by (auto split: if_splits)
  qed
qed simp

lemma inflate_loop_ok:
  assumes "inflate_loop fuel inflate crc32 stream sz acc = Some (True, out, stream')"
    and "zs_position stream + (sz - length acc) \<le> m_uncomp_size (zs_stat stream)"
    and "length acc \<le> sz" and "m_method (zs_stat stream) \<noteq> 0" and "stream_ok stream"
  shows "zs_stat stream' = zs_stat stream \<and> stream_ok stream' \<and> length out \<le> sz
     \<and> zs_position stream' + length acc = zs_position stream + length out
     \<and> (zs_ended stream' \<or> (length out = sz \<and> zs_position stream' \<noteq> m_uncomp_size (zs_stat stream')))"
  using assms
proof (induction fuel arbitrary: stream acc)
  case (Suc fuel)
  show ?case
  proof (cases "\<not> zs_ended stream \<and> (length acc < sz \<or> zs_position stream = m_uncomp_size (zs_stat stream))")
    case True
    then obtain acc' s where r: "inflate_round inflate crc32 stream sz acc = Inr (acc', s)"
        and rec: "inflate_loop fuel inflate crc32 s sz acc' = Some (True, out, stream')"
      using Suc.prems(1) by (auto split: sum.splits)
    obtain p where p: "acc' = acc @ p" "zs_stat s = zs_stat stream"
        "zs_position s = zs_position stream + length p"
        "zs_position stream \<noteq> m_uncomp_size (zs_stat stream) \<Longrightarrow> length p \<le> sz - length acc"
        "zs_position stream = m_uncomp_size (zs_stat stream) \<Longrightarrow> p = []"
        "zs_ended s \<Longrightarrow> zs_position s = m_uncomp_size (zs_stat s) \<and> zs_crc s = m_crc32 (zs_stat s)"
      using inflate_round_Inr [OF r] True by metis
    have lp: "length p \<le> sz - length acc" using p(4,5) by fastforce
    have "stream_ok s" using p lp Suc.prems(2) by (auto simp: stream_ok_def)
    moreover have "length acc' \<le> sz" "sz - length acc = (sz - length acc') + length p"
      using lp p(1) Suc.prems(3) by auto
    ultimately show ?thesis using Suc.IH [OF rec] p(1,2,3) Suc.prems(2,4) by auto
  next
    case False
    with Suc.prems show ?thesis by auto
  qed
qed simp

subsection \<open>What a stream delivers\<close>

text \<open>
  The file behind a package: whatever a call of \<open>ReadFile\<close> returns are the bytes of the file at that
  offset, possibly fewer than asked for.
\<close>

definition archive_holds :: "zip_package \<Rightarrow> byte list \<Rightarrow> bool" where
  "archive_holds package contents \<longleftrightarrow>
     (\<forall>offset n bytes. zp_disk package offset n = Some bytes \<longrightarrow>
        prefix (take n bytes) (drop offset contents))"

text \<open>The checksum of a text can be computed piece by piece.\<close>

definition crc_incremental :: "crc_api \<Rightarrow> bool" where
  "crc_incremental crc32 \<longleftrightarrow>
     (\<forall>c. crc32 c [] = c) \<and> (\<forall>c a b. crc32 (crc32 c a) b = crc32 c (a @ b))"

text \<open>
  A run of the inflater over compressed data: the calls so far, what they have written, the data not
  yet consumed and the last status. Each call sees some of the data that is left.
\<close>

inductive inflates ::
  "inflate_api \<Rightarrow> byte list \<Rightarrow> inflate_calls \<Rightarrow> byte list \<Rightarrow> byte list \<Rightarrow> mz_status \<Rightarrow> bool"
  for inflate compressed where
  inflates_start: "inflates inflate compressed [] [] compressed MZ_OK"
| inflates_call: "inflates inflate compressed calls out (input @ later) status
    \<Longrightarrow> inflate calls input room = (consumed, produced, status')
    \<Longrightarrow> inflates inflate compressed (calls @ [(input, room)]) (out @ take room produced)
          (drop consumed input @ later) status'"

text \<open>
  \<open>data\<close> is a beginning of the entry: the stored bytes of the archive, or what the inflater makes of
  the entry's compressed bytes; the whole entry ends with the inflater's end marker and has the
  checksum of the directory.
\<close>

definition compressed_data :: "byte list \<Rightarrow> zip_stream \<Rightarrow> byte list" where
  "compressed_data contents s = take (m_comp_size (zs_stat s)) (drop (zs_data_offset s) contents)"

definition entry_begins :: "inflate_api \<Rightarrow> crc_api \<Rightarrow> byte list \<Rightarrow> zip_stream \<Rightarrow> byte list \<Rightarrow> bool" where
  "entry_begins inflate crc32 contents s data \<longleftrightarrow>
     length data \<le> m_uncomp_size (zs_stat s)
     \<and> (length data = m_uncomp_size (zs_stat s) \<longrightarrow> crc32 0 data = m_crc32 (zs_stat s))
     \<and> (if m_method (zs_stat s) = 0 then prefix data (drop (zs_data_offset s) contents)
        else \<exists>calls rest status. inflates inflate (compressed_data contents s) calls data rest status
               \<and> (length data = m_uncomp_size (zs_stat s) \<longrightarrow> status = MZ_STREAM_END))"

text \<open>The successful reads of a stream from its opening on, and everything they delivered.\<close>

inductive zip_delivered ::
  "inflate_api \<Rightarrow> crc_api \<Rightarrow> zip_package \<Rightarrow> nat \<Rightarrow> zip_stream \<Rightarrow> byte list \<Rightarrow> bool"
  for inflate crc32 package entry where
  delivered_open: "zip_stream_open (Some package) entry h = (Inr stream, h')
    \<Longrightarrow> zip_delivered inflate crc32 package entry stream []"
| delivered_read: "zip_delivered inflate crc32 package entry stream data
    \<Longrightarrow> zip_stream_read inflate crc32 stream sz = Some (True, out, stream')
    \<Longrightarrow> zip_delivered inflate crc32 package entry stream' (data @ out)"

definition zip_entry_begins ::
  "inflate_api \<Rightarrow> crc_api \<Rightarrow> byte list \<Rightarrow> zip_package \<Rightarrow> nat \<Rightarrow> byte list \<Rightarrow> bool" where
  "zip_entry_begins inflate crc32 contents package file data \<longleftrightarrow>
     (\<exists>h h' s. zip_stream_open (Some package) file h = (Inr s, h') \<and> entry_begins inflate crc32 contents s data)"

lemma prefix_more: "prefix a ys \<Longrightarrow> prefix b (drop (length a) ys) \<Longrightarrow> prefix (a @ b) ys"
  by (auto simp: prefix_def)

lemma zip_read_holds:
  assumes "archive_holds package contents"
  shows "prefix (zip_read package offset sz) (drop offset contents)"
proof -
  have "prefix (zip_read_loop fuel (zp_disk package) offset acc sz) (drop offset contents)"
    if "prefix acc (drop offset contents)" for fuel acc
    using that
  proof (induction fuel arbitrary: acc)
    case (Suc fuel)
    let ?chunk = "if sz - length acc > MAXDWORD then MAXDWORD else sz - length acc"
    show ?case
    proof (cases "zp_disk package (offset + length acc) ?chunk")
      case None
      with Suc.prems show ?thesis by simp
    next
      case (Some bytes)
      have "prefix (take ?chunk bytes) (drop (length acc) (drop offset contents))"
        using assms Some by (simp only: archive_holds_def drop_drop add.commute [of "length acc"])
      from Suc.IH [OF prefix_more [OF Suc.prems this]] Suc.prems Some show ?thesis by (simp add: Let_def)
    qed
  qed simp
  from this [of "[]" sz] show ?thesis by (simp add: zip_read_def)
qed

text \<open>A stream that has delivered \<open>data\<close>.\<close>

definition stream_traced :: "inflate_api \<Rightarrow> crc_api \<Rightarrow> byte list \<Rightarrow> zip_stream \<Rightarrow> byte list \<Rightarrow> bool" where
  "stream_traced inflate crc32 contents s data \<longleftrightarrow>
     zs_position s = length data \<and> zs_crc s = crc32 0 data
     \<and> (if m_method (zs_stat s) = 0 then prefix data (drop (zs_data_offset s) contents)
        else \<exists>status. inflates inflate (compressed_data contents s) (zs_calls s) data
               (zs_avail_in s @ drop (zs_compressed_loaded s) (compressed_data contents s)) status
             \<and> (zs_ended s \<longrightarrow> status = MZ_STREAM_END))"

definition stream_source :: "zip_stream \<Rightarrow> zip_package \<times> mz_stat \<times> nat" where
  "stream_source s = (zs_package s, zs_stat s, zs_data_offset s)"

lemma stream_input_holds:
  assumes "archive_holds (zs_package s) contents" and "zip_stream_input s offset sz = (Some bytes, s')"
  shows "s' = s" and "length bytes = sz" and "prefix bytes (drop (zs_data_offset s + offset) contents)"
  using zip_read_holds [OF assms(1), of "zs_data_offset s + offset" sz] assms(2)
  by (auto simp: zip_stream_input_def Let_def split: if_splits)

lemma stored_loop_extends:
  "stored_loop fuel crc32 s sz acc = Some (ok, out, s') \<Longrightarrow> \<exists>rest. out = acc @ rest"
proof (induction fuel arbitrary: s acc)
  case (Suc fuel)
  then show ?case by (fastforce simp: Let_def split: if_splits prod.splits option.splits)
qed simp

lemma stored_loop_traced:
  assumes "stored_loop fuel crc32 s sz acc = Some (True, acc @ out, s')"
    and "archive_holds (zs_package s) contents" and "crc_incremental crc32" and "m_method (zs_stat s) = 0"
    and "stream_traced inflate crc32 contents s data"
  shows "stream_source s' = stream_source s \<and> stream_traced inflate crc32 contents s' (data @ out)"
  using assms
proof (induction fuel arbitrary: s acc out data)
  case (Suc fuel)
  show ?case
  proof (cases "length acc < sz")
    case True
    let ?chunk = "if sz - length acc < ZIP_STORED_CHUNK_SIZE then sz - length acc else ZIP_STORED_CHUNK_SIZE"
    obtain target where i: "zip_stream_input s (zs_position s) ?chunk = (Some target, s)"
      using Suc.prems(1) True
      by (auto simp: Let_def split: prod.splits option.splits dest: zip_stream_input_Some)
    note t = stream_input_holds(2,3) [OF Suc.prems(2) i]
    let ?s = "s\<lparr>zs_crc := crc32 (zs_crc s) target, zs_position := zs_position s + ?chunk\<rparr>"
    have rec: "stored_loop fuel crc32 ?s sz (acc @ target) = Some (True, acc @ out, s')"
      using Suc.prems(1) True i by (simp add: Let_def)
    obtain rest where out: "acc @ out = (acc @ target) @ rest" using stored_loop_extends [OF rec] by blast
    have tr: "zs_position s = length data" "zs_crc s = crc32 0 data"
      "prefix data (drop (zs_data_offset s) contents)"
      using Suc.prems(4,5) by (simp_all add: stream_traced_def)
    have "prefix (data @ target) (drop (zs_data_offset s) contents)"
      using tr(3) t(2) by (intro prefix_more) (simp_all add: tr(1) add.commute)
    then have "stream_traced inflate crc32 contents ?s (data @ target)"
      using tr t(1) Suc.prems(3,4) by (simp add: stream_traced_def crc_incremental_def)
    from Suc.IH [OF rec [unfolded out] _ Suc.prems(3) _ this] Suc.prems(2,4) out
    show ?thesis by (simp add: stream_source_def)
  next
    case False
    with Suc.prems show ?thesis by (auto simp: stream_source_def split: if_splits)
  qed
qed simp

lemma compressed_data_split:
  assumes "prefix bytes (drop (zs_data_offset s + loaded) contents)" and "loaded + length bytes \<le> m_comp_size (zs_stat s)"
  shows "drop loaded (compressed_data contents s) = bytes @ drop (loaded + length bytes) (compressed_data contents s)"
proof -
  obtain rest where r: "drop loaded (drop (zs_data_offset s) contents) = bytes @ rest"
    using assms(1) by (auto simp: prefix_def add.commute)
  then have "drop (loaded + length bytes) (drop (zs_data_offset s) contents) = rest"
    by (metis add.commute append_eq_conv_conj drop_drop)
  with r assms(2) show ?thesis by (simp add: compressed_data_def drop_take)
qed

lemma inflate_refill_traced:
  assumes "inflate_refill s = (True, s')" and "archive_holds (zs_package s) contents"
    and "m_method (zs_stat s) \<noteq> 0" and "stream_traced inflate crc32 contents s data"
  shows "stream_source s' = stream_source s \<and> stream_traced inflate crc32 contents s' data"
proof (cases "zs_avail_in s = [] \<and> zs_compressed_loaded s < m_comp_size (zs_stat s)")
  case False
  with assms show ?thesis by (auto simp: inflate_refill_def)
next
  case True
  let ?left = "m_comp_size (zs_stat s) - zs_compressed_loaded s"
  let ?chunk = "if ?left < ZIP_STREAM_BUFFER_SIZE then ?left else ZIP_STREAM_BUFFER_SIZE"
  obtain bytes where i: "zip_stream_input s (zs_compressed_loaded s) ?chunk = (Some bytes, s)"
    and s': "s' = s\<lparr>zs_compressed_loaded := zs_compressed_loaded s + ?chunk, zs_avail_in := bytes\<rparr>"
    using assms(1) True
    by (auto simp: inflate_refill_def Let_def split: prod.splits option.splits dest: zip_stream_input_Some)
  note h = stream_input_holds(2,3) [OF assms(2) i]
  have "zs_compressed_loaded s + length bytes \<le> m_comp_size (zs_stat s)" using h(1) True by auto
  from compressed_data_split [OF h(2) this] True assms(3,4) h(1) show ?thesis
    by (simp add: s' stream_traced_def stream_source_def compressed_data_def)
qed

lemma inflate_round_traced:
  assumes r: "inflate_round inflate crc32 s sz acc = Inr (acc', s')"
    and "archive_holds (zs_package s) contents" and "crc_incremental crc32" and "m_method (zs_stat s) \<noteq> 0"
    and "stream_traced inflate crc32 contents s data" and "\<not> zs_ended s"
  shows "\<exists>p. acc' = acc @ p \<and> stream_source s' = stream_source s \<and> stream_traced inflate crc32 contents s' (data @ p)"
proof -
  obtain s1 where refill: "inflate_refill s = (True, s1)"
    using r by (cases "inflate_refill s"; cases "fst (inflate_refill s)")
      (auto simp: inflate_round_def Let_def)
  note t1 = inflate_refill_traced [OF refill assms(2,4,5)]
  note inv = inflate_refill_inv [OF refill]
  define room where "room = (if zs_position s = m_uncomp_size (zs_stat s) then 1
    else if sz - length acc > UINT_MAX then UINT_MAX else sz - length acc)"
  obtain consumed raw status where call: "inflate (zs_calls s1) (zs_avail_in s1) room = (consumed, raw, status)"
    by (cases "inflate (zs_calls s1) (zs_avail_in s1) room") auto
  define p where "p = take room raw"
  define s2 where "s2 = s1\<lparr>zs_calls := zs_calls s1 @ [(zs_avail_in s1, room)], zs_avail_in := drop consumed (zs_avail_in s1)\<rparr>"
  define s3 where "s3 = s2\<lparr>zs_crc := crc32 (zs_crc s2) p, zs_position := zs_position s2 + length p\<rparr>"
  have infl: "mz_inflate inflate s1 room = (p, status, s2)"
    using call by (simp add: mz_inflate_def p_def s2_def)
  have crc: "(if p \<noteq> [] then s2\<lparr>zs_crc := crc32 (zs_crc s2) p\<rparr> else s2) = s2\<lparr>zs_crc := crc32 (zs_crc s2) p\<rparr>"
    using assms(3) by (simp add: crc_incremental_def)
  have res: "acc' = acc @ p \<and> (status = MZ_STREAM_END \<and> s' = s3\<lparr>zs_ended := True\<rparr> \<or> s' = s3)"
    using r unfolding inflate_round_def refill Let_def prod.case bool.case room_def [symmetric] infl crc s3_def
    by (auto split: if_splits)
  obtain st where run: "inflates inflate (compressed_data contents s1) (zs_calls s1) data
      (zs_avail_in s1 @ drop (zs_compressed_loaded s1) (compressed_data contents s1)) st"
    using t1 assms(4) inv(1) by (auto simp: stream_traced_def)
  have same: "compressed_data contents s3 = compressed_data contents s1" "stream_source s3 = stream_source s1"
    by (simp_all add: compressed_data_def stream_source_def s3_def s2_def)
  have run3: "inflates inflate (compressed_data contents s3) (zs_calls s3) (data @ p)
      (zs_avail_in s3 @ drop (zs_compressed_loaded s3) (compressed_data contents s3)) status"
    unfolding same using inflates_call [OF run call] by (simp add: s3_def s2_def p_def)
  have "stream_traced inflate crc32 contents (s3\<lparr>zs_ended := e\<rparr>) (data @ p)"
    if "e \<longrightarrow> status = MZ_STREAM_END" for e
    using t1 run3 that assms(3,4) inv(1)
    by (auto simp: stream_traced_def s3_def s2_def crc_incremental_def compressed_data_def)
  moreover have fresh: "s3\<lparr>zs_ended := False\<rparr> = s3"
    using inv(3) assms(6) by (cases s1) (simp add: s3_def s2_def)
  ultimately have tr: "stream_traced inflate crc32 contents s' (data @ p)"
    using res by (metis (full_types))
  have "stream_source s' = stream_source s"
    using res t1 same(2) by (auto simp: stream_source_def)
  with res tr show ?thesis by blast
qed

lemma inflate_loop_traced:
  assumes "inflate_loop fuel inflate crc32 s sz acc = Some (True, out, s')"
    and "archive_holds (zs_package s) contents" and "crc_incremental crc32" and "m_method (zs_stat s) \<noteq> 0"
    and "stream_traced inflate crc32 contents s data"
  shows "\<exists>p. out = acc @ p \<and> stream_source s' = stream_source s \<and> stream_traced inflate crc32 contents s' (data @ p)"
  using assms
proof (induction fuel arbitrary: s acc data)
  case (Suc fuel)
  show ?case
  proof (cases "\<not> zs_ended s \<and> (length acc < sz \<or> zs_position s = m_uncomp_size (zs_stat s))")
    case True
    then obtain acc' s1 where r: "inflate_round inflate crc32 s sz acc = Inr (acc', s1)"
        and rec: "inflate_loop fuel inflate crc32 s1 sz acc' = Some (True, out, s')"
      using Suc.prems(1) by (auto split: sum.splits)
    obtain p where p: "acc' = acc @ p" "stream_source s1 = stream_source s"
        "stream_traced inflate crc32 contents s1 (data @ p)"
      using inflate_round_traced [OF r Suc.prems(2-5)] True by blast
    from Suc.IH [OF rec _ Suc.prems(3) _ p(3)] p(1,2) Suc.prems(2,4) show ?thesis
      by (fastforce simp: stream_source_def)
  next
    case False
    with Suc.prems show ?thesis by (intro exI [of _ "[]"]) auto
  qed
qed simp

lemma zip_stream_read_traced:
  assumes "zip_stream_read inflate crc32 s sz = Some (True, out, s')"
    and "archive_holds (zs_package s) contents" and "crc_incremental crc32"
    and "stream_traced inflate crc32 contents s data"
  shows "stream_source s' = stream_source s \<and> stream_traced inflate crc32 contents s' (data @ out)"
proof (cases "sz = 0")
  case True
  with assms show ?thesis by (auto simp: zip_stream_read_def split: option.splits)
next
  case False
  let ?left = "m_uncomp_size (zs_stat s) - zs_position s"
  have dec: "zip_stream_decode inflate crc32 s (if sz > ?left then ?left else sz) = Some (True, out, s')"
    using assms(1) False by (auto simp: zip_stream_read_def Let_def split: option.splits)
  show ?thesis
  proof (cases "m_method (zs_stat s) = 0")
    case True
    with dec have "stored_loop ((if sz > ?left then ?left else sz) + 1) crc32 s (if sz > ?left then ?left else sz) []
        = Some (True, [] @ out, s')" by (simp add: zip_stream_decode_def del: stored_loop.simps)
    from stored_loop_traced [OF this assms(2,3) True assms(4)] show ?thesis .
  next
    case False
    let ?n = "if sz > ?left then ?left else sz"
    from False dec have "inflate_loop (inflate_budget s ?n [] + 1) inflate crc32 s ?n [] = Some (True, out, s')"
      by (simp add: zip_stream_decode_def del: inflate_loop.simps)
    from inflate_loop_traced [OF this assms(2,3) False assms(4)] show ?thesis by simp
  qed
qed

lemma zip_stream_open_traced:
  assumes "zip_stream_open (Some package) entry h = (Inr s, h')" and "crc_incremental crc32"
  shows "zs_package s = package \<and> stream_ok s \<and> stream_traced inflate crc32 contents s []"
proof -
  have f: "zs_package s = package \<and> zs_position s = 0 \<and> zs_crc s = 0 \<and> zs_ended s = False \<and> zs_calls s = []
      \<and> zs_avail_in s = [] \<and> zs_compressed_loaded s = 0"
    using assms(1) by (auto simp: zip_stream_open_def Let_def split: if_splits option.splits prod.splits bool.splits)
  then show ?thesis using assms(2)
    by (auto simp: stream_ok_def stream_traced_def crc_incremental_def intro: inflates_start)
qed

text \<open>What one read with room for a byte does to a stream in order.\<close>

lemma zip_stream_read_step:
  assumes "zip_stream_read inflate crc32 stream sz = Some (True, out, stream')"
    and "stream_ok stream" and "sz \<noteq> 0"
  shows "stream_ok stream' \<and> zs_stat stream' = zs_stat stream
     \<and> length out = min sz (m_uncomp_size (zs_stat stream) - zs_position stream)
     \<and> zs_position stream' = zs_position stream + length out
     \<and> (zs_position stream' = m_uncomp_size (zs_stat stream') \<longrightarrow>
          zs_crc stream' = m_crc32 (zs_stat stream')
          \<and> (m_method (zs_stat stream') \<noteq> 0 \<longrightarrow> zs_ended stream'))"
proof -
  let ?n = "if sz > m_uncomp_size (zs_stat stream) - zs_position stream
            then m_uncomp_size (zs_stat stream) - zs_position stream else sz"
  have dec: "zip_stream_decode inflate crc32 stream ?n = Some (True, out, stream')"
    using assms(1,3) by (auto simp: zip_stream_read_def Let_def split: option.splits)
  have fit: "zs_position stream + (?n - length []) \<le> m_uncomp_size (zs_stat stream)"
    using assms(2) by (auto simp: stream_ok_def)
  have n: "?n = min sz (m_uncomp_size (zs_stat stream) - zs_position stream)" by simp
  show ?thesis
  proof (cases "m_method (zs_stat stream) = 0")
    case True
    with dec have "stored_loop (?n + 1) crc32 stream ?n [] = Some (True, out, stream')"
      by (simp add: zip_stream_decode_def)
    from stored_loop_ok [OF this fit _ True]
    have "length out = ?n \<and> zs_stat stream' = zs_stat stream
        \<and> zs_position stream' = zs_position stream + ?n
        \<and> (zs_position stream' = m_uncomp_size (zs_stat stream') \<longrightarrow> zs_crc stream' = m_crc32 (zs_stat stream'))"
      by simp
    with True fit show ?thesis unfolding n by (auto simp: stream_ok_def)
  next
    case False
    with dec have "inflate_loop (inflate_budget stream ?n [] + 1) inflate crc32 stream ?n []
        = Some (True, out, stream')"
      by (simp add: zip_stream_decode_def)
    from inflate_loop_ok [OF this fit _ False assms(2)]
    have l: "zs_stat stream' = zs_stat stream \<and> stream_ok stream' \<and> length out \<le> ?n
        \<and> zs_position stream' = zs_position stream + length out
        \<and> (zs_ended stream' \<or> (length out = ?n \<and> zs_position stream' \<noteq> m_uncomp_size (zs_stat stream')))"
      by auto
    then have "length out = ?n"
      using False by (auto simp: stream_ok_def split: if_splits)
    with l False show ?thesis unfolding n by (auto simp: stream_ok_def)
  qed
qed

lemma zip_delivered_ok:
  assumes "zip_delivered inflate crc32 package entry stream data"
    and "archive_holds package contents" and "crc_incremental crc32"
  shows "stream_ok stream \<and> stream_traced inflate crc32 contents stream data
    \<and> (\<exists>h h' s. zip_stream_open (Some package) entry h = (Inr s, h') \<and> zs_package s = package
         \<and> stream_source stream = stream_source s)"
  using assms
proof (induction rule: zip_delivered.induct)
  case (delivered_open h stream h')
  with zip_stream_open_traced [OF delivered_open(1,3)] show ?case by blast
next
  case (delivered_read stream data sz out stream')
  then obtain h h' s where s: "zip_stream_open (Some package) entry h = (Inr s, h')" "zs_package s = package"
    "stream_source stream = stream_source s" and ok: "stream_ok stream" "stream_traced inflate crc32 contents stream data"
    by blast
  have p: "archive_holds (zs_package stream) contents" using s(2,3) assms(2) by (simp add: stream_source_def)
  note t = zip_stream_read_traced [OF delivered_read(2) p assms(3) ok(2)]
  have "stream_ok stream'"
  proof (cases "sz = 0")
    case True
    with delivered_read(2) ok(1) show ?thesis by (auto simp: zip_stream_read_def split: option.splits)
  next
    case False
    with zip_stream_read_step [OF delivered_read(2) ok(1)] show ?thesis by simp
  qed
  with t s show ?case by metis
qed

lemma delivered_read_begins:
  assumes "zip_delivered inflate crc32 package entry stream data"
    and "zip_stream_read inflate crc32 stream sz = Some (True, out, stream')" and "sz \<noteq> 0"
    and "archive_holds package contents" and "crc_incremental crc32"
  shows "length out = min sz (m_uncomp_size (zs_stat stream') - length data)
     \<and> zip_entry_begins inflate crc32 contents package entry (data @ out)"
proof -
  note before = zip_delivered_ok [OF assms(1,4,5)]
  note after = zip_delivered_ok [OF delivered_read [OF assms(1,2)] assms(4,5)]
  note step = zip_stream_read_step [OF assms(2) _ assms(3)]
  have pos: "zs_position stream = length data" "zs_position stream' = length (data @ out)"
    using before after by (simp_all add: stream_traced_def)
  obtain h h' s where s: "zip_stream_open (Some package) entry h = (Inr s, h')"
    "stream_source stream' = stream_source s" using after by blast
  have src: "zs_stat s = zs_stat stream'" "zs_data_offset s = zs_data_offset stream'"
    "compressed_data contents s = compressed_data contents stream'"
    using s(2) by (simp_all add: stream_source_def compressed_data_def)
  have st: "stream_ok stream'" "zs_stat stream' = zs_stat stream"
    "length out = min sz (m_uncomp_size (zs_stat stream) - zs_position stream)"
    "zs_position stream' = m_uncomp_size (zs_stat stream') \<Longrightarrow> zs_crc stream' = m_crc32 (zs_stat stream')
       \<and> (m_method (zs_stat stream') \<noteq> 0 \<longrightarrow> zs_ended stream')"
    using step before by simp_all
  have "zs_crc stream' = crc32 0 (data @ out)"
    and traced: "if m_method (zs_stat stream') = 0 then prefix (data @ out) (drop (zs_data_offset stream') contents)
        else \<exists>status. inflates inflate (compressed_data contents stream') (zs_calls stream') (data @ out)
               (zs_avail_in stream' @ drop (zs_compressed_loaded stream') (compressed_data contents stream')) status
             \<and> (zs_ended stream' \<longrightarrow> status = MZ_STREAM_END)"
    using after unfolding stream_traced_def by blast+
  moreover have "length (data @ out) \<le> m_uncomp_size (zs_stat stream')" using st(1) pos(2) by (simp add: stream_ok_def)
  ultimately have "entry_begins inflate crc32 contents s (data @ out)"
    unfolding entry_begins_def src using st(4) [unfolded pos(2)] by (auto split: if_split_asm)
  with s(1) show ?thesis unfolding zip_entry_begins_def using st(2,3) pos(1) by metis
qed

text \<open>
  C22: nothing but the entry is delivered, and its end is never delivered unchecked. Of a stream that
  was opened and has delivered \<open>data\<close> in any reads, the next read gives as many bytes as were asked
  for or are left, and all bytes together are a beginning of the entry: of a stored one the bytes of
  the archive file, of a deflated one what the inflater makes of the entry's compressed bytes. When
  they are the whole entry, their checksum is the one of the archive's directory and the inflater
  has met its end marker.
\<close>

theorem zip_stream_read_checked:
  assumes "zip_delivered inflate crc32 package entry stream data"
    and "zip_stream_read inflate crc32 stream sz = Some (True, out, stream')" and "sz \<noteq> 0"
    and "archive_holds package contents" and "crc_incremental crc32"
  shows "length out = min sz (m_uncomp_size (zs_stat stream') - length data)
     \<and> zip_entry_begins inflate crc32 contents package entry (data @ out)"
  using assms by (rule delivered_read_begins)

subsection \<open>An archive\<close>

definition example_stat :: mz_stat where
  "example_stat = \<lparr>m_filename = [97], m_is_directory = False, m_is_supported = True,
     m_is_encrypted = False, m_bit_flag = 0, m_method = 0, m_comp_size = 1, m_uncomp_size = 1,
     m_crc32 = 7, m_local_header_ofs = 0\<rparr>"

definition example_header :: "byte list" where
  "example_header = [80, 75, 3, 4] @ replicate 26 0"

definition example_contents :: "byte list" where
  "example_contents = example_header @ [7]"

definition example_package :: zip_package where
  "example_package = \<lparr>zp_id = 0, zp_path = [], zp_root = [],
     zp_files = [\<lparr>zf_relative = [97], zf_archive_index = 0, zf_size = 1\<rparr>],
     zp_entries = [Some example_stat], zp_archive_size = 31,
     zp_disk = \<lambda>offset n. Some (take n (drop offset example_contents))\<rparr>"

definition example_crc :: crc_api where
  "example_crc = foldl (\<lambda>c b. c + ucast b)"

definition example_stream :: zip_stream where
  "example_stream = \<lparr>zs_package = example_package, zs_stat = example_stat, zs_calls = [], zs_avail_in = [],
      zs_data_offset = 30, zs_compressed_loaded = 0, zs_position = 0, zs_crc = 0, zs_error = None, zs_ended = False\<rparr>"

abbreviation no_inflate :: inflate_api where
  "no_inflate \<equiv> \<lambda>_ _ _. (0, [], MZ_ERROR)"

lemma example_archive: "archive_holds example_package example_contents" "crc_incremental example_crc"
  by (simp_all add: archive_holds_def example_package_def take_is_prefix crc_incremental_def example_crc_def)

lemma zip_read_whole:
  assumes "offset \<le> INT64_MAX" "zp_disk p offset n = Some bytes" "length bytes = n" "0 < n" "n \<le> MAXDWORD"
  shows "zip_read p offset n = bytes"
proof -
  have full: "zip_read_loop fuel d off bytes n = bytes" for fuel d off
    using assms(3) by (cases fuel) simp_all
  obtain m where "n = Suc m" using assms(4) gr0_implies_Suc by blast
  with assms full show ?thesis by (auto simp: zip_read_def)
qed

lemma example_sel:
  "zp_files example_package ! 0 = \<lparr>zf_relative = [97], zf_archive_index = 0, zf_size = 1\<rparr>"
  "length (zp_files example_package) = 1" "zp_entries example_package ! 0 = Some example_stat"
  "zp_archive_size example_package = 31"
  "m_local_header_ofs example_stat = 0" "m_method example_stat = 0" "m_comp_size example_stat = 1"
  "m_uncomp_size example_stat = 1" "m_crc32 example_stat = 7"
  by (simp_all add: example_package_def example_stat_def)

lemma example_open: "zip_stream_open (Some example_package) 0 (\<lambda>_. True) = (Inr example_stream, \<lambda>_. True)"
proof -
  have "zip_read example_package 0 30 = example_header"
    by (rule zip_read_whole)
      (simp_all add: example_package_def example_contents_def example_header_def INT64_MAX_def MAXDWORD_def)
  moreover have "zip_header_ok example_stat example_header" "zip_u16 example_header 26 = 0" "zip_u16 example_header 28 = 0"
    by (simp_all add: example_header_def zip_header_ok_def zip_u16_def example_stat_def nth_append)
  ultimately show ?thesis
    by (simp add: zip_stream_open_def example_sel Let_def MZ_DEFLATED_def ml_mem_alloc_def example_stream_def INT64_MAX_def)
qed

lemma example_read:
  "zip_stream_read no_inflate example_crc example_stream 1 = Some (True, [7], example_stream\<lparr>zs_crc := 7, zs_position := 1\<rparr>)"
proof -
  have "zip_read example_package 30 1 = [7]"
    by (rule zip_read_whole)
      (simp_all add: example_package_def example_contents_def example_header_def INT64_MAX_def MAXDWORD_def)
  then show ?thesis
    by (simp add: zip_stream_read_def zip_stream_decode_def zip_stream_input_def example_sel ZIP_STORED_CHUNK_SIZE_def
        example_stream_def example_crc_def)
qed

theorem zip_stream_read_checked_witness:
  "zip_delivered no_inflate example_crc example_package 0 example_stream []
     \<and> zip_entry_begins no_inflate example_crc example_contents example_package 0 [7]"
proof -
  have d: "zip_delivered no_inflate example_crc example_package 0 example_stream []"
    using example_open by (rule delivered_open)
  from zip_stream_read_checked [OF d example_read _ example_archive] d show ?thesis by simp
qed

subsection \<open>Lemmas about the index\<close>

text \<open>
  What the index should hold for one file of the archive: nothing for directories, for the
  archive's own root record and for files outside the package root, and otherwise the file's
  key relative to the root.
\<close>

definition zip_entry_name :: "mbtwc_api \<Rightarrow> mz_stat \<Rightarrow> wstr option" where
  "zip_entry_name mbtwc stat =
     (case mbtwc CP_UTF8_STRICT (m_filename stat) of
        Some wide \<Rightarrow> Some wide
      | None \<Rightarrow> if and (m_bit_flag stat) 2048 = 0 then mbtwc CP_437 (m_filename stat) else None)"

definition zip_entry_key :: "mbtwc_api \<Rightarrow> mz_stat \<Rightarrow> wstr option" where
  "zip_entry_key mbtwc stat = Option.bind (zip_entry_name mbtwc stat) vfs_key"

definition below_root :: "wstr \<Rightarrow> wstr \<Rightarrow> wstr option" where
  "below_root root key =
     (if root = [] then (if key = [] then None else Some key)
      else if take (length root) key = root \<and> wat key (length root) = BSLASH
      then Some (drop (length root + 1) key) else None)"

definition zip_spec_file :: "mbtwc_api \<Rightarrow> wstr \<Rightarrow> nat \<times> mz_stat option \<Rightarrow> zip_file option" where
  "zip_spec_file mbtwc root entry =
     (case entry of (file, None) \<Rightarrow> None
      | (file, Some stat) \<Rightarrow>
          if m_is_directory stat then None
          else Option.bind (zip_entry_key mbtwc stat) (\<lambda>key.
            map_option (\<lambda>relative. \<lparr>zf_relative = relative, zf_archive_index = file,
                                   zf_size = m_uncomp_size stat\<rparr>)
              (below_root root key)))"

lemma vfs_normalize_path_Some:
  "vfs_normalize_path (Some p) h = (Some key, h') \<Longrightarrow> vfs_key p = Some key"
  by (auto simp: vfs_normalize_path_def vfs_key_def split: if_splits prod.splits bool.splits)

lemma zip_filename_Some:
  "zip_filename mbtwc (m_filename stat) (m_bit_flag stat) h = (Some name, h') \<Longrightarrow>
     zip_entry_name mbtwc stat = Some name"
  by (auto simp: zip_filename_def zip_entry_name_def Let_def
      split: if_splits prod.splits bool.splits option.splits)

lemma zip_add_file_Inr:
  "zip_add_file relative file sz st h = (Inr st', h') \<Longrightarrow>
     zi_files st' = zi_files st @ [\<lparr>zf_relative = relative, zf_archive_index = file, zf_size = sz\<rparr>]"
  by (auto simp: zip_add_file_def Let_def split: if_splits prod.splits bool.splits)

lemma zip_index_step_Inr:
  assumes "zip_index_step mbtwc root file entry st h = (Inr st', h')"
  shows "zi_files st' = zi_files st @ (case zip_spec_file mbtwc root (file, entry) of
           None \<Rightarrow> [] | Some f \<Rightarrow> [f])
    \<and> (\<exists>stat. entry = Some stat \<and> zip_entry_key mbtwc stat \<noteq> None
         \<and> (zip_spec_file mbtwc root (file, entry) \<noteq> None \<longrightarrow> m_is_supported stat))"
proof -
  obtain stat where e: "entry = Some stat"
    using assms by (cases entry) (auto simp: zip_index_step_def)
  obtain name h1 where f: "zip_filename mbtwc (m_filename stat) (m_bit_flag stat) h = (Some name, h1)"
    using assms e by (auto simp: zip_index_step_def split: prod.splits option.splits)
  obtain key h2 where n: "vfs_normalize_path (Some name) h1 = (Some key, h2)"
    using assms e f by (auto simp: zip_index_step_def split: prod.splits option.splits if_splits)
  have nm: "\<not> (wat name 0 = SLASH \<or> wat name 0 = BSLASH \<or> \<not> valid_virtual_name name)"
    by (rule ccontr) (use assms e f in \<open>simp add: zip_index_step_def\<close>)
  have k: "zip_entry_key mbtwc stat = Some key"
    using zip_filename_Some [OF f] vfs_normalize_path_Some [OF n] by (simp add: zip_entry_key_def)
  let ?st1 = "if root \<noteq> [] \<and> key = root \<and> m_is_directory stat then st\<lparr>zi_found := True\<rparr> else st"
  let ?st2 = "if root \<noteq> [] then ?st1\<lparr>zi_found := True\<rparr> else ?st1"
  have step: "(if key = [] then
               (if m_is_directory stat then (Inr st, h2) else (Inl MZ_ZIP_INVALID_FILENAME, h2))
             else if root \<noteq> [] \<and> (take (length root) key \<noteq> root \<or> wat key (length root) \<noteq> BSLASH)
             then (Inr ?st1, h2)
             else if m_is_directory stat then (Inr ?st2, h2)
             else if \<not> m_is_supported stat then
               (Inl (if m_is_encrypted stat then MZ_ZIP_UNSUPPORTED_ENCRYPTION
                     else MZ_ZIP_UNSUPPORTED_METHOD), h2)
             else zip_add_file (if root \<noteq> [] then drop (length root + 1) key else key) file
                    (m_uncomp_size stat) ?st2 h2) = (Inr st', h')"
    using assms unfolding zip_index_step_def e f option.case prod.case if_not_P [OF nm] n Let_def
    by assumption
  have files: "zi_files ?st1 = zi_files st" "zi_files ?st2 = zi_files st" by simp_all
  have spec: "zip_spec_file mbtwc root (file, entry) =
      (if m_is_directory stat then None
       else map_option (\<lambda>relative. \<lparr>zf_relative = relative, zf_archive_index = file,
              zf_size = m_uncomp_size stat\<rparr>) (below_root root key))"
    using e k by (simp add: zip_spec_file_def)
  consider (empty) "key = []"
    | (out) "key \<noteq> []" "root \<noteq> []" "take (length root) key \<noteq> root \<or> wat key (length root) \<noteq> BSLASH"
    | (dir) "key \<noteq> []" "root = [] \<or> take (length root) key = root \<and> wat key (length root) = BSLASH"
        "m_is_directory stat"
    | (plain) "key \<noteq> []" "root = [] \<or> take (length root) key = root \<and> wat key (length root) = BSLASH"
        "\<not> m_is_directory stat"
    by blast
  then have "zi_files st' = zi_files st @ (case zip_spec_file mbtwc root (file, entry) of
           None \<Rightarrow> [] | Some f \<Rightarrow> [f])
      \<and> (zip_spec_file mbtwc root (file, entry) \<noteq> None \<longrightarrow> m_is_supported stat)"
  proof cases
    case empty
    with step have "st' = st" "m_is_directory stat" by (simp_all split: if_splits)
    then show ?thesis by (simp add: spec)
  next
    case out
    with step have "st' = ?st1" by simp
    moreover from out have "below_root root key = None" by (auto simp: below_root_def)
    ultimately show ?thesis using files by (simp add: spec)
  next
    case dir
    with step have "st' = ?st2" by (cases "root = []") simp_all
    with dir files show ?thesis by (simp add: spec)
  next
    case plain
    then have b: "below_root root key = Some (if root \<noteq> [] then drop (length root + 1) key else key)"
      by (auto simp: below_root_def)
    from plain step have sup: "m_is_supported stat" by (cases "root = []") (auto split: if_splits)
    with plain step have "zip_add_file (if root \<noteq> [] then drop (length root + 1) key else key) file
                    (m_uncomp_size stat) ?st2 h2 = (Inr st', h')"
      by (cases "root = []") simp_all
    from zip_add_file_Inr [OF this] show ?thesis using b sup plain(3) files by (simp add: spec)
  qed
  with e k show ?thesis by simp
qed

lemma zip_index_loop_Inr:
  assumes "zip_index_loop mbtwc root n entries st h = (Inr st', h')"
  shows "zi_files st' = zi_files st @
      List.map_filter (zip_spec_file mbtwc root) (enumerate n entries)
    \<and> (\<forall>e\<in>set entries. \<exists>stat. e = Some stat \<and> zip_entry_key mbtwc stat \<noteq> None)"
  using assms
proof (induction entries arbitrary: n st h)
  case (Cons e es)
  obtain st1 h1 where s: "zip_index_step mbtwc root n e st h = (Inr st1, h1)"
      and rest: "zip_index_loop mbtwc root (Suc n) es st1 h1 = (Inr st', h')"
    using Cons.prems by (auto elim: res_bind_InrE)
  from zip_index_step_Inr [OF s] Cons.IH [OF rest] show ?case
    by (auto simp: map_filter_simps split: option.splits)
qed (simp add: map_filter_simps)

lemma zip_index_files:
  assumes "zip_index mbtwc entries root h = (Inr (nroot, files), h')"
  shows "vfs_key root = Some nroot
     \<and> files = List.map_filter (zip_spec_file mbtwc nroot) (enumerate 0 entries)
     \<and> (\<forall>e\<in>set entries. \<exists>stat. e = Some stat \<and> zip_entry_key mbtwc stat \<noteq> None)"
proof -
  obtain h1 where n: "vfs_normalize_path (Some root) h = (Some nroot, h1)"
      and b: "res_bind (zip_index_loop mbtwc nroot 0 entries
              \<lparr>zi_files = [], zi_capacity = 0, zi_found = (nroot = [])\<rparr> h1)
            (\<lambda>st h. if \<not> zi_found st then (Inl MZ_ZIP_FILE_NOT_FOUND, h)
                    else (Inr (nroot, zi_files st), h)) = (Inr (nroot, files), h')"
    using assms
    by (auto simp: zip_index_def res_bind_def split: if_splits prod.splits option.splits sum.splits)
  from b obtain st h2 where l: "zip_index_loop mbtwc nroot 0 entries
      \<lparr>zi_files = [], zi_capacity = 0, zi_found = (nroot = [])\<rparr> h1 = (Inr st, h2)"
      and f: "files = zi_files st"
    by (auto elim!: res_bind_InrE split: if_splits)
  show ?thesis
    using zip_index_loop_Inr [OF l] vfs_normalize_path_Some [OF n] f by simp
qed

text \<open>
  C27: the package holds exactly the archive's files below its root. When indexing succeeds,
  every archive record has a valid name and the package's files are, in archive order, the
  non-directories below the normalized root, under their keys relative to it and with the
  sizes that the archive declares.
\<close>

theorem zip_index_spec:
  assumes "zip_index mbtwc entries root h = (Inr (nroot, files), h')"
  shows "vfs_key root = Some nroot
     \<and> files = List.map_filter (zip_spec_file mbtwc nroot) (enumerate 0 entries)
     \<and> (\<forall>e\<in>set entries. \<exists>stat. e = Some stat \<and> zip_entry_key mbtwc stat \<noteq> None)"
  using assms by (rule zip_index_files)

theorem zip_index_spec_witness:
  "\<exists>h'. zip_index (\<lambda>_ b. Some (map ucast b)) [Some (example_stat\<lparr>m_filename := [77, 47, 65]\<rparr>)]
      (L ''m'') (\<lambda>_. True) = (Inr (L ''m'', [\<lparr>zf_relative = L ''a'', zf_archive_index = 0, zf_size = 1\<rparr>]), h')
   \<and> vfs_key (L ''m'') = Some (L ''m'')"
proof -
  let ?r = "zip_index (\<lambda>_ b. Some (map ucast b)) [Some (example_stat\<lparr>m_filename := [77, 47, 65]\<rparr>)]
      (L ''m'') (\<lambda>_. True)"
  have k: "vfs_key (L ''m'') = Some (L ''m'')" "vfs_key [77, 47, 65] = Some (L ''m'' @ BSLASH # L ''a'')"
    by code_simp+
  then have k: "vfs_key [109] = Some [109]" "vfs_key [77, 47, 65] = Some [109, BSLASH, 97]"
    by simp_all
  have "fst ?r = Inr (L ''m'', [\<lparr>zf_relative = L ''a'', zf_archive_index = 0, zf_size = 1\<rparr>])"
    using k by (simp add: zip_index_def valid_virtual_name_def vfs_normalize_path_ok zip_index_step_def
        zip_filename_def example_stat_def INT_MAX_def zip_add_file_def SIZE_MAX_def)
  then obtain h' where r: "?r = (Inr (L ''m'', [\<lparr>zf_relative = L ''a'', zf_archive_index = 0, zf_size = 1\<rparr>]), h')"
    by (metis prod.collapse)
  show ?thesis using r zip_index_spec [OF r] by blast
qed

subsection \<open>Whole entries\<close>

text \<open>The sizes of the package's files are those of the archive's directory.\<close>

definition package_sized :: "zip_package \<Rightarrow> bool" where
  "package_sized package \<longleftrightarrow>
     (\<forall>f\<in>set (zp_files package). \<forall>stat. zp_entries package ! zf_archive_index f = Some stat \<longrightarrow>
        zf_size f = m_uncomp_size stat)"

lemma zip_package_open_sized:
  assumes "zip_package_open archives mbtwc pid path root h = (Some package, h')"
  shows "package_sized package"
proof -
  obtain es rt nroot fs h1 h2 where i: "zip_index mbtwc es rt h1 = (Inr (nroot, fs), h2)"
    and p: "zp_files package = fs" "zp_entries package = es"
    using assms by (auto simp: zip_package_open_def split: option.splits if_splits prod.splits bool.splits sum.splits)
  have spec: "zf_archive_index f = n \<and> (\<exists>stat. x = Some stat \<and> zf_size f = m_uncomp_size stat)"
    if "zip_spec_file mbtwc nroot (n, x) = Some f" for n x f
    using that by (auto simp: zip_spec_file_def Option.bind_eq_Some_conv split: option.splits if_splits)
  show ?thesis
    unfolding package_sized_def
  proof (intro ballI allI impI)
    fix f stat assume f: "f \<in> set (zp_files package)" and stat: "zp_entries package ! zf_archive_index f = Some stat"
    obtain n x where n: "(n, x) \<in> set (enumerate 0 es)" "zip_spec_file mbtwc nroot (n, x) = Some f"
      using f p(1) zip_index_files [OF i] by (auto simp: List.map_filter_def)
    then have "x = es ! n" by (auto simp: in_set_enumerate_eq)
    with spec [OF n(2)] stat p(2) show "zf_size f = m_uncomp_size stat" by auto
  qed
qed

text \<open>\<open>data\<close> is the whole entry.\<close>

definition zip_entry_is ::
  "inflate_api \<Rightarrow> crc_api \<Rightarrow> byte list \<Rightarrow> zip_package \<Rightarrow> nat \<Rightarrow> byte list \<Rightarrow> bool" where
  "zip_entry_is inflate crc32 contents package entry data \<longleftrightarrow>
     (\<exists>h h' s. zip_stream_open (Some package) entry h = (Inr s, h') \<and> length data = m_uncomp_size (zs_stat s)
        \<and> entry_begins inflate crc32 contents s data)"

lemma zip_stream_open_entry:
  assumes "zip_stream_open (Some package) entry h = (Inr s, h')" and "package_sized package"
  shows "m_uncomp_size (zs_stat s) = zip_package_file_size package entry"
proof -
  have e: "entry < length (zp_files package)"
    using assms(1) by (auto simp: zip_stream_open_def split: if_splits)
  obtain stat where "zp_entries package ! zf_archive_index (zp_files package ! entry) = Some stat"
    and "m_uncomp_size (zs_stat s) = m_uncomp_size stat"
    using assms(1) by (auto simp: zip_stream_open_def Let_def split: if_splits option.splits prod.splits bool.splits)
  with e assms(2) show ?thesis by (auto simp: package_sized_def zip_package_file_size_def)
qed

lemma zip_entry_whole:
  assumes "zip_entry_begins inflate crc32 contents package entry data"
    and "package_sized package" and "length data = zip_package_file_size package entry"
  shows "zip_entry_is inflate crc32 contents package entry data"
  using assms zip_stream_open_entry unfolding zip_entry_begins_def zip_entry_is_def by fastforce

lemma zip_entry_begins_Nil:
  assumes "zip_stream_open (Some package) entry h = (Inr s, h')" and "m_uncomp_size (zs_stat s) \<noteq> 0"
  shows "zip_entry_begins inflate crc32 contents package entry []"
  using assms inflates_start [of inflate "compressed_data contents s"]
  unfolding zip_entry_begins_def entry_begins_def by fastforce

end
