(* ===== verification/VfsFile.thy ===== *)
theory VfsFile
  imports ZipPackage
begin

text \<open>
  Seekable files over ZIP entries (\<open>src/src/modloader/vfs_file.c\<close>): the decoded caches that
  the files of one entry share, their memory and disk budgets, and the file operations.

  The caches are heap objects that files, the table and the idle lists refer to: a cache is an
  index into \<open>fs_cells\<close>, whose entry becomes \<open>None\<close> when the object is freed. The
  doubly linked idle lists are lists of indices, least recently released first. Every
  exported operation is one atomic step: the locks of the code (\<open>cache_lock\<close>,
  \<open>cache->lock\<close>) and the recursion guard around system calls are not modelled. The
  temporary file of a cache is the byte list written to it; what the system calls on it
  return is the parameter record \<open>disk_api\<close>.
\<close>

subsection \<open>State\<close>

datatype cache_data = CACHE_EMPTY | CACHE_MEMORY "byte list" | CACHE_DISK "byte list"

record vfs_cache =
  vc_identity :: nat
  vc_size :: nat
  vc_package :: "zip_package option"
  vc_entry :: nat
  vc_data :: cache_data
  vc_references :: nat
  vc_idle :: bool
  vc_detached :: bool

record vfs_files =
  fs_heap :: heap
  fs_cells :: "vfs_cache option list"
  fs_table :: "(nat, nat) khash option"
  fs_idle_memory :: "nat list"
  fs_idle_memory_bytes :: nat
  fs_idle_disk :: "nat list"
  fs_idle_disk_bytes :: nat
  fs_memory_used :: nat
  fs_memory_file_limit :: nat
  fs_memory_total_limit :: nat
  fs_idle_disk_limit :: nat
  fs_sequence :: nat
  fs_io :: nat
  fs_refs :: "nat \<Rightarrow> nat"

record vfs_file =
  vf_zip :: "zip_stream option"
  vf_cache :: "nat option"
  vf_size :: "64 word"
  vf_identity :: nat
  vf_position :: "64 word"
  vf_stream_position :: "64 word"
  vf_error :: "win_error option"

datatype create_result = Created | Exists | CreateFailed

text \<open>
  \<open>dk_create\<close> answers the creation of the temporary file with a sequence number;
  \<open>dk_write\<close> and \<open>dk_read\<close> answer the \<open>n\<close>-th transfer of a number of bytes
  with the bytes transferred, or \<open>None\<close> when the call fails.
\<close>

record disk_api =
  dk_temp :: bool
  dk_create :: "nat \<Rightarrow> create_result"
  dk_write :: "nat \<Rightarrow> nat \<Rightarrow> nat option"
  dk_read :: "nat \<Rightarrow> nat \<Rightarrow> nat option"

definition CACHE_CHUNK_SIZE :: nat where "CACHE_CHUNK_SIZE = 65536"

definition fs_initial :: "heap \<Rightarrow> vfs_files" where
  "fs_initial h = \<lparr>fs_heap = h, fs_cells = [], fs_table = None, fs_idle_memory = [],
     fs_idle_memory_bytes = 0, fs_idle_disk = [], fs_idle_disk_bytes = 0, fs_memory_used = 0,
     fs_memory_file_limit = 32 * 1024 * 1024, fs_memory_total_limit = 128 * 1024 * 1024,
     fs_idle_disk_limit = 1024 * 1024 * 1024, fs_sequence = 0, fs_io = 0, fs_refs = (\<lambda>_. 0)\<rparr>"

definition the_cell :: "vfs_files \<Rightarrow> nat \<Rightarrow> vfs_cache" where
  "the_cell st a = the (fs_cells st ! a)"

definition set_cell :: "nat \<Rightarrow> vfs_cache \<Rightarrow> vfs_files \<Rightarrow> vfs_files" where
  "set_cell a c st = st\<lparr>fs_cells := (fs_cells st)[a := Some c]\<rparr>"

definition fs_alloc :: "vfs_files \<Rightarrow> bool \<times> vfs_files" where
  "fs_alloc st = (case ml_mem_alloc (fs_heap st) of (ok, h) \<Rightarrow> (ok, st\<lparr>fs_heap := h\<rparr>))"

definition zip_package_retain :: "zip_package \<Rightarrow> vfs_files \<Rightarrow> vfs_files" where
  "zip_package_retain p st = st\<lparr>fs_refs := (fs_refs st)(zp_id p := fs_refs st (zp_id p) + 1)\<rparr>"

definition zip_package_close :: "zip_package option \<Rightarrow> vfs_files \<Rightarrow> vfs_files" where
  "zip_package_close p st =
     (case p of None \<Rightarrow> st
      | Some p \<Rightarrow> st\<lparr>fs_refs := (fs_refs st)(zp_id p := fs_refs st (zp_id p) - 1)\<rparr>)"

subsection \<open>Cache objects and idle lists\<close>

text \<open>
  \<open>cache->memory != NULL\<close> and \<open>cache->disk != INVALID_HANDLE_VALUE\<close>: an empty entry is
  decoded without either.
\<close>

definition is_memory :: "vfs_cache \<Rightarrow> bool" where
  "is_memory c = (case vc_data c of CACHE_MEMORY bs \<Rightarrow> vc_size c \<noteq> 0 | _ \<Rightarrow> False)"

definition is_disk :: "vfs_cache \<Rightarrow> bool" where
  "is_disk c = (case vc_data c of CACHE_DISK bs \<Rightarrow> True | _ \<Rightarrow> False)"

definition cache_destroy :: "nat \<Rightarrow> vfs_files \<Rightarrow> vfs_files" where
  "cache_destroy a st =
     (let c = the_cell st a;
          st = (if is_memory c then st\<lparr>fs_memory_used := fs_memory_used st - vc_size c\<rparr> else st);
          st = zip_package_close (vc_package c) st
      in st\<lparr>fs_cells := (fs_cells st)[a := None]\<rparr>)"

fun cache_destroy_chain :: "nat list \<Rightarrow> vfs_files \<Rightarrow> vfs_files" where
  "cache_destroy_chain [] st = st"
| "cache_destroy_chain (a # chain) st = cache_destroy_chain chain (cache_destroy a st)"

definition idle_unlink :: "nat \<Rightarrow> vfs_files \<Rightarrow> vfs_files" where
  "idle_unlink a st =
     (let c = the_cell st a;
          st = set_cell a (c\<lparr>vc_idle := False\<rparr>) st
      in if is_memory c
         then st\<lparr>fs_idle_memory := remove1 a (fs_idle_memory st),
                 fs_idle_memory_bytes := fs_idle_memory_bytes st - vc_size c\<rparr>
         else st\<lparr>fs_idle_disk := remove1 a (fs_idle_disk st),
                 fs_idle_disk_bytes := fs_idle_disk_bytes st - vc_size c\<rparr>)"

definition idle_push :: "nat \<Rightarrow> vfs_files \<Rightarrow> vfs_files" where
  "idle_push a st =
     (let c = the_cell st a;
          st = set_cell a (c\<lparr>vc_idle := True\<rparr>) st
      in if is_memory c
         then st\<lparr>fs_idle_memory := fs_idle_memory st @ [a],
                 fs_idle_memory_bytes := fs_idle_memory_bytes st + vc_size c\<rparr>
         else st\<lparr>fs_idle_disk := fs_idle_disk st @ [a],
                 fs_idle_disk_bytes := fs_idle_disk_bytes st + vc_size c\<rparr>)"

definition cache_forget :: "nat \<Rightarrow> vfs_files \<Rightarrow> vfs_files" where
  "cache_forget a st =
     (case fs_table st of None \<Rightarrow> st
      | Some t \<Rightarrow>
          (case kh_get t (vc_identity (the_cell st a)) of
             None \<Rightarrow> st
           | Some _ \<Rightarrow> st\<lparr>fs_table := Some (kh_del (vc_identity (the_cell st a)) t)\<rparr>))"

definition idle_evict :: "nat \<Rightarrow> vfs_files \<Rightarrow> vfs_files" where
  "idle_evict a st = cache_forget a (idle_unlink a st)"

subsection \<open>The memory budget\<close>

definition try_reserve_memory :: "nat \<Rightarrow> vfs_files \<Rightarrow> bool \<times> vfs_files" where
  "try_reserve_memory sz st =
     (if fs_memory_used st > fs_memory_total_limit st - sz then (False, st)
      else (True, st\<lparr>fs_memory_used := fs_memory_used st + sz\<rparr>))"

text \<open>
  The loop of \<open>reserve_memory\<close>. Each round takes one cache off the idle list, so one more
  unit of fuel than its length is enough (\<open>reserve_loop_enough\<close>); \<open>None\<close> is running out.
\<close>

fun reserve_loop :: "nat \<Rightarrow> nat \<Rightarrow> vfs_files \<Rightarrow> (bool \<times> vfs_files) option" where
  "reserve_loop 0 sz st = None"
| "reserve_loop (Suc fuel) sz st =
     (case try_reserve_memory sz st of
        (True, st) \<Rightarrow> Some (True, st)
      | (False, st) \<Rightarrow>
          (case fs_idle_memory st of
             [] \<Rightarrow> Some (False, st)
           | victim # _ \<Rightarrow>
               if fs_memory_used st \<ge> fs_idle_memory_bytes st
                  \<and> fs_memory_used st - fs_idle_memory_bytes st \<le> fs_memory_total_limit st - sz
               then reserve_loop fuel sz (cache_destroy victim (idle_evict victim st))
               else Some (False, st)))"

definition reserve_memory :: "nat \<Rightarrow> vfs_files \<Rightarrow> bool \<times> vfs_files" where
  "reserve_memory sz st =
     (if sz > fs_memory_file_limit st \<or> sz > fs_memory_total_limit st then (False, st)
      else case reserve_loop (length (fs_idle_memory st) + 1) sz st of
        Some r \<Rightarrow> r
      | None \<Rightarrow> (False, st))"

subsection \<open>Temporary files\<close>

text \<open>Up to 16 names, as long as the file exists already.\<close>

fun create_attempts :: "nat \<Rightarrow> disk_api \<Rightarrow> vfs_files \<Rightarrow> bool \<times> vfs_files" where
  "create_attempts 0 dk st = (False, st)"
| "create_attempts (Suc attempts) dk st =
     (let st = st\<lparr>fs_sequence := fs_sequence st + 1\<rparr>
      in case fs_alloc st of
           (False, st) \<Rightarrow> (False, st)
         | (True, st) \<Rightarrow>
             (case dk_create dk (fs_sequence st) of
                Created \<Rightarrow> (True, st)
              | CreateFailed \<Rightarrow> (False, st)
              | Exists \<Rightarrow> create_attempts attempts dk st))"

definition create_disk_cache :: "disk_api \<Rightarrow> vfs_files \<Rightarrow> bool \<times> vfs_files" where
  "create_disk_cache dk st =
     (if \<not> dk_temp dk then (False, st)
      else case fs_alloc st of
        (False, st) \<Rightarrow> (False, st)
      | (True, st) \<Rightarrow> create_attempts 16 dk st)"

text \<open>
  \<open>write_cache\<close>: \<open>left\<close> bytes still to write; a transfer moves at least one of them or fails.
\<close>

fun write_cache :: "nat \<Rightarrow> disk_api \<Rightarrow> nat \<Rightarrow> vfs_files \<Rightarrow> (win_error + unit) \<times> vfs_files" where
  "write_cache 0 dk left st = (Inr (), st)"
| "write_cache (Suc fuel) dk left st =
     (if left = 0 then (Inr (), st)
      else
        let chunk = (if left > MAXDWORD then MAXDWORD else left);
            answer = dk_write dk (fs_io st) chunk;
            st = st\<lparr>fs_io := fs_io st + 1\<rparr>
        in case answer of
             None \<Rightarrow> (Inl (ERROR_OS 0), st)
           | Some written \<Rightarrow>
               if written = 0 then (Inl ERROR_WRITE_FAULT, st)
               else write_cache fuel dk (left - written) st)"

subsection \<open>Decoding\<close>

text \<open>
  The chunk loop of \<open>cache_decode\<close>: \<open>data\<close> is what has been stored so far, \<open>on_disk\<close>
  where it goes. Each round stores a positive number of bytes.
\<close>

fun decode_loop ::
  "nat \<Rightarrow> inflate_api \<Rightarrow> crc_api \<Rightarrow> disk_api \<Rightarrow> nat \<Rightarrow> bool \<Rightarrow> zip_stream \<Rightarrow> byte list \<Rightarrow> vfs_files
     \<Rightarrow> (win_error + byte list \<times> zip_stream) \<times> vfs_files" where
  "decode_loop 0 inflate crc32 dk sz on_disk zs data st = (Inr (data, zs), st)"
| "decode_loop (Suc fuel) inflate crc32 dk sz on_disk zs data st =
     (if length data < sz then
        let chunk = (if sz - length data < CACHE_CHUNK_SIZE then sz - length data else CACHE_CHUNK_SIZE)
        in case zip_stream_read inflate crc32 zs chunk of
             None \<Rightarrow> (Inl ERROR_INVALID_DATA, st)
           | Some (False, received, zs) \<Rightarrow>
               (Inl (case zs_error zs of Some e \<Rightarrow> e | None \<Rightarrow> ERROR_OS 0), st)
           | Some (True, received, zs) \<Rightarrow>
               if length received \<noteq> chunk then (Inl ERROR_INVALID_DATA, st)
               else if on_disk then
                 (case write_cache (length received) dk (length received) st of
                    (Inl e, st) \<Rightarrow> (Inl e, st)
                  | (Inr _, st) \<Rightarrow>
                      decode_loop fuel inflate crc32 dk sz on_disk zs (data @ received) st)
               else decode_loop fuel inflate crc32 dk sz on_disk zs (data @ received) st
      else (Inr (data, zs), st))"

text \<open>
  The storage is set up first: \<open>Some True\<close> is memory, \<open>Some False\<close> a temporary file,
  \<open>None\<close> nothing (an empty entry).
\<close>

definition decode_storage ::
  "disk_api \<Rightarrow> nat \<Rightarrow> vfs_files \<Rightarrow> (win_error + bool option) \<times> vfs_files" where
  "decode_storage dk sz st =
     (if sz = 0 then (Inr None, st)
      else
        let (memory, st) =
          (case reserve_memory sz st of
             (False, st) \<Rightarrow> (False, st)
           | (True, st) \<Rightarrow>
               (case fs_alloc st of
                  (True, st) \<Rightarrow> (True, st)
                | (False, st) \<Rightarrow> (False, st\<lparr>fs_memory_used := fs_memory_used st - sz\<rparr>)))
        in if memory then (Inr (Some True), st)
           else case create_disk_cache dk st of
             (False, st) \<Rightarrow> (Inl (ERROR_OS 0), st)
           | (True, st) \<Rightarrow>
               (case fs_alloc st of
                  (False, st) \<Rightarrow> (Inl ERROR_NOT_ENOUGH_MEMORY, st)
                | (True, st) \<Rightarrow> (Inr (Some False), st)))"

text \<open>
  What the cache decodes to, or the error, after the storage is set up: the stream is opened,
  read to the end (an empty entry reads one byte to consume its end marker) and closed.
\<close>

definition decode_entry ::
  "inflate_api \<Rightarrow> crc_api \<Rightarrow> disk_api \<Rightarrow> vfs_cache \<Rightarrow> bool option \<Rightarrow> vfs_files
     \<Rightarrow> (win_error + byte list) \<times> vfs_files" where
  "decode_entry inflate crc32 dk c storage st =
     (case zip_stream_open (vc_package c) (vc_entry c) (fs_heap st) of
        (Inl e, h) \<Rightarrow> (Inl e, st\<lparr>fs_heap := h\<rparr>)
      | (Inr zs, h) \<Rightarrow>
          (let st = st\<lparr>fs_heap := h\<rparr>
           in case decode_loop (vc_size c) inflate crc32 dk (vc_size c) (storage = Some False) zs [] st of
                (Inl e, st) \<Rightarrow> (Inl e, st)
              | (Inr (data, zs), st) \<Rightarrow>
                  if vc_size c = 0 then
                    (case zip_stream_read inflate crc32 zs 1 of
                       Some (True, received, zs) \<Rightarrow> (Inr data, st)
                     | Some (False, received, zs) \<Rightarrow>
                         (Inl (case zs_error zs of Some e \<Rightarrow> e | None \<Rightarrow> ERROR_OS 0), st)
                     | None \<Rightarrow> (Inl ERROR_INVALID_DATA, st))
                  else (Inr data, st)))"

definition cache_decode ::
  "inflate_api \<Rightarrow> crc_api \<Rightarrow> disk_api \<Rightarrow> nat \<Rightarrow> vfs_files \<Rightarrow> (win_error + unit) \<times> vfs_files" where
  "cache_decode inflate crc32 dk a st =
     (let c = the_cell st a
      in case decode_storage dk (vc_size c) st of
           (Inl e, st) \<Rightarrow> (Inl e, st)
         | (Inr storage, st) \<Rightarrow>
             (case decode_entry inflate crc32 dk c storage st of
                (Inl e, st) \<Rightarrow>
                  (Inl e, if storage = Some True
                          then st\<lparr>fs_memory_used := fs_memory_used st - vc_size c\<rparr> else st)
              | (Inr data, st) \<Rightarrow>
                  (Inr (), set_cell a
                     (c\<lparr>vc_package := None,
                        vc_data := (if storage = Some False then CACHE_DISK data
                                    else CACHE_MEMORY data)\<rparr>)
                     (zip_package_close (vc_package c) st))))"

definition cache_prepare ::
  "inflate_api \<Rightarrow> crc_api \<Rightarrow> disk_api \<Rightarrow> nat \<Rightarrow> vfs_files \<Rightarrow> (win_error + unit) \<times> vfs_files" where
  "cache_prepare inflate crc32 dk a st =
     (if vc_data (the_cell st a) \<noteq> CACHE_EMPTY then (Inr (), st)
      else cache_decode inflate crc32 dk a st)"

definition cache_bytes :: "vfs_cache \<Rightarrow> byte list" where
  "cache_bytes c = (case vc_data c of CACHE_EMPTY \<Rightarrow> [] | CACHE_MEMORY bs \<Rightarrow> bs | CACHE_DISK bs \<Rightarrow> bs)"

subsection \<open>Reading a cache\<close>

text \<open>The positional reads of the temporary file; each of them receives a byte or fails.\<close>

fun cache_read_loop ::
  "nat \<Rightarrow> disk_api \<Rightarrow> byte list \<Rightarrow> nat \<Rightarrow> nat \<Rightarrow> byte list \<Rightarrow> vfs_files
     \<Rightarrow> (win_error option \<times> byte list) \<times> vfs_files" where
  "cache_read_loop 0 dk bs offset sz received st = ((None, received), st)"
| "cache_read_loop (Suc fuel) dk bs offset sz received st =
     (if length received < sz then
        let position = offset + length received;
            chunk = (if sz - length received > MAXDWORD then MAXDWORD else sz - length received);
            answer = dk_read dk (fs_io st) chunk;
            st = st\<lparr>fs_io := fs_io st + 1\<rparr>
        in case answer of
             None \<Rightarrow> ((Some (ERROR_OS 0), received), st)
           | Some part \<Rightarrow>
               if part = 0 then ((Some ERROR_READ_FAULT, received), st)
               else cache_read_loop fuel dk bs offset sz
                      (received @ take (min part chunk) (drop position bs)) st
      else ((None, received), st))"

definition cache_read ::
  "disk_api \<Rightarrow> vfs_cache \<Rightarrow> nat \<Rightarrow> nat \<Rightarrow> vfs_files \<Rightarrow> (win_error option \<times> byte list) \<times> vfs_files" where
  "cache_read dk c offset sz st =
     (if is_memory c then ((None, take sz (drop offset (cache_bytes c))), st)
      else cache_read_loop sz dk (cache_bytes c) offset sz [] st)"

subsection \<open>Sharing caches\<close>

text \<open>\<open>kh_put\<close> may have to grow the table, for a key that it holds too.\<close>

definition cache_acquire ::
  "zip_package \<Rightarrow> nat \<Rightarrow> nat \<Rightarrow> nat \<Rightarrow> vfs_files \<Rightarrow> nat option \<times> vfs_files" where
  "cache_acquire package entry identity sz st =
     (let st = (case fs_table st of
                  Some t \<Rightarrow> st
                | None \<Rightarrow> (case fs_alloc st of
                     (True, st) \<Rightarrow> st\<lparr>fs_table := Some kh_init\<rparr> | (False, st) \<Rightarrow> st))
      in case fs_table st of
           None \<Rightarrow> (None, st)
         | Some t \<Rightarrow>
             (case fs_alloc st of
                (False, st) \<Rightarrow> (None, st)
              | (True, st) \<Rightarrow>
                  (case kh_get t identity of
                     Some a \<Rightarrow>
                       let st = (if vc_idle (the_cell st a) then idle_unlink a st else st);
                           c = the_cell st a
                       in (Some a, set_cell a (c\<lparr>vc_references := vc_references c + 1\<rparr>) st)
                   | None \<Rightarrow>
                       (case fs_alloc st of
                          (False, st) \<Rightarrow> (None, st)
                        | (True, st) \<Rightarrow>
                            (let a = length (fs_cells st);
                                 c = \<lparr>vc_identity = identity, vc_size = sz, vc_package = Some package,
                                      vc_entry = entry, vc_data = CACHE_EMPTY, vc_references = 1,
                                      vc_idle = False, vc_detached = False\<rparr>;
                                 st = zip_package_retain package st
                             in (Some a, st\<lparr>fs_cells := fs_cells st @ [Some c],
                                            fs_table := Some (kh_set identity a t)\<rparr>))))))"

text \<open>The idle temporary files that leave the budget of the idle list, in eviction order.\<close>

fun evict_loop :: "nat \<Rightarrow> nat list \<Rightarrow> vfs_files \<Rightarrow> nat list \<times> vfs_files" where
  "evict_loop 0 unused st = (unused, st)"
| "evict_loop (Suc fuel) unused st =
     (if fs_idle_disk_bytes st > fs_idle_disk_limit st then
        let victim = hd (fs_idle_disk st)
        in evict_loop fuel (victim # unused) (idle_evict victim st)
      else (unused, st))"

definition cache_release :: "nat \<Rightarrow> vfs_files \<Rightarrow> vfs_files" where
  "cache_release a st =
     (let c = (the_cell st a)\<lparr>vc_references := vc_references (the_cell st a) - 1\<rparr>;
          st = set_cell a c st
      in if vc_references c = 0 then
           (if \<not> vc_detached c
               \<and> (is_memory c \<or> (is_disk c \<and> vc_size c \<le> fs_idle_disk_limit st)) then
              (let st = idle_push a st;
                   (unused, st) = evict_loop (length (fs_idle_disk st)) [] st
               in cache_destroy_chain unused st)
            else
              cache_destroy a (if vc_detached c then st else cache_forget a st))
         else st)"

text \<open>One slot of the dropped table: idle caches are chained, the others detached.\<close>

definition drop_slot :: "nat \<Rightarrow> nat list \<times> vfs_files \<Rightarrow> nat list \<times> vfs_files" where
  "drop_slot a = (\<lambda>(unused, st).
     if vc_idle (the_cell st a) then (a # unused, idle_unlink a st)
     else (unused, set_cell a ((the_cell st a)\<lparr>vc_detached := True\<rparr>) st))"

definition vfs_file_drop_caches :: "vfs_files \<Rightarrow> vfs_files" where
  "vfs_file_drop_caches st =
     (case fs_table st of None \<Rightarrow> st
      | Some dropped \<Rightarrow>
          (let st = st\<lparr>fs_table := None\<rparr>;
               (unused, st) = fold drop_slot (map snd dropped) ([], st)
           in cache_destroy_chain unused st))"

subsection \<open>Files\<close>

definition vfs_file_create ::
  "zip_package \<Rightarrow> nat \<Rightarrow> nat \<Rightarrow> bool \<Rightarrow> vfs_files \<Rightarrow> (win_error + vfs_file) \<times> vfs_files" where
  "vfs_file_create package entry identity streaming st =
     (case fs_alloc st of
        (False, st) \<Rightarrow> (Inl ERROR_NOT_ENOUGH_MEMORY, st)
      | (True, st) \<Rightarrow>
          if streaming then
            (case zip_stream_open (Some package) entry (fs_heap st) of
               (Inl e, h) \<Rightarrow> (Inl e, st\<lparr>fs_heap := h\<rparr>)
             | (Inr zs, h) \<Rightarrow>
                 (Inr \<lparr>vf_zip = Some zs, vf_cache = None, vf_size = of_nat (zip_stream_size zs),
                       vf_identity = identity, vf_position = 0, vf_stream_position = 0,
                       vf_error = None\<rparr>,
                  zip_package_retain package (st\<lparr>fs_heap := h\<rparr>)))
          else
            let sz = zip_package_file_size package entry
            in if sz > INT64_MAX then (Inl ERROR_INVALID_DATA, st)
               else case cache_acquire package entry identity sz st of
                 (None, st) \<Rightarrow> (Inl ERROR_NOT_ENOUGH_MEMORY, st)
               | (Some a, st) \<Rightarrow>
                   (Inr \<lparr>vf_zip = None, vf_cache = Some a, vf_size = of_nat sz,
                         vf_identity = identity, vf_position = 0, vf_stream_position = 0,
                         vf_error = None\<rparr>, st))"

definition vfs_file_close :: "vfs_file option \<Rightarrow> vfs_files \<Rightarrow> vfs_files" where
  "vfs_file_close file st =
     (case file of None \<Rightarrow> st
      | Some f \<Rightarrow>
          (let st = zip_package_close (map_option zs_package (vf_zip f)) st
           in case vf_cache f of None \<Rightarrow> st | Some a \<Rightarrow> cache_release a st))"

definition vfs_file_size :: "vfs_file \<Rightarrow> 64 word" where
  "vfs_file_size f = vf_size f"

text \<open>The result of a read: the error, if any, and the bytes received.\<close>

type_synonym read_result = "win_error option \<times> byte list"

definition vfs_file_read_at ::
  "inflate_api \<Rightarrow> crc_api \<Rightarrow> disk_api \<Rightarrow> vfs_file \<Rightarrow> 64 word \<Rightarrow> bool \<Rightarrow> nat \<Rightarrow> vfs_files
     \<Rightarrow> read_result \<times> vfs_file \<times> vfs_files" where
  "vfs_file_read_at inflate crc32 dk f offset buffer sz st =
     (if sz \<noteq> 0 \<and> \<not> buffer then ((Some ERROR_INVALID_PARAMETER, []), f, st)
      else case vf_error f of
        Some e \<Rightarrow> ((Some e, []), f, st)
      | None \<Rightarrow>
          if sz = 0 then ((None, []), f, st)
          else case vf_zip f of
            Some zs \<Rightarrow>
              if offset \<noteq> vf_stream_position f then
                (if offset \<ge> vf_size f then ((None, []), f, st)
                 else ((Some ERROR_NOT_SUPPORTED, []), f, st))
              else
                (case zip_stream_read inflate crc32 zs sz of
                   None \<Rightarrow> ((Some ERROR_INVALID_DATA, []), f, st)
                 | Some (ok, received, zs) \<Rightarrow>
                     ((if ok then None
                       else Some (case zs_error zs of Some e \<Rightarrow> e | None \<Rightarrow> ERROR_OS 0), received),
                      f\<lparr>vf_zip := Some zs,
                        vf_stream_position := vf_stream_position f + of_nat (length received)\<rparr>, st))
          | None \<Rightarrow>
              (case cache_prepare inflate crc32 dk (the (vf_cache f)) st of
                 (Inl e, st) \<Rightarrow> ((Some e, []), f\<lparr>vf_error := Some e\<rparr>, st)
               | (Inr _, st) \<Rightarrow>
                   if offset \<ge> vf_size f then ((None, []), f, st)
                   else
                     let sz = (if sz > unat (vf_size f - offset) then unat (vf_size f - offset) else sz);
                         (result, st) = cache_read dk (the_cell st (the (vf_cache f))) (unat offset) sz st
                     in (result, f, st)))"

definition vfs_file_read ::
  "inflate_api \<Rightarrow> crc_api \<Rightarrow> disk_api \<Rightarrow> vfs_file \<Rightarrow> bool \<Rightarrow> nat \<Rightarrow> vfs_files
     \<Rightarrow> read_result \<times> vfs_file \<times> vfs_files" where
  "vfs_file_read inflate crc32 dk f buffer sz st =
     (case vfs_file_read_at inflate crc32 dk f (vf_position f) buffer sz st of
        ((e, received), f, st) \<Rightarrow>
          ((e, received), f\<lparr>vf_position := vf_position f + of_nat (length received)\<rparr>, st))"

definition FILE_BEGIN :: nat where "FILE_BEGIN = 0"
definition FILE_CURRENT :: nat where "FILE_CURRENT = 1"
definition FILE_END :: nat where "FILE_END = 2"

text \<open>\<open>distance\<close> is an \<open>int64_t\<close>; \<open>back\<close> is its negation as an unsigned number.\<close>

definition vfs_file_seek ::
  "vfs_file \<Rightarrow> 64 word \<Rightarrow> nat \<Rightarrow> (win_error + 64 word) \<times> vfs_file" where
  "vfs_file_seek f distance origin =
     (if origin > FILE_END then (Inl ERROR_INVALID_PARAMETER, f)
      else
        let base = (if origin = FILE_BEGIN then 0
                    else if origin = FILE_CURRENT then vf_position f else vf_size f);
            back = - (distance + 1) + 1
        in if sint distance < 0 \<and> back > base then (Inl ERROR_NEGATIVE_SEEK, f)
           else if sint distance > 0 \<and> distance > of_nat INT64_MAX - base
             then (Inl ERROR_INVALID_PARAMETER, f)
           else
             let nextp = (if sint distance < 0 then base - back else base + distance)
             in if nextp \<noteq> vf_position f \<and> vf_zip f \<noteq> None then (Inl ERROR_NOT_SUPPORTED, f)
                else (Inr nextp, f\<lparr>vf_position := nextp\<rparr>))"

end
