(* ===== verification/VfsFileInv.thy ===== *)
theory VfsFileInv
  imports VfsFile
begin

text \<open>
  The shared decoded caches of \<open>VfsFile\<close> are managed correctly: over every sequence of file
  operations no cache that an open file uses is freed, the idle lists and the table hold exactly
  the caches they should, and the memory and disk budgets account for every decoded byte.
\<close>

subsection \<open>The invariant\<close>

definition cell :: "vfs_files \<Rightarrow> nat \<Rightarrow> vfs_cache option" where
  "cell st a = (if a < length (fs_cells st) then fs_cells st ! a else None)"

definition slot :: "vfs_files \<Rightarrow> nat \<Rightarrow> nat option" where
  "slot st k = (case fs_table st of None \<Rightarrow> None | Some t \<Rightarrow> kh_get t k)"

definition memory_of :: "vfs_cache option \<Rightarrow> nat" where
  "memory_of c = (case c of None \<Rightarrow> 0 | Some c \<Rightarrow> if is_memory c then vc_size c else 0)"

definition memory_total :: "vfs_files \<Rightarrow> nat" where
  "memory_total st = sum_list (map memory_of (fs_cells st))"

definition size_of :: "vfs_cache option \<Rightarrow> nat" where
  "size_of c = (case c of None \<Rightarrow> 0 | Some c \<Rightarrow> vc_size c)"

text \<open>
  \<open>z\<close> relates a cache to its entry: the first part the identity, the index and the size of a cache of
  the table, the second the index of every cache, its source and what it holds. \<open>u\<close> counts the open
  files of each cache, \<open>X\<close> holds the evicted caches still to be destroyed, \<open>s\<close> is the table.
\<close>

type_synonym cell_laws =
  "(nat \<Rightarrow> nat \<Rightarrow> nat \<Rightarrow> bool) \<times> (nat \<Rightarrow> zip_package option \<times> nat \<times> nat \<times> cache_data \<Rightarrow> bool)"

definition cell_ok ::
  "cell_laws \<Rightarrow> nat set \<Rightarrow> (nat \<Rightarrow> nat) \<Rightarrow> (nat \<Rightarrow> nat option) \<Rightarrow> vfs_files \<Rightarrow> nat \<Rightarrow> vfs_cache \<Rightarrow> bool" where
  "cell_ok z X u s st a c \<longleftrightarrow>
     vc_references c = u a \<and> (vc_idle c \<longleftrightarrow> u a = 0 \<and> a \<notin> X) \<and> (a \<in> X \<longrightarrow> u a = 0) \<and>
     (a \<in> set (fs_idle_memory st) \<longleftrightarrow> vc_idle c \<and> is_memory c) \<and>
     (a \<in> set (fs_idle_disk st) \<longleftrightarrow> vc_idle c \<and> \<not> is_memory c) \<and>
     (vc_idle c \<longrightarrow> (is_memory c \<or> is_disk c) \<and> \<not> vc_detached c) \<and>
     (\<not> vc_detached c \<and> a \<notin> X \<longrightarrow> s (vc_identity c) = Some a) \<and>
     (\<not> vc_detached c \<longrightarrow> fst z (vc_identity c) a (vc_size c)) \<and>
     snd z a (vc_package c, vc_entry c, vc_size c, vc_data c) \<and>
     (vc_data c \<noteq> CACHE_EMPTY \<longrightarrow> length (cache_bytes c) = vc_size c)"

definition fs_wf :: "cell_laws \<Rightarrow> nat set \<Rightarrow> (nat \<Rightarrow> nat) \<Rightarrow> (nat \<Rightarrow> nat option) \<Rightarrow> vfs_files \<Rightarrow> bool" where
  "fs_wf z X u s st \<longleftrightarrow>
     distinct (fs_idle_memory st) \<and> distinct (fs_idle_disk st) \<and>
     (\<forall>a c. cell st a = Some c \<longrightarrow> cell_ok z X u s st a c) \<and>
     (\<forall>a. a \<in> set (fs_idle_memory st) \<or> a \<in> set (fs_idle_disk st) \<or> a \<in> X \<or> u a > 0 \<longrightarrow> cell st a \<noteq> None) \<and>
     (\<forall>k a. s k = Some a \<longrightarrow> a \<notin> X \<and> (\<exists>c. cell st a = Some c \<and> vc_identity c = k \<and> \<not> vc_detached c)) \<and>
     fs_idle_memory_bytes st = (\<Sum>a\<in>set (fs_idle_memory st). size_of (cell st a)) \<and>
     fs_idle_disk_bytes st = (\<Sum>a\<in>set (fs_idle_disk st). size_of (cell st a)) \<and>
     fs_memory_used st = memory_total st"

definition fs_inv :: "cell_laws \<Rightarrow> (nat \<Rightarrow> nat) \<Rightarrow> vfs_files \<Rightarrow> bool" where
  "fs_inv z u st \<longleftrightarrow> fs_wf z {} u (slot st) st
     \<and> (case fs_table st of None \<Rightarrow> True | Some t \<Rightarrow> kh_distinct t)
     \<and> fs_memory_used st \<le> fs_memory_total_limit st
     \<and> fs_idle_disk_bytes st \<le> fs_idle_disk_limit st"

lemma cell_lt: "cell st a = Some c \<Longrightarrow> a < length (fs_cells st)"
  by (simp add: cell_def split: if_splits)

lemma the_cell [simp]: "cell st a = Some c \<Longrightarrow> the_cell st a = c"
  by (simp add: cell_def the_cell_def split: if_splits)

lemma cell_set_cell: "cell st a = Some c0 \<Longrightarrow>
    cell (set_cell a c st) b = (if b = a then Some c else cell st b)"
  by (auto simp: cell_def set_cell_def split: if_splits)

text \<open>The caches do not depend on the fields that only oracles and counters use.\<close>

lemma cell_frame [simp]:
  "cell (st\<lparr>fs_heap := h\<rparr>) a = cell st a" "cell (st\<lparr>fs_table := t\<rparr>) a = cell st a"
  "cell (st\<lparr>fs_io := n\<rparr>) a = cell st a" "cell (st\<lparr>fs_refs := r\<rparr>) a = cell st a"
  "cell (st\<lparr>fs_sequence := n\<rparr>) a = cell st a" "cell (st\<lparr>fs_memory_used := n\<rparr>) a = cell st a"
  "cell (st\<lparr>fs_idle_memory := m, fs_idle_memory_bytes := n\<rparr>) a = cell st a"
  "cell (st\<lparr>fs_idle_disk := m, fs_idle_disk_bytes := n\<rparr>) a = cell st a"
  "the_cell (st\<lparr>fs_heap := h\<rparr>) a = the_cell st a" "the_cell (st\<lparr>fs_table := t\<rparr>) a = the_cell st a"
  "the_cell (st\<lparr>fs_io := n\<rparr>) a = the_cell st a" "the_cell (st\<lparr>fs_refs := r\<rparr>) a = the_cell st a"
  "the_cell (st\<lparr>fs_sequence := n\<rparr>) a = the_cell st a"
  "the_cell (st\<lparr>fs_memory_used := n\<rparr>) a = the_cell st a"
  "the_cell (st\<lparr>fs_idle_memory := m, fs_idle_memory_bytes := n\<rparr>) a = the_cell st a"
  "the_cell (st\<lparr>fs_idle_disk := m, fs_idle_disk_bytes := n\<rparr>) a = the_cell st a"
  by (simp_all add: cell_def the_cell_def)

lemma memory_total_frame [simp]:
  "memory_total (st\<lparr>fs_heap := h\<rparr>) = memory_total st" "memory_total (st\<lparr>fs_table := t\<rparr>) = memory_total st"
  "memory_total (st\<lparr>fs_io := n\<rparr>) = memory_total st" "memory_total (st\<lparr>fs_refs := r\<rparr>) = memory_total st"
  "memory_total (st\<lparr>fs_sequence := n\<rparr>) = memory_total st"
  "memory_total (st\<lparr>fs_memory_used := n\<rparr>) = memory_total st"
  "memory_total (st\<lparr>fs_idle_memory := m, fs_idle_memory_bytes := n\<rparr>) = memory_total st"
  "memory_total (st\<lparr>fs_idle_disk := m, fs_idle_disk_bytes := n\<rparr>) = memory_total st"
  by (simp_all add: memory_total_def)

lemma storage_frame [simp]:
  "is_memory (c\<lparr>vc_idle := b\<rparr>) = is_memory c" "is_disk (c\<lparr>vc_idle := b\<rparr>) = is_disk c"
  "is_memory (c\<lparr>vc_references := n\<rparr>) = is_memory c" "is_disk (c\<lparr>vc_references := n\<rparr>) = is_disk c"
  "is_memory (c\<lparr>vc_detached := b\<rparr>) = is_memory c" "is_disk (c\<lparr>vc_detached := b\<rparr>) = is_disk c"
  "cache_bytes (c\<lparr>vc_idle := b\<rparr>) = cache_bytes c"
  "cache_bytes (c\<lparr>vc_references := n\<rparr>) = cache_bytes c"
  "cache_bytes (c\<lparr>vc_detached := b\<rparr>) = cache_bytes c"
  by (simp_all add: is_memory_def is_disk_def cache_bytes_def split: cache_data.splits)

lemma fs_wf_frame [simp]:
  "fs_wf z X u s (st\<lparr>fs_heap := h\<rparr>) = fs_wf z X u s st" "fs_wf z X u s (st\<lparr>fs_table := t\<rparr>) = fs_wf z X u s st"
  "fs_wf z X u s (st\<lparr>fs_io := n\<rparr>) = fs_wf z X u s st" "fs_wf z X u s (st\<lparr>fs_refs := r\<rparr>) = fs_wf z X u s st"
  "fs_wf z X u s (st\<lparr>fs_sequence := n\<rparr>) = fs_wf z X u s st"
  by (simp_all add: fs_wf_def cell_ok_def)

lemma fs_wf_cell: "fs_wf z X u s st \<Longrightarrow> cell st a = Some c \<Longrightarrow> cell_ok z X u s st a c"
  by (simp add: fs_wf_def)

lemma fs_wf_used: "fs_wf z X u s st \<Longrightarrow> u a > 0 \<Longrightarrow> \<exists>c. cell st a = Some c"
  unfolding fs_wf_def by blast

lemma sum_list_set:
  "a < length cs \<Longrightarrow> sum_list (map f (cs[a := c])) + f (cs ! a) = sum_list (map f cs) + (f c :: nat)"
proof (induction cs arbitrary: a)
  case (Cons x cs)
  then show ?case by (cases a) auto
qed simp

lemma memory_total_set_cell:
  "cell st a = Some c0 \<Longrightarrow> memory_total (set_cell a c st) + memory_of (Some c0) = memory_total st + memory_of (Some c)"
  using sum_list_set [of a "fs_cells st" memory_of "Some c"]
  by (simp add: memory_total_def set_cell_def cell_def split: if_splits)

lemma size_of_Some [simp]: "size_of (Some c) = vc_size c"
  by (simp add: size_of_def)

lemma memory_of_Some [simp]: "memory_of (Some c) = (if is_memory c then vc_size c else 0)"
  by (simp add: memory_of_def)

lemma set_cell_sel [simp]:
  "fs_idle_memory (set_cell a x st) = fs_idle_memory st"
  "fs_idle_disk (set_cell a x st) = fs_idle_disk st"
  "fs_idle_memory_bytes (set_cell a x st) = fs_idle_memory_bytes st"
  "fs_idle_disk_bytes (set_cell a x st) = fs_idle_disk_bytes st"
  "fs_memory_used (set_cell a x st) = fs_memory_used st"
  "fs_table (set_cell a x st) = fs_table st"
  "fs_memory_total_limit (set_cell a x st) = fs_memory_total_limit st"
  "fs_idle_disk_limit (set_cell a x st) = fs_idle_disk_limit st"
  by (simp_all add: set_cell_def)

subsection \<open>The list operations\<close>

lemma idle_unlink_sel:
  assumes "cell st a = Some c"
  shows "cell (idle_unlink a st) = (cell st)(a \<mapsto> c\<lparr>vc_idle := False\<rparr>)"
    and "fs_idle_memory (idle_unlink a st) = (if is_memory c then remove1 a (fs_idle_memory st) else fs_idle_memory st)"
    and "fs_idle_disk (idle_unlink a st) = (if is_memory c then fs_idle_disk st else remove1 a (fs_idle_disk st))"
    and "fs_idle_memory_bytes (idle_unlink a st) = fs_idle_memory_bytes st - (if is_memory c then vc_size c else 0)"
    and "fs_idle_disk_bytes (idle_unlink a st) = fs_idle_disk_bytes st - (if is_memory c then 0 else vc_size c)"
    and "fs_memory_used (idle_unlink a st) = fs_memory_used st"
    and "memory_total (idle_unlink a st) = memory_total st"
    and "fs_table (idle_unlink a st) = fs_table st"
    and "fs_memory_total_limit (idle_unlink a st) = fs_memory_total_limit st"
    and "fs_idle_disk_limit (idle_unlink a st) = fs_idle_disk_limit st"
  using assms memory_total_set_cell [OF assms, of "c\<lparr>vc_idle := False\<rparr>"]
  by (auto simp: idle_unlink_def Let_def cell_set_cell fun_eq_iff split: if_splits)

text \<open>Every operation changes one cache; what it must establish about that one.\<close>

lemma sum_change:
  fixes f g :: "nat \<Rightarrow> nat"
  assumes "finite A" "finite S" "\<And>b. b \<noteq> a \<Longrightarrow> b \<in> A \<longleftrightarrow> b \<in> S" "\<And>b. b \<noteq> a \<Longrightarrow> f b = g b"
  shows "(\<Sum>b\<in>S. g b) + (if a \<in> A then f a else 0) = (\<Sum>b\<in>A. f b) + (if a \<in> S then g a else 0)"
proof -
  have e: "A - {a} = S - {a}" using assms(3) by auto
  have "(\<Sum>b\<in>A - {a}. f b) = (\<Sum>b\<in>S - {a}. g b)"
    unfolding e using assms(4) by (auto intro: sum.cong)
  moreover have "(\<Sum>b\<in>A. f b) = (\<Sum>b\<in>A - {a}. f b) + (if a \<in> A then f a else 0)"
    using assms(1) by (simp add: sum.remove)
  moreover have "(\<Sum>b\<in>S. g b) = (\<Sum>b\<in>S - {a}. g b) + (if a \<in> S then g a else 0)"
    using assms(2) by (simp add: sum.remove)
  ultimately show ?thesis by simp
qed

lemma fs_wf_update:
  assumes wf: "fs_wf z X u s st"
    and cells: "cell st' = (cell st)(a := x)"
    and off: "\<And>b. b \<noteq> a \<Longrightarrow> (b \<in> set (fs_idle_memory st') \<longleftrightarrow> b \<in> set (fs_idle_memory st))
                \<and> (b \<in> set (fs_idle_disk st') \<longleftrightarrow> b \<in> set (fs_idle_disk st))
                \<and> u' b = u b \<and> (b \<in> X' \<longleftrightarrow> b \<in> X)"
    and off_table: "\<And>k b. b \<noteq> a \<Longrightarrow> s' k = Some b \<longleftrightarrow> s k = Some b"
    and on: "\<And>c. x = Some c \<Longrightarrow> cell_ok z X' u' s' st' a c"
    and gone: "x = None \<Longrightarrow> a \<notin> set (fs_idle_memory st') \<and> a \<notin> set (fs_idle_disk st') \<and> a \<notin> X' \<and> u' a = 0"
    and on_table: "\<And>k. s' k = Some a \<Longrightarrow> a \<notin> X' \<and> (\<exists>c. x = Some c \<and> vc_identity c = k \<and> \<not> vc_detached c)"
    and dist: "distinct (fs_idle_memory st')" "distinct (fs_idle_disk st')"
    and mem: "fs_idle_memory_bytes st' + (if a \<in> set (fs_idle_memory st) then size_of (cell st a) else 0)
                = fs_idle_memory_bytes st + (if a \<in> set (fs_idle_memory st') then size_of x else 0)"
    and dsk: "fs_idle_disk_bytes st' + (if a \<in> set (fs_idle_disk st) then size_of (cell st a) else 0)
                = fs_idle_disk_bytes st + (if a \<in> set (fs_idle_disk st') then size_of x else 0)"
    and used: "fs_memory_used st' = memory_total st'"
  shows "fs_wf z X' u' s' st'"
proof -
  have live: "cell st b \<noteq> None" if "b \<in> set (fs_idle_memory st) \<or> b \<in> set (fs_idle_disk st) \<or> b \<in> X \<or> u b > 0" for b
    using wf that by (auto simp: fs_wf_def)
  have tbl: "b \<notin> X \<and> (\<exists>c. cell st b = Some c \<and> vc_identity c = k \<and> \<not> vc_detached c)" if "s k = Some b" for k b
    using wf that by (auto simp: fs_wf_def)
  have sums: "fs_idle_memory_bytes st = (\<Sum>b\<in>set (fs_idle_memory st). size_of (cell st b))"
      "fs_idle_disk_bytes st = (\<Sum>b\<in>set (fs_idle_disk st). size_of (cell st b))"
    using wf by (simp_all add: fs_wf_def)
  have 1: "cell_ok z X' u' s' st' b c" if "cell st' b = Some c" for b c
  proof (cases "b = a")
    case True with that on cells show ?thesis by simp
  next
    case False
    with that cells have "cell st b = Some c" by simp
    with wf have "cell_ok z X u s st b c" by (rule fs_wf_cell)
    with off [OF False] off_table [OF False] show ?thesis by (auto simp: cell_ok_def)
  qed
  have 2: "cell st' b \<noteq> None" if "b \<in> set (fs_idle_memory st') \<or> b \<in> set (fs_idle_disk st') \<or> b \<in> X' \<or> u' b > 0" for b
  proof (cases "b = a")
    case True with that gone cells show ?thesis by (cases x) auto
  next
    case False with that off [OF False] live [of b] cells show ?thesis by auto
  qed
  have 3: "b \<notin> X' \<and> (\<exists>c. cell st' b = Some c \<and> vc_identity c = k \<and> \<not> vc_detached c)" if "s' k = Some b" for k b
  proof (cases "b = a")
    case True with that on_table cells show ?thesis by auto
  next
    case False with that off [OF False] off_table [OF False] tbl [of k b] cells show ?thesis by auto
  qed
  have x: "cell st' a = x" and nx: "\<And>b. b \<noteq> a \<Longrightarrow> cell st' b = cell st b" using cells by simp_all
  have 4: "fs_idle_memory_bytes st' = (\<Sum>b\<in>set (fs_idle_memory st'). size_of (cell st' b))"
    using sum_change [of "set (fs_idle_memory st)" "set (fs_idle_memory st')" a
        "\<lambda>b. size_of (cell st b)" "\<lambda>b. size_of (cell st' b)"] off mem sums(1)
    unfolding x by (simp add: nx del: fun_upd_apply)
  have 5: "fs_idle_disk_bytes st' = (\<Sum>b\<in>set (fs_idle_disk st'). size_of (cell st' b))"
    using sum_change [of "set (fs_idle_disk st)" "set (fs_idle_disk st')" a
        "\<lambda>b. size_of (cell st b)" "\<lambda>b. size_of (cell st' b)"] off dsk sums(2)
    unfolding x by (simp add: nx del: fun_upd_apply)
  show ?thesis
    unfolding fs_wf_def using dist 1 2 3 4 5 used by blast
qed

lemma fs_wf_sums:
  assumes "fs_wf z X u s st" "cell st a = Some c"
  shows "a \<in> set (fs_idle_memory st) \<Longrightarrow> vc_size c \<le> fs_idle_memory_bytes st"
    and "a \<in> set (fs_idle_disk st) \<Longrightarrow> vc_size c \<le> fs_idle_disk_bytes st"
proof -
  have m: "size_of (cell st a) \<le> (\<Sum>b\<in>A. size_of (cell st b))" if "finite A" "a \<in> A" for A
    using that by (intro member_le_sum) auto
  show "a \<in> set (fs_idle_memory st) \<Longrightarrow> vc_size c \<le> fs_idle_memory_bytes st"
    and "a \<in> set (fs_idle_disk st) \<Longrightarrow> vc_size c \<le> fs_idle_disk_bytes st"
    using assms m [of "set (fs_idle_memory st)"] m [of "set (fs_idle_disk st)"]
    by (simp_all add: fs_wf_def)
qed

lemma fs_wf_distinct: "fs_wf z X u s st \<Longrightarrow> distinct (fs_idle_memory st) \<and> distinct (fs_idle_disk st)"
  by (simp add: fs_wf_def)

lemma fs_wf_memory: "fs_wf z X u s st \<Longrightarrow> fs_memory_used st = memory_total st"
  by (simp add: fs_wf_def)

lemma fs_wf_table: "fs_wf z X u s st \<Longrightarrow> s k = Some a \<Longrightarrow>
    a \<notin> X \<and> (\<exists>c. cell st a = Some c \<and> vc_identity c = k \<and> \<not> vc_detached c)"
  by (simp add: fs_wf_def)

lemma fs_wf_table_eq: "fs_wf z X u s st \<Longrightarrow> cell st a = Some c \<Longrightarrow> s k = Some a \<Longrightarrow> k = vc_identity c"
  using fs_wf_table by fastforce

lemma idle_unlink_wf:
  assumes wf: "fs_wf z X u s st" and c: "cell st a = Some c" and idle: "vc_idle c"
  shows "fs_wf z (insert a X) u (s(vc_identity c := None)) (idle_unlink a st)"
proof -
  note ok = fs_wf_cell [OF wf c, unfolded cell_ok_def]
  note sel = idle_unlink_sel [OF c]
  note d = fs_wf_distinct [OF wf]
  have k: "s k = Some a \<Longrightarrow> k = vc_identity c" for k by (rule fs_wf_table_eq [OF wf c])
  have k': "s (vc_identity c) = Some a" using ok idle by simp
  show ?thesis
  proof (rule fs_wf_update [OF wf, where a = a and x = "Some (c\<lparr>vc_idle := False\<rparr>)"], goal_cases)
    case (4 c') then show ?case using ok idle d by (auto simp: cell_ok_def sel)
  next case 1 show ?case by (simp add: sel)
  next case (2 b) then show ?case using d by (auto simp: sel)
  next case (3 k b) then show ?case using k' by auto
  next case 6 then show ?case using k by (auto split: if_splits)
  next case 7 show ?case using d by (simp add: sel)
  next case 8 show ?case using d by (simp add: sel)
  next case 9 show ?case using ok idle d fs_wf_sums [OF wf c] c by (simp add: sel)
  next case 10 show ?case using ok idle d fs_wf_sums [OF wf c] c by (simp add: sel)
  next case 11 show ?case using fs_wf_memory [OF wf] by (simp add: sel)
  qed simp
qed

lemma idle_unlink_reuse:
  assumes wf: "fs_wf z X u s st" and c: "cell st a = Some c" and idle: "vc_idle c"
  shows "fs_wf z X (u(a := 1)) s (set_cell a (c\<lparr>vc_idle := False, vc_references := 1\<rparr>) (idle_unlink a st))"
proof -
  note ok = fs_wf_cell [OF wf c, unfolded cell_ok_def]
  note sel = idle_unlink_sel [OF c]
  note d = fs_wf_distinct [OF wf]
  have k: "s k = Some a \<Longrightarrow> k = vc_identity c" for k by (rule fs_wf_table_eq [OF wf c])
  have u: "cell (idle_unlink a st) a = Some (c\<lparr>vc_idle := False\<rparr>)" by (simp add: sel)
  show ?thesis
  proof (rule fs_wf_update [OF wf, where a = a and x = "Some (c\<lparr>vc_idle := False, vc_references := 1\<rparr>)"], goal_cases)
    case 1 show ?case using u by (auto simp: fun_eq_iff cell_set_cell [OF u] sel)
  next
    case (4 c') then show ?case using ok idle d by (auto simp: cell_ok_def sel)
  next
    case 11 show ?case
      using memory_total_set_cell [OF u, of "c\<lparr>vc_idle := False, vc_references := 1\<rparr>"] fs_wf_memory [OF wf]
      by (auto simp: sel split: if_splits)
  qed (use ok idle d k fs_wf_sums [OF wf c] c in \<open>auto simp: sel\<close>)
qed

lemma set_cell_slot [simp]: "slot (set_cell a x st) = slot st"
  by (simp add: slot_def fun_eq_iff)

lemma slot_frame [simp]:
  "slot (st\<lparr>fs_heap := h\<rparr>) = slot st" "slot (st\<lparr>fs_io := n\<rparr>) = slot st"
  "slot (st\<lparr>fs_refs := r\<rparr>) = slot st" "slot (st\<lparr>fs_sequence := n\<rparr>) = slot st"
  "slot (st\<lparr>fs_memory_used := n\<rparr>) = slot st"
  by (simp_all add: slot_def fun_eq_iff)

lemma idle_unlink_slot: "cell st a = Some c \<Longrightarrow> slot (idle_unlink a st) = slot st"
  by (simp add: slot_def idle_unlink_sel fun_eq_iff)

lemma cache_forget_sel:
  assumes "cell st a = Some c"
  shows "cell (cache_forget a st) = cell st"
    and "slot (cache_forget a st) = (slot st)(vc_identity c := None)"
    and "fs_wf z X u s (cache_forget a st) = fs_wf z X u s st"
    and "fs_idle_memory (cache_forget a st) = fs_idle_memory st"
    and "fs_idle_disk (cache_forget a st) = fs_idle_disk st"
    and "fs_idle_memory_bytes (cache_forget a st) = fs_idle_memory_bytes st"
    and "fs_idle_disk_bytes (cache_forget a st) = fs_idle_disk_bytes st"
    and "fs_memory_used (cache_forget a st) = fs_memory_used st"
    and "fs_memory_total_limit (cache_forget a st) = fs_memory_total_limit st"
    and "fs_idle_disk_limit (cache_forget a st) = fs_idle_disk_limit st"
    and "(case fs_table st of None \<Rightarrow> True | Some t \<Rightarrow> kh_distinct t)
          \<Longrightarrow> (case fs_table (cache_forget a st) of None \<Rightarrow> True | Some t \<Rightarrow> kh_distinct t)"
  using assms
  by (auto simp: cache_forget_def slot_def fun_eq_iff kh_simps kh_invars split: option.splits)

definition table_ok :: "vfs_files \<Rightarrow> bool" where
  "table_ok st \<longleftrightarrow> (case fs_table st of None \<Rightarrow> True | Some t \<Rightarrow> kh_distinct t)"

text \<open>Evicting an idle cache: it leaves its list and the table and waits to be destroyed.\<close>

lemma idle_evict_sel:
  assumes c: "cell st a = Some c"
  shows "cell (idle_evict a st) = (cell st)(a \<mapsto> c\<lparr>vc_idle := False\<rparr>)"
    and "slot (idle_evict a st) = (slot st)(vc_identity c := None)"
    and "fs_idle_memory (idle_evict a st) = (if is_memory c then remove1 a (fs_idle_memory st) else fs_idle_memory st)"
    and "fs_idle_disk (idle_evict a st) = (if is_memory c then fs_idle_disk st else remove1 a (fs_idle_disk st))"
    and "fs_idle_memory_bytes (idle_evict a st) = fs_idle_memory_bytes st - (if is_memory c then vc_size c else 0)"
    and "fs_idle_disk_bytes (idle_evict a st) = fs_idle_disk_bytes st - (if is_memory c then 0 else vc_size c)"
    and "fs_memory_used (idle_evict a st) = fs_memory_used st"
    and "fs_memory_total_limit (idle_evict a st) = fs_memory_total_limit st"
    and "fs_idle_disk_limit (idle_evict a st) = fs_idle_disk_limit st"
    and "table_ok st \<Longrightarrow> table_ok (idle_evict a st)"
proof -
  have u: "cell (idle_unlink a st) a = Some (c\<lparr>vc_idle := False\<rparr>)" using c by (simp add: idle_unlink_sel)
  note sels = cache_forget_sel [OF u] idle_unlink_sel [OF c] idle_unlink_slot [OF c]
  show "cell (idle_evict a st) = (cell st)(a \<mapsto> c\<lparr>vc_idle := False\<rparr>)"
    and "slot (idle_evict a st) = (slot st)(vc_identity c := None)"
    and "fs_idle_memory (idle_evict a st) = (if is_memory c then remove1 a (fs_idle_memory st) else fs_idle_memory st)"
    and "fs_idle_disk (idle_evict a st) = (if is_memory c then fs_idle_disk st else remove1 a (fs_idle_disk st))"
    and "fs_idle_memory_bytes (idle_evict a st) = fs_idle_memory_bytes st - (if is_memory c then vc_size c else 0)"
    and "fs_idle_disk_bytes (idle_evict a st) = fs_idle_disk_bytes st - (if is_memory c then 0 else vc_size c)"
    and "fs_memory_used (idle_evict a st) = fs_memory_used st"
    and "fs_memory_total_limit (idle_evict a st) = fs_memory_total_limit st"
    and "fs_idle_disk_limit (idle_evict a st) = fs_idle_disk_limit st"
    by (simp_all add: idle_evict_def sels(1-10) sels(12-))
  show "table_ok st \<Longrightarrow> table_ok (idle_evict a st)"
    using sels(11) by (simp add: idle_evict_def table_ok_def idle_unlink_sel [OF c])
qed

lemma idle_evict_wf:
  assumes wf: "fs_wf z X u (slot st) st" and c: "cell st a = Some c" and idle: "vc_idle c"
  shows "fs_wf z (insert a X) u (slot (idle_evict a st)) (idle_evict a st)"
proof -
  have u: "cell (idle_unlink a st) a = Some (c\<lparr>vc_idle := False\<rparr>)" using c by (simp add: idle_unlink_sel)
  show ?thesis
    using idle_unlink_wf [OF assms]
    by (simp add: idle_evict_def cache_forget_sel(2,3) [OF u] idle_unlink_slot [OF c])
qed

subsection \<open>Destroying caches\<close>

lemma cache_destroy_sel:
  assumes "cell st a = Some c"
  shows "cell (cache_destroy a st) = (cell st)(a := None)"
    and "fs_idle_memory (cache_destroy a st) = fs_idle_memory st"
    and "fs_idle_disk (cache_destroy a st) = fs_idle_disk st"
    and "fs_idle_memory_bytes (cache_destroy a st) = fs_idle_memory_bytes st"
    and "fs_idle_disk_bytes (cache_destroy a st) = fs_idle_disk_bytes st"
    and "fs_memory_used (cache_destroy a st) = fs_memory_used st - memory_of (Some c)"
    and "fs_table (cache_destroy a st) = fs_table st"
    and "slot (cache_destroy a st) = slot st"
    and "fs_memory_total_limit (cache_destroy a st) = fs_memory_total_limit st"
    and "fs_idle_disk_limit (cache_destroy a st) = fs_idle_disk_limit st"
    and "memory_total (cache_destroy a st) = memory_total st - memory_of (Some c)"
proof -
  have m: "memory_total (cache_destroy a st) + memory_of (Some c) = memory_total st"
    using sum_list_set [of a "fs_cells st" memory_of None] assms
    by (simp add: memory_total_def cache_destroy_def Let_def cell_def zip_package_close_def memory_of_def
        split: if_splits option.splits)
  show "memory_total (cache_destroy a st) = memory_total st - memory_of (Some c)" using m by simp
qed (use assms in \<open>auto simp: cache_destroy_def Let_def zip_package_close_def cell_def slot_def fun_eq_iff
        split: option.splits if_splits\<close>)

lemma cache_destroy_wf:
  assumes wf: "fs_wf z X u s st" and c: "cell st a = Some c" and a: "a \<in> X"
  shows "fs_wf z (X - {a}) u s (cache_destroy a st)"
proof -
  note ok = fs_wf_cell [OF wf c, unfolded cell_ok_def]
  note sel = cache_destroy_sel [OF c]
  note d = fs_wf_distinct [OF wf]
  have k: "s k \<noteq> Some a" for k using fs_wf_table [OF wf, of k a] a by auto
  show ?thesis
  proof (rule fs_wf_update [OF wf, where a = a and x = None], goal_cases)
    case 9 show ?case using ok a by (simp add: sel)
  next case 10 show ?case using ok a by (simp add: sel)
  next case 11 show ?case using fs_wf_memory [OF wf] by (simp add: sel)
  qed (use ok a k d in \<open>simp_all add: sel\<close>)
qed

lemma cache_destroy_chain_wf:
  assumes "fs_wf z (set chain) u s st" "distinct chain"
  shows "fs_wf z {} u s (cache_destroy_chain chain st)"
  using assms
proof (induction chain arbitrary: st)
  case (Cons a chain)
  from Cons.prems(1) obtain c where c: "cell st a = Some c" by (auto simp: fs_wf_def)
  have "set (a # chain) - {a} = set chain" using Cons.prems(2) by auto
  with cache_destroy_wf [OF Cons.prems(1) c] have "fs_wf z (set chain) u s (cache_destroy a st)" by simp
  with Cons show ?case by simp
qed simp

lemma cache_destroy_chain_sel:
  assumes "fs_wf z (set chain) u s st" "distinct chain"
  shows "slot (cache_destroy_chain chain st) = slot st
    \<and> fs_table (cache_destroy_chain chain st) = fs_table st
    \<and> fs_idle_disk_bytes (cache_destroy_chain chain st) = fs_idle_disk_bytes st
    \<and> fs_memory_used (cache_destroy_chain chain st) \<le> fs_memory_used st
    \<and> fs_memory_total_limit (cache_destroy_chain chain st) = fs_memory_total_limit st
    \<and> fs_idle_disk_limit (cache_destroy_chain chain st) = fs_idle_disk_limit st
    \<and> (\<forall>b. b \<notin> set chain \<longrightarrow> cell (cache_destroy_chain chain st) b = cell st b)"
  using assms
proof (induction chain arbitrary: st)
  case (Cons a chain)
  from Cons.prems(1) obtain c where c: "cell st a = Some c" by (auto simp: fs_wf_def)
  have "set (a # chain) - {a} = set chain" using Cons.prems(2) by auto
  with cache_destroy_wf [OF Cons.prems(1) c] have "fs_wf z (set chain) u s (cache_destroy a st)" by simp
  from Cons.IH [OF this] Cons.prems(2) show ?case
    using le_trans [of _ "fs_memory_used (cache_destroy a st)" "fs_memory_used st"]
    by (simp add: cache_destroy_sel [OF c])
qed simp

lemma fs_inv_wf: "fs_inv z u st \<Longrightarrow> fs_wf z {} u (slot st) st"
  by (simp add: fs_inv_def)

lemma evict_destroy_inv:
  assumes inv: "fs_inv z u st" and c: "cell st a = Some c" and idle: "vc_idle c"
  shows "fs_inv z u (cache_destroy a (idle_evict a st))"
proof -
  have e: "cell (idle_evict a st) a = Some (c\<lparr>vc_idle := False\<rparr>)" using c by (simp add: idle_evict_sel)
  have wf: "fs_wf z {} u (slot (idle_evict a st)) (cache_destroy a (idle_evict a st))"
    using cache_destroy_wf [OF idle_evict_wf [OF fs_inv_wf [OF inv] c idle] e] by simp
  have "table_ok (idle_evict a st)"
    using inv by (intro idle_evict_sel(10) [OF c]) (simp add: fs_inv_def table_ok_def)
  then show ?thesis
    using wf inv by (auto simp: fs_inv_def cache_destroy_sel [OF e] idle_evict_sel(1-9) [OF c] table_ok_def)
qed

subsection \<open>The memory budget\<close>

lemma memory_total_sum: "memory_total st = (\<Sum>a<length (fs_cells st). memory_of (cell st a))"
  by (simp add: memory_total_def sum_list_sum_nth cell_def atLeast0LessThan)

text \<open>The idle memory caches are part of the memory in use.\<close>

lemma idle_memory_le:
  assumes wf: "fs_wf z X u s st"
  shows "fs_idle_memory_bytes st \<le> fs_memory_used st"
proof -
  let ?I = "set (fs_idle_memory st)"
  have m: "\<exists>c. cell st a = Some c \<and> is_memory c" if "a \<in> ?I" for a
  proof -
    from wf that obtain c where c: "cell st a = Some c" by (auto simp: fs_wf_def)
    with fs_wf_cell [OF wf c] that show ?thesis by (simp add: cell_ok_def)
  qed
  then have sub: "?I \<subseteq> {..<length (fs_cells st)}" by (auto dest: cell_lt)
  have "fs_idle_memory_bytes st = (\<Sum>a\<in>?I. size_of (cell st a))" using wf by (simp add: fs_wf_def)
  also have "\<dots> = (\<Sum>a\<in>?I. memory_of (cell st a))"
    using m by (intro sum.cong) (auto dest!: m)
  also have "\<dots> \<le> memory_total st"
    unfolding memory_total_sum using sub by (intro sum_mono2) auto
  finally show ?thesis using fs_wf_memory [OF wf] by simp
qed

definition reserve_fits :: "nat \<Rightarrow> vfs_files \<Rightarrow> bool" where
  "reserve_fits sz st \<longleftrightarrow> fs_memory_used st - fs_idle_memory_bytes st + sz \<le> fs_memory_total_limit st"

text \<open>What evicting and destroying the oldest idle memory cache does.\<close>

lemma evict_oldest:
  assumes inv: "fs_inv z u st" and m: "fs_idle_memory st = a # rest"
  shows "fs_inv z u (cache_destroy a (idle_evict a st))"
    and "fs_idle_memory (cache_destroy a (idle_evict a st)) = rest"
    and "reserve_fits sz (cache_destroy a (idle_evict a st)) = reserve_fits sz st"
    and "fs_memory_total_limit (cache_destroy a (idle_evict a st)) = fs_memory_total_limit st"
    and "\<And>b. u b > 0 \<Longrightarrow> cell (cache_destroy a (idle_evict a st)) b = cell st b"
proof -
  note wf = fs_inv_wf [OF inv]
  from wf m obtain c where c: "cell st a = Some c" by (auto simp: fs_wf_def)
  have ok: "vc_idle c" "is_memory c" "u a = 0"
    using fs_wf_cell [OF wf c] m by (auto simp: cell_ok_def)
  show "fs_inv z u (cache_destroy a (idle_evict a st))" by (rule evict_destroy_inv [OF inv c ok(1)])
  have e: "cell (idle_evict a st) a = Some (c\<lparr>vc_idle := False\<rparr>)" using c by (simp add: idle_evict_sel)
  note sel = cache_destroy_sel [OF e] idle_evict_sel [OF c]
  show "fs_idle_memory (cache_destroy a (idle_evict a st)) = rest" using ok m by (simp add: sel)
  show "fs_memory_total_limit (cache_destroy a (idle_evict a st)) = fs_memory_total_limit st" by (simp add: sel)
  have "vc_size c \<le> fs_idle_memory_bytes st" using fs_wf_sums(1) [OF wf c] m by simp
  then show "reserve_fits sz (cache_destroy a (idle_evict a st)) = reserve_fits sz st"
    using ok idle_memory_le [OF wf] by (simp add: reserve_fits_def sel)
  show "cell (cache_destroy a (idle_evict a st)) b = cell st b" if "u b > 0" for b
    using that ok by (auto simp: sel)
qed

lemma reserve_loop_spec:
  assumes "fs_inv z u st" and "length (fs_idle_memory st) < fuel" and "sz \<le> fs_memory_total_limit st"
  shows "if reserve_fits sz st
         then \<exists>st2. reserve_loop fuel sz st = Some (True, st2\<lparr>fs_memory_used := fs_memory_used st2 + sz\<rparr>)
                  \<and> fs_inv z u st2 \<and> fs_memory_used st2 + sz \<le> fs_memory_total_limit st2
                  \<and> (\<forall>b. u b > 0 \<longrightarrow> cell st2 b = cell st b)
         else reserve_loop fuel sz st = Some (False, st)"
  using assms
proof (induction fuel arbitrary: st)
  case (Suc fuel)
  note wf = fs_inv_wf [OF Suc.prems(1)]
  have le: "fs_idle_memory_bytes st \<le> fs_memory_used st" by (rule idle_memory_le [OF wf])
  show ?case
  proof (cases "fs_memory_used st + sz \<le> fs_memory_total_limit st")
    case True
    then have f: "reserve_fits sz st" by (simp add: reserve_fits_def)
    from True have "\<not> fs_memory_total_limit st - sz < fs_memory_used st" by linarith
    then have "reserve_loop (Suc fuel) sz st = Some (True, st\<lparr>fs_memory_used := fs_memory_used st + sz\<rparr>)"
      by (simp add: try_reserve_memory_def)
    with f True Suc.prems(1) show ?thesis by auto
  next
    case False
    then have t: "try_reserve_memory sz st = (False, st)"
      using Suc.prems(3) by (simp add: try_reserve_memory_def)
    show ?thesis
    proof (cases "fs_idle_memory st")
      case Nil
      then have "fs_idle_memory_bytes st = 0" using wf by (simp add: fs_wf_def)
      with False have "\<not> reserve_fits sz st" by (simp add: reserve_fits_def)
      with Nil t show ?thesis by simp
    next
      case (Cons a rest)
      let ?st = "cache_destroy a (idle_evict a st)"
      note ev = evict_oldest [OF Suc.prems(1) Cons]
      have c: "(fs_memory_used st \<ge> fs_idle_memory_bytes st
          \<and> fs_memory_used st - fs_idle_memory_bytes st \<le> fs_memory_total_limit st - sz) = reserve_fits sz st"
        using le Suc.prems(3) by (auto simp: reserve_fits_def)
      show ?thesis
      proof (cases "reserve_fits sz st")
        case False with Cons t c show ?thesis by auto
      next
        case True
        have "reserve_loop (Suc fuel) sz st = reserve_loop fuel sz ?st"
          using Cons t c True by simp
        with Suc.IH [of ?st] ev Suc.prems Cons True show ?thesis by auto
      qed
    qed
  qed
qed simp

lemma reserve_memory_spec:
  assumes "fs_inv z u st"
  shows "if sz \<le> fs_memory_file_limit st \<and> reserve_fits sz st
         then \<exists>st2. reserve_memory sz st = (True, st2\<lparr>fs_memory_used := fs_memory_used st2 + sz\<rparr>)
                  \<and> fs_inv z u st2 \<and> fs_memory_used st2 + sz \<le> fs_memory_total_limit st2
                  \<and> (\<forall>b. u b > 0 \<longrightarrow> cell st2 b = cell st b)
         else reserve_memory sz st = (False, st)"
proof (cases "sz \<le> fs_memory_file_limit st \<and> sz \<le> fs_memory_total_limit st")
  case True
  note r = reserve_loop_spec [OF assms, of "length (fs_idle_memory st) + 1" sz]
  show ?thesis
  proof (cases "reserve_fits sz st")
    case fits: True
    with r True obtain st2 where
      "reserve_loop (length (fs_idle_memory st) + 1) sz st = Some (True, st2\<lparr>fs_memory_used := fs_memory_used st2 + sz\<rparr>)"
      "fs_inv z u st2" "fs_memory_used st2 + sz \<le> fs_memory_total_limit st2" "\<forall>b. u b > 0 \<longrightarrow> cell st2 b = cell st b"
      by auto
    with True fits show ?thesis by (auto simp: reserve_memory_def simp del: reserve_loop.simps)
  qed (use r True in \<open>simp add: reserve_memory_def del: reserve_loop.simps\<close>)
next
  case False
  then have "\<not> (sz \<le> fs_memory_file_limit st \<and> reserve_fits sz st)" by (auto simp: reserve_fits_def)
  then show ?thesis using False by (auto simp: reserve_memory_def)
qed

subsection \<open>Acquiring and releasing\<close>

lemma fs_inv_frame:
  assumes "fs_inv z u st"
  shows "fs_inv z u (st\<lparr>fs_heap := h\<rparr>)" "fs_inv z u (st\<lparr>fs_io := n\<rparr>)" "fs_inv z u (st\<lparr>fs_refs := r\<rparr>)"
    "fs_inv z u (st\<lparr>fs_sequence := n\<rparr>)"
  using assms by (simp_all add: fs_inv_def)

lemma fs_alloc_inv: "fs_inv z u st \<Longrightarrow> fs_alloc st = (ok, st') \<Longrightarrow>
    fs_inv z u st' \<and> cell st' = cell st \<and> slot st' = slot st \<and> fs_table st' = fs_table st
      \<and> fs_cells st' = fs_cells st"
  by (auto simp: fs_alloc_def fs_inv_frame fun_eq_iff split: prod.splits)

lemma cell_append: "cell (st\<lparr>fs_cells := fs_cells st @ [x], fs_table := t\<rparr>) = (cell st)(length (fs_cells st) := x)"
  by (auto simp: cell_def fun_eq_iff nth_append)

lemma fs_inv_unused: "fs_inv z u st \<Longrightarrow> u (length (fs_cells st)) = 0"
  using fs_wf_used [OF fs_inv_wf, of z u st "length (fs_cells st)"] by (auto simp: cell_def)

text \<open>A new cache in the table.\<close>

lemma acquire_new_inv:
  assumes inv: "fs_inv z u st" and t: "fs_table st = Some t" and g: "kh_get t k = None"
    and c: "c = \<lparr>vc_identity = k, vc_size = sz, vc_package = p, vc_entry = e, vc_data = CACHE_EMPTY,
              vc_references = 1, vc_idle = False, vc_detached = False\<rparr>"
    and a: "a = length (fs_cells st)" and z: "fst z k a sz" "snd z a (p, e, sz, CACHE_EMPTY)"
  shows "fs_inv z (u(a := u a + 1)) (st\<lparr>fs_cells := fs_cells st @ [Some c], fs_table := Some (kh_set k a t)\<rparr>)"
proof -
  let ?st = "st\<lparr>fs_cells := fs_cells st @ [Some c], fs_table := Some (kh_set k a t)\<rparr>"
  note wf = fs_inv_wf [OF inv]
  have cs: "vc_references c = 1" "\<not> vc_idle c" "\<not> is_memory c" "vc_identity c = k" "\<not> vc_detached c"
    "vc_data c = CACHE_EMPTY" "vc_size c = sz" "vc_package c = p" "vc_entry c = e" by (simp_all add: c is_memory_def)
  have n: "cell st a = None" by (simp add: a cell_def)
  have na: "a \<notin> set (fs_idle_memory st)" "a \<notin> set (fs_idle_disk st)" using wf n by (auto simp: fs_wf_def)
  have ns: "slot st k' \<noteq> Some a" for k' using fs_wf_table [OF wf, of k' a] n by auto
  have u0: "u a = 0" using fs_inv_unused [OF inv] a by simp
  have s: "slot ?st = (slot st)(k \<mapsto> a)" by (simp add: slot_def t kh_simps fun_eq_iff)
  have s0: "slot st k = None" by (simp add: slot_def t g)
  have "fs_wf z {} (u(a := u a + 1)) (slot ?st) ?st"
  proof (rule fs_wf_update [OF wf, where a = a and x = "Some c"], goal_cases)
    case 1 show ?case by (simp add: cell_append a)
  next case (4 c') then have "c' = c" by simp then show ?case using na z by (simp add: cell_ok_def cs s u0)
  next case 6 then show ?case using ns by (auto simp: s cs split: if_splits)
  next case 11 show ?case using fs_wf_memory [OF wf] by (simp add: memory_total_def cs)
  qed (use na fs_wf_distinct [OF wf] s s0 in \<open>auto\<close>)
  then show ?thesis using inv by (simp add: fs_inv_def t kh_invars)
qed

text \<open>
  What \<open>cache_acquire\<close> answers: the cache of the identity in the table, or a new one; the file
  that asks becomes one more user of it.
\<close>

lemma acquire_shared_inv:
  assumes inv: "fs_inv z u st" and s: "slot st k = Some a" and c: "cell st a = Some c"
    and st1: "st1 = (if vc_idle c then idle_unlink a st else st)"
  shows "fs_inv z (u(a := u a + 1)) (set_cell a ((the_cell st1 a)\<lparr>vc_references := vc_references (the_cell st1 a) + 1\<rparr>) st1)"
proof -
  note wf = fs_inv_wf [OF inv]
  note ok = fs_wf_cell [OF wf c, unfolded cell_ok_def]
  show ?thesis
  proof (cases "vc_idle c")
    case True
    have u: "cell (idle_unlink a st) a = Some (c\<lparr>vc_idle := False\<rparr>)" by (simp add: idle_unlink_sel [OF c])
    let ?st = "set_cell a (c\<lparr>vc_idle := False, vc_references := 1\<rparr>) (idle_unlink a st)"
    have wf': "fs_wf z {} (u(a := 1)) (slot ?st) ?st"
      using idle_unlink_reuse [OF wf c True] by (simp add: idle_unlink_slot [OF c])
    have "fs_inv z (u(a := 1)) ?st"
      using wf' inv by (auto simp: fs_inv_def idle_unlink_sel [OF c])
    moreover have "u a = 0" "vc_references c = 0" using ok True by auto
    ultimately show ?thesis using True u by (simp add: st1)
  next
    case False
    let ?c = "c\<lparr>vc_references := vc_references c + 1\<rparr>"
    have "fs_wf z {} (u(a := u a + 1)) (slot (set_cell a ?c st)) (set_cell a ?c st)"
    proof (rule fs_wf_update [OF wf, where a = a and x = "Some ?c"], goal_cases)
      case 1 show ?case by (auto simp: cell_set_cell [OF c] fun_eq_iff)
    next case (4 c') then show ?case using ok False by (auto simp: cell_ok_def)
    next case 6 then show ?case using fs_wf_table [OF wf] c by fastforce
    next case 11 show ?case
        using memory_total_set_cell [OF c, of ?c] fs_wf_memory [OF wf] by (simp split: if_splits)
    qed (use ok False fs_wf_distinct [OF wf] c in \<open>auto\<close>)
    then show ?thesis using False c inv by (simp add: st1 fs_inv_def)
  qed
qed

lemma cache_acquire_inv:
  assumes inv: "fs_inv z u st" and acq: "cache_acquire p e k sz st = (r, st')"
    and z: "fst z k (length (fs_cells st)) sz" "snd z (length (fs_cells st)) (Some p, e, sz, CACHE_EMPTY)"
  shows "case r of
      None \<Rightarrow> fs_inv z u st' \<and> cell st' = cell st
    | Some a \<Rightarrow> fs_inv z (u(a := u a + 1)) st' \<and> slot st' k = Some a
               \<and> (\<forall>b. b \<noteq> a \<and> u b > 0 \<longrightarrow> cell st' b = cell st b)
               \<and> (slot st k = Some a \<or> slot st k = None \<and> cell st a = None \<and> (\<exists>c. cell st' a = Some c
                    \<and> vc_package c = Some p \<and> vc_entry c = e \<and> vc_size c = sz \<and> vc_data c = CACHE_EMPTY))"
proof -
  define st1 where "st1 = (case fs_table st of Some t \<Rightarrow> st
      | None \<Rightarrow> (case fs_alloc st of (True, st) \<Rightarrow> st\<lparr>fs_table := Some kh_init\<rparr> | (False, st) \<Rightarrow> st))"
  have st1: "fs_inv z u st1 \<and> cell st1 = cell st \<and> slot st1 = slot st"
  proof (cases "fs_table st")
    case None
    obtain ok st0 where al: "fs_alloc st = (ok, st0)" by fastforce
    note a = fs_alloc_inv [OF inv al]
    have s: "slot (st0\<lparr>fs_table := Some kh_init\<rparr>) = slot st0"
      using a None by (simp add: slot_def kh_simps fun_eq_iff)
    have "fs_inv z u (st0\<lparr>fs_table := Some kh_init\<rparr>)"
      using conjunct1 [OF a] by (simp add: fs_inv_def s kh_invars)
    with s a show ?thesis by (simp add: st1_def None al fun_eq_iff split: bool.splits)
  qed (use inv in \<open>simp add: st1_def\<close>)
  note inv1 = conjunct1 [OF st1]
  have len1: "fs_cells st1 = fs_cells st"
  proof (cases "fs_table st")
    case None
    obtain ok st0 where al: "fs_alloc st = (ok, st0)" by fastforce
    show ?thesis using fs_alloc_inv [OF inv al] by (simp add: st1_def None al split: bool.splits)
  qed (simp add: st1_def)
  have acq1: "(case fs_table st1 of None \<Rightarrow> (None, st1)
         | Some t \<Rightarrow> case fs_alloc st1 of
              (False, st) \<Rightarrow> (None, st)
            | (True, st) \<Rightarrow>
               (case kh_get t k of
                Some a \<Rightarrow>
                  (let st = if vc_idle (the_cell st a) then idle_unlink a st else st;
                      c = the_cell st a
                  in (Some a, set_cell a (c\<lparr>vc_references := vc_references c + 1\<rparr>) st))
              | None \<Rightarrow>
                       (case fs_alloc st of
                          (False, st) \<Rightarrow> (None, st)
                        | (True, st) \<Rightarrow>
                            (let a = length (fs_cells st);
                                 c = \<lparr>vc_identity = k, vc_size = sz, vc_package = Some p,
                                      vc_entry = e, vc_data = CACHE_EMPTY, vc_references = 1,
                                      vc_idle = False, vc_detached = False\<rparr>;
                                 st = zip_package_retain p st
                             in (Some a, st\<lparr>fs_cells := fs_cells st @ [Some c],
                                            fs_table := Some (kh_set k a t)\<rparr>))))) = (r, st')"
    using acq unfolding cache_acquire_def st1_def Let_def by simp
  show ?thesis
  proof (cases "fs_table st1")
    case None with acq1 inv1 st1 show ?thesis by auto
  next
    case (Some t)
    note T = Some
    obtain ok2 st2 where a2: "fs_alloc st1 = (ok2, st2)" by fastforce
    note i2 = fs_alloc_inv [OF inv1 a2]
    note inv2 = conjunct1 [OF i2]
    show ?thesis
    proof (cases ok2)
      case False
      with acq1 T a2 i2 st1 show ?thesis by auto
    next
      case ok2: True
      show ?thesis
      proof (cases "kh_get t k")
        case (Some a)
        then have s: "slot st2 k = Some a" using i2 by (simp add: slot_def T)
        then obtain c where c: "cell st2 a = Some c" using fs_wf_table [OF fs_inv_wf [OF inv2]] by blast
        note c' = the_cell [OF c]
        let ?st2 = "if vc_idle c then idle_unlink a st2 else st2"
        let ?st3 = "set_cell a ((the_cell ?st2 a)\<lparr>vc_references := vc_references (the_cell ?st2 a) + 1\<rparr>) ?st2"
        have r: "r = Some a" "st' = ?st3" using acq1 T a2 ok2 Some c' by (auto simp: Let_def)
        have c2: "cell ?st2 a = Some (c\<lparr>vc_idle := False\<rparr>)" using c by (simp add: idle_unlink_sel [OF c])
        have i: "fs_inv z (u(a := u a + 1)) ?st3" by (rule acquire_shared_inv [OF inv2 s c refl])
        have "slot ?st3 = slot st" using st1 i2 by (simp add: idle_unlink_slot [OF c])
        moreover have "cell ?st3 b = cell st b" if "b \<noteq> a" for b
          using that st1 i2 by (simp add: cell_set_cell [OF c2] idle_unlink_sel [OF c])
        ultimately show ?thesis using i r s st1 i2 by simp
      next
        case None
        obtain ok3 st3 where a3: "fs_alloc st2 = (ok3, st3)" by fastforce
        note i3 = fs_alloc_inv [OF inv2 a3]
        show ?thesis
        proof (cases ok3)
          case False
          with acq1 T None a2 ok2 a3 i2 i3 st1 show ?thesis by (auto split: bool.splits)
        next
          case True
          let ?st4 = "zip_package_retain p st3"
          let ?a = "length (fs_cells st3)"
          let ?c = "\<lparr>vc_identity = k, vc_size = sz, vc_package = Some p, vc_entry = e,
            vc_data = CACHE_EMPTY, vc_references = 1, vc_idle = False, vc_detached = False\<rparr>"
          let ?st5 = "?st4\<lparr>fs_cells := fs_cells ?st4 @ [Some ?c], fs_table := Some (kh_set k ?a t)\<rparr>"
          have r: "r = Some ?a" "st' = ?st5"
            using acq1 T None a2 a3 ok2 True by (simp_all add: Let_def)
          have i4: "fs_inv z u ?st4" using i3 by (simp add: zip_package_retain_def fs_inv_frame)
          have t4: "fs_table ?st4 = Some t" using i2 i3 T by (simp add: zip_package_retain_def)
          have l: "?a = length (fs_cells ?st4)" by (simp add: zip_package_retain_def)
          have la: "?a = length (fs_cells st)" using i2 i3 len1 by simp
          have i: "fs_inv z (u(?a := u ?a + 1)) ?st5"
            by (rule acquire_new_inv [OF i4 t4 None refl l]) (use z la in simp_all)
          have cells: "cell ?st5 = (cell st)(?a := Some ?c)"
            unfolding cell_append using i2 i3 st1
            by (simp add: zip_package_retain_def fun_eq_iff)
          have "slot ?st5 k = Some ?a" by (simp add: slot_def kh_simps)
          moreover have "slot st k = None" using st1 None T by (auto simp: slot_def fun_eq_iff split: option.splits)
          moreover have "cell st ?a = None" by (simp add: cell_def la)
          ultimately show ?thesis using i r cells by simp
        qed
      qed
    qed
  qed
qed

lemma idle_push_sel:
  assumes "cell st a = Some c"
  shows "cell (idle_push a st) = (cell st)(a \<mapsto> c\<lparr>vc_idle := True\<rparr>)"
    and "fs_idle_memory (idle_push a st) = (if is_memory c then fs_idle_memory st @ [a] else fs_idle_memory st)"
    and "fs_idle_disk (idle_push a st) = (if is_memory c then fs_idle_disk st else fs_idle_disk st @ [a])"
    and "fs_idle_memory_bytes (idle_push a st) = fs_idle_memory_bytes st + (if is_memory c then vc_size c else 0)"
    and "fs_idle_disk_bytes (idle_push a st) = fs_idle_disk_bytes st + (if is_memory c then 0 else vc_size c)"
    and "fs_memory_used (idle_push a st) = fs_memory_used st"
    and "memory_total (idle_push a st) = memory_total st"
    and "fs_table (idle_push a st) = fs_table st"
    and "slot (idle_push a st) = slot st"
    and "fs_memory_total_limit (idle_push a st) = fs_memory_total_limit st"
    and "fs_idle_disk_limit (idle_push a st) = fs_idle_disk_limit st"
  using assms memory_total_set_cell [OF assms, of "c\<lparr>vc_idle := True\<rparr>"]
  by (auto simp: idle_push_def Let_def cell_set_cell fun_eq_iff slot_def split: if_splits)

lemma fs_wf_used_notin: "fs_wf z X u s st \<Longrightarrow> u b > 0 \<Longrightarrow> b \<notin> X"
  using fs_wf_used [of z X u s st b] fs_wf_cell [of z X u s st b] unfolding cell_ok_def by force

text \<open>Evicting temporary files until the idle ones fit their limit.\<close>

lemma evict_loop_spec:
  assumes "fs_wf z (set unused) u (slot st) st" "table_ok st" "distinct unused"
    and "length (fs_idle_disk st) \<le> fuel"
    and "evict_loop fuel unused st = (unused', st')"
  shows "fs_wf z (set unused') u (slot st') st' \<and> table_ok st' \<and> distinct unused'
    \<and> fs_idle_disk_bytes st' \<le> fs_idle_disk_limit st'
    \<and> fs_memory_used st' = fs_memory_used st
    \<and> fs_memory_total_limit st' = fs_memory_total_limit st
    \<and> (\<forall>b. u b > 0 \<longrightarrow> cell st' b = cell st b) \<and> (\<forall>b. u b > 0 \<longrightarrow> b \<notin> set unused')"
  using assms
proof (induction fuel arbitrary: unused st)
  case 0
  then have "fs_idle_disk_bytes st = 0" by (simp add: fs_wf_def)
  moreover have "b \<notin> set unused" if "u b > 0" for b
    by (rule fs_wf_used_notin [OF 0(1) that])
  moreover have "unused' = unused" "st' = st" using 0(5) by simp_all
  ultimately show ?case using 0(1-3) by simp
next
  case (Suc fuel)
  note wf = Suc.prems(1)
  have un: "b \<notin> set unused" if "u b > 0" for b
    by (rule fs_wf_used_notin [OF wf that])
  show ?case
  proof (cases "fs_idle_disk_bytes st > fs_idle_disk_limit st")
    case False
    then have "unused' = unused" "st' = st" using Suc.prems(5) by simp_all
    with False Suc.prems(1-3) un show ?thesis by simp
  next
    case True
    have "fs_idle_disk st \<noteq> []"
    proof
      assume "fs_idle_disk st = []"
      with wf have "fs_idle_disk_bytes st = 0" by (simp add: fs_wf_def)
      with True show False by simp
    qed
    then obtain a rest where l: "fs_idle_disk st = a # rest" by (cases "fs_idle_disk st") auto
    with wf obtain c where c: "cell st a = Some c" by (auto simp: fs_wf_def)
    have ok: "vc_idle c" "\<not> is_memory c" "a \<notin> set unused" "u a = 0"
      using fs_wf_cell [OF wf c] l by (auto simp: cell_ok_def)
    note sel = idle_evict_sel [OF c]
    have e: "evict_loop fuel (a # unused) (idle_evict a st) = (unused', st')"
      using Suc.prems(5) True l by simp
    have "fs_wf z (set (a # unused)) u (slot (idle_evict a st)) (idle_evict a st)"
      using idle_evict_wf [OF wf c ok(1)] by simp
    moreover have "length (fs_idle_disk (idle_evict a st)) \<le> fuel"
      using Suc.prems(4) l ok by (simp add: sel)
    ultimately have r: "fs_wf z (set unused') u (slot st') st' \<and> table_ok st' \<and> distinct unused'
      \<and> fs_idle_disk_bytes st' \<le> fs_idle_disk_limit st'
      \<and> fs_memory_used st' = fs_memory_used (idle_evict a st)
      \<and> fs_memory_total_limit st' = fs_memory_total_limit (idle_evict a st)
      \<and> (\<forall>b. u b > 0 \<longrightarrow> cell st' b = cell (idle_evict a st) b) \<and> (\<forall>b. u b > 0 \<longrightarrow> b \<notin> set unused')"
      using Suc.IH [of "a # unused" "idle_evict a st"] e ok Suc.prems(2,3) sel(10) by simp
    have "cell (idle_evict a st) b = cell st b" if "u b > 0" for b
      using that ok by (auto simp: sel(1))
    with r show ?thesis by (simp add: sel(7,8))
  qed
qed

text \<open>The last file of a cache leaves it idle.\<close>

lemma release_push_wf:
  assumes wf: "fs_wf z {} u (slot st) st" and c: "cell st a = Some c" and u: "u a = 1"
    and keep: "is_memory c \<or> is_disk c" "\<not> vc_detached c"
  shows "fs_wf z {} (u(a := 0)) (slot (idle_push a (set_cell a (c\<lparr>vc_references := 0\<rparr>) st)))
           (idle_push a (set_cell a (c\<lparr>vc_references := 0\<rparr>) st))"
proof -
  let ?c = "c\<lparr>vc_references := 0\<rparr>"
  note ok = fs_wf_cell [OF wf c, unfolded cell_ok_def]
  have c': "cell (set_cell a ?c st) a = Some ?c" by (simp add: cell_set_cell [OF c])
  note sel = idle_push_sel [OF c']
  note d = fs_wf_distinct [OF wf]
  have n: "a \<notin> set (fs_idle_memory st)" "a \<notin> set (fs_idle_disk st)" using ok u by auto
  have k: "slot st x = Some a \<Longrightarrow> x = vc_identity c" for x by (rule fs_wf_table_eq [OF wf c])
  show ?thesis
  proof (rule fs_wf_update [OF wf, where a = a and x = "Some (c\<lparr>vc_references := 0, vc_idle := True\<rparr>)"], goal_cases)
    case 1 show ?case unfolding sel(1) by (simp add: cell_set_cell [OF c] fun_eq_iff)
  next case (4 c'')
    then have c'': "c'' = c\<lparr>vc_references := 0, vc_idle := True\<rparr>" by simp
    show ?case using ok u keep n unfolding c'' cell_ok_def sel by simp
  next case (6 x) then show ?case using k [of x] keep by (simp add: sel)
  next case 11 show ?case
      using memory_total_set_cell [OF c, of ?c] fs_wf_memory [OF wf] by (simp add: sel split: if_splits)
  next case (2 b) then show ?case by (simp add: sel)
  next case 3 then show ?case by (simp add: sel)
  next case 7 show ?case using d n by (simp add: sel)
  next case 8 show ?case using d n by (simp add: sel)
  next case 9 show ?case using n by (simp add: sel)
  next case 10 show ?case using n by (simp add: sel)
  qed simp
qed

text \<open>A cache that is not kept leaves the table, unless it was detached from it before.\<close>

lemma release_drop_wf:
  assumes wf: "fs_wf z {} u (slot st) st" and c: "cell st a = Some c" and u: "u a = 1"
    and s: "s = (if vc_detached c then slot st else (slot st)(vc_identity c := None))"
  shows "fs_wf z {a} (u(a := 0)) s (set_cell a (c\<lparr>vc_references := 0\<rparr>) st)"
proof -
  let ?c = "c\<lparr>vc_references := 0\<rparr>"
  note ok = fs_wf_cell [OF wf c, unfolded cell_ok_def]
  have k: "slot st k = Some a \<Longrightarrow> k = vc_identity c \<and> \<not> vc_detached c" for k
    using fs_wf_table [OF wf, of k a] c by auto
  have k': "\<not> vc_detached c \<Longrightarrow> slot st (vc_identity c) = Some a" using ok by simp
  show ?thesis
  proof (rule fs_wf_update [OF wf, where a = a and x = "Some ?c"], goal_cases)
    case 1 show ?case by (auto simp: cell_set_cell [OF c] fun_eq_iff)
  next case (3 k b) then show ?case using k' by (auto simp: s)
  next case (4 c') then show ?case using ok u by (auto simp: cell_ok_def)
  next case (6 x) then show ?case using k [of x] by (auto simp: s split: if_splits)
  next case 11 show ?case
      using memory_total_set_cell [OF c, of ?c] fs_wf_memory [OF wf] by (simp split: if_splits)
  qed (use ok u fs_wf_distinct [OF wf] c in \<open>auto\<close>)
qed

lemma cache_release_inv:
  assumes inv: "fs_inv z u st" and u: "u a > 0"
  shows "fs_inv z (u(a := u a - 1)) (cache_release a st)
    \<and> (\<forall>b. b \<noteq> a \<and> u b > 0 \<longrightarrow> cell (cache_release a st) b = cell st b)
    \<and> (\<forall>c. u a > 1 \<and> cell st a = Some c \<longrightarrow>
          cell (cache_release a st) a = Some (c\<lparr>vc_references := vc_references c - 1\<rparr>))"
proof -
  note wf = fs_inv_wf [OF inv]
  from fs_wf_used [OF wf u] obtain c where c: "cell st a = Some c" by blast
  note ok = fs_wf_cell [OF wf c, unfolded cell_ok_def]
  let ?c = "c\<lparr>vc_references := vc_references c - 1\<rparr>"
  let ?st1 = "set_cell a ?c st"
  have r: "vc_references c = u a" using ok by simp
  have c1: "cell ?st1 a = Some ?c" by (simp add: cell_set_cell [OF c])
  have rel: "cache_release a st = (if u a - 1 = 0 then
       (if \<not> vc_detached c \<and> (is_memory c \<or> (is_disk c \<and> vc_size c \<le> fs_idle_disk_limit st)) then
          (case evict_loop (length (fs_idle_disk (idle_push a ?st1))) [] (idle_push a ?st1) of
             (unused, st) \<Rightarrow> cache_destroy_chain unused st)
        else cache_destroy a (if vc_detached c then ?st1 else cache_forget a ?st1))
      else ?st1)"
    using r by (simp add: cache_release_def the_cell [OF c] Let_def)
  show ?thesis
  proof (cases "u a = 1")
    case False
    have "fs_wf z {} (u(a := u a - 1)) (slot ?st1) ?st1"
    proof (rule fs_wf_update [OF wf, where a = a and x = "Some ?c"], goal_cases)
      case 1 show ?case by (auto simp: cell_set_cell [OF c] fun_eq_iff)
    next case (4 c') then show ?case using ok False u by (auto simp: cell_ok_def)
    next case (6 x) then show ?case using fs_wf_table [OF wf] c by fastforce
    next case 11 show ?case
        using memory_total_set_cell [OF c, of ?c] fs_wf_memory [OF wf] by (simp split: if_splits)
    qed (use ok False fs_wf_distinct [OF wf] c in \<open>auto\<close>)
    then have "fs_inv z (u(a := u a - 1)) ?st1" using inv by (simp add: fs_inv_def)
    moreover have "cache_release a st = ?st1" using rel False u by simp
    ultimately show ?thesis using c by (simp add: cell_set_cell [OF c])
  next
    case one: True
    have c0: "?c = c\<lparr>vc_references := 0\<rparr>" using r one by simp
    let ?u = "u(a := u a - 1)"
    have ua: "?u = u(a := 0)" using one by simp
    have tok: "table_ok st" using inv by (simp add: fs_inv_def table_ok_def)
    show ?thesis
    proof (cases "\<not> vc_detached c \<and> (is_memory c \<or> (is_disk c \<and> vc_size c \<le> fs_idle_disk_limit st))")
      case True
      let ?st2 = "idle_push a ?st1"
      note sel = idle_push_sel [OF c1]
      obtain unused st3 where ev: "evict_loop (length (fs_idle_disk ?st2)) [] ?st2 = (unused, st3)" by fastforce
      have wf2: "fs_wf z (set []) (u(a := 0)) (slot ?st2) ?st2"
        using release_push_wf [OF wf c one] True c0 by auto
      have tok2: "table_ok ?st2" using tok unfolding table_ok_def sel(8) by simp
      note e = evict_loop_spec [OF wf2 tok2 distinct.simps(1) [THEN iffD2] order_refl ev]
      note chain = cache_destroy_chain_wf [of z unused "u(a := 0)" "slot st3" st3]
        cache_destroy_chain_sel [of z unused "u(a := 0)" "slot st3" st3]
      have rel': "cache_release a st = cache_destroy_chain unused st3" using rel one True ev by simp
      have l: "fs_memory_used ?st2 = fs_memory_used st" "fs_memory_total_limit ?st2 = fs_memory_total_limit st"
        unfolding sel(6,10) by simp_all
      have "fs_inv z ?u (cache_destroy_chain unused st3)"
        using e chain inv l unfolding ua fs_inv_def table_ok_def by (auto simp del: fun_upd_apply)
      moreover have "cell (cache_destroy_chain unused st3) b = cell st b" if "b \<noteq> a" "u b > 0" for b
      proof -
        have "cell ?st2 b = cell st b" unfolding sel(1) using that by (simp add: cell_set_cell [OF c])
        moreover have "(u(a := 0)) b > 0" using that by simp
        ultimately show ?thesis using e chain(2) by (simp del: fun_upd_apply)
      qed
      ultimately show ?thesis using rel' one by simp
    next
      case False
      let ?st2 = "if vc_detached c then ?st1 else cache_forget a ?st1"
      have s2: "slot ?st2 = (if vc_detached c then slot st else (slot st)(vc_identity c := None))"
        by (simp add: cache_forget_sel(2) [OF c1] del: One_nat_def)
      have wf2: "fs_wf z {a} (u(a := 0)) (slot ?st2) ?st2"
      proof -
        have "fs_wf z {a} (u(a := 0)) (slot ?st2) ?st1"
          using release_drop_wf [OF wf c one s2] by (simp only: c0)
        then show ?thesis
          using cache_forget_sel(3) [OF c1] by (cases "vc_detached c") (simp_all del: One_nat_def)
      qed
      have c2: "cell ?st2 a = Some ?c" using c1 by (simp add: cache_forget_sel(1) [OF c1] del: One_nat_def)
      have wf3: "fs_wf z {} (u(a := 0)) (slot ?st2) (cache_destroy a ?st2)"
        using cache_destroy_wf [OF wf2 c2] by simp
      have "table_ok ?st1" using tok by (simp add: table_ok_def)
      then have tok2: "table_ok ?st2"
        using cache_forget_sel(11) [OF c1] by (simp add: table_ok_def)
      have l: "fs_memory_used ?st2 = fs_memory_used st" "fs_idle_disk_bytes ?st2 = fs_idle_disk_bytes st"
          "fs_memory_total_limit ?st2 = fs_memory_total_limit st" "fs_idle_disk_limit ?st2 = fs_idle_disk_limit st"
        by (simp_all add: cache_forget_sel(7-10) [OF c1] del: One_nat_def)
      have rel': "cache_release a st = cache_destroy a ?st2"
        using rel one False by (simp del: not_gr_zero)
      have "fs_inv z ?u (cache_destroy a ?st2)"
        unfolding ua fs_inv_def cache_destroy_sel [OF c2]
        using wf3 tok2 inv l by (auto simp: fs_inv_def table_ok_def simp del: fun_upd_apply)
      moreover have "cell (cache_destroy a ?st2) b = cell st b" if "b \<noteq> a" for b
        using that by (simp add: cache_destroy_sel(1) [OF c2] cache_forget_sel(1) [OF c1] cell_set_cell [OF c]
            del: One_nat_def)
      ultimately show ?thesis using rel' one by simp
    qed
  qed
qed

subsection \<open>Dropping the table\<close>

text \<open>
  \<open>s\<close> is what is left of the dropped table: the slots still to visit. Idle caches are
  chained for destruction, the others detached.
\<close>

lemma detach_wf:
  assumes wf: "fs_wf z X u s st" and c: "cell st a = Some c" and n: "\<not> vc_idle c" and k: "s k = Some a"
  shows "fs_wf z X u (s(k := None)) (set_cell a (c\<lparr>vc_detached := True\<rparr>) st)"
proof -
  note ok = fs_wf_cell [OF wf c, unfolded cell_ok_def]
  have aX: "a \<notin> X" "vc_identity c = k" using fs_wf_table [OF wf k] c by auto
  have k': "s x = Some a \<Longrightarrow> x = k" for x using fs_wf_table_eq [OF wf c] aX by simp
  have ni: "a \<notin> set (fs_idle_memory st)" "a \<notin> set (fs_idle_disk st)" using ok n by simp_all
  show ?thesis
  proof (rule fs_wf_update [OF wf, where a = a and x = "Some (c\<lparr>vc_detached := True\<rparr>)"], goal_cases)
    case 1 show ?case by (auto simp: cell_set_cell [OF c] fun_eq_iff)
  next case (3 x b) then show ?case using k by auto
  next case (4 c')
    then have c': "c' = c\<lparr>vc_detached := True\<rparr>" by simp
    show ?case unfolding c' cell_ok_def using ok n by simp
  next case (6 x) then show ?case using k' [of x] by (auto split: if_splits)
  next case 11 show ?case
      using memory_total_set_cell [OF c, of "c\<lparr>vc_detached := True\<rparr>"] fs_wf_memory [OF wf]
      by (simp split: if_splits)
  qed (use ni aX fs_wf_distinct [OF wf] c in \<open>auto\<close>)
qed

text \<open>One slot, and the whole table: \<open>T\<close> is what is left to visit.\<close>

definition same_budget :: "vfs_files \<Rightarrow> vfs_files \<Rightarrow> bool" where
  "same_budget st st' \<longleftrightarrow> fs_table st' = fs_table st \<and> fs_idle_disk_bytes st' \<le> fs_idle_disk_bytes st
     \<and> fs_memory_used st' \<le> fs_memory_used st \<and> fs_memory_total_limit st' = fs_memory_total_limit st
     \<and> fs_idle_disk_limit st' = fs_idle_disk_limit st"

lemma same_budget_trans: "same_budget st st1 \<Longrightarrow> same_budget st1 st2 \<Longrightarrow> same_budget st st2"
  by (auto simp: same_budget_def)

lemma detached_self [simp]: "c\<lparr>vc_detached := vc_detached c\<rparr> = c"
  by (cases c) simp

definition same_data :: "(nat \<Rightarrow> nat) \<Rightarrow> vfs_files \<Rightarrow> vfs_files \<Rightarrow> bool" where
  "same_data u st st' \<longleftrightarrow> (\<forall>b c. u b > 0 \<and> cell st b = Some c \<longrightarrow>
     (\<exists>c'. cell st' b = Some c' \<and> c' = c\<lparr>vc_detached := vc_detached c'\<rparr>))"

lemma drop_slot_wf:
  assumes wf: "fs_wf z (set unused) u s st" and d: "distinct unused" and k: "s k = Some a"
    and st': "drop_slot a (unused, st) = (unused', st')"
  shows "fs_wf z (set unused') u (s(k := None)) st' \<and> distinct unused' \<and> same_budget st st' \<and> same_data u st st'"
proof -
  from fs_wf_table [OF wf k] obtain c where c: "cell st a = Some c" "vc_identity c = k" "a \<notin> set unused" by auto
  show ?thesis
  proof (cases "vc_idle c")
    case True
    then have r: "unused' = a # unused" "st' = idle_unlink a st"
      using st' the_cell [OF c(1)] by (simp_all add: drop_slot_def)
    have "u a = 0" using fs_wf_cell [OF wf c(1)] True by (simp add: cell_ok_def)
    then have "same_data u st st'"
      unfolding r same_data_def idle_unlink_sel(1) [OF c(1)]
      by auto
    then show ?thesis
      using idle_unlink_wf [OF wf c(1) True] c d r idle_unlink_sel [OF c(1)]
      by (simp add: same_budget_def)
  next
    case False
    then have r: "unused' = unused" "st' = set_cell a (c\<lparr>vc_detached := True\<rparr>) st"
      using st' the_cell [OF c(1)] by (simp_all add: drop_slot_def)
    have "same_data u st st'"
      unfolding r same_data_def using c(1)
      by (auto simp: cell_set_cell [OF c(1)])
    then show ?thesis
      using detach_wf [OF wf c(1) False k] d r by (simp add: same_budget_def)
  qed
qed

lemma same_data_trans: "same_data u st st1 \<Longrightarrow> same_data u st1 st2 \<Longrightarrow> same_data u st st2"
  unfolding same_data_def
proof (intro allI impI, elim conjE)
  fix b c
  assume 1: "\<forall>b c. u b > 0 \<and> cell st b = Some c \<longrightarrow> (\<exists>c'. cell st1 b = Some c' \<and> c' = c\<lparr>vc_detached := vc_detached c'\<rparr>)"
    and 2: "\<forall>b c. u b > 0 \<and> cell st1 b = Some c \<longrightarrow> (\<exists>c'. cell st2 b = Some c' \<and> c' = c\<lparr>vc_detached := vc_detached c'\<rparr>)"
    and b: "u b > 0" "cell st b = Some c"
  from 1 b obtain c1 where c1: "cell st1 b = Some c1" "c1 = c\<lparr>vc_detached := vc_detached c1\<rparr>" by blast
  from 2 b(1) c1(1) obtain c2 where c2: "cell st2 b = Some c2" "c2 = c1\<lparr>vc_detached := vc_detached c2\<rparr>" by blast
  have "c2 = c\<lparr>vc_detached := vc_detached c2\<rparr>" using c1(2) c2(2) by (cases c; cases c1; cases c2) simp
  with c2(1) show "\<exists>c'. cell st2 b = Some c' \<and> c' = c\<lparr>vc_detached := vc_detached c'\<rparr>" by blast
qed

lemma drop_fold_wf:
  assumes "fs_wf z (set unused) u (map_of t) st" "distinct unused" "distinct (map fst t)"
    and "fold drop_slot (map snd t) (unused, st) = (unused', st')"
  shows "fs_wf z (set unused') u (\<lambda>_. None) st' \<and> distinct unused' \<and> same_budget st st' \<and> same_data u st st'"
  using assms
proof (induction t arbitrary: unused st)
  case Nil
  then show ?case by (auto simp: same_budget_def same_data_def fun_eq_iff)
next
  case (Cons p t)
  obtain k a where p: "p = (k, a)" by fastforce
  obtain unused1 st1 where d: "drop_slot a (unused, st) = (unused1, st1)" by fastforce
  have k: "map_of (p # t) k = Some a" by (simp add: p)
  have m: "(map_of (p # t))(k := None) = map_of t"
    using Cons.prems(3) by (auto simp: p fun_eq_iff map_of_eq_None_iff [THEN iffD2])
  note one = drop_slot_wf [OF Cons.prems(1,2) k d, unfolded m]
  have "fold drop_slot (map snd t) (unused1, st1) = (unused', st')"
    using Cons.prems(4) d by (simp add: p)
  with Cons.IH [of unused1 st1] one Cons.prems(3)
  have "fs_wf z (set unused') u (\<lambda>_. None) st' \<and> distinct unused' \<and> same_budget st1 st' \<and> same_data u st1 st'"
    by simp
  with one show ?case using same_budget_trans same_data_trans by blast
qed

lemma vfs_file_drop_caches_inv:
  assumes inv: "fs_inv z u st"
  shows "fs_inv z u (vfs_file_drop_caches st) \<and> fs_table (vfs_file_drop_caches st) = None
    \<and> same_data u st (vfs_file_drop_caches st)"
proof (cases "fs_table st")
  case None
  with inv show ?thesis
    by (auto simp: vfs_file_drop_caches_def same_data_def)
next
  case (Some t)
  let ?st = "st\<lparr>fs_table := None\<rparr>"
  obtain unused st' where f: "fold drop_slot (map snd t) ([], ?st) = (unused, st')" by fastforce
  have dt: "distinct (map fst t)" using inv Some by (simp add: fs_inv_def kh_distinct_def kh_keys_def)
  have "slot st = map_of t" by (simp add: slot_def Some kh_get_def fun_eq_iff)
  with fs_inv_wf [OF inv] have wf: "fs_wf z (set []) u (map_of t) ?st" by simp
  note r = drop_fold_wf [OF wf distinct.simps(1) [THEN iffD2] dt f]
  note chain = cache_destroy_chain_wf [of z unused u "\<lambda>_. None" st'] cache_destroy_chain_sel [of z unused u "\<lambda>_. None" st']
  have e: "vfs_file_drop_caches st = cache_destroy_chain unused st'"
    by (simp add: vfs_file_drop_caches_def Some f)
  have t: "fs_table (cache_destroy_chain unused st') = None"
    using r chain(2) by (simp add: same_budget_def)
  then have s: "slot (cache_destroy_chain unused st') = (\<lambda>_. None)" by (simp add: slot_def fun_eq_iff)
  have i: "fs_inv z u (cache_destroy_chain unused st')"
    using r chain inv t s by (auto simp: fs_inv_def same_budget_def)
  have "cell (cache_destroy_chain unused st') b = cell st' b" if "u b > 0" for b
    using fs_wf_used_notin [of z "set unused" u _ st' b] that r chain(2) by auto
  then have "same_data u st (cache_destroy_chain unused st')"
    using r by (auto simp: same_data_def)
  with i t e show ?thesis by simp
qed

subsection \<open>Decoding\<close>

text \<open>Everything but the storage and the new data changes only what the oracles use.\<close>

definition only_oracles :: "vfs_files \<Rightarrow> vfs_files \<Rightarrow> bool" where
  "only_oracles st st' \<longleftrightarrow> (\<exists>h n i. st' = st\<lparr>fs_heap := h, fs_sequence := n, fs_io := i\<rparr>)"

lemma only_oracles_refl [simp]: "only_oracles st st"
  unfolding only_oracles_def
  by (rule exI [of _ "fs_heap st"], rule exI [of _ "fs_sequence st"], rule exI [of _ "fs_io st"]) simp

lemma only_oracles_trans: "only_oracles st st1 \<Longrightarrow> only_oracles st1 st2 \<Longrightarrow> only_oracles st st2"
proof -
  assume "only_oracles st st1" "only_oracles st1 st2"
  then obtain h n i h' n' i' where "st1 = st\<lparr>fs_heap := h, fs_sequence := n, fs_io := i\<rparr>"
    "st2 = st1\<lparr>fs_heap := h', fs_sequence := n', fs_io := i'\<rparr>"
    by (auto simp: only_oracles_def)
  then have "st2 = st\<lparr>fs_heap := h', fs_sequence := n', fs_io := i'\<rparr>" by simp
  then show ?thesis unfolding only_oracles_def by blast
qed

lemma only_oracles_upd [simp]:
  "only_oracles st (st\<lparr>fs_heap := h\<rparr>)" "only_oracles st (st\<lparr>fs_io := n\<rparr>)" "only_oracles st (st\<lparr>fs_sequence := n\<rparr>)"
proof -
  show "only_oracles st (st\<lparr>fs_heap := h\<rparr>)" unfolding only_oracles_def
    by (rule exI [of _ h], rule exI [of _ "fs_sequence st"], rule exI [of _ "fs_io st"]) simp
  show "only_oracles st (st\<lparr>fs_io := n\<rparr>)" unfolding only_oracles_def
    by (rule exI [of _ "fs_heap st"], rule exI [of _ "fs_sequence st"], rule exI [of _ n]) simp
  show "only_oracles st (st\<lparr>fs_sequence := n\<rparr>)" unfolding only_oracles_def
    by (rule exI [of _ "fs_heap st"], rule exI [of _ n], rule exI [of _ "fs_io st"]) simp
qed

lemma only_oracles_inv:
  assumes "only_oracles st st'"
  shows "cell st' = cell st" "slot st' = slot st" "fs_inv z u st' = fs_inv z u st" "fs_table st' = fs_table st"
    "fs_memory_used st' = fs_memory_used st" "fs_memory_total_limit st' = fs_memory_total_limit st"
  using assms by (auto simp: only_oracles_def fs_inv_def fun_eq_iff slot_def)

lemma fs_alloc_oracles: "fs_alloc st = (ok, st') \<Longrightarrow> only_oracles st st'"
  by (auto simp: fs_alloc_def split: prod.splits)

lemma create_attempts_oracles: "create_attempts n dk st = (ok, st') \<Longrightarrow> only_oracles st st'"
proof (induction n arbitrary: st)
  case (Suc n)
  let ?st = "st\<lparr>fs_sequence := fs_sequence st + 1\<rparr>"
  obtain ok1 st1 where a: "fs_alloc ?st = (ok1, st1)" by fastforce
  have 1: "only_oracles st st1" using only_oracles_trans [OF only_oracles_upd(3) fs_alloc_oracles [OF a]] .
  show ?case
    using Suc.prems Suc.IH [of st1] 1 only_oracles_trans [OF 1]
    unfolding create_attempts.simps Let_def a prod.case
    by (auto split: bool.splits create_result.splits)
qed simp

lemma create_disk_cache_oracles: "create_disk_cache dk st = (ok, st') \<Longrightarrow> only_oracles st st'"
proof -
  assume c: "create_disk_cache dk st = (ok, st')"
  obtain ok1 st1 where a: "fs_alloc st = (ok1, st1)" by fastforce
  note 1 = fs_alloc_oracles [OF a]
  show ?thesis
    using c 1 only_oracles_trans [OF 1 create_attempts_oracles]
    by (auto simp: create_disk_cache_def a split: if_splits bool.splits)
qed

lemma write_cache_oracles: "write_cache fuel dk n st = (r, st') \<Longrightarrow> only_oracles st st'"
proof (induction fuel dk n st rule: write_cache.induct)
  case (2 fuel dk n st)
  let ?st = "st\<lparr>fs_io := fs_io st + 1\<rparr>"
  show ?case
  proof (cases "n = 0")
    case False
    let ?chunk = "if n > MAXDWORD then MAXDWORD else n"
    show ?thesis
    proof (cases "dk_write dk (fs_io st) ?chunk")
      case (Some w)
      show ?thesis
      proof (cases "w = 0")
        case wn: False
        have "write_cache fuel dk (n - w) ?st = (r, st')" using 2(2) False Some wn by (simp add: Let_def)
        with 2(1) [OF False refl refl refl Some wn] have "only_oracles ?st st'" by simp
        then show ?thesis by (rule only_oracles_trans [OF only_oracles_upd(2)])
      qed (use 2(2) False Some in \<open>auto simp: Let_def\<close>)
    qed (use 2(2) False in \<open>auto simp: Let_def\<close>)
  qed (use 2(2) in auto)
qed auto

lemma decode_loop_spec:
  assumes "decode_loop fuel inflate crc32 dk sz on_disk zs data st = (r, st')" and "length data \<le> sz"
    and "sz - length data \<le> fuel"
  shows "only_oracles st st' \<and> (case r of Inl e \<Rightarrow> True | Inr (data', zs') \<Rightarrow> length data' = sz)"
  using assms
proof (induction fuel arbitrary: data zs st)
  case (Suc fuel)
  show ?case
  proof (cases "length data < sz")
    case True
    let ?chunk = "if sz - length data < CACHE_CHUNK_SIZE then sz - length data else CACHE_CHUNK_SIZE"
    have chunk: "0 < ?chunk" "?chunk \<le> sz - length data" using True by (auto simp: CACHE_CHUNK_SIZE_def)
    obtain ok received zs1 where z: "zip_stream_read inflate crc32 zs ?chunk = Some (ok, received, zs1)"
      using zip_stream_read_total [of inflate crc32 zs ?chunk] by (metis not_None_eq prod_cases3)
    note prem = Suc.prems(1) [unfolded decode_loop.simps if_P [OF True] Let_def z option.case prod.case]
    show ?thesis
    proof (cases "ok \<and> length received = ?chunk")
      case False
      with prem show ?thesis by (auto split: bool.splits if_splits)
    next
      case good: True
      have len: "length (data @ received) \<le> sz" "sz - length (data @ received) \<le> fuel"
        using good chunk Suc.prems(3) by auto
      show ?thesis
      proof (cases on_disk)
        case False
        then have "decode_loop fuel inflate crc32 dk sz on_disk zs1 (data @ received) st = (r, st')"
          using prem good by simp
        from Suc.IH [OF this len] show ?thesis .
      next
        case True
        obtain w st1 where w: "write_cache (length received) dk (length received) st = (w, st1)" by fastforce
        note o1 = write_cache_oracles [OF w]
        show ?thesis
        proof (cases w)
          case (Inl e)
          with prem good w True o1 show ?thesis by auto
        next
          case (Inr x)
          then have "decode_loop fuel inflate crc32 dk sz on_disk zs1 (data @ received) st1 = (r, st')"
            using prem good w True by simp
          from Suc.IH [OF this len] show ?thesis using only_oracles_trans [OF o1] by blast
        qed
      qed
    qed
  qed (use Suc.prems in auto)
qed auto

lemma decode_entry_spec:
  assumes "decode_entry inflate crc32 dk c storage st = (r, st')"
  shows "only_oracles st st' \<and> (case r of Inl e \<Rightarrow> True | Inr data \<Rightarrow> length data = vc_size c)"
proof -
  obtain z h where z: "zip_stream_open (vc_package c) (vc_entry c) (fs_heap st) = (z, h)" by fastforce
  show ?thesis
  proof (cases z)
    case (Inl e)
    with assms z show ?thesis by (auto simp: decode_entry_def)
  next
    case (Inr zs)
    obtain d st1 where d: "decode_loop (vc_size c) inflate crc32 dk (vc_size c) (storage = Some False) zs []
        (st\<lparr>fs_heap := h\<rparr>) = (d, st1)" by fastforce
    have spec: "only_oracles (st\<lparr>fs_heap := h\<rparr>) st1 \<and> (case d of Inl e \<Rightarrow> True | Inr (data', zs') \<Rightarrow> length data' = vc_size c)"
      by (rule decode_loop_spec [OF d]) simp_all
    then have "only_oracles st st1" using only_oracles_trans [OF only_oracles_upd(1)] by blast
    with assms z Inr d spec show ?thesis
      by (auto simp: decode_entry_def Let_def split: sum.splits if_splits option.splits bool.splits)
  qed
qed

lemma fs_alloc_used: "fs_alloc st = (ok, st') \<Longrightarrow>
    fs_alloc (st\<lparr>fs_memory_used := n\<rparr>) = (ok, st'\<lparr>fs_memory_used := n\<rparr>)"
  by (auto simp: fs_alloc_def split: prod.splits)

text \<open>With the storage set up, the size of the entry is reserved exactly when it is memory.\<close>

definition reserved :: "bool option \<Rightarrow> nat \<Rightarrow> vfs_files \<Rightarrow> vfs_files" where
  "reserved storage sz st = (if storage = Some True then st\<lparr>fs_memory_used := fs_memory_used st + sz\<rparr> else st)"

definition kept :: "cell_laws \<Rightarrow> (nat \<Rightarrow> nat) \<Rightarrow> vfs_files \<Rightarrow> vfs_files \<Rightarrow> bool" where
  "kept z u st st' \<longleftrightarrow> fs_inv z u st' \<and> (\<forall>b. u b > 0 \<longrightarrow> cell st' b = cell st b)"

lemma kept_oracles: "kept z u st st1 \<Longrightarrow> only_oracles st1 st2 \<Longrightarrow> kept z u st st2"
  by (simp add: kept_def only_oracles_inv)

lemma decode_disk_spec:
  assumes "kept z u st st1" and sz: "sz \<noteq> 0"
    and r: "(case create_disk_cache dk st1 of
             (False, st) \<Rightarrow> (Inl (ERROR_OS 0), st)
           | (True, st) \<Rightarrow>
               (case fs_alloc st of
                  (False, st) \<Rightarrow> (Inl ERROR_NOT_ENOUGH_MEMORY, st)
                | (True, st) \<Rightarrow> (Inr (Some False), st))) = (r, st')"
  shows "kept z u st st' \<and> (r = Inr (Some False) \<or> (\<exists>e. r = Inl e))"
proof -
  obtain ok st2 where c: "create_disk_cache dk st1 = (ok, st2)" by fastforce
  obtain ok' st3 where a: "fs_alloc st2 = (ok', st3)" by fastforce
  note k2 = kept_oracles [OF assms(1) create_disk_cache_oracles [OF c]]
  note k3 = kept_oracles [OF k2 fs_alloc_oracles [OF a]]
  show ?thesis using r k2 k3 by (auto simp: c a split: bool.splits)
qed

lemma decode_storage_spec:
  assumes inv: "fs_inv z u st" and d: "decode_storage dk sz st = (r, st')"
  shows "case r of Inl e \<Rightarrow> kept z u st st'
    | Inr storage \<Rightarrow> (storage = None \<longleftrightarrow> sz = 0)
        \<and> (\<exists>st2. kept z u st st2 \<and> st' = reserved storage sz st2
                \<and> (storage = Some True \<longrightarrow> fs_memory_used st2 + sz \<le> fs_memory_total_limit st2))"
proof (cases "sz = 0")
  case True
  with d inv show ?thesis by (auto simp: decode_storage_def kept_def reserved_def)
next
  case sz: False
  note spec = reserve_memory_spec [OF inv, of sz]
  have self: "kept z u st st" using inv by (simp add: kept_def)
  show ?thesis
  proof (cases "sz \<le> fs_memory_file_limit st \<and> reserve_fits sz st")
    case False
    with spec have "reserve_memory sz st = (False, st)" by simp
    with d sz decode_disk_spec [OF self sz, of dk r st'] show ?thesis
      by (auto simp: decode_storage_def reserved_def split: sum.splits)
  next
    case True
    with spec obtain st2 where m: "reserve_memory sz st = (True, st2\<lparr>fs_memory_used := fs_memory_used st2 + sz\<rparr>)"
      and k: "kept z u st st2" and fits: "fs_memory_used st2 + sz \<le> fs_memory_total_limit st2"
      by (auto simp: kept_def)
    obtain ok st3 where a: "fs_alloc st2 = (ok, st3)" by fastforce
    note a' = fs_alloc_used [OF a, of "fs_memory_used st2 + sz"]
    note o3 = fs_alloc_oracles [OF a]
    have k3: "kept z u st st3" by (rule kept_oracles [OF k o3])
    have u3: "fs_memory_used st3 = fs_memory_used st2" "fs_memory_total_limit st3 = fs_memory_total_limit st2"
      by (simp_all add: only_oracles_inv [OF o3])
    show ?thesis
    proof (cases ok)
      case True
      then have "r = Inr (Some True)" "st' = reserved (Some True) sz st3"
        using d sz u3 by (simp_all add: decode_storage_def m a' reserved_def)
      then show ?thesis using k3 u3 fits sz by auto
    next
      case False
      have same: "st3\<lparr>fs_memory_used := fs_memory_used st2\<rparr> = st3" using u3(1) by (metis vfs_files.surjective vfs_files.update_convs(8))
      have "(case create_disk_cache dk st3 of
             (False, st) \<Rightarrow> (Inl (ERROR_OS 0), st)
           | (True, st) \<Rightarrow>
               (case fs_alloc st of
                  (False, st) \<Rightarrow> (Inl ERROR_NOT_ENOUGH_MEMORY, st)
                | (True, st) \<Rightarrow> (Inr (Some False), st))) = (r, st')"
        using d sz False by (simp add: decode_storage_def m a' same)
      with decode_disk_spec [OF k3 sz, of dk r st'] sz show ?thesis
        by (auto simp: reserved_def split: sum.splits)
    qed
  qed
qed

lemma decode_store_inv:
  assumes inv: "fs_inv z u st" and a: "u a > 0" and c: "cell st a = Some c" and e: "vc_data c = CACHE_EMPTY"
    and len: "length data = vc_size c" and s: "storage = None \<longleftrightarrow> vc_size c = 0"
    and fits: "storage = Some True \<longrightarrow> fs_memory_used st + vc_size c \<le> fs_memory_total_limit st"
    and law: "snd z a (None, vc_entry c, vc_size c, if storage = Some False then CACHE_DISK data else CACHE_MEMORY data)"
    and c': "c' = c\<lparr>vc_package := None,
               vc_data := (if storage = Some False then CACHE_DISK data else CACHE_MEMORY data)\<rparr>"
  shows "fs_inv z u (set_cell a c' (reserved storage (vc_size c) st))"
proof -
  note wf = fs_inv_wf [OF inv]
  note ok = fs_wf_cell [OF wf c, unfolded cell_ok_def]
  let ?st = "reserved storage (vc_size c) st"
  have cr: "cell ?st = cell st" "fs_idle_memory ?st = fs_idle_memory st" "fs_idle_disk ?st = fs_idle_disk st"
    "fs_idle_memory_bytes ?st = fs_idle_memory_bytes st" "fs_idle_disk_bytes ?st = fs_idle_disk_bytes st"
    "slot ?st = slot st" "fs_table ?st = fs_table st" "memory_total ?st = memory_total st"
    "fs_memory_total_limit ?st = fs_memory_total_limit st" "fs_idle_disk_limit ?st = fs_idle_disk_limit st"
    by (simp_all add: reserved_def fun_eq_iff slot_def)
  have idle: "\<not> vc_idle c" using ok a by simp
  have c1: "cell ?st a = Some c" using c cr by simp
  have m: "is_memory c' \<longleftrightarrow> storage = Some True" "\<not> is_memory c"
    using s e by (cases storage; auto simp: c' is_memory_def split: if_splits)+
  have cs: "vc_references c' = vc_references c" "vc_idle c' = vc_idle c" "vc_detached c' = vc_detached c"
      "vc_identity c' = vc_identity c" "vc_size c' = vc_size c" "length (cache_bytes c') = vc_size c"
    using len by (simp_all add: c' cache_bytes_def)
  have c'2: "vc_package c' = None" "vc_entry c' = vc_entry c"
    "vc_data c' = (if storage = Some False then CACHE_DISK data else CACHE_MEMORY data)" by (simp_all add: c')
  have used: "fs_memory_used ?st = memory_total (set_cell a c' ?st)"
    using memory_total_set_cell [OF c1, of c'] fs_wf_memory [OF wf] m
    by (simp add: cr cs reserved_def split: if_splits)
  have "fs_wf z {} u (slot st) (set_cell a c' ?st)"
  proof (rule fs_wf_update [OF wf, where a = a and x = "Some c'"], goal_cases)
    case 1 show ?case by (auto simp: cell_set_cell [OF c1] cr fun_eq_iff)
  next case (4 c'') then have "c'' = c'" by simp then show ?case using ok idle a m law by (simp add: cell_ok_def cr cs c'2)
  next case (6 k) then show ?case using fs_wf_table [OF wf 6] c cs by auto
  next case 11 show ?case using used by simp
  qed (use ok idle fs_wf_distinct [OF wf] cr in \<open>auto\<close>)
  moreover have "fs_memory_used ?st \<le> fs_memory_total_limit st"
    using inv fits by (auto simp: reserved_def fs_inv_def)
  ultimately show ?thesis using inv by (simp add: fs_inv_def cr)
qed

lemma zip_package_close_frame:
  "cell (zip_package_close p st) = cell st" "fs_inv z u st \<Longrightarrow> fs_inv z u (zip_package_close p st)"
  "reserved storage n (zip_package_close p st) = zip_package_close p (reserved storage n st)"
  "slot (zip_package_close p st) = slot st"
  "fs_memory_used (zip_package_close p st) = fs_memory_used st"
  "fs_memory_total_limit (zip_package_close p st) = fs_memory_total_limit st"
  by (auto simp: zip_package_close_def reserved_def fun_eq_iff fs_inv_frame split: option.splits)

text \<open>
  A read prepares its cache: an error leaves every cache in use as it was, so that another file
  can try again, and gives back the memory it reserved; success stores the whole entry.
\<close>

definition decode_laws :: "inflate_api \<Rightarrow> crc_api \<Rightarrow> cell_laws \<Rightarrow> bool" where
  "decode_laws inflate crc32 z \<longleftrightarrow>
     (\<forall>a c dk storage st data st'. snd z a (vc_package c, vc_entry c, vc_size c, CACHE_EMPTY) \<longrightarrow>
        decode_entry inflate crc32 dk c storage st = (Inr data, st') \<longrightarrow>
        snd z a (None, vc_entry c, vc_size c, CACHE_MEMORY data)
        \<and> snd z a (None, vc_entry c, vc_size c, CACHE_DISK data))"

lemma cache_prepare_spec:
  assumes inv: "fs_inv z u st" and laws: "decode_laws inflate crc32 z" and a: "u a > 0" and c: "cell st a = Some c"
    and p: "cache_prepare inflate crc32 dk a st = (r, st')"
  shows "case r of Inl e \<Rightarrow> kept z u st st'
    | Inr _ \<Rightarrow> fs_inv z u st' \<and> (\<forall>b. b \<noteq> a \<and> u b > 0 \<longrightarrow> cell st' b = cell st b)
        \<and> (\<exists>c'. cell st' a = Some c' \<and> vc_data c' \<noteq> CACHE_EMPTY \<and> vc_size c' = vc_size c
              \<and> vc_identity c' = vc_identity c \<and> (vc_data c \<noteq> CACHE_EMPTY \<longrightarrow> c' = c))"
proof (cases "vc_data c = CACHE_EMPTY")
  case False
  with p c inv show ?thesis by (auto simp: cache_prepare_def kept_def)
next
  case e: True
  then have p': "cache_decode inflate crc32 dk a st = (r, st')"
    using p c by (simp add: cache_prepare_def)
  obtain d st1 where d: "decode_storage dk (vc_size c) st = (d, st1)" by fastforce
  note ds = decode_storage_spec [OF inv d]
  show ?thesis
  proof (cases d)
    case (Inl x)
    with p' d c ds show ?thesis by (auto simp: cache_decode_def)
  next
    case (Inr storage)
    with ds obtain st2 where k2: "kept z u st st2" and st1: "st1 = reserved storage (vc_size c) st2"
      and s: "storage = None \<longleftrightarrow> vc_size c = 0"
      and fits: "storage = Some True \<longrightarrow> fs_memory_used st2 + vc_size c \<le> fs_memory_total_limit st2" by auto
    obtain dat st3 where de: "decode_entry inflate crc32 dk c storage st1 = (dat, st3)" by fastforce
    note spec = decode_entry_spec [OF de]
    then obtain h n i where o: "st3 = st1\<lparr>fs_heap := h, fs_sequence := n, fs_io := i\<rparr>"
      by (auto simp: only_oracles_def)
    define st4 where "st4 = st2\<lparr>fs_heap := h, fs_sequence := n, fs_io := i\<rparr>"
    have k4: "kept z u st st4" using k2 kept_oracles [OF k2, of st4] by (auto simp: st4_def only_oracles_def)
    have st3: "st3 = reserved storage (vc_size c) st4" by (simp add: o st1 st4_def reserved_def)
    have fits4: "storage = Some True \<longrightarrow> fs_memory_used st4 + vc_size c \<le> fs_memory_total_limit st4"
      using fits by (simp add: st4_def)
    show ?thesis
    proof (cases dat)
      case (Inl x)
      have "st' = st4"
        using p' d Inr de Inl by (auto simp: cache_decode_def the_cell [OF c] st3 reserved_def)
      moreover have "r = Inl x" using p' d Inr de Inl by (simp add: cache_decode_def the_cell [OF c])
      ultimately show ?thesis using k4 by simp
    next
      case data: (Inr data)
      let ?c' = "c\<lparr>vc_package := None,
               vc_data := (if storage = Some False then CACHE_DISK data else CACHE_MEMORY data)\<rparr>"
      let ?st5 = "zip_package_close (vc_package c) st4"
      have r: "r = Inr ()" "st' = set_cell a ?c' (reserved storage (vc_size c) ?st5)"
        using p' d Inr de data
        by (auto simp: cache_decode_def the_cell [OF c] st3 zip_package_close_frame(3))
      have inv5: "fs_inv z u ?st5" using k4 by (simp add: kept_def zip_package_close_frame)
      have c5: "cell ?st5 a = Some c" using k4 a c by (simp add: kept_def zip_package_close_frame)
      have len: "length data = vc_size c" using spec data by simp
      have "snd z a (vc_package c, vc_entry c, vc_size c, CACHE_EMPTY)"
        using fs_wf_cell [OF fs_inv_wf [OF inv] c] e by (simp add: cell_ok_def)
      from laws [unfolded decode_laws_def, rule_format, OF this de [unfolded data]]
      have law: "snd z a (None, vc_entry c, vc_size c, if storage = Some False then CACHE_DISK data else CACHE_MEMORY data)"
        by simp
      have i: "fs_inv z u st'"
        unfolding r by (rule decode_store_inv [OF inv5 a c5 e len s _ law refl])
          (use fits4 in \<open>simp add: zip_package_close_frame\<close>)
      have c6: "cell (reserved storage (vc_size c) ?st5) = cell ?st5"
        by (simp add: reserved_def fun_eq_iff)
      have cells: "cell st' b = (if b = a then Some ?c' else cell ?st5 b)" for b
        unfolding r using cell_set_cell [of "reserved storage (vc_size c) ?st5" a c ?c' b] c5 c6 by simp
      have others: "cell ?st5 b = cell st b" if "u b > 0" for b
        using k4 that by (simp add: kept_def zip_package_close_frame)
      show ?thesis using i cells others by (simp add: r(1) e)
    qed
  qed
qed

end
