(* ===== verification/VfsFileSafety.thy ===== *)
theory VfsFileSafety
  imports VfsFileInv
begin

text \<open>
  All the sequences of operations on VFS files (\<open>VfsFile\<close>) as a step relation, and what holds in
  every state they reach. A state is the module's state, the open files and the entry that every
  identity names; as the VFS does, the table is dropped before identities name other entries.
\<close>

subsection \<open>The operations as steps\<close>

type_synonym entry_map = "nat \<Rightarrow> zip_package \<times> nat"
type_synonym files_state = "vfs_files \<times> vfs_file list \<times> entry_map"

inductive files_step :: "inflate_api \<Rightarrow> crc_api \<Rightarrow> disk_api \<Rightarrow> files_state \<Rightarrow> files_state \<Rightarrow> bool"
  for inflate crc32 dk where
  open_file: "vfs_file_create (fst (e k)) (snd (e k)) k streaming st = (Inr f, st')
     \<Longrightarrow> files_step inflate crc32 dk (st, fl, e) (st', fl @ [f], e)"
| open_fails: "vfs_file_create (fst (e k)) (snd (e k)) k streaming st = (Inl err, st')
     \<Longrightarrow> files_step inflate crc32 dk (st, fl, e) (st', fl, e)"
| close_file: "i < length fl
     \<Longrightarrow> files_step inflate crc32 dk (st, fl, e)
           (vfs_file_close (Some (fl ! i)) st, take i fl @ drop (Suc i) fl, e)"
| read_file: "i < length fl \<Longrightarrow> vfs_file_read inflate crc32 dk (fl ! i) buffer n st = (r, f', st')
     \<Longrightarrow> files_step inflate crc32 dk (st, fl, e) (st', fl[i := f'], e)"
| read_at_file: "i < length fl \<Longrightarrow> vfs_file_read_at inflate crc32 dk (fl ! i) offset buffer n st = (r, f', st')
     \<Longrightarrow> files_step inflate crc32 dk (st, fl, e) (st', fl[i := f'], e)"
| seek_file: "i < length fl \<Longrightarrow> vfs_file_seek (fl ! i) distance origin = (r', f')
     \<Longrightarrow> files_step inflate crc32 dk (st, fl, e) (st, fl[i := f'], e)"
| drop_caches: "files_step inflate crc32 dk (st, fl, e) (vfs_file_drop_caches st, fl, e')"

inductive files_reach :: "inflate_api \<Rightarrow> crc_api \<Rightarrow> disk_api \<Rightarrow> files_state \<Rightarrow> bool"
  for inflate crc32 dk where
  start: "files_reach inflate crc32 dk (fs_initial h, [], e)"
| step: "files_reach inflate crc32 dk s \<Longrightarrow> files_step inflate crc32 dk s s'
     \<Longrightarrow> files_reach inflate crc32 dk s'"

definition users :: "vfs_file list \<Rightarrow> nat \<Rightarrow> nat" where
  "users fl a = length (filter (\<lambda>f. vf_cache f = Some a) fl)"

definition entry_size :: "entry_map \<Rightarrow> cell_laws" where
  "entry_size e = (\<lambda>k a n. n = zip_package_file_size (fst (e k)) (snd (e k)), \<lambda>_ _. True)"

lemma entry_size_laws [simp]: "decode_laws inflate crc32 (entry_size e)"
  by (simp add: decode_laws_def entry_size_def)

text \<open>A file streams, or reads the cache of its entry, whose size it has; its pointer is an offset.\<close>

definition file_ok :: "vfs_files \<Rightarrow> vfs_file \<Rightarrow> bool" where
  "file_ok st f \<longleftrightarrow>
     (case vf_cache f of None \<Rightarrow> vf_zip f \<noteq> None
      | Some a \<Rightarrow> vf_zip f = None \<and> (\<exists>c. cell st a = Some c \<and> vc_identity c = vf_identity f
                    \<and> vc_size c = unat (vf_size f)) \<and> unat (vf_size f) \<le> INT64_MAX
                  \<and> unat (vf_position f) \<le> INT64_MAX)"

definition files_ok :: "files_state \<Rightarrow> bool" where
  "files_ok s \<longleftrightarrow> (case s of (st, fl, e) \<Rightarrow>
     fs_inv (entry_size e) (users fl) st \<and> (\<forall>f\<in>set fl. file_ok st f)
     \<and> fs_memory_total_limit st = 128 * 1024 * 1024 \<and> fs_idle_disk_limit st = 1024 * 1024 * 1024)"

lemma users_pos: "f \<in> set fl \<Longrightarrow> vf_cache f = Some a \<Longrightarrow> users fl a > 0"
  by (auto simp: users_def filter_empty_conv)

lemma users_snoc: "users (fl @ [f]) = (case vf_cache f of None \<Rightarrow> users fl
    | Some a \<Rightarrow> (users fl)(a := users fl a + 1))"
  by (auto simp: users_def fun_eq_iff split: option.splits)

lemma users_remove:
  assumes "i < length fl"
  shows "users (take i fl @ drop (Suc i) fl) = (case vf_cache (fl ! i) of None \<Rightarrow> users fl
    | Some a \<Rightarrow> (users fl)(a := users fl a - 1))"
proof -
  have "users fl b = users (take i fl @ fl ! i # drop (Suc i) fl) b" for b
    using assms by (simp flip: id_take_nth_drop)
  then show ?thesis by (auto simp: users_def fun_eq_iff split: option.splits)
qed

lemma users_update:
  assumes "i < length fl" and "vf_cache f = vf_cache (fl ! i)"
  shows "users (fl[i := f]) = users fl"
proof -
  have "users fl b = users (take i fl @ fl ! i # drop (Suc i) fl) b" for b
    using assms(1) by (simp flip: id_take_nth_drop)
  then show ?thesis using assms by (auto simp: users_def fun_eq_iff upd_conv_take_nth_drop)
qed

text \<open>Files whose caches keep their identity and size stay in order.\<close>

lemma file_ok_keep:
  assumes "file_ok st f"
    and "\<And>a c. vf_cache f = Some a \<Longrightarrow> cell st a = Some c \<Longrightarrow>
           \<exists>c'. cell st' a = Some c' \<and> vc_identity c' = vc_identity c \<and> vc_size c' = vc_size c"
  shows "file_ok st' f"
  using assms by (fastforce simp: file_ok_def split: option.splits)

subsection \<open>The limits are never changed\<close>

definition limits :: "vfs_files \<Rightarrow> nat \<times> nat" where
  "limits st = (fs_memory_total_limit st, fs_idle_disk_limit st)"

lemma limits_prim [simp]:
  "limits (st\<lparr>fs_heap := h\<rparr>) = limits st" "limits (st\<lparr>fs_memory_used := n\<rparr>) = limits st"
  "limits (st\<lparr>fs_table := t\<rparr>) = limits st" "limits (st\<lparr>fs_cells := l\<rparr>) = limits st"
  "limits (set_cell a c st) = limits st" "limits (idle_unlink a st) = limits st"
  "limits (idle_push a st) = limits st" "limits (cache_forget a st) = limits st"
  "limits (idle_evict a st) = limits st" "limits (zip_package_close p st) = limits st"
  "limits (zip_package_retain q st) = limits st" "limits (cache_destroy a st) = limits st"
  by (simp_all add: limits_def set_cell_def idle_unlink_def idle_push_def cache_forget_def idle_evict_def
      zip_package_close_def zip_package_retain_def cache_destroy_def Let_def split: option.splits)

lemma limits_oracles: "only_oracles st st' \<Longrightarrow> limits st' = limits st"
  by (auto simp: only_oracles_def limits_def)

lemma limits_alloc: "fs_alloc st = (ok, st') \<Longrightarrow> limits st' = limits st"
  by (rule limits_oracles) (rule fs_alloc_oracles)

lemma limits_chain [simp]: "limits (cache_destroy_chain chain st) = limits st"
  by (induction chain arbitrary: st) simp_all

lemma limits_evict_loop: "evict_loop fuel unused st = (unused', st') \<Longrightarrow> limits st' = limits st"
  by (induction fuel arbitrary: unused st) (fastforce simp: Let_def split: if_splits)+

lemma limits_reserve_loop: "reserve_loop fuel n st = Some (ok, st') \<Longrightarrow> limits st' = limits st"
proof (induction fuel arbitrary: st)
  case (Suc fuel)
  obtain ok1 st1 where t: "try_reserve_memory n st = (ok1, st1)" by fastforce
  then have "limits st1 = limits st" by (auto simp: try_reserve_memory_def split: if_splits)
  with Suc show ?case by (fastforce simp: t split: bool.splits list.splits if_splits)
qed simp

lemma limits_reserve: "reserve_memory n st = (ok, st') \<Longrightarrow> limits st' = limits st"
  unfolding reserve_memory_def
  by (auto split: if_splits option.splits dest: limits_reserve_loop simp del: reserve_loop.simps)

lemma limits_drop_fold: "fold drop_slot l (unused, st) = (unused', st') \<Longrightarrow> limits st' = limits st"
proof (induction l arbitrary: unused st)
  case (Cons a l)
  obtain unused1 st1 where d: "drop_slot a (unused, st) = (unused1, st1)" by fastforce
  then have "limits st1 = limits st" by (auto simp: drop_slot_def split: if_splits)
  with Cons d show ?case by simp
qed simp

lemma limits_drop [simp]: "limits (vfs_file_drop_caches st) = limits st"
  using limits_drop_fold
  by (fastforce simp: vfs_file_drop_caches_def Let_def split: option.splits prod.splits)

lemma limits_release [simp]: "limits (cache_release a st) = limits st"
  using limits_evict_loop
  by (fastforce simp: cache_release_def Let_def split: prod.splits)

lemma limits_close [simp]: "limits (vfs_file_close f st) = limits st"
  by (simp add: vfs_file_close_def Let_def split: option.splits)

lemma limits_acquire:
  assumes "cache_acquire p e k n st = (r, st')"
  shows "limits st' = limits st"
proof -
  obtain ok1 st1 where a1: "fs_alloc st = (ok1, st1)" by fastforce
  obtain ok2 st2 where a2: "fs_alloc st1 = (ok2, st2)" by fastforce
  obtain ok3 st3 where a3: "fs_alloc st2 = (ok3, st3)" by fastforce
  obtain ok4 st4 where a4: "fs_alloc (st1\<lparr>fs_table := Some kh_init\<rparr>) = (ok4, st4)" by fastforce
  obtain ok5 st5 where a5: "fs_alloc st4 = (ok5, st5)" by fastforce
  note l = limits_alloc [OF a1] limits_alloc [OF a2] limits_alloc [OF a3] limits_alloc [OF a4]
    limits_alloc [OF a5]
  show ?thesis
    using assms l
    by (auto simp: cache_acquire_def Let_def a1 a2 a3 a4 a5 split: option.splits bool.splits)
qed

lemma limits_storage:
  assumes "decode_storage dk n st = (r, st')"
  shows "limits st' = limits st"
proof -
  obtain ok1 st1 where m: "reserve_memory n st = (ok1, st1)" by fastforce
  obtain ok2 st2 where a: "fs_alloc st1 = (ok2, st2)" by fastforce
  note l = limits_reserve [OF m] limits_alloc [OF a]
  have c: "limits s' = limits s" if "create_disk_cache dk s = (x, s')" for s s' x
    using create_disk_cache_oracles [OF that] by (rule limits_oracles)
  show ?thesis
    using assms l
    by (auto simp: decode_storage_def Let_def m a split: if_splits bool.splits prod.splits
        dest!: c limits_alloc)
qed

lemma limits_prepare:
  assumes "cache_prepare inflate crc32 dk a st = (r, st')"
  shows "limits st' = limits st"
proof -
  obtain d st1 where d: "decode_storage dk (vc_size (the_cell st a)) st = (d, st1)" by fastforce
  have e: "limits s' = limits s" if "decode_entry inflate crc32 dk c x s = (y, s')" for s s' c x y
    using decode_entry_spec [OF that] limits_oracles by blast
  show ?thesis
    using assms limits_storage [OF d]
    by (auto simp: cache_prepare_def cache_decode_def Let_def d split: if_splits sum.splits prod.splits
        dest!: e)
qed

subsection \<open>Every step keeps the invariant\<close>

lemma limits_eq: "limits st' = limits st \<Longrightarrow>
    fs_memory_total_limit st' = fs_memory_total_limit st \<and> fs_idle_disk_limit st' = fs_idle_disk_limit st"
  by (simp add: limits_def)

lemma initial_ok: "files_ok (fs_initial h, [], e)"
  by (auto simp: files_ok_def fs_inv_def fs_wf_def fs_initial_def cell_def slot_def users_def memory_total_def)

lemma file_ok_cells: "file_ok st f \<Longrightarrow> (\<And>a. vf_cache f = Some a \<Longrightarrow> cell st' a = cell st a) \<Longrightarrow> file_ok st' f"
  by (rule file_ok_keep) auto

lemma unat_of_nat_small: "n \<le> INT64_MAX \<Longrightarrow> unat (of_nat n :: 64 word) = n"
  by (simp add: unat_of_nat INT64_MAX_def)

lemma unat_add_small: "unat (a :: 64 word) + unat b \<le> INT64_MAX \<Longrightarrow> unat (a + b) = unat a + unat b"
  by (simp add: unat_word_ariths INT64_MAX_def)

lemma create_ok:
  assumes ok: "files_ok (st, fl, e)"
    and c: "vfs_file_create (fst (e k)) (snd (e k)) k streaming st = (r, st')"
  shows "case r of Inl err \<Rightarrow> files_ok (st', fl, e) | Inr f \<Rightarrow> files_ok (st', fl @ [f], e)"
proof -
  obtain al st1 where a: "fs_alloc st = (al, st1)" by fastforce
  have inv: "fs_inv (entry_size e) (users fl) st" and files: "\<forall>f\<in>set fl. file_ok st f"
    using ok by (auto simp: files_ok_def)
  note i1 = fs_alloc_inv [OF inv a]
  note l1 = limits_eq [OF limits_alloc [OF a]]
  have ok1: "files_ok (st1, fl, e)"
    using ok i1 l1 files file_ok_cells [of st _ st1] by (auto simp: files_ok_def)
  have heap: "files_ok (zip_package_retain p (st1\<lparr>fs_heap := h\<rparr>), fl, e)" "files_ok (st1\<lparr>fs_heap := h\<rparr>, fl, e)" for h p
    using ok1 file_ok_cells [of st1]
    by (auto simp: files_ok_def zip_package_retain_def fs_inv_frame fun_eq_iff)
  show ?thesis
  proof (cases al)
    case False with c a ok1 show ?thesis by (auto simp: vfs_file_create_def)
  next
    case al: True
    show ?thesis
    proof (cases streaming)
      case True
      obtain z h where z: "zip_stream_open (Some (fst (e k))) (snd (e k)) (fs_heap st1) = (z, h)" by fastforce
      show ?thesis
      proof (cases z)
        case (Inl x) with c a al True z heap show ?thesis by (auto simp: vfs_file_create_def)
      next
        case (Inr zs)
        with c a al True z obtain f where f: "r = Inr f" "vf_cache f = None" "vf_zip f = Some zs"
          "st' = zip_package_retain (fst (e k)) (st1\<lparr>fs_heap := h\<rparr>)"
          by (auto simp: vfs_file_create_def)
        then have "file_ok st' f" by (simp add: file_ok_def)
        with f heap show ?thesis by (simp add: files_ok_def users_snoc)
      qed
    next
      case False
      let ?sz = "zip_package_file_size (fst (e k)) (snd (e k))"
      have z: "fst (entry_size e) k b ?sz" "snd (entry_size e) b x" for b x by (simp_all add: entry_size_def)
      show ?thesis
      proof (cases "?sz > INT64_MAX")
        case True with c a al False ok1 show ?thesis by (auto simp: vfs_file_create_def Let_def)
      next
        case small: False
        obtain q st2 where q: "cache_acquire (fst (e k)) (snd (e k)) k ?sz st1 = (q, st2)" by fastforce
        note acq = cache_acquire_inv [OF conjunct1 [OF i1] q z(1,2)]
        note l2 = limits_eq [OF limits_acquire [OF q]]
        show ?thesis
        proof (cases q)
          case None
          with c a al False small q have r: "r = Inl ERROR_NOT_ENOUGH_MEMORY" "st' = st2"
            by (auto simp: vfs_file_create_def Let_def)
          have "file_ok st2 f" if "f \<in> set fl" for f
            using ok1 that acq None file_ok_cells [of st1 f st2] by (simp add: files_ok_def)
          with r acq None l2 ok1 show ?thesis unfolding files_ok_def prod.case r(1) sum.case r(2) by simp
        next
          case (Some b)
          let ?f = "\<lparr>vf_zip = None, vf_cache = Some b, vf_size = of_nat ?sz, vf_identity = k,
            vf_position = 0, vf_stream_position = 0, vf_error = None\<rparr>"
          have r: "r = Inr ?f" "st' = st2"
            using Some c a al False small q by (auto simp: vfs_file_create_def Let_def)
          let ?u = "(users fl)(b := users fl b + 1)"
          have inv2: "fs_inv (entry_size e) ?u st2" and s2: "slot st2 k = Some b"
            and keep: "\<And>x. x \<noteq> b \<Longrightarrow> users fl x > 0 \<Longrightarrow> cell st2 x = cell st1 x"
            and new: "slot st1 k = Some b \<or> cell st1 b = None"
            using acq Some by auto
          obtain c2 where c2: "cell st2 b = Some c2" "vc_identity c2 = k" "\<not> vc_detached c2"
            using fs_wf_table [OF fs_inv_wf [OF inv2] s2] by blast
          have sz2: "vc_size c2 = ?sz"
            using fs_wf_cell [OF fs_inv_wf [OF inv2] c2(1)] c2 by (simp add: cell_ok_def entry_size_def)
          have old: "vc_identity c1 = k \<and> vc_size c1 = ?sz" if c1: "cell st1 b = Some c1" for c1
          proof -
            have "slot st1 k = Some b" using new c1 by simp
            from fs_wf_table [OF fs_inv_wf [OF conjunct1 [OF i1]] this] c1
            have "vc_identity c1 = k" "\<not> vc_detached c1" by auto
            then show ?thesis
              using fs_wf_cell [OF fs_inv_wf [OF conjunct1 [OF i1]] c1] by (simp add: cell_ok_def entry_size_def)
          qed
          have "unat (of_nat ?sz :: 64 word) = ?sz" using small by (intro unat_of_nat_small) simp
          then have "file_ok st2 ?f"
            using c2 sz2 small by (simp add: file_ok_def)
          moreover have "file_ok st2 f" if f: "f \<in> set fl" for f
          proof (rule file_ok_keep [of st1])
            show "file_ok st1 f" using ok1 f by (simp add: files_ok_def)
            show "\<exists>c'. cell st2 a = Some c' \<and> vc_identity c' = vc_identity c1 \<and> vc_size c' = vc_size c1"
              if "vf_cache f = Some a" "cell st1 a = Some c1" for a c1
              proof (cases "a = b")
              case True
              have "vc_identity c1 = k \<and> vc_size c1 = ?sz" by (rule old) (use that(2) True in simp)
              then show ?thesis unfolding True using c2 sz2 by (intro exI [of _ c2]) simp
            next
              case False
              have "cell st2 a = Some c1" unfolding keep [OF False users_pos [OF f that(1)]] by (rule that(2))
              then show ?thesis by blast
            qed
          qed
          moreover have "users (fl @ [?f]) = ?u" by (simp add: users_snoc)
          ultimately show ?thesis using inv2 l2 ok1 unfolding files_ok_def prod.case r(1) sum.case r(2) by auto
        qed
      qed
    qed
  qed
qed

lemma close_ok:
  assumes ok: "files_ok (st, fl, e)" and i: "i < length fl"
  shows "files_ok (vfs_file_close (Some (fl ! i)) st, take i fl @ drop (Suc i) fl, e)"
proof -
  let ?fl = "take i fl @ drop (Suc i) fl" and ?f = "fl ! i"
  let ?st = "zip_package_close (map_option zs_package (vf_zip ?f)) st"
  have sub: "set ?fl \<subseteq> set fl" by (auto dest: in_set_takeD in_set_dropD)
  have inv: "fs_inv (entry_size e) (users fl) ?st" and files: "\<forall>f\<in>set fl. file_ok ?st f"
    using ok file_ok_cells [of st _ ?st] by (auto simp: files_ok_def zip_package_close_frame)
  show ?thesis
  proof (cases "vf_cache ?f")
    case None
    then have "vfs_file_close (Some ?f) st = ?st" by (simp add: vfs_file_close_def)
    with None inv files sub i ok limits_eq [of ?st st] show ?thesis
      by (auto simp: files_ok_def users_remove subset_iff)
  next
    case (Some a)
    then have close: "vfs_file_close (Some ?f) st = cache_release a ?st" by (simp add: vfs_file_close_def)
    have u: "users fl a > 0" using Some i by (intro users_pos) auto
    note rel = cache_release_inv [OF inv u]
    have "file_ok (cache_release a ?st) f" if f: "f \<in> set ?fl" for f
    proof (rule file_ok_keep [of ?st])
      show "file_ok ?st f" using f sub files by auto
      fix b c assume b: "vf_cache f = Some b" "cell ?st b = Some c"
      show "\<exists>c'. cell (cache_release a ?st) b = Some c' \<and> vc_identity c' = vc_identity c \<and> vc_size c' = vc_size c"
      proof (cases "b = a")
        case False
        have "users fl b > 0" using users_pos [OF _ b(1)] f sub by auto
        with False rel b(2) show ?thesis by auto
      next
        case True
        have "users ?fl a > 0" using users_pos [OF f b(1)] True by simp
        then have "users fl a > 1" using i Some by (simp add: users_remove)
        with rel b(2) True show ?thesis by auto
      qed
    qed
    with rel close Some i ok limits_eq [of "cache_release a ?st" st] show ?thesis
      by (simp add: files_ok_def users_remove)
  qed
qed

lemma cache_read_loop_spec:
  assumes "cache_read_loop fuel dk bs offset n received st = ((err, out), st')"
    and "received = take (length received) (drop offset bs)" and "length received \<le> n"
    and "n - length received \<le> fuel" and "offset + n \<le> length bs"
  shows "only_oracles st st' \<and> length out \<le> n \<and> out = take (length out) (drop offset bs)
    \<and> (err = None \<longrightarrow> length out = n)"
  using assms
proof (induction fuel arbitrary: received st)
  case (Suc fuel)
  show ?case
  proof (cases "length received < n")
    case True
    let ?chunk = "if n - length received > MAXDWORD then MAXDWORD else n - length received"
    let ?st = "st\<lparr>fs_io := fs_io st + 1\<rparr>"
    have chunk: "0 < ?chunk" "?chunk \<le> n - length received" using True by (auto simp: MAXDWORD_def)
    show ?thesis
    proof (cases "dk_read dk (fs_io st) ?chunk")
      case None with Suc.prems True show ?thesis by (auto simp: Let_def)
    next
      case (Some part)
      show ?thesis
      proof (cases "part = 0")
        case True
        with Some Suc.prems \<open>length received < n\<close> show ?thesis by (auto simp: Let_def)
      next
        case False
        let ?r = "received @ take (min part ?chunk) (drop (offset + length received) bs)"
        have "length received + min part ?chunk \<le> length bs - offset" using chunk Suc.prems(5) by simp
        then have len: "length ?r = length received + min part ?chunk" by simp
        have r: "?r = take (length ?r) (drop offset bs)"
          unfolding len by (subst Suc.prems(2)) (simp add: take_add add.commute)
        have "cache_read_loop fuel dk bs offset n ?r ?st = ((err, out), st')"
          using Suc.prems(1) Some False True by (simp add: Let_def)
        moreover have "length ?r \<le> n" unfolding len using chunk Suc.prems(3) by simp
        moreover have "n - length ?r \<le> fuel" unfolding len using chunk False Suc.prems(4) by (auto simp: min_def split: if_splits)
        ultimately have "only_oracles ?st st' \<and> length out \<le> n \<and> out = take (length out) (drop offset bs)
            \<and> (err = None \<longrightarrow> length out = n)"
          using Suc.IH [OF _ r _ _ Suc.prems(5)] by blast
        then show ?thesis using only_oracles_trans [OF only_oracles_upd(2)] by blast
      qed
    qed
  qed (use Suc.prems in auto)
qed auto

text \<open>A read of a decoded cache returns the bytes at the offset: all of them, or an error.\<close>

lemma cache_read_spec:
  assumes "cache_read dk c offset n st = ((err, out), st')"
    and "offset + n \<le> length (cache_bytes c)"
  shows "only_oracles st st' \<and> length out \<le> n \<and> out = take (length out) (drop offset (cache_bytes c))
    \<and> (err = None \<longrightarrow> length out = n)"
proof (cases "is_memory c")
  case True
  with assms show ?thesis by (auto simp: cache_read_def)
next
  case False
  with assms(1) have "cache_read_loop n dk (cache_bytes c) offset n [] st = ((err, out), st')"
    by (simp add: cache_read_def)
  from cache_read_loop_spec [OF this] assms(2) show ?thesis by simp
qed

lemma the_cell_oracles: "only_oracles st st' \<Longrightarrow> the_cell st' a = the_cell st a"
  by (auto simp: only_oracles_def)

text \<open>What a read of a file over a cache does, on every branch.\<close>

lemma read_at_cache:
  assumes inv: "fs_inv z u st" and laws: "decode_laws inflate crc32 z" and ok: "file_ok st f" and a: "vf_cache f = Some a" and u: "u a > 0"
    and r: "vfs_file_read_at inflate crc32 dk f offset buffer n st = ((err, out), f', st')"
  shows "fs_inv z u st' \<and> limits st' = limits st \<and> vf_cache f' = vf_cache f \<and> vf_zip f' = vf_zip f
    \<and> vf_size f' = vf_size f \<and> vf_identity f' = vf_identity f \<and> vf_position f' = vf_position f
    \<and> (\<forall>b. b \<noteq> a \<and> u b > 0 \<longrightarrow> cell st' b = cell st b)
    \<and> (\<exists>c c'. cell st a = Some c \<and> cell st' a = Some c' \<and> vc_identity c' = vc_identity c
          \<and> vc_size c' = vc_size c
          \<and> (n \<noteq> 0 \<and> err = None \<longrightarrow> vc_data c' \<noteq> CACHE_EMPTY \<and> length (cache_bytes c') = unat (vf_size f)
                \<and> out = take n (drop (unat offset) (cache_bytes c')))
          \<and> length out \<le> unat (vf_size f) - unat offset)"
proof -
  from ok a obtain c where z: "vf_zip f = None" and c: "cell st a = Some c"
    and sz: "vc_size c = unat (vf_size f)" by (auto simp: file_ok_def)
  consider (arg) "n \<noteq> 0 \<and> \<not> buffer" | (err) e where "\<not> (n \<noteq> 0 \<and> \<not> buffer)" "vf_error f = Some e"
    | (zero) "n = 0" "vf_error f = None" | (go) "n \<noteq> 0" "buffer" "vf_error f = None"
    by (cases "vf_error f"; cases "n = 0"; cases buffer) blast+
  then show ?thesis
  proof cases
    case arg with r c inv show ?thesis by (auto simp: vfs_file_read_at_def)
  next
    case err with r c inv show ?thesis by (auto simp: vfs_file_read_at_def)
  next
    case zero with r c inv show ?thesis by (auto simp: vfs_file_read_at_def)
  next
    case go
    obtain p st1 where p: "cache_prepare inflate crc32 dk a st = (p, st1)" by fastforce
    note prep = cache_prepare_spec [OF inv laws u c p]
    note lim = limits_prepare [OF p]
    show ?thesis
    proof (cases p)
      case (Inl e)
      then show ?thesis
        using r go z a p prep c lim u by (auto simp: vfs_file_read_at_def kept_def)
    next
      case (Inr x)
      then obtain c' where inv1: "fs_inv z u st1" and keep: "\<forall>b. b \<noteq> a \<and> u b > 0 \<longrightarrow> cell st1 b = cell st b"
        and c': "cell st1 a = Some c'" "vc_data c' \<noteq> CACHE_EMPTY" "vc_size c' = vc_size c" "vc_identity c' = vc_identity c"
        using prep by auto
      have len: "length (cache_bytes c') = unat (vf_size f)"
        using fs_wf_cell [OF fs_inv_wf [OF inv1] c'(1)] c' sz by (simp add: cell_ok_def)
      show ?thesis
      proof (cases "offset \<ge> vf_size f")
        case True
        then have "err = None" "out = []" "f' = f" "st' = st1"
          using r go z a p Inr by (auto simp: vfs_file_read_at_def)
        moreover have "unat (vf_size f) \<le> unat offset" using True by (simp add: word_le_nat_alt)
        ultimately show ?thesis using inv1 keep c' c lim len by auto
      next
        case False
        let ?n = "if n > unat (vf_size f - offset) then unat (vf_size f - offset) else n"
        have sub: "unat (vf_size f - offset) = unat (vf_size f) - unat offset"
          using False by (simp add: unat_sub word_le_nat_alt)
        obtain res st2 where cr: "cache_read dk c' (unat offset) ?n st1 = (res, st2)" by fastforce
        have res: "res = (err, out)" "f' = f" "st' = st2"
          using r go z a p Inr False cr the_cell [OF c'(1)] by (auto simp: vfs_file_read_at_def Let_def)
        have off: "unat offset < unat (vf_size f)" using False by (simp add: word_le_nat_alt)
        have fit: "unat offset + ?n \<le> length (cache_bytes c')" using sub len off by auto
        have spec: "only_oracles st1 st2 \<and> length out \<le> ?n \<and> out = take (length out) (drop (unat offset) (cache_bytes c'))
            \<and> (err = None \<longrightarrow> length out = ?n)"
          using cache_read_spec [of dk c' "unat offset" ?n st1 err out st2] cr res fit by simp
        have "take ?n (drop (unat offset) (cache_bytes c')) = take n (drop (unat offset) (cache_bytes c'))"
          using sub len by (auto simp: min_def)
        moreover have "length out \<le> unat (vf_size f) - unat offset" using spec sub by (auto split: if_splits)
        ultimately show ?thesis
          using spec res inv1 keep c' c lim len only_oracles_inv [of st1 st2] limits_oracles [of st1 st2]
          by auto
      qed
    qed
  qed
qed

lemma read_at_ok:
  assumes ok: "files_ok (st, fl, e)" and i: "i < length fl"
    and r: "vfs_file_read_at inflate crc32 dk (fl ! i) offset buffer n st = ((err, out), f', st')"
  shows "files_ok (st', fl[i := f'], e) \<and> vf_cache f' = vf_cache (fl ! i)
    \<and> vf_position f' = vf_position (fl ! i) \<and> (vf_cache (fl ! i) \<noteq> None \<longrightarrow> vf_size f' = vf_size (fl ! i)
          \<and> length out \<le> unat (vf_size (fl ! i)) - unat offset)"
proof (cases "vf_cache (fl ! i)")
  case None
  have "file_ok st (fl ! i)" using ok i by (auto simp: files_ok_def)
  then obtain zs where z: "vf_zip (fl ! i) = Some zs" using None by (auto simp: file_ok_def)
  have f: "vf_cache f' = None" "vf_zip f' \<noteq> None" "vf_position f' = vf_position (fl ! i)" "st' = st"
    using r z None by (auto simp: vfs_file_read_at_def split: option.splits if_splits)
  then have "file_ok st f'" by (simp add: file_ok_def)
  then show ?thesis
    using ok f None i by (auto simp: files_ok_def users_update dest!: set_update_subset_insert [THEN subsetD])
next
  case (Some a)
  have okf: "file_ok st (fl ! i)" and inv: "fs_inv (entry_size e) (users fl) st"
    using ok i by (auto simp: files_ok_def)
  have u: "users fl a > 0" using Some i by (intro users_pos) auto
  note spec = read_at_cache [OF inv entry_size_laws okf Some u r]
  have inv': "fs_inv (entry_size e) (users fl) st'" and l: "limits st' = limits st"
    and f': "vf_cache f' = vf_cache (fl ! i)" "vf_zip f' = vf_zip (fl ! i)" "vf_size f' = vf_size (fl ! i)"
      "vf_identity f' = vf_identity (fl ! i)" "vf_position f' = vf_position (fl ! i)"
    and oth: "\<And>b. b \<noteq> a \<Longrightarrow> users fl b > 0 \<Longrightarrow> cell st' b = cell st b"
    using spec by (simp_all only:, blast+)
  obtain c c' where c: "cell st a = Some c" "cell st' a = Some c'" "vc_identity c' = vc_identity c"
    "vc_size c' = vc_size c" and len: "length out \<le> unat (vf_size (fl ! i)) - unat offset"
    using spec by blast
  have keep: "\<exists>c'. cell st' b = Some c' \<and> vc_identity c' = vc_identity d \<and> vc_size c' = vc_size d"
    if "f \<in> set fl" "vf_cache f = Some b" "cell st b = Some d" for f b d
  proof (cases "b = a")
    case True
    then have "d = c" using that(3) c(1) by simp
    then show ?thesis unfolding True using c by (intro exI [of _ c']) simp
  next
    case False
    have "cell st' b = Some d" unfolding oth [OF False users_pos [OF that(1,2)]] by (rule that(3))
    then show ?thesis by blast
  qed
  have others: "file_ok st' f" if "f \<in> set fl" for f
  proof (rule file_ok_keep [of st])
    show "file_ok st f" using ok that by (simp add: files_ok_def)
  qed (rule keep [OF that])
  have "file_ok st' (fl ! i)" using others i by simp
  then have "file_ok st' f'" unfolding file_ok_def f' .
  then have all: "\<forall>f\<in>set (fl[i := f']). file_ok st' f"
    using others set_update_subset_insert [of fl i f'] by blast
  have "users (fl[i := f']) = users fl" using f'(1) i by (intro users_update)
  then have "files_ok (st', fl[i := f'], e)"
    using all inv' ok limits_eq [OF l] by (simp add: files_ok_def)
  then show ?thesis using f' len by simp
qed

text \<open>Moving the pointer of a file keeps it in order as long as the pointer is an offset.\<close>

lemma set_position_ok:
  assumes ok: "files_ok (st, fl, e)" and i: "i < length fl"
    and p: "vf_cache (fl ! i) \<noteq> None \<Longrightarrow> unat p \<le> INT64_MAX"
  shows "files_ok (st, fl[i := (fl ! i)\<lparr>vf_position := p\<rparr>], e)"
proof -
  have "file_ok st (fl ! i)" using ok i by (auto simp: files_ok_def)
  then have "file_ok st ((fl ! i)\<lparr>vf_position := p\<rparr>)"
    using p by (auto simp: file_ok_def split: option.splits)
  then show ?thesis
    using ok i users_update [OF i, of "(fl ! i)\<lparr>vf_position := p\<rparr>"]
    by (auto simp: files_ok_def dest!: set_update_subset_insert [THEN subsetD])
qed

lemma read_ok:
  assumes ok: "files_ok (st, fl, e)" and i: "i < length fl"
    and r: "vfs_file_read inflate crc32 dk (fl ! i) buffer n st = (res, f', st')"
  shows "files_ok (st', fl[i := f'], e)"
proof -
  obtain err out f1 where r1: "vfs_file_read_at inflate crc32 dk (fl ! i) (vf_position (fl ! i)) buffer n st
      = ((err, out), f1, st')" and f': "f' = f1\<lparr>vf_position := vf_position f1 + of_nat (length out)\<rparr>"
    using r by (auto simp: vfs_file_read_def split: prod.splits)
  note spec = read_at_ok [OF ok i r1]
  have fi: "(fl[i := f1]) ! i = f1" using i by simp
  have "files_ok (st', (fl[i := f1])[i := f1\<lparr>vf_position := vf_position f1 + of_nat (length out)\<rparr>], e)"
  proof -
    have "unat (vf_position f1 + of_nat (length out)) \<le> INT64_MAX" if "vf_cache f1 \<noteq> None"
    proof -
      have c: "vf_cache (fl ! i) \<noteq> None" using that spec by simp
      have "file_ok st' f1" using spec i by (auto simp: files_ok_def set_update_memI)
      then have b: "unat (vf_position f1) \<le> INT64_MAX" "unat (vf_size f1) \<le> INT64_MAX"
        using that by (auto simp: file_ok_def split: option.splits)
      have "length out \<le> unat (vf_size f1) - unat (vf_position f1)" using spec c by simp
      with b have l: "unat (vf_position f1) + length out \<le> INT64_MAX" by linarith
      then have "unat (of_nat (length out) :: 64 word) = length out" by (intro unat_of_nat_small) simp
      with l show ?thesis using unat_add_small [of "vf_position f1" "of_nat (length out)"] by simp
    qed
    then show ?thesis using set_position_ok [of st' "fl[i := f1]" e i] spec i fi by simp
  qed
  then show ?thesis by (simp add: f')
qed

subsection \<open>Moving the file pointer\<close>

text \<open>The position a seek asks for, as an integer: where the origin is and the signed distance.\<close>

definition seek_base :: "vfs_file \<Rightarrow> nat \<Rightarrow> 64 word" where
  "seek_base f origin = (if origin = FILE_BEGIN then 0
     else if origin = FILE_CURRENT then vf_position f else vf_size f)"

definition seek_target :: "vfs_file \<Rightarrow> 64 word \<Rightarrow> nat \<Rightarrow> int" where
  "seek_target f distance origin = uint (seek_base f origin) + sint distance"

lemma uint_neg: "sint (d :: 64 word) < 0 \<Longrightarrow> uint (- (d + 1) + 1) = - sint d"
proof -
  assume neg: "sint d < 0"
  have e: "- (d + 1) + 1 = (of_int (- sint d) :: 64 word)" by simp
  have b: "- (2 ^ 63) \<le> sint d" using sint_greater_eq [of d] by simp
  have "uint (of_int (- sint d) :: 64 word) = take_bit 64 (- sint d)"
    by (simp only: unsigned_of_int) simp
  also have "\<dots> = - sint d" using neg b by (simp add: take_bit_int_eq_self)
  finally show ?thesis unfolding e .
qed

lemma uint_pos: "sint (d :: 64 word) \<ge> 0 \<Longrightarrow> uint d = sint d"
proof -
  assume pos: "sint d \<ge> 0"
  have b: "sint d < 2 ^ 63" using sint_less [of d] by simp
  have e: "d = (of_int (sint d) :: 64 word)" by simp
  have "uint (of_int (sint d) :: 64 word) = take_bit 64 (sint d)"
    by (simp only: unsigned_of_int) simp
  also have "\<dots> = sint d" using pos b by (simp add: take_bit_int_eq_self)
  finally show ?thesis by simp
qed

lemma seek_cached:
  assumes o: "origin \<le> FILE_END" and z: "vf_zip f = None"
    and b: "uint (seek_base f origin) \<le> int INT64_MAX"
  shows "vfs_file_seek f distance origin =
    (if seek_target f distance origin < 0 then (Inl ERROR_NEGATIVE_SEEK, f)
     else if seek_target f distance origin > int INT64_MAX then (Inl ERROR_INVALID_PARAMETER, f)
     else (Inr (of_int (seek_target f distance origin)),
           f\<lparr>vf_position := of_int (seek_target f distance origin)\<rparr>))"
proof -
  let ?base = "seek_base f origin" and ?t = "seek_target f distance origin"
  let ?down = "- (distance + 1) + 1"
  have i: "int INT64_MAX = 2 ^ 63 - 1" by (simp add: INT64_MAX_def)
  have t: "?t = uint ?base + sint distance" by (simp add: seek_target_def)
  have unfold: "vfs_file_seek f distance origin =
      (if sint distance < 0 \<and> ?down > ?base then (Inl ERROR_NEGATIVE_SEEK, f)
       else if sint distance > 0 \<and> distance > of_nat INT64_MAX - ?base then (Inl ERROR_INVALID_PARAMETER, f)
       else let nextp = (if sint distance < 0 then ?base - ?down else ?base + distance)
            in (Inr nextp, f\<lparr>vf_position := nextp\<rparr>))"
    using o z by (simp add: vfs_file_seek_def seek_base_def Let_def del: minus_add_distrib add_uminus_conv_diff)
  show ?thesis
  proof (cases "sint distance < 0")
    case True
    have d: "uint ?down = - sint distance" by (rule uint_neg [OF True])
    have e: "?base - ?down = of_int ?t" unfolding t by simp
    have c: "?down > ?base \<longleftrightarrow> ?t < 0" unfolding word_less_def d t by linarith
    have "?t \<le> int INT64_MAX" using b True t by linarith
    then show ?thesis unfolding unfold c e Let_def using True by simp
  next
    case False
    then have d: "uint distance = sint distance" by (intro uint_pos) simp
    have e: "?base + distance = of_int ?t" unfolding t by simp
    have m: "uint (of_nat INT64_MAX :: 64 word) = 2 ^ 63 - 1" by (simp add: INT64_MAX_def)
    have "uint (of_nat INT64_MAX - ?base) = 2 ^ 63 - 1 - uint ?base"
      using b unfolding i by (subst uint_sub_lem [THEN iffD1]) (simp_all add: word_le_def m)
    then have c: "distance > of_nat INT64_MAX - ?base \<longleftrightarrow> ?t > int INT64_MAX"
      unfolding word_less_def d t i by linarith
    have nn: "\<not> ?t < 0" using False t uint_ge_0 [of ?base] by linarith
    have zero: "\<not> ?t > int INT64_MAX" if "sint distance = 0" using b that t by linarith
    show ?thesis unfolding unfold c e Let_def using False nn zero by auto
  qed
qed

lemma uint_le_unat: "uint (w :: 64 word) \<le> int n \<longleftrightarrow> unat w \<le> n"
  by (simp flip: of_nat_le_iff [where 'a = int])

lemma seek_ok:
  assumes ok: "files_ok (st, fl, e)" and i: "i < length fl"
    and r: "vfs_file_seek (fl ! i) distance origin = (r', f')"
  shows "files_ok (st, fl[i := f'], e)"
proof (cases "origin > FILE_END")
  case True
  then have "f' = fl ! i" using r by (simp add: vfs_file_seek_def)
  then show ?thesis using ok by simp
next
  case False
  show ?thesis
  proof (cases "vf_cache (fl ! i)")
    case None
    have e: "f' = (fl ! i)\<lparr>vf_position := vf_position f'\<rparr>"
      using r by (auto simp: vfs_file_seek_def Let_def split: if_splits)
    show ?thesis by (subst e) (rule set_position_ok [OF ok i], use None in simp)
  next
    case (Some a)
    have "file_ok st (fl ! i)" using ok i by (auto simp: files_ok_def)
    then have z: "vf_zip (fl ! i) = None" and b: "unat (vf_size (fl ! i)) \<le> INT64_MAX" "unat (vf_position (fl ! i)) \<le> INT64_MAX"
      using Some by (auto simp: file_ok_def)
    have b': "uint (seek_base (fl ! i) origin) \<le> int INT64_MAX"
      using b uint_le_unat by (simp add: seek_base_def)
    let ?t = "seek_target (fl ! i) distance origin"
    have "f' = fl ! i \<or> (0 \<le> ?t \<and> ?t \<le> int INT64_MAX \<and> f' = (fl ! i)\<lparr>vf_position := of_int ?t\<rparr>)"
      using r False unfolding seek_cached [OF leI [OF False] z b'] by (auto split: if_splits simp del: of_int_add)
    then show ?thesis
    proof
      assume "f' = fl ! i" then show ?thesis using ok by simp
    next
      assume t: "0 \<le> ?t \<and> ?t \<le> int INT64_MAX \<and> f' = (fl ! i)\<lparr>vf_position := of_int ?t\<rparr>"
      have "of_int ?t = (of_nat (nat ?t) :: 64 word)" using t by simp
      moreover have "nat ?t \<le> INT64_MAX" using t by (simp add: nat_le_iff)
      ultimately have "unat (of_int ?t :: 64 word) \<le> INT64_MAX"
        using unat_of_nat_small [of "nat ?t"] by simp
      then show ?thesis using set_position_ok [OF ok i] t by simp
    qed
  qed
qed

lemma drop_ok:
  assumes ok: "files_ok (st, fl, e)"
  shows "files_ok (vfs_file_drop_caches st, fl, e')"
proof -
  let ?st = "vfs_file_drop_caches st"
  have inv: "fs_inv (entry_size e) (users fl) st" using ok by (simp add: files_ok_def)
  note d = vfs_file_drop_caches_inv [OF inv]
  have wf: "fs_wf (entry_size e) {} (users fl) (slot ?st) ?st" using d by (intro fs_inv_wf) simp
  have none: "slot ?st = (\<lambda>_. None)" using d by (simp add: slot_def fun_eq_iff)
  have det: "vc_detached c" if "cell ?st a = Some c" for a c
    using fs_wf_cell [OF wf that] none by (auto simp: cell_ok_def)
  have "cell_ok (entry_size e') {} (users fl) (slot ?st) ?st a c" if "cell ?st a = Some c" for a c
    using fs_wf_cell [OF wf that] det [OF that] by (auto simp: cell_ok_def entry_size_def)
  then have "fs_wf (entry_size e') {} (users fl) (slot ?st) ?st" using wf by (simp add: fs_wf_def)
  then have inv': "fs_inv (entry_size e') (users fl) ?st" using d by (simp add: fs_inv_def)
  have "file_ok ?st f" if f: "f \<in> set fl" for f
  proof (rule file_ok_keep [of st])
    show "file_ok st f" using ok f by (simp add: files_ok_def)
    fix a c assume a: "vf_cache f = Some a" "cell st a = Some c"
    obtain c' where c': "cell ?st a = Some c'" "c' = c\<lparr>vc_detached := vc_detached c'\<rparr>"
      using d a users_pos [OF f a(1)] unfolding same_data_def by blast
    from c'(2) have "vc_identity c' = vc_identity c" "vc_size c' = vc_size c"
      by (metis vfs_cache.ext_inject vfs_cache.surjective vfs_cache.update_convs(8))+
    with c'(1) show "\<exists>c'. cell ?st a = Some c' \<and> vc_identity c' = vc_identity c \<and> vc_size c' = vc_size c"
      by blast
  qed
  with inv' ok limits_eq [of ?st st] show ?thesis by (simp add: files_ok_def)
qed

lemma step_ok: "files_step inflate crc32 dk s s' \<Longrightarrow> files_ok s \<Longrightarrow> files_ok s'"
proof (induction rule: files_step.induct)
  case (open_file e k streaming st f st' fl) then show ?case using create_ok by fastforce
next case (open_fails e k streaming st err st' fl) then show ?case using create_ok by fastforce
next case (close_file i fl st e) then show ?case by (intro close_ok)
next case (read_file i fl buffer n st r f' st' e) then show ?case by (intro read_ok)
next case (read_at_file i fl offset buffer n st r f' st' e)
  then show ?case by (cases r) (auto dest: read_at_ok)
next case (seek_file i fl distance origin r' f' st e) then show ?case by (intro seek_ok)
next case (drop_caches st fl e e') then show ?case by (intro drop_ok)
qed

lemma reach_ok: "files_reach inflate crc32 dk s \<Longrightarrow> files_ok s"
  by (induction rule: files_reach.induct) (auto intro: initial_ok step_ok)

subsection \<open>Properties\<close>

text \<open>
  C1: the files never use freed memory and the budgets hold. In every state that opens, closes,
  reads, seeks and drops of the caches reach, in any order and with any failures of allocation,
  archive or temporary file, each open file's cache is alive, belongs to the file's entry and
  counts exactly its open files; the memory in use is the sum of the decoded memory caches and
  stays within 128 MiB, and the idle temporary files stay within 1 GiB.
\<close>

theorem vfs_files_safe:
  assumes "files_reach inflate crc32 dk (st, fl, e)"
  shows "(\<forall>f\<in>set fl. \<forall>a. vf_cache f = Some a \<longrightarrow>
           (\<exists>c. cell st a = Some c \<and> vc_identity c = vf_identity f \<and> vc_references c = users fl a
              \<and> vc_size c = unat (vf_size f)))
     \<and> fs_memory_used st = memory_total st \<and> fs_memory_used st \<le> 128 * 1024 * 1024
     \<and> fs_idle_disk_bytes st \<le> 1024 * 1024 * 1024"
proof -
  have ok: "files_ok (st, fl, e)" by (rule reach_ok [OF assms])
  then have inv: "fs_inv (entry_size e) (users fl) st" by (simp add: files_ok_def)
  have "\<exists>c. cell st a = Some c \<and> vc_identity c = vf_identity f \<and> vc_references c = users fl a
      \<and> vc_size c = unat (vf_size f)" if f: "f \<in> set fl" and a: "vf_cache f = Some a" for f a
  proof -
    have "file_ok st f" using ok f by (simp add: files_ok_def)
    then obtain c where c: "cell st a = Some c" "vc_identity c = vf_identity f" "vc_size c = unat (vf_size f)"
      using a by (auto simp: file_ok_def)
    then show ?thesis using fs_wf_cell [OF fs_inv_wf [OF inv] c(1)] by (simp add: cell_ok_def)
  qed
  then show ?thesis using inv ok fs_wf_memory [OF fs_inv_wf [OF inv]] by (simp add: files_ok_def fs_inv_def)
qed

definition example_cache :: vfs_cache where
  "example_cache = \<lparr>vc_identity = 3, vc_size = 1, vc_package = Some example_package, vc_entry = 0,
     vc_data = CACHE_EMPTY, vc_references = 1, vc_idle = False, vc_detached = False\<rparr>"

definition example_file :: vfs_file where
  "example_file = \<lparr>vf_zip = None, vf_cache = Some 0, vf_size = 1, vf_identity = 3, vf_position = 0,
     vf_stream_position = 0, vf_error = None\<rparr>"

definition example_files :: vfs_files where
  "example_files = (fs_initial (\<lambda>_. True))\<lparr>fs_cells := [Some example_cache], fs_table := Some [(3, 0)],
     fs_refs := (\<lambda>_. 0)(0 := 1)\<rparr>"

definition example_disk :: disk_api where
  "example_disk = \<lparr>dk_temp = False, dk_create = (\<lambda>_. CreateFailed), dk_write = (\<lambda>_ _. None), dk_read = (\<lambda>_ _. None)\<rparr>"

lemma example_create:
  "vfs_file_create example_package 0 3 False (fs_initial (\<lambda>_. True)) = (Inr example_file, example_files)"
  by (simp add: vfs_file_create_def fs_alloc_def ml_mem_alloc_def fs_initial_def zip_package_file_size_def
      example_package_def INT64_MAX_def cache_acquire_def kh_get_def kh_set_def kh_init_def Let_def
      zip_package_retain_def example_file_def example_files_def example_cache_def fun_eq_iff)

lemma example_reach:
  "files_reach inflate crc32 dk (example_files, [example_file], \<lambda>_. (example_package, 0))"
proof -
  have "files_step inflate crc32 dk (fs_initial (\<lambda>_. True), [], \<lambda>_. (example_package, 0))
      (example_files, [] @ [example_file], \<lambda>_. (example_package, 0))"
    using example_create by (intro files_step.open_file [where k = 3 and streaming = False]) simp
  with files_reach.start [of inflate crc32 dk "\<lambda>_. True" "\<lambda>_. (example_package, 0)"]
  show ?thesis by (auto intro: files_reach.step)
qed

theorem vfs_files_safe_witness:
  "cell example_files 0 = Some example_cache \<and> vc_references example_cache = users [example_file] 0
     \<and> fs_memory_used example_files \<le> 128 * 1024 * 1024"
proof -
  have c: "cell example_files 0 = Some example_cache" by (simp add: cell_def example_files_def)
  have f: "vf_cache example_file = Some 0" by (simp add: example_file_def)
  show ?thesis
    using vfs_files_safe [OF example_reach [of "\<lambda>_ _ _. (0, [], MZ_ERROR)" "\<lambda>_ _. 5" example_disk]] c f
    by auto
qed

text \<open>
  C25: nothing leaks. Once every file is closed and the caches have been dropped, no cache is left:
  every decoded copy has been freed and the memory in use is 0.
\<close>

theorem vfs_files_no_leak:
  assumes "files_reach inflate crc32 dk (st, [], e)" and "fs_table st = None"
  shows "cell st a = None \<and> fs_memory_used st = 0"
proof -
  have inv: "fs_inv (entry_size e) (users []) st" using reach_ok [OF assms(1)] by (simp add: files_ok_def)
  note wf = fs_inv_wf [OF inv]
  have none: "cell st b = None" for b
  proof (cases "cell st b")
    case (Some c)
    then have "slot st (vc_identity c) = Some b"
      using fs_wf_cell [OF wf Some] by (auto simp: cell_ok_def users_def)
    with assms(2) show ?thesis by (simp add: slot_def)
  qed
  then show ?thesis using fs_wf_memory [OF wf] by (simp add: memory_total_sum memory_of_def)
qed

theorem vfs_files_no_leak_witness:
  "cell (vfs_file_close (Some example_file) (vfs_file_drop_caches example_files)) 0 = None"
proof -
  let ?r = "files_reach (\<lambda>_ _ _. (0, [], MZ_ERROR)) (\<lambda>_ _. 5) example_disk"
  let ?s = "files_step (\<lambda>_ _ _. (0, [], MZ_ERROR)) (\<lambda>_ _. 5) example_disk"
  let ?e = "\<lambda>_. (example_package, 0)"
  have "?r (vfs_file_drop_caches example_files, [example_file], ?e)"
    by (rule files_reach.step [OF example_reach]) (rule files_step.drop_caches)
  moreover have "?s (vfs_file_drop_caches example_files, [example_file], ?e)
      (vfs_file_close (Some ([example_file] ! 0)) (vfs_file_drop_caches example_files),
       take 0 [example_file] @ drop (Suc 0) [example_file], ?e)"
    by (rule files_step.close_file) simp
  ultimately have "?r (vfs_file_close (Some example_file) (vfs_file_drop_caches example_files), [], ?e)"
    using files_reach.step by fastforce
  moreover have "fs_table (vfs_file_close (Some example_file) (vfs_file_drop_caches example_files)) = None"
    by (simp add: vfs_file_drop_caches_def example_files_def fs_initial_def drop_slot_def the_cell_def
        example_cache_def set_cell_def Let_def vfs_file_close_def example_file_def cache_release_def
        zip_package_close_def is_memory_def is_disk_def cache_destroy_def)
  ultimately show ?thesis using vfs_files_no_leak by blast
qed

text \<open>
  C24: the memory budget. A decode gets memory exactly when its entry is within the per-file limit
  and dropping all idle memory caches would make enough room; then it gets it and the rest of the
  budget still adds up, whatever idle caches had to go. When it does not, nothing changes: no idle
  cache is sacrificed in vain.
\<close>

theorem reserve_memory_exact:
  assumes "files_reach inflate crc32 dk (st, fl, e)"
  shows "if sz \<le> fs_memory_file_limit st
            \<and> fs_memory_used st - fs_idle_memory_bytes st + sz \<le> fs_memory_total_limit st
         then \<exists>st2. reserve_memory sz st = (True, st2\<lparr>fs_memory_used := fs_memory_used st2 + sz\<rparr>)
                 \<and> fs_inv (entry_size e) (users fl) st2
                 \<and> fs_memory_used st2 + sz \<le> fs_memory_total_limit st2
                 \<and> (\<forall>a. users fl a > 0 \<longrightarrow> cell st2 a = cell st a)
         else reserve_memory sz st = (False, st)"
proof -
  have "fs_inv (entry_size e) (users fl) st" using reach_ok [OF assms] by (simp add: files_ok_def)
  from reserve_memory_spec [OF this, of sz] show ?thesis by (simp add: reserve_fits_def)
qed

theorem reserve_memory_exact_witness:
  "fst (reserve_memory 1000 example_files) \<and> \<not> fst (reserve_memory (64 * 1024 * 1024) example_files)"
proof -
  note r = reserve_memory_exact [OF example_reach [of "\<lambda>_ _ _. (0, [], MZ_ERROR)" "\<lambda>_ _. 5" example_disk]]
  have l: "fs_memory_file_limit example_files = 32 * 1024 * 1024" "fs_memory_used example_files = 0"
    "fs_idle_memory_bytes example_files = 0" "fs_memory_total_limit example_files = 128 * 1024 * 1024"
    by (simp_all add: example_files_def fs_initial_def)
  show ?thesis using r [of 1000] r [of "64 * 1024 * 1024"] by (auto simp: l)
qed

text \<open>
  C28: seeking is exact. For a file over a cache whose size and pointer are offsets, the new pointer
  is the origin plus the signed distance whenever that is between 0 and \<open>INT64_MAX\<close>; a target
  below 0 or beyond is refused with the error the Windows API documents and leaves the pointer where
  it was. No 64-bit operation wraps.
\<close>

theorem vfs_file_seek_exact:
  assumes "origin \<le> FILE_END" and "vf_zip f = None"
    and "unat (vf_position f) \<le> INT64_MAX" and "unat (vf_size f) \<le> INT64_MAX"
  shows "vfs_file_seek f distance origin =
    (if seek_target f distance origin < 0 then (Inl ERROR_NEGATIVE_SEEK, f)
     else if seek_target f distance origin > int INT64_MAX then (Inl ERROR_INVALID_PARAMETER, f)
     else (Inr (of_int (seek_target f distance origin)),
           f\<lparr>vf_position := of_int (seek_target f distance origin)\<rparr>))"
  by (rule seek_cached [OF assms(1,2)]) (use assms(3,4) uint_le_unat in \<open>simp add: seek_base_def\<close>)

theorem vfs_file_seek_exact_witness:
  "fst (vfs_file_seek (example_file\<lparr>vf_position := 1\<rparr>) (- 2) FILE_CURRENT) = Inl ERROR_NEGATIVE_SEEK"
proof -
  have t: "seek_target (example_file\<lparr>vf_position := 1\<rparr>) (- 2) FILE_CURRENT = - 1"
    by (simp add: seek_target_def seek_base_def FILE_CURRENT_def FILE_BEGIN_def)
  have p: "FILE_CURRENT \<le> FILE_END" "vf_zip (example_file\<lparr>vf_position := 1\<rparr>) = None"
    "unat (vf_position (example_file\<lparr>vf_position := 1\<rparr>)) \<le> INT64_MAX"
    "unat (vf_size (example_file\<lparr>vf_position := 1\<rparr>)) \<le> INT64_MAX"
    by (simp_all add: FILE_CURRENT_def FILE_END_def example_file_def INT64_MAX_def)
  show ?thesis using vfs_file_seek_exact [OF p, of "- 2", unfolded t] by simp
qed

end
