(* ===== verification/VfsFileContent.thy ===== *)
theory VfsFileContent
  imports VfsFileSafety
begin

text \<open>
  What the seekable files of \<open>VfsFile\<close> deliver: the bytes of the entry that each of them was opened
  for, whatever files share its decoded copy and however long ago it was decoded.
\<close>

subsection \<open>A decoded copy is the entry\<close>

text \<open>
  For a source, that is a package and the number of an entry, what a cache holds: the source itself as
  long as nothing is decoded, then a beginning of the entry.
\<close>

definition holds_source ::
  "inflate_api \<Rightarrow> crc_api \<Rightarrow> zip_package \<times> nat \<Rightarrow> zip_package option \<times> nat \<times> nat \<times> cache_data \<Rightarrow> bool" where
  "holds_source inflate crc32 o' = (\<lambda>(package, entry, n, d).
     n = zip_package_file_size (fst o') (snd o')
     \<and> (if d = CACHE_EMPTY then package = Some (fst o') \<and> entry = snd o'
        else \<forall>contents. archive_holds (fst o') contents \<longrightarrow>
          zip_entry_begins inflate crc32 contents (fst o') (snd o')
            (case d of CACHE_EMPTY \<Rightarrow> [] | CACHE_MEMORY bs \<Rightarrow> bs | CACHE_DISK bs \<Rightarrow> bs)))"

lemma decode_loop_delivers:
  assumes "decode_loop fuel inflate crc32 dk sz on_disk zs data st = (Inr (data', zs'), st')"
    and "zip_delivered inflate crc32 p k zs data" and "archive_holds p contents" and "crc_incremental crc32"
    and "data \<noteq> [] \<Longrightarrow> zip_entry_begins inflate crc32 contents p k data"
  shows "zip_delivered inflate crc32 p k zs' data'
    \<and> (data' \<noteq> [] \<longrightarrow> zip_entry_begins inflate crc32 contents p k data')"
  using assms
proof (induction fuel arbitrary: zs data st)
  case (Suc fuel)
  show ?case
  proof (cases "length data < sz")
    case True
    let ?chunk = "if sz - length data < CACHE_CHUNK_SIZE then sz - length data else CACHE_CHUNK_SIZE"
    have chunk: "?chunk \<noteq> 0" using True by (auto simp: CACHE_CHUNK_SIZE_def)
    obtain received zs1 where z: "zip_stream_read inflate crc32 zs ?chunk = Some (True, received, zs1)"
      using Suc.prems(1) True by (auto simp: Let_def split: option.splits prod.splits bool.splits)
    note d = delivered_read [OF Suc.prems(2) z]
    note b = conjunct2 [OF delivered_read_begins [OF Suc.prems(2) z chunk Suc.prems(3,4)]]
    obtain st1 where "decode_loop fuel inflate crc32 dk sz on_disk zs1 (data @ received) st1 = (Inr (data', zs'), st')"
      using Suc.prems(1) True z by (auto simp: Let_def split: if_splits prod.splits sum.splits)
    from Suc.IH [OF this d Suc.prems(3,4) b] show ?thesis .
  qed (use Suc.prems in auto)
qed auto

lemma decode_entry_delivers:
  assumes "decode_entry inflate crc32 dk c storage st = (Inr data, st')" and "vc_package c = Some p" and "vc_entry c = k"
    and "archive_holds p contents" and "crc_incremental crc32"
  shows "zip_entry_begins inflate crc32 contents p k data"
proof -
  obtain z h where z: "zip_stream_open (Some p) k (fs_heap st) = (z, h)" by fastforce
  obtain zs where zs: "z = Inr zs" using assms(1,2,3) z by (cases z) (auto simp: decode_entry_def)
  obtain r st1 where d: "decode_loop (vc_size c) inflate crc32 dk (vc_size c) (storage = Some False) zs []
      (st\<lparr>fs_heap := h\<rparr>) = (r, st1)" by fastforce
  obtain zs' where r: "r = Inr (data, zs')"
    using assms(1,2,3) z zs d by (auto simp: decode_entry_def split: sum.splits prod.splits if_splits option.splits bool.splits)
  have start: "zip_delivered inflate crc32 p k zs []" using z zs by (intro delivered_open) auto
  note del = decode_loop_delivers [OF d [unfolded r] start assms(4,5)]
  have len: "length data = vc_size c" using decode_entry_spec [OF assms(1)] by simp
  show ?thesis
  proof (cases "vc_size c = 0")
    case False
    then have "data \<noteq> []" using len by auto
    with del show ?thesis by simp
  next
    case True
    then have nil: "data = []" using len by simp
    obtain received zs1 where rd: "zip_stream_read inflate crc32 zs' 1 = Some (True, received, zs1)"
      using assms(1,2,3) z zs d r True by (auto simp: decode_entry_def split: option.splits prod.splits bool.splits)
    have "zip_delivered inflate crc32 p k zs' []" using del nil by simp
    from delivered_read_begins [OF this rd _ assms(4,5)]
    have l: "length received = min 1 (m_uncomp_size (zs_stat zs1))"
      and b: "zip_entry_begins inflate crc32 contents p k received" by simp_all
    show ?thesis
    proof (cases "received = []")
      case True
      with b nil show ?thesis by simp
    next
      case False
      then obtain h1 h2 s where s: "zip_stream_open (Some p) k h1 = (Inr s, h2)"
        "length received \<le> m_uncomp_size (zs_stat s)"
        using b unfolding zip_entry_begins_def entry_begins_def by blast
      then have "m_uncomp_size (zs_stat s) \<noteq> 0" using False by (cases received) simp_all
      with zip_entry_begins_Nil [OF s(1)] nil show ?thesis by simp
    qed
  qed
qed

subsection \<open>Sources\<close>

text \<open>
  \<open>g\<close> names the source of every cache, those of the dropped tables too; a cache of the table has the
  source that its identity names.
\<close>

definition source_laws :: "inflate_api \<Rightarrow> crc_api \<Rightarrow> entry_map \<Rightarrow> entry_map \<Rightarrow> cell_laws" where
  "source_laws inflate crc32 e g = (\<lambda>k a n. g a = e k, \<lambda>a. holds_source inflate crc32 (g a))"

lemma source_laws_decode:
  assumes "crc_incremental crc32"
  shows "decode_laws inflate crc32 (source_laws inflate crc32 e g)"
  by (auto simp: decode_laws_def source_laws_def holds_source_def intro: decode_entry_delivers [OF _ _ _ _ assms])

lemma fs_inv_laws:
  assumes "fs_inv z u st"
    and "\<And>a c. cell st a = Some c \<Longrightarrow> (\<not> vc_detached c \<longrightarrow> fst z' (vc_identity c) a (vc_size c))
      \<and> snd z' a (vc_package c, vc_entry c, vc_size c, vc_data c)"
  shows "fs_inv z' u st"
proof -
  have "cell_ok z' X u s st a c" if "cell_ok z X u s st a c" "cell st a = Some c" for X s a c
    using that assms(2) [OF that(2)] unfolding cell_ok_def by blast
  then show ?thesis using assms(1) unfolding fs_inv_def fs_wf_def by blast
qed

lemma source_laws_fresh:
  assumes "fs_inv (source_laws inflate crc32 e g) u st"
  shows "fs_inv (source_laws inflate crc32 e (g(length (fs_cells st) := x))) u st"
proof (rule fs_inv_laws [OF assms])
  fix a c assume c: "cell st a = Some c"
  then have "a \<noteq> length (fs_cells st)" by (auto simp: cell_def split: if_splits)
  with fs_wf_cell [OF fs_inv_wf [OF assms] c]
  show "(\<not> vc_detached c \<longrightarrow> fst (source_laws inflate crc32 e (g(length (fs_cells st) := x))) (vc_identity c) a (vc_size c))
      \<and> snd (source_laws inflate crc32 e (g(length (fs_cells st) := x))) a (vc_package c, vc_entry c, vc_size c, vc_data c)"
    by (simp add: cell_ok_def source_laws_def)
qed

text \<open>
  The runs of the module with the source that each open file was opened for, in the order of the
  files: the one that its identity names at that time.
\<close>

inductive files_from ::
  "inflate_api \<Rightarrow> crc_api \<Rightarrow> disk_api \<Rightarrow> files_state \<Rightarrow> (zip_package \<times> nat) list \<Rightarrow> bool"
  for inflate crc32 dk where
  from_start: "files_from inflate crc32 dk (fs_initial h, [], e) []"
| from_open: "files_from inflate crc32 dk (st, fl, e) os
    \<Longrightarrow> vfs_file_create (fst (e k)) (snd (e k)) k streaming st = (Inr f, st')
    \<Longrightarrow> files_from inflate crc32 dk (st', fl @ [f], e) (os @ [e k])"
| from_close: "files_from inflate crc32 dk (st, fl, e) os \<Longrightarrow> i < length fl
    \<Longrightarrow> files_from inflate crc32 dk (vfs_file_close (Some (fl ! i)) st, take i fl @ drop (Suc i) fl, e)
          (take i os @ drop (Suc i) os)"
| from_other: "files_from inflate crc32 dk (st, fl, e) os
    \<Longrightarrow> files_step inflate crc32 dk (st, fl, e) (st', fl', e') \<Longrightarrow> length fl' = length fl
    \<Longrightarrow> files_from inflate crc32 dk (st', fl', e') os"

lemma files_from_reach: "files_from inflate crc32 dk s os \<Longrightarrow> files_reach inflate crc32 dk s"
proof (induction rule: files_from.induct)
  case (from_open st fl e os k streaming f st')
  then show ?case using files_reach.step files_step.open_file by blast
next
  case (from_close st fl e os i)
  then show ?case using files_reach.step files_step.close_file by blast
qed (auto intro: files_reach.start files_reach.step)

definition sources_known :: "inflate_api \<Rightarrow> crc_api \<Rightarrow> files_state \<Rightarrow> (zip_package \<times> nat) list \<Rightarrow> bool" where
  "sources_known inflate crc32 s os \<longleftrightarrow> (case s of (st, fl, e) \<Rightarrow> length os = length fl \<and>
     (\<exists>g. fs_inv (source_laws inflate crc32 e g) (users fl) st
        \<and> (\<forall>i<length fl. \<forall>a. vf_cache (fl ! i) = Some a \<longrightarrow> g a = os ! i)))"

lemma opened_same:
  assumes "sources_known inflate crc32 (st, fl, e) os" and "fl' = fl[i := f']" and "i < length fl"
    and "vf_cache f' = vf_cache (fl ! i)"
    and "\<And>g. fs_inv (source_laws inflate crc32 e g) (users fl) st \<Longrightarrow> fs_inv (source_laws inflate crc32 e g) (users fl) st'"
  shows "sources_known inflate crc32 (st', fl', e) os"
proof -
  have c: "vf_cache (fl' ! j) = vf_cache (fl ! j)" if "j < length fl" for j
    using assms(2-4) that by (cases "j = i") simp_all
  moreover have "users fl' = users fl"
    using assms(2-4) by (simp add: users_update)
  ultimately show ?thesis using assms unfolding sources_known_def by auto
qed

lemma sources_open:
  assumes "sources_known inflate crc32 (st, fl, e) os"
    and c: "vfs_file_create (fst (e k)) (snd (e k)) k streaming st = (r, st')"
  shows "case r of Inl err \<Rightarrow> sources_known inflate crc32 (st', fl, e) os
    | Inr f \<Rightarrow> sources_known inflate crc32 (st', fl @ [f], e) (os @ [e k])"
proof -
  obtain g where len: "length os = length fl" and inv: "fs_inv (source_laws inflate crc32 e g) (users fl) st"
    and g: "\<forall>i<length fl. \<forall>a. vf_cache (fl ! i) = Some a \<longrightarrow> g a = os ! i"
    using assms(1) by (auto simp: sources_known_def)
  obtain al st1 where a: "fs_alloc st = (al, st1)" by fastforce
  note i1 = fs_alloc_inv [OF inv a]
  have keep: "sources_known inflate crc32 (st2, fl, e) os"
    if "fs_inv (source_laws inflate crc32 e g) (users fl) st2" for st2
    using that g len unfolding sources_known_def by auto
  have nocache: "sources_known inflate crc32 (st2, fl @ [f], e) (os @ [e k])"
    if "fs_inv (source_laws inflate crc32 e g) (users fl) st2" "vf_cache f = None" for st2 f
    using that g len unfolding sources_known_def
    by (auto simp: users_snoc nth_append less_Suc_eq intro!: exI [of _ g])
  have heap: "fs_inv (source_laws inflate crc32 e g) (users fl) (zip_package_retain p (st1\<lparr>fs_heap := h\<rparr>))"
    "fs_inv (source_laws inflate crc32 e g) (users fl) (st1\<lparr>fs_heap := h\<rparr>)" for h p
    using i1 by (simp_all add: zip_package_retain_def fs_inv_frame)
  show ?thesis
  proof (cases "al \<and> \<not> streaming \<and> zip_package_file_size (fst (e k)) (snd (e k)) \<le> INT64_MAX")
    case False
    then show ?thesis
      using c a i1 keep nocache heap
      by (auto simp: vfs_file_create_def Let_def split: if_splits bool.splits prod.splits sum.splits)
  next
    case True
    let ?sz = "zip_package_file_size (fst (e k)) (snd (e k))"
    let ?g = "g(length (fs_cells st1) := e k)"
    obtain q st2 where q: "cache_acquire (fst (e k)) (snd (e k)) k ?sz st1 = (q, st2)" by fastforce
    have inv1: "fs_inv (source_laws inflate crc32 e ?g) (users fl) st1"
      using i1 by (intro source_laws_fresh) simp
    have z: "fst (source_laws inflate crc32 e ?g) k (length (fs_cells st1)) ?sz"
      "snd (source_laws inflate crc32 e ?g) (length (fs_cells st1)) (Some (fst (e k)), snd (e k), ?sz, CACHE_EMPTY)"
      by (simp_all add: source_laws_def holds_source_def)
    note acq = cache_acquire_inv [OF inv1 q z]
    have old: "?g b = os ! i" if "i < length fl" "vf_cache (fl ! i) = Some b" for i b
    proof -
      have "users fl b > 0" using that by (intro users_pos [of "fl ! i"]) simp_all
      then have "b \<noteq> length (fs_cells st1)" using fs_inv_unused [OF inv1] by auto
      with g that show ?thesis by simp
    qed
    show ?thesis
    proof (cases q)
      case None
      then have "r = Inl ERROR_NOT_ENOUGH_MEMORY" "st' = st2"
        using c a True q by (auto simp: vfs_file_create_def Let_def split: bool.splits)
      with acq None old len show ?thesis unfolding sources_known_def by auto
    next
      case (Some b)
      obtain f where f: "r = Inr f" "vf_cache f = Some b" "st' = st2"
        using Some c a True q by (auto simp: vfs_file_create_def Let_def split: bool.splits)
      have inv2: "fs_inv (source_laws inflate crc32 e ?g) ((users fl)(b := users fl b + 1)) st2"
        and s2: "slot st2 k = Some b" using acq Some by simp_all
      obtain c2 where c2: "cell st2 b = Some c2" "vc_identity c2 = k" "\<not> vc_detached c2"
        using fs_wf_table [OF fs_inv_wf [OF inv2] s2] by blast
      have "?g b = e k"
        using fs_wf_cell [OF fs_inv_wf [OF inv2] c2(1)] c2 by (simp add: cell_ok_def source_laws_def)
      with f inv2 old len show ?thesis
        unfolding sources_known_def prod.case f(1) sum.case
        by (intro conjI exI [of _ ?g]) (auto simp: users_snoc nth_append less_Suc_eq simp del: fun_upd_apply)
    qed
  qed
qed

lemma sources_close:
  assumes "sources_known inflate crc32 (st, fl, e) os" and i: "i < length fl"
  shows "sources_known inflate crc32 (vfs_file_close (Some (fl ! i)) st, take i fl @ drop (Suc i) fl, e)
    (take i os @ drop (Suc i) os)"
proof -
  let ?fl = "take i fl @ drop (Suc i) fl" and ?os = "take i os @ drop (Suc i) os"
  let ?st = "zip_package_close (map_option zs_package (vf_zip (fl ! i))) st"
  obtain g where len: "length os = length fl" and inv0: "fs_inv (source_laws inflate crc32 e g) (users fl) st"
    and g: "\<forall>i<length fl. \<forall>a. vf_cache (fl ! i) = Some a \<longrightarrow> g a = os ! i"
    using assms(1) by (auto simp: sources_known_def)
  have inv: "fs_inv (source_laws inflate crc32 e g) (users fl) ?st" using inv0 by (rule zip_package_close_frame(2))
  have "fs_inv (source_laws inflate crc32 e g) (users ?fl) (vfs_file_close (Some (fl ! i)) st)"
  proof (cases "vf_cache (fl ! i)")
    case None
    then show ?thesis using inv i by (simp add: vfs_file_close_def users_remove)
  next
    case (Some a)
    have u: "users fl a > 0" using Some i by (intro users_pos) auto
    from cache_release_inv [OF inv u] Some i show ?thesis by (simp add: vfs_file_close_def users_remove)
  qed
  moreover have "g a = ?os ! j" if "j < length ?fl" "vf_cache (?fl ! j) = Some a" for j a
  proof -
    let ?j = "if j < i then j else Suc j"
    have "?fl ! j = fl ! ?j" "?os ! j = os ! ?j" "?j < length fl"
      using that(1) i len by (auto simp: nth_append min_def)
    with g that(2) show ?thesis by simp
  qed
  moreover have "length ?os = length ?fl" using len by simp
  ultimately show ?thesis unfolding sources_known_def by auto
qed

lemma read_at_sources:
  assumes ok: "files_ok (st, fl, e)" and i: "i < length fl" and crc: "crc_incremental crc32"
    and r: "vfs_file_read_at inflate crc32 dk (fl ! i) offset buffer n st = (res, f', st')"
  shows "vf_cache f' = vf_cache (fl ! i)
    \<and> (fs_inv (source_laws inflate crc32 e g) (users fl) st \<longrightarrow> fs_inv (source_laws inflate crc32 e g) (users fl) st')"
proof -
  obtain err out where res: "res = (err, out)" by fastforce
  have f: "file_ok st (fl ! i)" using ok i by (auto simp: files_ok_def)
  show ?thesis
  proof (cases "vf_cache (fl ! i)")
    case None
    then obtain zs where "vf_zip (fl ! i) = Some zs" using f by (auto simp: file_ok_def)
    then have "st' = st" using r by (auto simp: vfs_file_read_at_def split: option.splits if_splits)
    with read_at_ok [OF ok i r [unfolded res]] show ?thesis by simp
  next
    case (Some a)
    have u: "users fl a > 0" using Some i by (intro users_pos) auto
    have "fs_inv (source_laws inflate crc32 e g) (users fl) st'"
      if "fs_inv (source_laws inflate crc32 e g) (users fl) st"
      using read_at_cache [OF that source_laws_decode [OF crc] f Some u r [unfolded res]] by blast
    with read_at_ok [OF ok i r [unfolded res]] show ?thesis by blast
  qed
qed

lemma sources_drop:
  assumes "sources_known inflate crc32 (st, fl, e) os"
  shows "sources_known inflate crc32 (vfs_file_drop_caches st, fl, e') os"
proof -
  let ?st = "vfs_file_drop_caches st"
  obtain g where len: "length os = length fl" and inv: "fs_inv (source_laws inflate crc32 e g) (users fl) st"
    and g: "\<forall>i<length fl. \<forall>a. vf_cache (fl ! i) = Some a \<longrightarrow> g a = os ! i"
    using assms by (auto simp: sources_known_def)
  note d = vfs_file_drop_caches_inv [OF inv]
  have inv1: "fs_inv (source_laws inflate crc32 e g) (users fl) ?st" using d by simp
  have none: "slot ?st = (\<lambda>_. None)" using d by (simp add: slot_def fun_eq_iff)
  have "fs_inv (source_laws inflate crc32 e' g) (users fl) ?st"
  proof (rule fs_inv_laws [OF inv1])
    fix a c assume "cell ?st a = Some c"
    from fs_wf_cell [OF fs_inv_wf [OF inv1] this] none
    show "(\<not> vc_detached c \<longrightarrow> fst (source_laws inflate crc32 e' g) (vc_identity c) a (vc_size c))
      \<and> snd (source_laws inflate crc32 e' g) a (vc_package c, vc_entry c, vc_size c, vc_data c)"
      by (auto simp: cell_ok_def source_laws_def)
  qed
  with len g show ?thesis unfolding sources_known_def by auto
qed

lemma sources_step:
  assumes "files_step inflate crc32 dk s s'" and "files_ok s" and "sources_known inflate crc32 s os"
    and "length (fst (snd s')) = length (fst (snd s))" and crc: "crc_incremental crc32"
  shows "sources_known inflate crc32 s' os"
  using assms(1-4)
proof (induction rule: files_step.induct)
  case (open_fails e k streaming st err st' fl)
  then show ?case using sources_open by fastforce
next
  case (read_file i fl buffer n st r f' st' e)
  obtain x f1 where at: "vfs_file_read_at inflate crc32 dk (fl ! i) (vf_position (fl ! i)) buffer n st = (x, f1, st')"
    and f1: "vf_cache f' = vf_cache f1"
    using read_file(2) by (auto simp: vfs_file_read_def split: prod.splits)
  note rd = read_at_sources [OF read_file(3,1) crc at]
  show ?case by (rule opened_same [OF read_file(4) refl read_file(1)]) (use rd f1 in auto)
next
  case (read_at_file i fl offset buffer n st r f' st' e)
  note rd = read_at_sources [OF read_at_file(3,1) crc read_at_file(2)]
  show ?case by (rule opened_same [OF read_at_file(4) refl read_at_file(1)]) (use rd in auto)
next
  case (seek_file i fl distance origin r' f' st e)
  have "vf_cache f' = vf_cache (fl ! i)"
    using seek_file(2) by (auto simp: vfs_file_seek_def Let_def split: if_splits)
  then show ?case by (intro opened_same [OF seek_file(4) refl seek_file(1)])
next
  case (drop_caches st fl e e')
  then show ?case by (intro sources_drop)
qed auto

lemma files_from_known:
  assumes "files_from inflate crc32 dk s os" and "crc_incremental crc32"
  shows "sources_known inflate crc32 s os"
  using assms
proof (induction rule: files_from.induct)
  case (from_start h e)
  have "fs_inv (source_laws inflate crc32 e g) (users []) (fs_initial h)" for g
    by (auto simp: fs_inv_def fs_wf_def fs_initial_def cell_def slot_def users_def memory_total_def)
  then show ?case by (simp add: sources_known_def)
next
  case (from_open st fl e os k streaming f st')
  then show ?case using sources_open [OF from_open(3) from_open(2)] by simp
next
  case (from_close st fl e os i)
  then show ?case by (intro sources_close) simp_all
next
  case (from_other st fl e os st' fl' e')
  then show ?case using reach_ok [OF files_from_reach [OF from_other(1)]]
    by (intro sources_step [OF from_other(2)]) simp_all
qed

text \<open>
  C23: a read delivers the bytes of the entry. When a file that is not streaming was opened for entry
  \<open>k\<close> of an archive, a successful read of a positive number of bytes returns those of the whole entry
  at the offset, as many as asked for or as are left: the stored bytes of the archive file or what
  the inflater makes of the compressed ones, with the checksum of the archive's directory. This
  holds whatever other files share its decoded copy, wherever the copy is kept and whatever entry
  the file's identity names by now; a read that fails delivers no byte from
  beyond the end either.
\<close>

theorem vfs_file_read_at_decoded:
  assumes "files_from inflate crc32 dk (st, fl, e) os" and "i < length fl" and "vf_cache (fl ! i) = Some a"
    and "vfs_file_read_at inflate crc32 dk (fl ! i) offset buffer n st = ((err, out), f', st')" and "n \<noteq> 0"
    and "os ! i = (p, k)" and "archive_holds p contents" and "package_sized p" and "crc_incremental crc32"
  shows "length out \<le> unat (vf_size (fl ! i)) - unat offset
     \<and> (err = None \<longrightarrow> (\<exists>data. zip_entry_is inflate crc32 contents p k data
          \<and> length data = unat (vf_size (fl ! i)) \<and> out = take n (drop (unat offset) data)))"
proof -
  have ok: "files_ok (st, fl, e)" by (rule reach_ok [OF files_from_reach [OF assms(1)]])
  then have f: "file_ok st (fl ! i)" using assms(2) by (auto simp: files_ok_def)
  have u: "users fl a > 0" using assms(2,3) by (intro users_pos) auto
  obtain g where inv: "fs_inv (source_laws inflate crc32 e g) (users fl) st" and g: "g a = (p, k)"
    using files_from_known [OF assms(1,9)] assms(2,3,6) by (auto simp: sources_known_def)
  note rd = read_at_cache [OF inv source_laws_decode [OF assms(9)] f assms(3) u assms(4)]
  then obtain c' where inv': "fs_inv (source_laws inflate crc32 e g) (users fl) st'" and c': "cell st' a = Some c'"
    and out: "err = None \<Longrightarrow> vc_data c' \<noteq> CACHE_EMPTY \<and> length (cache_bytes c') = unat (vf_size (fl ! i))
      \<and> out = take n (drop (unat offset) (cache_bytes c'))" and l: "length out \<le> unat (vf_size (fl ! i)) - unat offset"
    using assms(5) by blast
  have "zip_entry_is inflate crc32 contents p k (cache_bytes c')" if "err = None"
  proof (rule zip_entry_whole [OF _ assms(8)])
    have h: "holds_source inflate crc32 (p, k) (vc_package c', vc_entry c', vc_size c', vc_data c')"
      using fs_wf_cell [OF fs_inv_wf [OF inv'] c'] g by (simp add: cell_ok_def source_laws_def)
    then show "zip_entry_begins inflate crc32 contents p k (cache_bytes c')"
      using out [OF that] assms(7) by (simp add: holds_source_def cache_bytes_def)
    have "length (cache_bytes c') = vc_size c'"
      using fs_wf_cell [OF fs_inv_wf [OF inv'] c'] out [OF that] by (simp add: cell_ok_def)
    with h show "length (cache_bytes c') = zip_package_file_size p k" by (simp add: holds_source_def)
  qed
  with out l show ?thesis by blast
qed

lemma example_from:
  "files_from inflate crc32 dk (example_files, [example_file], \<lambda>_. (example_package, 0)) [(example_package, 0)]"
proof -
  have "files_from inflate crc32 dk (example_files, [] @ [example_file], \<lambda>_. (example_package, 0)) ([] @ [(example_package, 0)])"
    using from_open [OF from_start, where e = "\<lambda>_. (example_package, 0)" and k = 3 and streaming = False]
      example_create by simp
  then show ?thesis by simp
qed

theorem vfs_file_read_at_decoded_witness:
  "\<exists>st'. vfs_file_read_at no_inflate example_crc example_disk example_file 0 True 4 example_files
       = ((None, [7]), example_file, st')
     \<and> zip_entry_is no_inflate example_crc example_contents example_package 0 [7]"
proof -
  have st: "decode_storage example_disk 1 example_files = (Inr (Some True), example_files\<lparr>fs_memory_used := 1\<rparr>)"
    by (simp add: decode_storage_def reserve_memory_def try_reserve_memory_def example_files_def fs_initial_def
        fs_alloc_def ml_mem_alloc_def)
  have de: "decode_entry no_inflate example_crc example_disk example_cache (Some True) (example_files\<lparr>fs_memory_used := 1\<rparr>)
      = (Inr [7], example_files\<lparr>fs_memory_used := 1\<rparr>)"
    using example_open example_read
    by (simp add: decode_entry_def example_cache_def example_files_def fs_initial_def CACHE_CHUNK_SIZE_def)
  have tc: "the_cell example_files 0 = example_cache" "vc_data example_cache = CACHE_EMPTY" "vc_size example_cache = 1"
    by (simp_all add: the_cell_def example_files_def example_cache_def)
  obtain st' where p: "cache_prepare no_inflate example_crc example_disk 0 example_files = (Inr (), st')"
      and cl: "the_cell st' 0 = example_cache\<lparr>vc_package := None, vc_data := CACHE_MEMORY [7]\<rparr>"
    using st de tc by (simp add: cache_prepare_def cache_decode_def the_cell_def set_cell_def
        zip_package_close_def example_cache_def example_files_def)
  have r: "vfs_file_read_at no_inflate example_crc example_disk example_file 0 True 4 example_files
      = ((None, [7]), example_file, st')"
    using p cl by (simp add: vfs_file_read_at_def example_file_def cache_read_def is_memory_def example_cache_def cache_bytes_def)
  have f: "vf_cache ([example_file] ! 0) = Some 0" "[example_file] ! 0 = example_file" "unat (vf_size example_file) = 1"
    by (simp_all add: example_file_def)
  have sized: "package_sized example_package" by (simp add: package_sized_def example_package_def example_stat_def)
  from vfs_file_read_at_decoded [OF example_from _ f(1) _ _ _ example_archive(1) sized example_archive(2),
      of no_inflate example_disk 0 True 4 None "[7]" example_file st' 0] r f
  obtain data where "zip_entry_is no_inflate example_crc example_contents example_package 0 data"
    "length data = 1" "[7] = take 4 data" by auto
  then have "zip_entry_is no_inflate example_crc example_contents example_package 0 [7]" by simp
  with r show ?thesis by blast
qed

end
