(* ===== verification/Vfs.thy ===== *)
theory Vfs
  imports VfsFile
begin

text \<open>
  The virtual file system (\<open>src/src/modloader/vfs.c\<close>, after its path functions in
  \<open>VfsPath\<close>): the index of the packages' files, its UIDs, the lookup caches with their
  generation protocol and the table of writable paths.

  The static variables are the record \<open>vfs\<close>; a table that \<open>vfs_init\<close> has not made
  yet is \<open>None\<close>. An entry's \<open>uid\<close> is the buffer it points to, which holds two strings.
  The functions of the index run on one thread while the loader configures itself; the lookups
  are split at their locks in \<open>VfsCache\<close>.
\<close>

subsection \<open>State\<close>

record vfs_entry =
  ve_key :: wstr
  ve_path :: "wstr option"
  ve_uid :: wstr
  ve_zip :: "zip_package option"
  ve_zip_file :: nat

definition VFS_LOOKUP_VIRTUAL :: nat where "VFS_LOOKUP_VIRTUAL = 0"
definition VFS_LOOKUP_DISK_WIDE :: nat where "VFS_LOOKUP_DISK_WIDE = 1"
definition VFS_LOOKUP_DOMAIN_COUNT :: nat where "VFS_LOOKUP_DOMAIN_COUNT = 4"

type_synonym lookup_cache = "(wstr, wstr option) khash"

record vfs =
  v_index :: "(wstr, nat) khash option"
  v_lookup_caches :: "lookup_cache option list"
  v_uid_cache :: "lookup_cache option"
  v_writable_cache :: "lookup_cache option"
  v_entries :: "vfs_entry list"
  v_entry_capacity :: nat
  v_zip_packages :: "zip_package list"
  v_frozen :: bool
  v_generation :: "64 word"
  v_generation_sequence :: "64 word"
  v_recursion_depth :: nat
  v_writable :: "(wstr \<times> wstr) list"
  v_writable_capacity :: nat
  v_files :: vfs_files

definition v_heap :: "vfs \<Rightarrow> heap" where
  "v_heap v = fs_heap (v_files v)"

definition with_heap :: "heap \<Rightarrow> vfs \<Rightarrow> vfs" where
  "with_heap h v = v\<lparr>v_files := (v_files v)\<lparr>fs_heap := h\<rparr>\<rparr>"

definition v_alloc :: "vfs \<Rightarrow> bool \<times> vfs" where
  "v_alloc v = (case ml_mem_alloc (v_heap v) of (ok, h) \<Rightarrow> (ok, with_heap h v))"

definition v_normalize :: "wstr \<Rightarrow> vfs \<Rightarrow> wstr option \<times> vfs" where
  "v_normalize path v =
     (case vfs_normalize_path (Some path) (v_heap v) of (r, h) \<Rightarrow> (r, with_heap h v))"

subsection \<open>UIDs\<close>

definition hex_digit :: "nat \<Rightarrow> wchar" where
  "hex_digit d = (if d < 10 then of_nat (48 + d) else of_nat (87 + d))"

text \<open>\<open>%zx\<close>\<close>

fun hex_string :: "nat \<Rightarrow> wstr" where
  "hex_string n = (if n < 16 then [hex_digit n] else hex_string (n div 16) @ [hex_digit (n mod 16)])"

declare hex_string.simps [simp del]

text \<open>\<open>L"\\\\me3??"\<close>\<close>

definition uid_prefix :: wstr where
  "uid_prefix = [BSLASH, BSLASH, 109, 101, 51, QMARK, QMARK]"

text \<open>The buffer of an entry's UIDs: the normal one, its terminator and the streaming one.\<close>

definition uid_buffer :: "nat \<Rightarrow> wstr" where
  "uid_buffer i = uid_prefix @ hex_string i @ [0] @ uid_prefix @ [115] @ hex_string i"

definition first_string :: "wstr \<Rightarrow> wstr" where
  "first_string b = takeWhile (\<lambda>c. c \<noteq> 0) b"

definition vfs_entry_uid :: "vfs_entry \<Rightarrow> wstr" where
  "vfs_entry_uid entry = first_string (ve_uid entry)"

definition vfs_entry_streaming_uid :: "vfs_entry \<Rightarrow> wstr" where
  "vfs_entry_streaming_uid entry =
     first_string (drop (length (vfs_entry_uid entry) + 1) (ve_uid entry))"

definition hex_value :: "wchar \<Rightarrow> nat option" where
  "hex_value c = (if 48 \<le> c \<and> c \<le> 57 then Some (unat c - 48)
                  else if 97 \<le> c \<and> c \<le> 102 then Some (unat c - 87)
                  else if 65 \<le> c \<and> c \<le> 70 then Some (unat c - 55) else None)"

definition iswxdigit :: "wchar \<Rightarrow> bool" where
  "iswxdigit c \<longleftrightarrow> hex_value c \<noteq> None"

text \<open>
  \<open>wcstoull\<close> in base 16 from the first digit on, with its optional \<open>0x\<close>: the value, which
  saturates, and what follows the number.
\<close>

fun wcstoull_digits :: "nat \<Rightarrow> wstr \<Rightarrow> nat \<times> wstr" where
  "wcstoull_digits acc [] = (acc, [])"
| "wcstoull_digits acc (c # s) =
     (case hex_value c of None \<Rightarrow> (acc, c # s)
      | Some d \<Rightarrow> wcstoull_digits (acc * 16 + d) s)"

definition wcstoull16 :: "wstr \<Rightarrow> nat \<times> wstr" where
  "wcstoull16 s =
     (let s = (if wat s 0 = 48 \<and> (wat s 1 = 120 \<or> wat s 1 = 88) \<and> iswxdigit (wat s 2)
               then drop 2 s else s);
          (n, rest) = wcstoull_digits 0 s
      in (min n (2 ^ 64 - 1), rest))"

text \<open>The entry a UID names, by its number, and whether it is the streaming variant.\<close>

definition vfs_uid_entry :: "wstr option \<Rightarrow> vfs \<Rightarrow> (nat \<times> bool) option" where
  "vfs_uid_entry uid v =
     (case uid of None \<Rightarrow> None
      | Some uid \<Rightarrow>
          if take (length uid_prefix) uid \<noteq> uid_prefix then None
          else
            let uid = drop (length uid_prefix) uid;
                forward_only = (wat uid 0 = 115);
                uid = (if forward_only then drop 1 uid else uid)
            in if \<not> iswxdigit (wat uid 0) then None
               else case wcstoull16 uid of
                 (index_value, rest) \<Rightarrow>
                   if rest \<noteq> [] \<or> index_value \<ge> length (v_entries v) then None
                   else Some (index_value, forward_only))"

definition vfs_entry_read_path :: "vfs_entry \<Rightarrow> wstr option" where
  "vfs_entry_read_path entry = (if ve_zip entry \<noteq> None then Some (vfs_entry_uid entry) else ve_path entry)"

definition vfs_uid_to_path :: "wstr option \<Rightarrow> vfs \<Rightarrow> wstr option" where
  "vfs_uid_to_path uid v =
     (case vfs_uid_entry uid v of None \<Rightarrow> None
      | Some (i, streaming) \<Rightarrow>
          let entry = v_entries v ! i
          in if streaming \<and> ve_zip entry \<noteq> None then Some (vfs_entry_streaming_uid entry)
             else vfs_entry_read_path entry)"

definition vfs_uid_for_streaming :: "wstr option \<Rightarrow> vfs \<Rightarrow> wstr option" where
  "vfs_uid_for_streaming uid v =
     (case vfs_uid_entry uid v of None \<Rightarrow> None
      | Some (i, streaming) \<Rightarrow>
          let entry = v_entries v ! i
          in Some (if ve_zip entry = None then vfs_entry_uid entry else vfs_entry_streaming_uid entry))"

definition vfs_is_zip_path :: "wstr option \<Rightarrow> vfs \<Rightarrow> bool" where
  "vfs_is_zip_path path v =
     (case vfs_uid_entry path v of None \<Rightarrow> False | Some (i, _) \<Rightarrow> ve_zip (v_entries v ! i) \<noteq> None)"

definition vfs_has_zip_entries :: "vfs \<Rightarrow> bool" where
  "vfs_has_zip_entries v = list_ex (\<lambda>entry. ve_zip entry \<noteq> None) (v_entries v)"

subsection \<open>The index\<close>

definition empty_entry :: vfs_entry where
  "empty_entry = \<lparr>ve_key = [], ve_path = None, ve_uid = [], ve_zip = None, ve_zip_file = 0\<rparr>"

definition the_index :: "vfs \<Rightarrow> (wstr, nat) khash" where
  "the_index v = (case v_index v of None \<Rightarrow> kh_init | Some t \<Rightarrow> t)"

text \<open>
  \<open>vfs_insert\<close>: \<open>None\<close> is failure; otherwise the entry that was replaced (\<open>None\<close> for a new
  one) and the index of the entry touched.
\<close>

definition vfs_insert ::
  "wstr \<Rightarrow> wstr option \<Rightarrow> zip_package option \<Rightarrow> nat \<Rightarrow> vfs \<Rightarrow> (vfs_entry option \<times> nat) option \<times> vfs" where
  "vfs_insert relative path zs zip_file v =
     (if path = None \<and> zs = None then (None, v)
      else case v_normalize relative v of
        (None, v) \<Rightarrow> (None, v)
      | (Some key, v) \<Rightarrow>
          (case v_alloc v of
             (False, v) \<Rightarrow> (None, v)
           | (True, v) \<Rightarrow>
               (case kh_get (the_index v) key of
                  Some i \<Rightarrow>
                    (let entry = v_entries v ! i
                     in (Some (Some entry, i),
                         v\<lparr>v_entries := (v_entries v)[i := entry\<lparr>ve_path := path, ve_zip := zs,
                                                            ve_zip_file := zip_file\<rparr>]\<rparr>))
                | None \<Rightarrow>
                    (let v = v\<lparr>v_index := Some (kh_set key 0 (the_index v))\<rparr>;
                         count = length (v_entries v);
                         (grown, v) =
                           (if count = v_entry_capacity v then
                              (case v_alloc v of
                                 (True, v) \<Rightarrow>
                                   (True, v\<lparr>v_entry_capacity :=
                                      (if v_entry_capacity v = 0 then 128 else v_entry_capacity v * 2)\<rparr>)
                               | (False, v) \<Rightarrow> (False, v))
                            else (True, v))
                     in if \<not> grown then (None, v\<lparr>v_index := Some (kh_del key (the_index v))\<rparr>)
                        else
                          let v = v\<lparr>v_index := Some (kh_set key count (the_index v))\<rparr>
                          in case v_alloc v of
                               (False, v) \<Rightarrow> (None, v\<lparr>v_index := Some (kh_del key (the_index v))\<rparr>)
                             | (True, v) \<Rightarrow>
                                 (Some (None, count),
                                  v\<lparr>v_entries := v_entries v
                                      @ [\<lparr>ve_key = key, ve_path = path, ve_uid = uid_buffer count,
                                          ve_zip = zs, ve_zip_file = zip_file\<rparr>]\<rparr>)))))"

subsection \<open>Scanning a directory\<close>

text \<open>The list of relative paths with the capacity of its array.\<close>

type_synonym vfs_path_list = "wstr list \<times> nat"

definition vfs_path_list_append :: "vfs_path_list \<Rightarrow> wstr \<Rightarrow> heap \<Rightarrow> vfs_path_list option \<times> heap" where
  "vfs_path_list_append list item h =
     (let (items, cap) = list
      in if length items = cap then
           let cap' = (if cap = 0 then 256 else cap * 2)
           in if cap' > SIZE_MAX div 8 then (None, h)
              else case ml_mem_alloc h of
                (False, h) \<Rightarrow> (None, h)
              | (True, h) \<Rightarrow> (Some (items @ [item], cap'), h)
         else (Some (items @ [item], cap), h))"

text \<open>
  \<open>FindFirstFileW\<close> and \<open>FindNextFileW\<close> on a pattern: \<open>None\<close> when the first fails,
  otherwise what they find and whether the enumeration ended with \<open>ERROR_NO_MORE_FILES\<close>.
\<close>

record find_data =
  fd_name :: wstr
  fd_directory :: bool
  fd_reparse :: bool

type_synonym find_api = "wstr \<Rightarrow> (find_data list \<times> bool) option"

text \<open>
  \<open>fuel\<close> bounds the depth of the directories, which the length of a path bounds on disk;
  \<open>None\<close> in the result is running out of it.
\<close>

function vfs_scan ::
  "nat \<Rightarrow> find_api \<Rightarrow> wstr \<Rightarrow> wstr \<Rightarrow> vfs_path_list \<Rightarrow> heap \<Rightarrow> (bool \<times> vfs_path_list \<times> heap) option"
and vfs_scan_loop ::
  "nat \<Rightarrow> find_api \<Rightarrow> wstr \<Rightarrow> wstr \<Rightarrow> find_data list \<Rightarrow> bool \<Rightarrow> vfs_path_list \<Rightarrow> heap
     \<Rightarrow> (bool \<times> vfs_path_list \<times> heap) option" where
  "vfs_scan 0 finds root relative files h = None"
| "vfs_scan (Suc fuel) finds root relative files h =
     (case (if relative = [] then
              (case ml_mem_alloc h of (ok, h) \<Rightarrow> (if ok then Some root else None, h))
            else vfs_join root relative h) of
        (None, h) \<Rightarrow> Some (False, files, h)
      | (Some directory, h) \<Rightarrow>
          (case vfs_join directory [42] h of
             (None, h) \<Rightarrow> Some (False, files, h)
           | (Some pattern, h) \<Rightarrow>
               (case finds pattern of
                  None \<Rightarrow> Some (False, files, h)
                | Some (found, complete) \<Rightarrow> vfs_scan_loop fuel finds root relative found complete files h)))"
| "vfs_scan_loop fuel finds root relative [] complete files h = Some (complete, files, h)"
| "vfs_scan_loop fuel finds root relative (f # found) complete files h =
     (if fd_name f = [DOT] \<or> fd_name f = [DOT, DOT]
      then vfs_scan_loop fuel finds root relative found complete files h
      else case (if relative = [] then
                   (case ml_mem_alloc h of (ok, h) \<Rightarrow> (if ok then Some (fd_name f) else None, h))
                 else vfs_join relative (fd_name f) h) of
        (None, h) \<Rightarrow> Some (False, files, h)
      | (Some child, h) \<Rightarrow>
          if fd_directory f then
            (if fd_reparse f then vfs_scan_loop fuel finds root relative found complete files h
             else case vfs_scan fuel finds root child files h of
               None \<Rightarrow> None
             | Some (False, files, h) \<Rightarrow> Some (False, files, h)
             | Some (True, files, h) \<Rightarrow> vfs_scan_loop fuel finds root relative found complete files h)
          else case vfs_path_list_append files child h of
            (None, h) \<Rightarrow> Some (False, files, h)
          | (Some files, h) \<Rightarrow> vfs_scan_loop fuel finds root relative found complete files h)"
  by pat_completeness auto

termination
  by (relation "measures [\<lambda>x. case x of Inl (fuel, _) \<Rightarrow> 2 * fuel | Inr (fuel, _) \<Rightarrow> 2 * fuel + 1,
       \<lambda>x. case x of Inl _ \<Rightarrow> 0 | Inr (_, _, _, _, found, _) \<Rightarrow> length found]") auto

subsection \<open>Packages\<close>

text \<open>
  The files of a package: their relative names and, for a directory, the root below which they
  are. The loop of \<open>vfs_insert_package\<close> returns the undo log, the last insertion first.
\<close>

type_synonym undo_log = "(vfs_entry option \<times> nat) list"

fun insert_loop ::
  "wstr option \<Rightarrow> zip_package option \<Rightarrow> nat \<Rightarrow> wstr list \<Rightarrow> undo_log \<Rightarrow> vfs \<Rightarrow> bool \<times> undo_log \<times> vfs" where
  "insert_loop root zs applied [] log v = (True, log, v)"
| "insert_loop root zs applied (relative # files) log v =
     (let (path, v) =
        (case zs of Some _ \<Rightarrow> (None, v)
         | None \<Rightarrow> (case vfs_join (case root of None \<Rightarrow> [] | Some r \<Rightarrow> r) relative (v_heap v) of
                      (p, h) \<Rightarrow> (p, with_heap h v)))
      in case vfs_insert relative path zs applied v of
           (None, v) \<Rightarrow> (False, log, v)
         | (Some undo, v) \<Rightarrow> insert_loop root zs (applied + 1) files (undo # log) v)"

text \<open>Undoing one insertion: the replaced entry comes back, a new one goes.\<close>

definition undo_one :: "vfs_entry option \<times> nat \<Rightarrow> vfs \<Rightarrow> vfs" where
  "undo_one = (\<lambda>(previous, touched) v.
     case previous of
       Some entry \<Rightarrow> v\<lparr>v_entries := (v_entries v)[touched := entry]\<rparr>
     | None \<Rightarrow>
         v\<lparr>v_index := Some (kh_del (ve_key (v_entries v ! touched)) (the_index v)),
           v_entries := take (length (v_entries v) - 1) ((v_entries v)[touched := empty_entry])\<rparr>)"

fun undo_all :: "undo_log \<Rightarrow> vfs \<Rightarrow> vfs" where
  "undo_all [] v = v"
| "undo_all (undo # log) v = undo_all log (undo_one undo v)"

definition vfs_insert_package ::
  "wstr option \<Rightarrow> wstr list \<Rightarrow> zip_package option \<Rightarrow> vfs \<Rightarrow> bool \<times> vfs" where
  "vfs_insert_package root files zs v =
     (let names = (case zs of Some p \<Rightarrow> map (zip_package_relative_path p) [0..<zip_package_count p]
                   | None \<Rightarrow> files)
      in if names = [] then (True, v)
         else if length names > SIZE_MAX div 40 then (False, v)
         else
           let (ok1, v) = v_alloc v;
               (ok2, v) = v_alloc v
           in if \<not> ok1 \<or> \<not> ok2 then (False, v)
              else
                let v = v\<lparr>v_files := vfs_file_drop_caches (v_files v)\<rparr>
                in case insert_loop root zs 0 names [] v of
                     (True, log, v) \<Rightarrow> (True, v)
                   | (False, log, v) \<Rightarrow> (False, undo_all log v))"

definition vfs_init :: "vfs_files \<Rightarrow> nat \<Rightarrow> vfs" where
  "vfs_init files depth =
     \<lparr>v_index = Some kh_init, v_lookup_caches = replicate VFS_LOOKUP_DOMAIN_COUNT (Some kh_init),
      v_uid_cache = Some kh_init, v_writable_cache = Some kh_init, v_entries = [], v_entry_capacity = 0,
      v_zip_packages = [], v_frozen = False, v_generation = 0, v_generation_sequence = 0,
      v_recursion_depth = depth, v_writable = [], v_writable_capacity = 0, v_files = files\<rparr>"

definition clear_lookup_cache_locked :: "vfs \<Rightarrow> vfs" where
  "clear_lookup_cache_locked v =
     v\<lparr>v_lookup_caches := map (map_option (\<lambda>_. kh_init)) (v_lookup_caches v),
       v_uid_cache := map_option (\<lambda>_. kh_init) (v_uid_cache v)\<rparr>"

definition clear_writable_cache_locked :: "vfs \<Rightarrow> vfs" where
  "clear_writable_cache_locked v = v\<lparr>v_writable_cache := map_option (\<lambda>_. kh_init) (v_writable_cache v)\<rparr>"

fun close_packages :: "zip_package list \<Rightarrow> vfs_files \<Rightarrow> vfs_files" where
  "close_packages [] files = files"
| "close_packages (p # ps) files = close_packages ps (zip_package_close (Some p) files)"

definition vfs_uninit :: "vfs \<Rightarrow> vfs" where
  "vfs_uninit v =
     (let v = v\<lparr>v_files := close_packages (v_zip_packages v) (vfs_file_drop_caches (v_files v)),
                v_zip_packages := []\<rparr>;
          v = clear_writable_cache_locked (clear_lookup_cache_locked v)
      in v\<lparr>v_lookup_caches := map (\<lambda>_. None) (v_lookup_caches v), v_uid_cache := None,
           v_writable_cache := None, v_index := None, v_entries := [], v_entry_capacity := 0,
           v_frozen := False, v_generation := 0, v_generation_sequence := 0,
           v_writable := [], v_writable_capacity := 0\<rparr>)"

text \<open>The system and the archives as the configuration meets them.\<close>

record vfs_api =
  va_attributes :: attributes_api
  va_find :: find_api
  va_lstrcmpi :: "wstr \<Rightarrow> wstr \<Rightarrow> bool"
  va_archives :: archive_api
  va_mbtwc :: mbtwc_api

definition vfs_add_package :: "nat \<Rightarrow> vfs_api \<Rightarrow> wstr option \<Rightarrow> vfs \<Rightarrow> bool option \<times> vfs" where
  "vfs_add_package fuel api path v =
     (case path of None \<Rightarrow> (Some False, v)
      | Some path \<Rightarrow>
          if v_index v = None \<or> v_frozen v \<or> path = [] then (Some False, v)
          else if ml_path_is_directory (va_attributes api) path then
            (case vfs_scan fuel (va_find api) path [] ([], 0) (v_heap v) of
               None \<Rightarrow> (None, v)
             | Some (False, files, h) \<Rightarrow> (Some False, with_heap h v)
             | Some (True, files, h) \<Rightarrow>
                 (case vfs_insert_package (Some path) (fst files) None (with_heap h v) of
                    (ok, v) \<Rightarrow> (Some ok, v)))
          else
            let separator = zip_package_root_separator (Some path);
                disk_path = (case separator of None \<Rightarrow> path | Some i \<Rightarrow> take i path);
                root = (case separator of None \<Rightarrow> [] | Some i \<Rightarrow> drop (i + 1) path)
            in case v_alloc v of
                 (False, v) \<Rightarrow> (Some False, v)
               | (True, v) \<Rightarrow>
                   if va_attributes api disk_path = None
                      \<or> ml_path_is_directory (va_attributes api) disk_path
                      \<or> \<not> va_lstrcmpi api (ml_path_extension disk_path) (L ''.zip'')
                   then (Some False, v)
                   else case v_alloc v of
                     (False, v) \<Rightarrow> (Some False, v)
                   | (True, v) \<Rightarrow>
                       (case zip_package_open (va_archives api) (va_mbtwc api)
                               (length (v_zip_packages v)) (Some disk_path) (Some root) (v_heap v) of
                          (None, h) \<Rightarrow> (Some False, with_heap h v)
                        | (Some p, h) \<Rightarrow>
                            (let v = with_heap h v;
                                 v = v\<lparr>v_files := zip_package_retain p (v_files v)\<rparr>
                             in case vfs_insert_package None [] (Some p) v of
                                  (False, v) \<Rightarrow>
                                    (Some False, v\<lparr>v_files := zip_package_close (Some p) (v_files v)\<rparr>)
                                | (True, v) \<Rightarrow>
                                    (Some True, v\<lparr>v_zip_packages := p # v_zip_packages v\<rparr>))))"

subsection \<open>Lookups\<close>

definition vfs_generation :: "vfs \<Rightarrow> 64 word" where
  "vfs_generation v = v_generation v"

definition vfs_begin_lookup_reset :: "vfs \<Rightarrow> vfs" where
  "vfs_begin_lookup_reset v = clear_lookup_cache_locked (v\<lparr>v_frozen := True, v_generation := 0\<rparr>)"

definition vfs_reset_lookup_caches :: "vfs \<Rightarrow> 64 word \<times> vfs" where
  "vfs_reset_lookup_caches v =
     (let v = clear_lookup_cache_locked (v\<lparr>v_frozen := True\<rparr>);
          nxt = v_generation_sequence v + 1
      in (nxt, v\<lparr>v_generation_sequence := nxt, v_generation := nxt\<rparr>))"

text \<open>
  The two caches of lookups differ in what they store of an entry: the path a read goes to, or
  its UID. \<open>lookup_kind\<close> selects the cache and the value.
\<close>

datatype lookup_kind = Domain nat | Uid

definition cache_of :: "lookup_kind \<Rightarrow> vfs \<Rightarrow> lookup_cache option" where
  "cache_of k v =
     (case k of Domain d \<Rightarrow> (if d < length (v_lookup_caches v) then v_lookup_caches v ! d else None)
      | Uid \<Rightarrow> v_uid_cache v)"

definition set_cache :: "lookup_kind \<Rightarrow> lookup_cache \<Rightarrow> vfs \<Rightarrow> vfs" where
  "set_cache k t v =
     (case k of Domain d \<Rightarrow> v\<lparr>v_lookup_caches := (v_lookup_caches v)[d := Some t]\<rparr>
      | Uid \<Rightarrow> v\<lparr>v_uid_cache := Some t\<rparr>)"

definition entry_value :: "lookup_kind \<Rightarrow> vfs_entry \<Rightarrow> wstr option" where
  "entry_value k entry = (case k of Domain d \<Rightarrow> vfs_entry_read_path entry | Uid \<Rightarrow> Some (vfs_entry_uid entry))"

definition index_value :: "lookup_kind \<Rightarrow> wstr \<Rightarrow> vfs \<Rightarrow> wstr option" where
  "index_value k key v =
     (case kh_get (the_index v) key of None \<Rightarrow> None | Some i \<Rightarrow> entry_value k (v_entries v ! i))"

text \<open>The shared part: what the cache holds for a path, when there is a generation.\<close>

definition lookup_cached :: "lookup_kind \<Rightarrow> wstr \<Rightarrow> vfs \<Rightarrow> wstr option option" where
  "lookup_cached k path v =
     (if vfs_generation v = 0 then None
      else case cache_of k v of None \<Rightarrow> None | Some t \<Rightarrow> kh_get t path)"

text \<open>The exclusive part, with the generation the lookup began in.\<close>

definition lookup_store :: "lookup_kind \<Rightarrow> wstr \<Rightarrow> 64 word \<Rightarrow> wstr option \<Rightarrow> vfs \<Rightarrow> wstr option \<times> vfs" where
  "lookup_store k path lookup_generation result v =
     (if vfs_generation v \<noteq> lookup_generation then (result, v)
      else case cache_of k v of
        None \<Rightarrow> (result, v)
      | Some t \<Rightarrow>
          (case kh_get t path of
             Some cached \<Rightarrow> (cached, v)
           | None \<Rightarrow>
               (case v_alloc v of
                  (False, v) \<Rightarrow> (result, v)
                | (True, v) \<Rightarrow> (result, set_cache k (kh_set path result t) v))))"

definition lookup_through :: "lookup_kind \<Rightarrow> wstr \<Rightarrow> vfs \<Rightarrow> wstr option \<times> vfs" where
  "lookup_through k path v =
     (let lookup_generation = vfs_generation v
      in case lookup_cached k path v of
           Some cached \<Rightarrow> (cached, v)
         | None \<Rightarrow>
             (case v_normalize path v of
                (None, v) \<Rightarrow> (None, v)
              | (Some key, v) \<Rightarrow>
                  let result = index_value k key v
                  in if lookup_generation = 0 then (result, v)
                     else case v_alloc v of
                       (False, v) \<Rightarrow> (result, v)
                     | (True, v) \<Rightarrow> lookup_store k path lookup_generation result v))"

definition vfs_lookup_domain :: "wstr option \<Rightarrow> int \<Rightarrow> vfs \<Rightarrow> wstr option \<times> vfs" where
  "vfs_lookup_domain path domain v =
     (case path of None \<Rightarrow> (None, v)
      | Some p \<Rightarrow>
          if v_index v = None \<or> domain < 0 \<or> domain \<ge> int VFS_LOOKUP_DOMAIN_COUNT then (None, v)
          else if cache_of (Domain (nat domain)) v = None then (None, v)
          else case vfs_uid_to_path path v of
            Some result \<Rightarrow> (Some result, v)
          | None \<Rightarrow> lookup_through (Domain (nat domain)) p v)"

definition vfs_lookup :: "wstr option \<Rightarrow> vfs \<Rightarrow> wstr option \<times> vfs" where
  "vfs_lookup path v = vfs_lookup_domain path (int VFS_LOOKUP_VIRTUAL) v"

definition vfs_virtual_to_uid :: "wstr option \<Rightarrow> vfs \<Rightarrow> wstr option \<times> vfs" where
  "vfs_virtual_to_uid path v =
     (case path of None \<Rightarrow> (None, v)
      | Some p \<Rightarrow>
          if v_index v = None \<or> v_uid_cache v = None then (None, v)
          else lookup_through Uid p v)"

definition vfs_virtual_to_uid_prefixed ::
  "(wchar \<Rightarrow> wchar) \<Rightarrow> wstr option \<Rightarrow> wstr option \<Rightarrow> vfs \<Rightarrow> wstr option \<times> vfs" where
  "vfs_virtual_to_uid_prefixed up path game_root v =
     (if path = None \<or> game_root = None then (None, v)
      else case vfs_strip_path_prefix up path game_root of
        None \<Rightarrow> (None, v)
      | Some relative \<Rightarrow> vfs_virtual_to_uid (Some relative) v)"

definition vfs_lookup_prefixed_domain ::
  "(wchar \<Rightarrow> wchar) \<Rightarrow> wstr option \<Rightarrow> wstr option \<Rightarrow> int \<Rightarrow> vfs \<Rightarrow> wstr option \<times> vfs" where
  "vfs_lookup_prefixed_domain up path game_root domain v =
     (case vfs_strip_path_prefix up path game_root of
        None \<Rightarrow> (None, v)
      | Some relative \<Rightarrow> vfs_lookup_domain (Some relative) domain v)"

definition vfs_entry_count :: "vfs \<Rightarrow> nat" where
  "vfs_entry_count v = (case v_index v of None \<Rightarrow> 0 | Some t \<Rightarrow> kh_size t)"

text \<open>\<open>PathFindExtensionW\<close> is the parameter \<open>find_extension\<close>.\<close>

definition vfs_has_wwise_entries :: "(wstr \<Rightarrow> wstr) \<Rightarrow> vfs \<Rightarrow> bool" where
  "vfs_has_wwise_entries find_extension v =
     (case v_index v of None \<Rightarrow> False
      | Some t \<Rightarrow>
          list_ex (\<lambda>path.
            (wcsnicmp_eq path (L ''sd'' @ [BSLASH]) 3 \<or> wcsnicmp_eq path (L ''sd_dlc02'' @ [BSLASH]) 9)
            \<and> (wcsicmp_eq (find_extension path) (L ''.bnk'')
               \<or> wcsicmp_eq (find_extension path) (L ''.wem''))) (kh_keys t))"

definition vfs_file_open :: "wstr option \<Rightarrow> vfs \<Rightarrow> (win_error + vfs_file) \<times> vfs" where
  "vfs_file_open path v =
     (case path of None \<Rightarrow> (Inl ERROR_INVALID_PARAMETER, v)
      | Some p \<Rightarrow>
          (let (routed, v) = (if ml_path_is_absolute (Some p) then (None, v) else vfs_lookup path v);
               path = (case routed of None \<Rightarrow> path | Some r \<Rightarrow> Some r)
           in case vfs_uid_entry path v of
                None \<Rightarrow> (Inl ERROR_NOT_SUPPORTED, v)
              | Some (i, streaming) \<Rightarrow>
                  (case ve_zip (v_entries v ! i) of
                     None \<Rightarrow> (Inl ERROR_NOT_SUPPORTED, v)
                   | Some p \<Rightarrow>
                       (case vfs_file_create p (ve_zip_file (v_entries v ! i)) (i + 1) streaming (v_files v) of
                          (r, files) \<Rightarrow> (r, v\<lparr>v_files := files\<rparr>)))))"

subsection \<open>Recursion guard\<close>

text \<open>\<open>vfs_recursion_depth\<close> of the calling thread, an unsigned counter.\<close>

definition vfs_recursion_guard_enter :: "vfs \<Rightarrow> vfs" where
  "vfs_recursion_guard_enter v = v\<lparr>v_recursion_depth := v_recursion_depth v + 1\<rparr>"

definition vfs_recursion_guard_leave :: "vfs \<Rightarrow> vfs" where
  "vfs_recursion_guard_leave v =
     (if v_recursion_depth v \<noteq> 0 then v\<lparr>v_recursion_depth := v_recursion_depth v - 1\<rparr> else v)"

definition vfs_recursion_guard_active :: "vfs \<Rightarrow> bool" where
  "vfs_recursion_guard_active v \<longleftrightarrow> v_recursion_depth v \<noteq> 0"

subsection \<open>Writable paths\<close>

definition vfs_register_writable_path ::
  "(wchar \<Rightarrow> wchar) \<Rightarrow> wstr option \<Rightarrow> wstr option \<Rightarrow> vfs \<Rightarrow> bool \<times> vfs" where
  "vfs_register_writable_path up virtual_path physical_path v =
     (case (virtual_path, physical_path) of
        (Some virtual, Some physical) \<Rightarrow>
          if physical = [] then (False, v)
          else (case v_normalize virtual v of
            (None, v) \<Rightarrow> (False, v)
          | (Some key, v) \<Rightarrow>
              if key = [] then (False, v)
              else case v_alloc v of
                (False, v) \<Rightarrow> (False, v)
              | (True, v) \<Rightarrow>
                  (case find (\<lambda>e. fst e = key) (v_writable v) of
                     Some e \<Rightarrow> (CompareStringOrdinal up physical (snd e), v)
                   | None \<Rightarrow>
                       (let (grown, v) =
                          (if length (v_writable v) = v_writable_capacity v then
                             (case v_alloc v of
                                (True, v) \<Rightarrow> (True, v\<lparr>v_writable_capacity :=
                                   (if v_writable_capacity v = 0 then 8 else v_writable_capacity v * 2)\<rparr>)
                              | (False, v) \<Rightarrow> (False, v))
                           else (True, v))
                        in if \<not> grown then (False, v)
                           else (True, clear_writable_cache_locked
                                   (v\<lparr>v_writable := v_writable v @ [(key, physical)]\<rparr>)))))
      | _ \<Rightarrow> (False, v))"

definition vfs_writable_segment_may_match :: "(wchar \<Rightarrow> wchar) \<Rightarrow> wstr \<Rightarrow> vfs \<Rightarrow> bool" where
  "vfs_writable_segment_may_match up path v =
     (case vfs_last_segment path of None \<Rightarrow> True
      | Some segment \<Rightarrow>
          list_ex (\<lambda>e. case vfs_last_segment (fst e) of None \<Rightarrow> True
                       | Some key_segment \<Rightarrow> CompareStringOrdinal up segment key_segment) (v_writable v))"

definition vfs_route_writable_path ::
  "(wchar \<Rightarrow> wchar) \<Rightarrow> wstr option \<Rightarrow> vfs \<Rightarrow> wstr option \<times> vfs" where
  "vfs_route_writable_path up path v =
     (case (path, v_writable_cache v) of
        (Some path, Some cache) \<Rightarrow>
          if v_recursion_depth v \<noteq> 0 \<or> v_writable v = [] then (None, v)
          else (case kh_get cache path of
            Some cached \<Rightarrow> (cached, v)
          | None \<Rightarrow>
              if \<not> vfs_writable_segment_may_match up path v then (None, v)
              else (case v_normalize path v of
                (None, v) \<Rightarrow> (None, v)
              | (Some key, v) \<Rightarrow>
                  (case v_alloc v of
                     (False, v) \<Rightarrow> (None, v)
                   | (True, v) \<Rightarrow>
                       let result = map_option snd (find (\<lambda>e. fst e = key) (v_writable v))
                       in case v_alloc v of
                            (False, v) \<Rightarrow> (result, v)
                          | (True, v) \<Rightarrow>
                              (result, v\<lparr>v_writable_cache := Some (kh_set path result cache)\<rparr>))))
      | _ \<Rightarrow> (None, v))"

subsection \<open>Read routes\<close>

definition GENERIC_WRITE :: "32 word" where "GENERIC_WRITE = 0x40000000"
definition DELETE :: "32 word" where "DELETE = 0x00010000"
definition CREATE_NEW :: nat where "CREATE_NEW = 1"
definition CREATE_ALWAYS :: nat where "CREATE_ALWAYS = 2"
definition OPEN_EXISTING :: nat where "OPEN_EXISTING = 3"
definition TRUNCATE_EXISTING :: nat where "TRUNCATE_EXISTING = 5"

definition vfs_route_read_path :: "wstr option \<Rightarrow> 32 word \<Rightarrow> nat \<Rightarrow> vfs \<Rightarrow> wstr option \<times> vfs" where
  "vfs_route_read_path path desired_access creation_disposition v =
     (if path = None \<or> v_recursion_depth v \<noteq> 0 then (None, v)
      else if and desired_access (or GENERIC_WRITE DELETE) \<noteq> 0
              \<or> creation_disposition = CREATE_NEW \<or> creation_disposition = CREATE_ALWAYS
              \<or> creation_disposition = TRUNCATE_EXISTING then (None, v)
      else vfs_lookup_domain path (int VFS_LOOKUP_DISK_WIDE) v)"

definition vfs_route_read_path_prefixed ::
  "(wchar \<Rightarrow> wchar) \<Rightarrow> wstr option \<Rightarrow> wstr option \<Rightarrow> 32 word \<Rightarrow> nat \<Rightarrow> vfs \<Rightarrow> wstr option \<times> vfs" where
  "vfs_route_read_path_prefixed up path game_root desired_access creation_disposition v =
     (case vfs_strip_path_prefix up path game_root of
        None \<Rightarrow> (None, v)
      | Some relative \<Rightarrow> vfs_route_read_path (Some relative) desired_access creation_disposition v)"

end
