(* ===== verification/VfsIndex.thy ===== *)
theory VfsIndex
  imports Vfs
begin

text \<open>
  The index of the virtual file system: it always agrees with the entries, a package that fails to
  be added leaves it as it was, and one that is added overrides exactly the paths it has.
\<close>

subsection \<open>Frames\<close>

lemma with_heap_sel [simp]:
  "v_index (with_heap h v) = v_index v" "v_entries (with_heap h v) = v_entries v"
  "v_lookup_caches (with_heap h v) = v_lookup_caches v" "v_uid_cache (with_heap h v) = v_uid_cache v"
  "v_writable_cache (with_heap h v) = v_writable_cache v" "v_frozen (with_heap h v) = v_frozen v"
  "v_generation (with_heap h v) = v_generation v"
  "v_generation_sequence (with_heap h v) = v_generation_sequence v"
  "v_writable (with_heap h v) = v_writable v" "v_recursion_depth (with_heap h v) = v_recursion_depth v"
  "v_zip_packages (with_heap h v) = v_zip_packages v" "the_index (with_heap h v) = the_index v"
  "v_entry_capacity (with_heap h v) = v_entry_capacity v"
  "v_writable_capacity (with_heap h v) = v_writable_capacity v"
  by (simp_all add: with_heap_def the_index_def)

text \<open>Allocating changes only the allocator, and so does normalizing.\<close>

lemma v_alloc_heap: "v_alloc v = (ok, v') \<Longrightarrow> \<exists>h. v' = with_heap h v"
  by (auto simp: v_alloc_def split: prod.splits)

lemma v_normalize_heap: "v_normalize path v = (r, v') \<Longrightarrow> \<exists>h. v' = with_heap h v"
  by (auto simp: v_normalize_def split: prod.splits)

lemma v_normalize_Some: "v_normalize path v = (Some key, v') \<Longrightarrow> vfs_key path = Some key"
  by (auto simp: v_normalize_def split: prod.splits dest: vfs_normalize_path_Some)

lemma v_normalize_ok:
  assumes "heap_ok (v_heap v)" and "length path < 2 ^ 60"
  shows "v_normalize path v = (vfs_key path, with_heap (v_heap v) v)"
  using assms by (simp add: v_normalize_def vfs_normalize_path_ok)

subsection \<open>The index agrees with the entries\<close>

definition lookup_index :: "vfs \<Rightarrow> wstr \<Rightarrow> nat option" where
  "lookup_index v = kh_get (the_index v)"

definition index_ok :: "vfs \<Rightarrow> bool" where
  "index_ok v \<longleftrightarrow> v_index v \<noteq> None \<and> kh_distinct (the_index v)
     \<and> (\<forall>k i. lookup_index v k = Some i \<longleftrightarrow> i < length (v_entries v) \<and> ve_key (v_entries v ! i) = k)
     \<and> (\<forall>i<length (v_entries v). ve_uid (v_entries v ! i) = uid_buffer i)"

definition same_index :: "vfs \<Rightarrow> vfs \<Rightarrow> bool" where
  "same_index v v' \<longleftrightarrow> v_entries v' = v_entries v \<and> lookup_index v' = lookup_index v
     \<and> v_index v' \<noteq> None \<and> kh_distinct (the_index v')"

lemma same_index_with_heap [simp]:
  "same_index v (with_heap h w) = same_index v w" "index_ok (with_heap h v) = index_ok v"
  "lookup_index (with_heap h v) = lookup_index v"
  by (simp_all add: same_index_def index_ok_def lookup_index_def)

lemma same_index_refl: "index_ok v \<Longrightarrow> same_index v v"
  by (simp add: same_index_def index_ok_def)

lemma same_index_ok: "index_ok v \<Longrightarrow> same_index v v' \<Longrightarrow> index_ok v'"
  by (simp add: same_index_def index_ok_def)

lemma same_index_trans: "same_index v v1 \<Longrightarrow> same_index v1 v2 \<Longrightarrow> same_index v v2"
  by (simp add: same_index_def)

lemma the_index_upd [simp]: "the_index (v\<lparr>v_index := Some t\<rparr>) = t"
  by (simp add: the_index_def)

lemma the_index_frame [simp]:
  "the_index (v\<lparr>v_entries := e\<rparr>) = the_index v" "the_index (v\<lparr>v_entry_capacity := n\<rparr>) = the_index v"
  "the_index (v\<lparr>v_files := f\<rparr>) = the_index v"
  by (simp_all add: the_index_def)

text \<open>
  One insertion: on failure the index is as before; on success it is the index with one entry
  replaced or added, and the log says how to get back.
\<close>

definition inserted ::
  "wstr \<Rightarrow> wstr option \<Rightarrow> zip_package option \<Rightarrow> nat \<Rightarrow> vfs \<Rightarrow> vfs_entry option \<times> nat \<Rightarrow> vfs \<Rightarrow> bool" where
  "inserted key path zs zip_file v undo v' \<longleftrightarrow>
     (case undo of
        (Some entry, i) \<Rightarrow> lookup_index v key = Some i \<and> entry = v_entries v ! i
          \<and> v_entries v' = (v_entries v)[i := entry\<lparr>ve_path := path, ve_zip := zs, ve_zip_file := zip_file\<rparr>]
          \<and> lookup_index v' = lookup_index v
      | (None, i) \<Rightarrow> lookup_index v key = None \<and> i = length (v_entries v)
          \<and> v_entries v' = v_entries v @ [\<lparr>ve_key = key, ve_path = path, ve_uid = uid_buffer i,
                                           ve_zip = zs, ve_zip_file = zip_file\<rparr>]
          \<and> lookup_index v' = (lookup_index v)(key \<mapsto> i))"

lemma lookup_index_lt: "index_ok v \<Longrightarrow> lookup_index v k = Some i \<Longrightarrow> i < length (v_entries v) \<and> ve_key (v_entries v ! i) = k"
  by (simp add: index_ok_def)

lemma inserted_ok:
  assumes ok: "index_ok v" and ins: "inserted key path zs zip_file v undo v'"
    and t: "v_index v' \<noteq> None" "kh_distinct (the_index v')"
  shows "index_ok v'"
proof (cases undo)
  case (Pair previous i)
  show ?thesis
  proof (cases previous)
    case (Some entry)
    then have e: "lookup_index v key = Some i" "entry = v_entries v ! i"
      "v_entries v' = (v_entries v)[i := entry\<lparr>ve_path := path, ve_zip := zs, ve_zip_file := zip_file\<rparr>]"
      "lookup_index v' = lookup_index v" using ins Pair by (simp_all add: inserted_def)
    have k: "ve_key (v_entries v' ! j) = ve_key (v_entries v ! j)" "ve_uid (v_entries v' ! j) = ve_uid (v_entries v ! j)"
      if "j < length (v_entries v)" for j
      using that e by (cases "j = i"; simp)+
    show ?thesis using ok t e(3,4) k by (auto simp: index_ok_def)
  next
    case None
    then have e: "lookup_index v key = None" "i = length (v_entries v)"
      "v_entries v' = v_entries v @ [\<lparr>ve_key = key, ve_path = path, ve_uid = uid_buffer i,
           ve_zip = zs, ve_zip_file = zip_file\<rparr>]"
      "lookup_index v' = (lookup_index v)(key \<mapsto> i)" using ins Pair by (simp_all add: inserted_def)
    have "lookup_index v' k = Some j \<longleftrightarrow> j < length (v_entries v') \<and> ve_key (v_entries v' ! j) = k" for k j
    proof (cases "j < length (v_entries v)")
      case True
      then have "ve_key (v_entries v' ! j) = ve_key (v_entries v ! j)" by (simp add: e(3) nth_append)
      moreover have "lookup_index v k = Some j \<longleftrightarrow> ve_key (v_entries v ! j) = k"
        using ok True by (simp add: index_ok_def)
      moreover have "k = key \<Longrightarrow> lookup_index v' k \<noteq> Some j" using True e(2,4) by simp
      ultimately show ?thesis using True e by (cases "k = key") auto
    next
      case False
      then have "lookup_index v k \<noteq> Some j" using lookup_index_lt [OF ok] by blast
      with False show ?thesis using e by (auto simp: nth_append)
    qed
    moreover have "ve_uid (v_entries v' ! j) = uid_buffer j" if "j < length (v_entries v')" for j
      using ok that e(2,3) by (auto simp: index_ok_def nth_append less_Suc_eq)
    ultimately show ?thesis using t by (simp add: index_ok_def)
  qed
qed

lemma vfs_insert_spec:
  assumes ok: "index_ok v" and ins: "vfs_insert relative path zs zip_file v = (r, v')"
  shows "case r of None \<Rightarrow> same_index v v'
    | Some undo \<Rightarrow> (path \<noteq> None \<or> zs \<noteq> None) \<and> index_ok v'
        \<and> (\<exists>key. vfs_key relative = Some key \<and> inserted key path zs zip_file v undo v')"
proof (cases "path = None \<and> zs = None")
  case True
  with ins ok show ?thesis by (auto simp: vfs_insert_def same_index_refl)
next
  case some: False
  obtain nr v0 where n: "v_normalize relative v = (nr, v0)" by fastforce
  then obtain h0 where v0: "v0 = with_heap h0 v" using v_normalize_heap by blast
  have ok0: "index_ok v0" using ok v0 by simp
  have s0: "same_index v v0" using ok v0 by (simp add: same_index_refl)
  show ?thesis
  proof (cases nr)
    case None
    with ins n some s0 show ?thesis by (auto simp: vfs_insert_def)
  next
    case (Some key)
    have key: "vfs_key relative = Some key" using n Some v_normalize_Some by blast
    obtain ok1 v1 where a1: "v_alloc v0 = (ok1, v1)" by fastforce
    then obtain h1 where v1: "v1 = with_heap h1 v0" using v_alloc_heap by blast
    show ?thesis
    proof (cases ok1)
      case False
      with ins n some Some a1 v1 s0 show ?thesis by (auto simp: vfs_insert_def)
    next
      case True
      show ?thesis
      proof (cases "kh_get (the_index v1) key")
        case found: (Some i)
        let ?e = "v_entries v1 ! i"
        have r: "r = Some (Some ?e, i)"
          "v' = v1\<lparr>v_entries := (v_entries v1)[i := ?e\<lparr>ve_path := path, ve_zip := zs, ve_zip_file := zip_file\<rparr>]\<rparr>"
          using ins n some Some a1 True found by (auto simp: vfs_insert_def Let_def)
        have i: "inserted key path zs zip_file v (Some ?e, i) v'"
          using found v0 v1 by (simp add: inserted_def r(2) lookup_index_def)
        have "v_index v' \<noteq> None" "kh_distinct (the_index v')" using ok0 v1 by (simp_all add: r(2) index_ok_def)
        with inserted_ok [OF ok i] show ?thesis using r(1) i key some by auto
      next
        case None
        let ?v2 = "v1\<lparr>v_index := Some (kh_set key 0 (the_index v1))\<rparr>"
        let ?count = "length (v_entries ?v2)"
        define g where "g = (if ?count = v_entry_capacity ?v2 then
              (case v_alloc ?v2 of
                 (True, v) \<Rightarrow> (True, v\<lparr>v_entry_capacity := (if v_entry_capacity v = 0 then 128 else v_entry_capacity v * 2)\<rparr>)
               | (False, v) \<Rightarrow> (False, v)) else (True, ?v2))"
        obtain grown v3 where g3: "g = (grown, v3)" by fastforce
        have v3: "the_index v3 = kh_set key 0 (the_index v)" "v_entries v3 = v_entries v" "v_index v3 \<noteq> None"
          using g3 v1 v0 unfolding g_def
          by (auto simp: v_alloc_def with_heap_def split: if_splits prod.splits bool.splits)
        have ins2: "(if \<not> grown then (None, v3\<lparr>v_index := Some (kh_del key (the_index v3))\<rparr>)
            else let v = v3\<lparr>v_index := Some (kh_set key ?count (the_index v3))\<rparr>
                 in case v_alloc v of
                      (False, v) \<Rightarrow> (None, v\<lparr>v_index := Some (kh_del key (the_index v))\<rparr>)
                    | (True, v) \<Rightarrow>
                        (Some (None, ?count),
                         v\<lparr>v_entries := v_entries v
                             @ [\<lparr>ve_key = key, ve_path = path, ve_uid = uid_buffer ?count,
                                 ve_zip = zs, ve_zip_file = zip_file\<rparr>]\<rparr>)) = (r, v')"
          using ins n some Some None a1 True g3 unfolding vfs_insert_def g_def
          by (simp add: Let_def)
        have nokey: "lookup_index v key = None" using None v0 v1 by (simp add: lookup_index_def)
        have dist: "kh_distinct (the_index v)" using ok by (simp add: index_ok_def)
        have gone: "kh_get (kh_del key (kh_set key x (kh_set key 0 (the_index v)))) = lookup_index v"
          "kh_get (kh_del key (kh_set key 0 (the_index v))) = lookup_index v" for x
          using nokey by (auto simp: kh_simps lookup_index_def fun_eq_iff)
        show ?thesis
        proof (cases grown)
          case False
          with ins2 v3 dist gone show ?thesis
            by (auto simp: same_index_def lookup_index_def kh_invars)
        next
          case gr: True
          let ?v4 = "v3\<lparr>v_index := Some (kh_set key ?count (the_index v3))\<rparr>"
          obtain ok5 v5 where a5: "v_alloc ?v4 = (ok5, v5)" by fastforce
          then obtain h5 where v5: "v5 = with_heap h5 ?v4" using v_alloc_heap by blast
          show ?thesis
          proof (cases ok5)
            case False
            with ins2 gr a5 v5 v3 dist gone show ?thesis
              by (auto simp: same_index_def lookup_index_def kh_invars Let_def)
          next
            case ok5: True
            have c: "?count = length (v_entries v)" using v1 v0 by simp
            have r: "r = Some (None, length (v_entries v))"
              "v' = v5\<lparr>v_entries := v_entries v5
                 @ [\<lparr>ve_key = key, ve_path = path, ve_uid = uid_buffer (length (v_entries v)),
                     ve_zip = zs, ve_zip_file = zip_file\<rparr>]\<rparr>"
              using ins2 gr a5 ok5 unfolding c by (simp_all add: Let_def)
            have i: "inserted key path zs zip_file v (None, length (v_entries v)) v'"
              using nokey v5 v3 c
              by (auto simp: inserted_def r(2) lookup_index_def kh_simps fun_eq_iff)
            have "v_index v' \<noteq> None" "kh_distinct (the_index v')"
              using v5 v3 dist by (simp_all add: r(2) kh_invars)
            with inserted_ok [OF ok i] show ?thesis using r(1) i key some by auto
          qed
        qed
      qed
    qed
  qed
qed

subsection \<open>Undoing\<close>

lemma undo_one_spec:
  assumes ok: "index_ok v" and ins: "inserted key path zs zip_file v undo v'" and w: "same_index v' w"
  shows "same_index v (undo_one undo w)"
proof (cases undo)
  case (Pair previous i)
  show ?thesis
  proof (cases previous)
    case (Some entry)
    then have e: "entry = v_entries v ! i"
      "v_entries v' = (v_entries v)[i := entry\<lparr>ve_path := path, ve_zip := zs, ve_zip_file := zip_file\<rparr>]"
      "lookup_index v' = lookup_index v" using ins Pair by (simp_all add: inserted_def)
    then show ?thesis using w by (simp add: undo_one_def Pair Some same_index_def lookup_index_def)
  next
    case None
    then have e: "lookup_index v key = None" "i = length (v_entries v)"
      "v_entries v' = v_entries v @ [\<lparr>ve_key = key, ve_path = path, ve_uid = uid_buffer i,
           ve_zip = zs, ve_zip_file = zip_file\<rparr>]"
      "lookup_index v' = (lookup_index v)(key \<mapsto> i)" using ins Pair by (simp_all add: inserted_def)
    have we: "v_entries w = v_entries v'" "lookup_index w = lookup_index v'" "kh_distinct (the_index w)"
      using w by (simp_all add: same_index_def)
    have k: "ve_key (v_entries w ! i) = key" by (simp add: we e)
    have "lookup_index (undo_one undo w) = lookup_index v"
      using we(2) e(1,4) k
      by (auto simp: undo_one_def Pair None lookup_index_def kh_simps fun_eq_iff)
    moreover have "v_entries (undo_one undo w) = v_entries v"
      using we(1) e(2,3) by (simp add: undo_one_def Pair None)
    moreover have "v_index (undo_one undo w) \<noteq> None" "kh_distinct (the_index (undo_one undo w))"
      using we(3) by (simp_all add: undo_one_def Pair None kh_invars)
    ultimately show ?thesis by (simp add: same_index_def)
  qed
qed

text \<open>A log that leads back from \<open>v\<close> to \<open>base\<close>.\<close>

definition undoes :: "undo_log \<Rightarrow> vfs \<Rightarrow> vfs \<Rightarrow> bool" where
  "undoes log v base \<longleftrightarrow> (\<forall>w. same_index v w \<longrightarrow> same_index base (undo_all log w))"

lemma undoes_Nil: "undoes [] v v"
  by (simp add: undoes_def)

lemma undoes_Cons:
  "index_ok v \<Longrightarrow> inserted key path zs zip_file v undo v' \<Longrightarrow> undoes log v base \<Longrightarrow> undoes (undo # log) v' base"
  using undo_one_spec by (simp add: undoes_def)

lemma undoes_same: "undoes log v base \<Longrightarrow> same_index v v' \<Longrightarrow> undoes log v' base"
  using same_index_trans by (auto simp: undoes_def)

text \<open>The path a loose file is stored with.\<close>

definition file_path :: "wstr option \<Rightarrow> zip_package option \<Rightarrow> wstr \<Rightarrow> wstr option" where
  "file_path root zs relative =
     (case zs of Some _ \<Rightarrow> None
      | None \<Rightarrow> fst (vfs_join (case root of None \<Rightarrow> [] | Some r \<Rightarrow> r) relative (\<lambda>_. True)))"

lemma ml_path_extend_str_Inr:
  "ml_path_extend_str path h = (Inr p, h') \<Longrightarrow> fst (ml_path_extend_str path (\<lambda>_. True)) = Inr p"
  by (auto simp: ml_path_extend_str_def ml_path_extend_def res_bind_def ml_path_buffer_def ml_mem_alloc_def
      split: if_splits prod.splits sum.splits)

lemma vfs_join_Some: "vfs_join l r h = (Some p, h') \<Longrightarrow> fst (vfs_join l r (\<lambda>_. True)) = Some p"
  unfolding vfs_join_def
  by (auto split: if_splits prod.splits bool.splits sum.splits dest: ml_path_extend_str_Inr)

subsection \<open>The files of a package as a map\<close>

text \<open>
  The abstract index: for every key, where its file comes from. A package is such a map too, in
  which the later of two names with one key counts.
\<close>

type_synonym file_source = "wstr option \<times> zip_package option \<times> nat"

definition entry_source :: "vfs_entry \<Rightarrow> file_source" where
  "entry_source e = (ve_path e, ve_zip e, ve_zip_file e)"

definition sources :: "vfs \<Rightarrow> wstr \<Rightarrow> file_source option" where
  "sources v key = map_option (\<lambda>i. entry_source (v_entries v ! i)) (lookup_index v key)"

definition package_files ::
  "wstr option \<Rightarrow> zip_package option \<Rightarrow> nat \<Rightarrow> wstr list \<Rightarrow> (wstr \<times> file_source) list" where
  "package_files root zs n names =
     map (\<lambda>(i, r). (the (vfs_key r), file_path root zs r, zs, i)) (enumerate n names)"

definition package_map ::
  "wstr option \<Rightarrow> zip_package option \<Rightarrow> nat \<Rightarrow> wstr list \<Rightarrow> wstr \<Rightarrow> file_source option" where
  "package_map root zs n names = map_of (rev (package_files root zs n names))"

lemma package_map_Cons:
  "vfs_key r = Some k \<Longrightarrow> m ++ package_map root zs n (r # rs)
     = m(k \<mapsto> (file_path root zs r, zs, n)) ++ package_map root zs (Suc n) rs"
  by (simp add: package_map_def package_files_def map_add_def fun_eq_iff map_of_append split: option.splits)

lemma sources_with_heap [simp]: "sources (with_heap h v) = sources v"
  by (simp add: sources_def fun_eq_iff)

lemma sources_same: "same_index v v' \<Longrightarrow> sources v' = sources v"
  by (simp add: sources_def same_index_def fun_eq_iff)

lemma inserted_sources:
  assumes ok: "index_ok v" and ins: "inserted key path zs zip_file v undo v'"
  shows "sources v' = (sources v)(key \<mapsto> (path, zs, zip_file))
     \<and> (\<forall>k i. lookup_index v k = Some i \<longrightarrow> lookup_index v' k = Some i)"
proof (cases undo)
  case (Pair previous i)
  have lt: "\<And>k j. lookup_index v k = Some j \<Longrightarrow> j < length (v_entries v) \<and> ve_key (v_entries v ! j) = k"
    by (rule lookup_index_lt [OF ok])
  show ?thesis
  proof (cases previous)
    case (Some entry)
    then have e: "lookup_index v key = Some i" "entry = v_entries v ! i"
      "v_entries v' = (v_entries v)[i := entry\<lparr>ve_path := path, ve_zip := zs, ve_zip_file := zip_file\<rparr>]"
      "lookup_index v' = lookup_index v" using ins Pair by (simp_all add: inserted_def)
    have "sources v' k = ((sources v)(key \<mapsto> (path, zs, zip_file))) k" for k
    proof (cases "k = key")
      case True
      then show ?thesis using e lt [OF e(1)] by (simp add: sources_def entry_source_def)
    next
      case False
      then have "lookup_index v k \<noteq> Some i" using lt e(1) by blast
      then show ?thesis using False e by (cases "lookup_index v k") (auto simp: sources_def)
    qed
    then show ?thesis using e(4) by (simp add: fun_eq_iff)
  next
    case None
    then have e: "lookup_index v key = None" "i = length (v_entries v)"
      "v_entries v' = v_entries v @ [\<lparr>ve_key = key, ve_path = path, ve_uid = uid_buffer i,
           ve_zip = zs, ve_zip_file = zip_file\<rparr>]"
      "lookup_index v' = (lookup_index v)(key \<mapsto> i)" using ins Pair by (simp_all add: inserted_def)
    have "sources v' k = ((sources v)(key \<mapsto> (path, zs, zip_file))) k" for k
      using e by (cases "lookup_index v k") (auto simp: sources_def entry_source_def nth_append dest: lt)
    then show ?thesis using e(1,4) by (auto simp: fun_eq_iff)
  qed
qed

lemma insert_loop_spec:
  assumes "insert_loop root zs n names log v = (ok, log', v')"
    and "index_ok v" and "undoes log v base"
  shows "index_ok v' \<and> undoes log' v' base
    \<and> (ok \<longrightarrow> (\<forall>r\<in>set names. vfs_key r \<noteq> None)
          \<and> sources v' = sources v ++ package_map root zs n names
          \<and> (\<forall>k i. lookup_index v k = Some i \<longrightarrow> lookup_index v' k = Some i))"
  using assms
proof (induction names arbitrary: n log v)
  case Nil
  then show ?case by (auto simp: package_map_def package_files_def)
next
  case (Cons r rs)
  obtain path v1 where p: "(case zs of Some _ \<Rightarrow> (None, v)
         | None \<Rightarrow> (case vfs_join (case root of None \<Rightarrow> [] | Some r \<Rightarrow> r) r (v_heap v) of
                      (p, h) \<Rightarrow> (p, with_heap h v))) = (path, v1)" by fastforce
  obtain res v2 where i: "vfs_insert r path zs n v1 = (res, v2)" by fastforce
  have v1: "same_index v v1" "index_ok v1" "undoes log v1 base" "sources v1 = sources v" "lookup_index v1 = lookup_index v"
    using p Cons.prems(2,3) undoes_same [of log v base]
    by (auto simp: same_index_refl split: option.splits prod.splits)
  note spec = vfs_insert_spec [OF v1(2) i]
  show ?case
  proof (cases res)
    case None
    then have "ok = False" "log' = log" "v' = v2" using Cons.prems(1) p i by (auto simp: Let_def)
    moreover have "same_index v1 v2" using spec None by simp
    ultimately show ?thesis using v1 same_index_ok undoes_same by blast
  next
    case (Some undo)
    then have rest: "insert_loop root zs (n + 1) rs (undo # log) v2 = (ok, log', v')"
      using Cons.prems(1) p i by (simp add: Let_def)
    from spec Some obtain key where key: "vfs_key r = Some key" and ins: "inserted key path zs n v1 undo v2"
      and ok2: "index_ok v2" and pth: "path \<noteq> None \<or> zs \<noteq> None" by auto
    have fp: "path = file_path root zs r"
      using p pth by (auto simp: file_path_def split: option.splits prod.splits dest: vfs_join_Some)
    note src = inserted_sources [OF v1(2) ins]
    have log2: "undoes (undo # log) v2 base" by (rule undoes_Cons [OF v1(2) ins v1(3)])
    from Cons.IH [OF rest ok2 log2] show ?thesis
      using src key v1(4,5) by (auto simp: package_map_Cons [OF key] fp simp del: fun_upd_apply)
  qed
qed

text \<open>Dropping the decoded caches does not touch the index.\<close>

lemma with_files_sel [simp]:
  "lookup_index (v\<lparr>v_files := f\<rparr>) = lookup_index v" "index_ok (v\<lparr>v_files := f\<rparr>) = index_ok v"
  "same_index b (v\<lparr>v_files := f\<rparr>) = same_index b v" "sources (v\<lparr>v_files := f\<rparr>) = sources v"
  by (simp_all add: lookup_index_def index_ok_def same_index_def sources_def fun_eq_iff)

definition package_names :: "wstr list \<Rightarrow> zip_package option \<Rightarrow> wstr list" where
  "package_names files zs = (case zs of None \<Rightarrow> files
     | Some p \<Rightarrow> map (zip_package_relative_path p) [0..<zip_package_count p])"

lemma insert_package_spec:
  assumes ok: "index_ok v" and ins: "vfs_insert_package root files zs v = (res, v')"
  shows "index_ok v'
    \<and> (if res then (\<forall>r\<in>set (package_names files zs). vfs_key r \<noteq> None)
          \<and> sources v' = sources v ++ package_map root zs 0 (package_names files zs)
          \<and> (\<forall>k i. lookup_index v k = Some i \<longrightarrow> lookup_index v' k = Some i)
       else same_index v v')"
proof -
  let ?names = "package_names files zs"
  obtain ok1 v1 where a1: "v_alloc v = (ok1, v1)" by fastforce
  obtain ok2 v2 where a2: "v_alloc v1 = (ok2, v2)" by fastforce
  obtain h1 h2 where h: "v1 = with_heap h1 v" "v2 = with_heap h2 v1"
    using v_alloc_heap [OF a1] v_alloc_heap [OF a2] by blast
  have def: "vfs_insert_package root files zs v =
     (if ?names = [] then (True, v) else if length ?names > SIZE_MAX div 40 then (False, v)
      else if \<not> ok1 \<or> \<not> ok2 then (False, v2)
      else case insert_loop root zs 0 ?names [] (v2\<lparr>v_files := vfs_file_drop_caches (v_files v2)\<rparr>) of
         (True, log, v) \<Rightarrow> (True, v) | (False, log, v) \<Rightarrow> (False, undo_all log v))"
    by (simp add: vfs_insert_package_def package_names_def Let_def a1 a2)
  let ?v3 = "v2\<lparr>v_files := vfs_file_drop_caches (v_files v2)\<rparr>"
  have v3: "index_ok ?v3" "same_index v ?v3" "sources ?v3 = sources v" "lookup_index ?v3 = lookup_index v"
    using ok h by (simp_all add: same_index_refl)
  obtain b log v4 where l: "insert_loop root zs 0 ?names [] ?v3 = (b, log, v4)" by (metis prod_cases3)
  note spec = insert_loop_spec [OF l v3(1) undoes_Nil]
  show ?thesis
  proof (cases "?names = [] \<or> length ?names > SIZE_MAX div 40 \<or> \<not> ok1 \<or> \<not> ok2")
    case True
    then show ?thesis using ins ok h
      by (auto simp: def same_index_refl package_map_def package_files_def split: if_splits)
  next
    case False
    then have r: "(res, v') = (if b then (True, v4) else (False, undo_all log v4))"
      using ins l unfolding def by (simp split: bool.splits)
    show ?thesis
    proof (cases b)
      case True
      with r spec v3 show ?thesis by simp
    next
      case fail: False
      have "same_index ?v3 (undo_all log v4)"
        using spec same_index_refl [of v4] by (simp add: undoes_def)
      then have "same_index v (undo_all log v4)" using v3(2) same_index_trans by blast
      with r fail ok same_index_ok show ?thesis by auto
    qed
  qed
qed

subsection \<open>Adding packages\<close>

definition dir_scan :: "nat \<Rightarrow> vfs_api \<Rightarrow> wstr \<Rightarrow> vfs \<Rightarrow> wstr list option" where
  "dir_scan fuel api path v =
     (case vfs_scan fuel (va_find api) path [] ([], 0) (v_heap v) of
        Some (True, files, h) \<Rightarrow> Some (fst files) | _ \<Rightarrow> None)"

text \<open>The archive at a package path, which is the path up to the root separator, below the root after it.\<close>

definition opened_archive :: "vfs_api \<Rightarrow> wstr \<Rightarrow> vfs \<Rightarrow> zip_package \<Rightarrow> bool" where
  "opened_archive api p v zs \<longleftrightarrow> (\<exists>h h'.
     zip_package_open (va_archives api) (va_mbtwc api) (length (v_zip_packages v))
       (Some (case zip_package_root_separator (Some p) of None \<Rightarrow> p | Some i \<Rightarrow> take i p))
       (Some (case zip_package_root_separator (Some p) of None \<Rightarrow> [] | Some i \<Rightarrow> drop (i + 1) p)) h
     = (Some zs, h'))"

text \<open>The map that a package adds: that of a directory's files or of an archive's.\<close>

definition adds :: "nat \<Rightarrow> vfs_api \<Rightarrow> wstr option \<Rightarrow> vfs \<Rightarrow> (wstr \<Rightarrow> file_source option) \<Rightarrow> bool" where
  "adds fuel api path v m \<longleftrightarrow> (\<exists>p. path = Some p \<and>
     (if ml_path_is_directory (va_attributes api) p
      then \<exists>names. dir_scan fuel api p v = Some names \<and> m = package_map (Some p) None 0 names
      else \<exists>zs. opened_archive api p v zs
             \<and> m = package_map None (Some zs) 0 (package_names [] (Some zs))))"

lemma add_package_spec:
  assumes ok: "index_ok v" and add: "vfs_add_package fuel api path v = (res, v')"
  shows "index_ok v' \<and> (res \<noteq> Some True \<longrightarrow> same_index v v')
     \<and> (res = Some True \<longrightarrow> (\<exists>m. adds fuel api path v m \<and> sources v' = sources v ++ m)
          \<and> \<not> v_frozen v \<and> (\<forall>k i. lookup_index v k = Some i \<longrightarrow> lookup_index v' k = Some i))"
proof -
  have refl: "index_ok v \<and> same_index v v" using ok same_index_refl by simp
  show ?thesis
  proof (cases "path = None \<or> v_index v = None \<or> v_frozen v \<or> path = Some []")
    case True
    then have "res = Some False \<and> v' = v" using add by (auto simp: vfs_add_package_def split: option.splits)
    with refl show ?thesis by simp
  next
    case False
    then obtain p where p: "path = Some p" "p \<noteq> []" and live: "v_index v \<noteq> None" "\<not> v_frozen v" by auto
    show ?thesis
    proof (cases "ml_path_is_directory (va_attributes api) p")
      case dir: True
      show ?thesis
      proof (cases "vfs_scan fuel (va_find api) p [] ([], 0) (v_heap v)")
        case None
        then have "res = None \<and> v' = v" using add p live dir by (auto simp: vfs_add_package_def)
        with refl show ?thesis by simp
      next
        case (Some x)
        then obtain b files h where sc: "vfs_scan fuel (va_find api) p [] ([], 0) (v_heap v) = Some (b, files, h)"
          by (cases x) auto
        show ?thesis
        proof (cases b)
          case False
          then have "res = Some False \<and> v' = with_heap h v" using add p live dir sc by (auto simp: vfs_add_package_def)
          with refl show ?thesis by simp
        next
          case True
          obtain r2 v2 where i: "vfs_insert_package (Some p) (fst files) None (with_heap h v) = (r2, v2)" by fastforce
          have res: "res = Some r2" "v' = v2" using add p live dir sc True i by (auto simp: vfs_add_package_def)
          have "index_ok (with_heap h v)" using ok by simp
          note spec = insert_package_spec [OF this i]
          have "dir_scan fuel api p v = Some (fst files)" using sc True by (simp add: dir_scan_def)
          then have "adds fuel api path v (package_map (Some p) None 0 (fst files))"
            using p dir by (simp add: adds_def)
          with spec res live show ?thesis
            by (cases r2) (auto simp: package_names_def same_index_def lookup_index_def)
        qed
      qed
    next
      case nodir: False
      let ?sep = "zip_package_root_separator (Some p)"
      let ?disk = "case ?sep of None \<Rightarrow> p | Some i \<Rightarrow> take i p"
      let ?root = "case ?sep of None \<Rightarrow> [] | Some i \<Rightarrow> drop (i + 1) p"
      obtain ok1 v1 where a1: "v_alloc v = (ok1, v1)" by fastforce
      obtain ok2 v2 where a2: "v_alloc v1 = (ok2, v2)" by fastforce
      obtain zo h3 where z: "zip_package_open (va_archives api) (va_mbtwc api) (length (v_zip_packages v2))
          (Some ?disk) (Some ?root) (v_heap v2) = (zo, h3)" by fastforce
      obtain h1 h2 where h: "v1 = with_heap h1 v" "v2 = with_heap h2 v1"
        using v_alloc_heap [OF a1] v_alloc_heap [OF a2] by blast
      let ?bad = "va_attributes api ?disk = None \<or> ml_path_is_directory (va_attributes api) ?disk
                      \<or> \<not> va_lstrcmpi api (ml_path_extension ?disk) (L ''.zip'')"
      show ?thesis
      proof (cases "ok1 \<and> \<not> ?bad \<and> ok2 \<and> zo \<noteq> None")
        case False
        then have "res = Some False \<and> (v' = v1 \<or> v' = v2 \<or> v' = with_heap h3 v2)"
          using add p live nodir
          unfolding vfs_add_package_def
          by (auto simp: Let_def a1 a2 z split: bool.splits if_splits option.splits)
        then show ?thesis using refl h by auto
      next
        case True
        then have good: "ok1" "\<not> ml_path_is_directory (va_attributes api) ?disk"
          "va_lstrcmpi api (ml_path_extension ?disk) (L ''.zip'')" "ok2" by blast+
        obtain zp where zp: "zo = Some zp" using True by (cases zo) blast+
        obtain fa where fa: "va_attributes api ?disk = Some fa"
          using True by (cases "va_attributes api ?disk") blast+
        let ?v3 = "(with_heap h3 v2)\<lparr>v_files := zip_package_retain zp (v_files (with_heap h3 v2))\<rparr>"
        obtain r4 v4 where i: "vfs_insert_package None [] (Some zp) ?v3 = (r4, v4)" by fastforce
        have "index_ok ?v3" using ok h by simp
        note spec = insert_package_spec [OF this i]
        have res: "(res, v') = (if r4 then (Some True, v4\<lparr>v_zip_packages := zp # v_zip_packages v4\<rparr>)
             else (Some False, v4\<lparr>v_files := zip_package_close (Some zp) (v_files v4)\<rparr>))"
          using add p live nodir zp fa good i a1 a2 z
          by (cases r4) (simp_all add: vfs_add_package_def Let_def)
        have "length (v_zip_packages v2) = length (v_zip_packages v)" using h by (simp add: with_heap_def)
        with z zp have "opened_archive api p v zp" unfolding opened_archive_def by metis
        with p nodir have "adds fuel api path v (package_map None (Some zp) 0 (package_names [] (Some zp)))"
          by (auto simp: adds_def)
        with spec res live h show ?thesis
          by (cases r4) (auto simp: same_index_def lookup_index_def the_index_def index_ok_def sources_def fun_eq_iff)
      qed
    qed
  qed
qed

subsection \<open>Properties\<close>

text \<open>The states of the configuration: the initial one and what adding packages leads to.\<close>

inductive config_reach :: "nat \<Rightarrow> vfs_api \<Rightarrow> vfs \<Rightarrow> bool" for fuel api where
  config_init: "config_reach fuel api (vfs_init files depth)"
| config_add: "config_reach fuel api v \<Longrightarrow> vfs_add_package fuel api path v = (res, v')
     \<Longrightarrow> config_reach fuel api v'"

lemma init_index_ok: "index_ok (vfs_init files depth)"
  by (simp add: index_ok_def vfs_init_def lookup_index_def the_index_def kh_simps kh_invars)

lemma config_index_ok: "config_reach fuel api v \<Longrightarrow> index_ok v"
  by (induction rule: config_reach.induct) (auto simp: init_index_ok dest: add_package_spec)

lemma index_ok_count:
  assumes "index_ok v"
  shows "vfs_entry_count v = length (v_entries v)"
proof -
  obtain t where t: "v_index v = Some t" using assms by (auto simp: index_ok_def)
  then have d: "distinct (kh_keys t)" using assms by (simp add: index_ok_def the_index_def kh_distinct_def)
  let ?ks = "map ve_key (v_entries v)"
  have "set (kh_keys t) = set ?ks"
  proof -
    have "k \<in> set (kh_keys t) \<longleftrightarrow> (\<exists>i. lookup_index v k = Some i)" for k
      using kh.keys_get [of k t] by (auto simp: lookup_index_def the_index_def t)
    then show ?thesis using assms by (fastforce simp: index_ok_def in_set_conv_nth)
  qed
  moreover have "distinct ?ks"
    unfolding distinct_conv_nth
  proof (intro allI impI)
    fix i j assume ij: "i < length ?ks" "j < length ?ks" "i \<noteq> j"
    have look: "lookup_index v (ve_key (v_entries v ! x)) = Some x" if "x < length (v_entries v)" for x
      using assms that by (simp add: index_ok_def)
    have "ve_key (v_entries v ! i) \<noteq> ve_key (v_entries v ! j)"
    proof
      assume "ve_key (v_entries v ! i) = ve_key (v_entries v ! j)"
      then have "Some i = Some j" using look [of i] look [of j] ij by simp
      with ij(3) show False by simp
    qed
    with ij show "?ks ! i \<noteq> ?ks ! j" by simp
  qed
  ultimately have "length (kh_keys t) = length ?ks" using d by (metis distinct_card)
  then show ?thesis by (simp add: vfs_entry_count_def t kh_size_def)
qed

text \<open>
  C2: the index and the entries always agree. However packages are added and fail to be added, the
  index maps a key to the number of the one entry that has it, every entry is found under its key,
  the count is the number of entries and the entry numbers are the ones its UIDs carry.
\<close>

theorem vfs_index_consistent:
  assumes "config_reach fuel api v"
  shows "(\<forall>k i. lookup_index v k = Some i \<longleftrightarrow> i < length (v_entries v) \<and> ve_key (v_entries v ! i) = k)
     \<and> vfs_entry_count v = length (v_entries v)
     \<and> (\<forall>i<length (v_entries v). ve_uid (v_entries v ! i) = uid_buffer i)"
  using config_index_ok [OF assms] index_ok_count [OF config_index_ok [OF assms]] by (simp add: index_ok_def)

definition example_api :: "wstr \<Rightarrow> vfs_api" where
  "example_api extra = \<lparr>va_attributes = (\<lambda>_. Some \<lparr>attr_directory = True, attr_reparse = False\<rparr>),
     va_find = (\<lambda>_. Some ([\<lparr>fd_name = [65], fd_directory = False, fd_reparse = False\<rparr>,
                          \<lparr>fd_name = extra, fd_directory = False, fd_reparse = False\<rparr>], True)),
     va_lstrcmpi = (=), va_archives = (\<lambda>_. None), va_mbtwc = (\<lambda>_ _. None)\<rparr>"

definition example_vfs :: vfs where
  "example_vfs = vfs_init (fs_initial (\<lambda>_. True)) 0"

lemma example_keys: "vfs_key [65] = Some [97]" "vfs_key [66] = Some [98]" "vfs_key [DOT, DOT, BSLASH, 65] = None"
  by code_simp+

lemmas example_simps = vfs_add_package_def example_vfs_def example_api_def vfs_init_def ml_path_is_directory_def
  v_heap_def fs_initial_def ml_mem_alloc_def vfs_join_def SIZE_MAX_def ml_path_extend_str_def ml_path_extend_def
  MAX_PATH_def vfs_path_list_append_def with_heap_def vfs_insert_package_def v_alloc_def vfs_file_drop_caches_def
  vfs_insert_def v_normalize_def kh_init_def kh_get_def kh_set_def the_index_def Let_def

lemma example_normalize:
  "vfs_normalize_path (Some [65]) (\<lambda>n. True) = (Some [97], \<lambda>n. True)"
  "vfs_normalize_path (Some [66]) (\<lambda>n. True) = (Some [98], \<lambda>n. True)"
  "vfs_normalize_path (Some [DOT, DOT, BSLASH, 65]) (\<lambda>n. True) = (None, \<lambda>n. True)"
  by (simp_all add: vfs_normalize_path_ok example_keys)

lemma example_add:
  "fst (vfs_add_package (Suc (Suc 0)) (example_api [66]) (Some [109]) example_vfs) = Some True"
  "fst (vfs_add_package (Suc (Suc 0)) (example_api [DOT, DOT, BSLASH, 65]) (Some [109]) example_vfs) = Some False"
  by (simp_all add: example_simps example_normalize)

text \<open>
  C3: adding a package is all or nothing. When \<open>vfs_add_package\<close> does not succeed, whatever made it
  fail and however far it got, the entries, the numbers the keys map to and the sources of all
  files are exactly those before the call.
\<close>

theorem vfs_add_package_atomic:
  assumes "config_reach fuel api v" and "vfs_add_package fuel api path v = (res, v')" and "res \<noteq> Some True"
  shows "v_entries v' = v_entries v \<and> lookup_index v' = lookup_index v \<and> sources v' = sources v
     \<and> config_reach fuel api v'"
proof -
  have "same_index v v'" using add_package_spec [OF config_index_ok [OF assms(1)] assms(2)] assms(3) by blast
  then show ?thesis using sources_same config_add [OF assms(1,2)] by (simp add: same_index_def)
qed

theorem vfs_add_package_atomic_witness:
  "\<exists>v'. vfs_add_package (Suc (Suc 0)) (example_api [DOT, DOT, BSLASH, 65]) (Some [109]) example_vfs = (Some False, v')
     \<and> v_entries v' = []"
proof -
  let ?api = "example_api [DOT, DOT, BSLASH, 65]"
  obtain v' where v': "vfs_add_package (Suc (Suc 0)) ?api (Some [109]) example_vfs = (Some False, v')"
    using example_add(2) by (metis prod.collapse)
  have reach: "config_reach (Suc (Suc 0)) ?api example_vfs" unfolding example_vfs_def by (rule config_init)
  have "v_entries example_vfs = []" by (simp add: example_vfs_def vfs_init_def)
  with vfs_add_package_atomic [OF reach v'] v' show ?thesis by simp
qed

theorem vfs_index_consistent_witness:
  "\<exists>v'. vfs_add_package (Suc (Suc 0)) (example_api [66]) (Some [109]) example_vfs = (Some True, v')
     \<and> vfs_entry_count v' = length (v_entries v')"
proof -
  obtain v' where v': "vfs_add_package (Suc (Suc 0)) (example_api [66]) (Some [109]) example_vfs = (Some True, v')"
    using example_add(1) by (metis prod.collapse)
  have "config_reach (Suc (Suc 0)) (example_api [66]) example_vfs" unfolding example_vfs_def by (rule config_init)
  from config_add [OF this v'] have "config_reach (Suc (Suc 0)) (example_api [66]) v'" .
  from vfs_index_consistent [OF this] v' show ?thesis by blast
qed

text \<open>
  C4: a package overrides exactly the files it has. A successful \<open>vfs_add_package\<close> is the addition
  of the package's map to the abstract index, where among names with the same key the last one
  counts: those keys now lead to the package's files, all others where they led before, every key
  keeps its entry number and so its UID, and the directory has been scanned completely.
\<close>

theorem vfs_add_package_overrides:
  assumes "config_reach fuel api v" and "vfs_add_package fuel api path v = (Some True, v')"
  shows "\<exists>m. adds fuel api path v m \<and> sources v' = sources v ++ m \<and> \<not> v_frozen v
     \<and> (\<forall>k i. lookup_index v k = Some i \<longrightarrow> lookup_index v' k = Some i)"
  using add_package_spec [OF config_index_ok [OF assms(1)] assms(2)] by blast

theorem vfs_add_package_overrides_witness:
  "\<exists>v' m. vfs_add_package (Suc (Suc 0)) (example_api [66]) (Some [109]) example_vfs = (Some True, v')
     \<and> adds (Suc (Suc 0)) (example_api [66]) (Some [109]) example_vfs m \<and> sources v' = m"
proof -
  obtain v' where v': "vfs_add_package (Suc (Suc 0)) (example_api [66]) (Some [109]) example_vfs = (Some True, v')"
    using example_add(1) by (metis prod.collapse)
  have reach: "config_reach (Suc (Suc 0)) (example_api [66]) example_vfs" unfolding example_vfs_def by (rule config_init)
  have "sources example_vfs = Map.empty"
    by (simp add: sources_def lookup_index_def example_vfs_def vfs_init_def the_index_def kh_simps fun_eq_iff)
  with vfs_add_package_overrides [OF reach v'] v' show ?thesis by fastforce
qed

end
