(* ===== verification/Memory.thy ===== *)
theory Memory
  imports VfsIndex
begin

text \<open>
  While memory lasts. The heap of the model is the sequence of the outcomes of the allocations to
  come; when none of them fails (\<open>heap_ok\<close>), the operations of the configuration leave it as it is.
  With these facts the components that share the heap can be described without it.
\<close>

lemma res_bind_heap:
  assumes "snd m = h" and "\<And>x. fst m = Inr x \<Longrightarrow> snd (f x h) = h"
  shows "snd (res_bind m f) = h"
  using assms by (cases m; cases "fst m") (auto simp: res_bind_def)

lemma buffer_heap: "heap_ok h \<Longrightarrow> snd (ml_path_buffer n h) = h"
  by (simp add: ml_path_buffer_ok)

lemma copy_heap: "heap_ok h \<Longrightarrow> snd (ml_path_copy_alloc p h) = h"
  by (simp add: ml_path_copy_alloc_def ml_path_buffer_ok split: prod.splits sum.splits)

lemma extend_heap: "heap_ok h \<Longrightarrow> snd (ml_path_extend_str p h) = h"
  by (auto simp: ml_path_extend_str_def ml_path_extend_def res_bind_def ml_path_buffer_ok split: option.splits)

lemma resolve_loop_heap: "heap_ok h \<Longrightarrow> snd (resolve_loop fuel fpn k joined capacity h) = h"
proof (induction fuel arbitrary: k capacity)
  case (Suc fuel)
  have "snd (ml_path_extend_str p h) = h" for p using Suc.prems by (rule extend_heap)
  then show ?case using Suc
    by (auto simp: ml_path_buffer_ok split: sum.splits prod.splits) (metis snd_conv)
qed simp

lemma resolve_directory_heap: "heap_ok h \<Longrightarrow> snd (resolve_directory base name h) = h"
  unfolding resolve_directory_def
  by (auto simp: Let_def copy_heap split: option.splits intro!: res_bind_heap)

lemma resolve_heap: "heap_ok h \<Longrightarrow> snd (ml_path_resolve_alloc fuel fpn base requested h) = h"
proof -
  assume h: "heap_ok h"
  let ?joined = "\<lambda>r. res_bind (ml_path_copy_alloc r h) (\<lambda>name h.
                 let name = ml_path_normalize_input name in
                 if drive_relative name then (Inl ERROR_BAD_PATHNAME, h)
                 else res_bind (resolve_directory base name h) (\<lambda>(directory, name) h.
                   res_bind (ml_path_buffer
                       (length directory + length name + (if directory \<noteq> [] then 2 else 1)) h)
                     (\<lambda>_ h. (Inr (resolve_join directory name), h))))"
  have j: "snd (?joined r) = h" for r
    by (intro res_bind_heap copy_heap h)
      (auto simp: Let_def copy_heap resolve_directory_heap buffer_heap h intro!: res_bind_heap)
  have "snd (case ?joined r of
               (Inl e, h) \<Rightarrow> (Some (Inl e), h)
             | (Inr joined, h) \<Rightarrow>
                 (case fpn 0 joined of
                    Inl e \<Rightarrow> (Some (Inl (ERROR_OS e)), h)
                  | Inr full \<Rightarrow>
                      resolve_loop fuel fpn 1 joined (GetFullPathNameW fpn 0 joined 0) h)) = h" for r
    using j [of r] by (cases "?joined r") (auto simp: resolve_loop_heap h split: sum.splits)
  then show ?thesis by (simp add: ml_path_resolve_alloc_def Let_def split: option.split)
qed

lemma normalize_heap: "heap_ok h \<Longrightarrow> snd (vfs_normalize_path p h) = h"
  by (simp add: vfs_normalize_path_def split: option.splits)

lemma join_heap: "heap_ok h \<Longrightarrow> snd (vfs_join a b h) = h"
  using extend_heap [of h] by (auto simp: vfs_join_def split: prod.splits sum.splits) (metis snd_conv)+

lemma append_heap: "heap_ok h \<Longrightarrow> snd (vfs_path_list_append files x h) = h"
  by (simp add: vfs_path_list_append_def Let_def split: prod.splits)

lemma scan_loop_heap:
  assumes h: "heap_ok h"
    and scan: "\<And>child files r. vfs_scan fuel finds root child files h = Some r \<Longrightarrow> snd (snd r) = h"
  shows "vfs_scan_loop fuel finds root relative found complete files h = Some r \<Longrightarrow> snd (snd r) = h"
proof (induction found arbitrary: files)
  case (Cons f found)
  define child where "child = (if relative = [] then Some (fd_name f) else fst (vfs_join relative (fd_name f) h))"
  have c: "(if relative = [] then
                   (case ml_mem_alloc h of (ok, h) \<Rightarrow> (if ok then Some (fd_name f) else None, h))
                 else vfs_join relative (fd_name f) h) = (child, h)"
    using h join_heap [OF h, of relative "fd_name f"] by (auto simp: child_def prod_eq_iff)
  note step = Cons.prems [unfolded vfs_scan_loop.simps c prod.case]
  show ?case
  proof (cases "fd_name f = [DOT] \<or> fd_name f = [DOT, DOT]")
    case True
    with step show ?thesis using Cons.IH by simp
  next
    case no_dot: False
    show ?thesis
    proof (cases child)
      case None
      with step no_dot show ?thesis by auto
    next
      case (Some name)
      show ?thesis
      proof (cases "fd_directory f")
        case False
        obtain files1 where "vfs_path_list_append files name h = (files1, h)"
          using append_heap [OF h, of files name] by (metis prod.collapse)
        with step no_dot Some False show ?thesis using Cons.IH by (cases files1) auto
      next
        case dir: True
        show ?thesis
        proof (cases "fd_reparse f")
          case True
          with step no_dot Some dir show ?thesis using Cons.IH by simp
        next
          case False
          obtain b files1 h1 where s: "vfs_scan fuel finds root name files h = Some (b, files1, h1)"
            using step no_dot Some dir False by (auto split: option.splits)
          with scan [OF s] step no_dot Some dir False show ?thesis using Cons.IH by (cases b) auto
        qed
      qed
    qed
  qed
qed auto

lemma scan_heap: "heap_ok h \<Longrightarrow> vfs_scan fuel finds root relative files h = Some r \<Longrightarrow> snd (snd r) = h"
proof (induction fuel arbitrary: relative files r)
  case (Suc fuel)
  note h = Suc.prems(1)
  have j: "vfs_join a b h = (fst (vfs_join a b h), h)" for a b
    using join_heap [OF h] by (simp add: prod_eq_iff)
  define directory where "directory = (if relative = [] then Some root else fst (vfs_join root relative h))"
  have c: "(if relative = [] then
              (case ml_mem_alloc h of (ok, h) \<Rightarrow> (if ok then Some root else None, h))
            else vfs_join root relative h) = (directory, h)"
  proof (cases "relative = []")
    case True
    with h show ?thesis by (simp add: directory_def)
  next
    case False
    with j [of root relative] show ?thesis unfolding directory_def by simp
  qed
  note step = Suc.prems(2) [unfolded vfs_scan.simps c prod.case]
  show ?case
  proof (cases directory)
    case None
    with step show ?thesis by auto
  next
    case (Some d)
    obtain pat where p: "vfs_join d [42] h = (pat, h)" using j by blast
    note step = step [unfolded Some option.case p prod.case]
    show ?thesis
    proof (cases pat)
      case None
      with step show ?thesis by auto
    next
      case pattern: (Some pattern)
      show ?thesis
      proof (cases "finds pattern")
        case None
        with step pattern show ?thesis by auto
      next
        case (Some x)
        obtain found complete where "x = (found, complete)" by fastforce
        with step pattern Some have "vfs_scan_loop fuel finds root relative found complete files h = Some r" by simp
        from scan_loop_heap [OF h Suc.IH [OF h] this] show ?thesis .
      qed
    qed
  qed
qed simp

lemma drop_caches_heap [simp]: "fs_heap (vfs_file_drop_caches st) = fs_heap st"
proof -
  have d: "fs_heap (cache_destroy a st) = fs_heap st" for a st
    by (simp add: cache_destroy_def Let_def zip_package_close_def split: option.splits)
  have chain: "fs_heap (cache_destroy_chain c st) = fs_heap st" for c st
    by (induction c arbitrary: st) (simp_all add: d)
  have slot: "fs_heap (snd (drop_slot a (u, st))) = fs_heap st" for a u st
    by (simp add: drop_slot_def idle_unlink_def set_cell_def Let_def)
  have fold: "fs_heap (snd (fold drop_slot l us)) = fs_heap (snd us)" for l us
  proof (induction l arbitrary: us)
    case (Cons a l)
    show ?case using Cons slot [of a "fst us" "snd us"] by simp
  qed simp
  have "fs_heap x = fs_heap st" if "fold drop_slot (map snd t) ([], st\<lparr>fs_table := None\<rparr>) = (u, x)" for t u x
    using fold [of "map snd t" "([], st\<lparr>fs_table := None\<rparr>)"] unfolding that by simp
  then show ?thesis
    by (auto simp: vfs_file_drop_caches_def Let_def chain split: option.splits prod.splits)
qed

lemma with_own_heap [simp]: "with_heap (v_heap v) v = v"
  by (simp add: with_heap_def v_heap_def)

lemma v_heap_sel [simp]: "v_heap (with_heap h v) = h" "v_heap (v\<lparr>v_entries := x\<rparr>) = v_heap v"
  "v_heap (v\<lparr>v_index := y\<rparr>) = v_heap v" "v_heap (v\<lparr>v_entry_capacity := n\<rparr>) = v_heap v"
  "v_heap (v\<lparr>v_zip_packages := z\<rparr>) = v_heap v" "v_heap (v\<lparr>v_files := f\<rparr>) = fs_heap f"
  by (simp_all add: v_heap_def with_heap_def)

lemma v_alloc_same: "heap_ok (v_heap v) \<Longrightarrow> v_alloc v = (True, v)"
  by (simp add: v_alloc_def)

lemma v_normalize_same:
  assumes "heap_ok (v_heap v)" and "v_normalize p v = (r, v')"
  shows "v' = v"
  using normalize_heap [OF assms(1), of "Some p"] assms(2)
  by (cases "vfs_normalize_path (Some p) (v_heap v)") (simp add: v_normalize_def)

lemma insert_heap:
  assumes "heap_ok (v_heap v)" and "vfs_insert relative path zs n v = (r, v')"
  shows "v_heap v' = v_heap v"
proof -
  obtain key v0 where n: "v_normalize relative v = (key, v0)" by fastforce
  have v0: "v0 = v" using v_normalize_same [OF assms(1) n] .
  have alloc: "v_alloc w = (True, w)" if "v_heap w = v_heap v" for w
    using assms(1) that by (intro v_alloc_same) simp
  show ?thesis using assms(2) alloc
    by (auto simp: vfs_insert_def n v0 Let_def split: if_splits option.splits)
qed

lemma insert_loop_heap:
  "insert_loop root zs n names log v = (ok, log', v') \<Longrightarrow> heap_ok (v_heap v) \<Longrightarrow> v_heap v' = v_heap v"
proof (induction names arbitrary: n log v)
  case (Cons name names)
  define q where "q = (case zs of Some _ \<Rightarrow> None | None \<Rightarrow> fst (vfs_join (case root of None \<Rightarrow> [] | Some r \<Rightarrow> r) name (v_heap v)))"
  have path: "(case zs of Some _ \<Rightarrow> (None, v)
         | None \<Rightarrow> (case vfs_join (case root of None \<Rightarrow> [] | Some r \<Rightarrow> r) name (v_heap v) of
                      (p, h) \<Rightarrow> (p, with_heap h v))) = (q, v)"
    using join_heap [OF Cons.prems(2), of _ name] by (auto simp: q_def prod_eq_iff split: option.splits prod.splits)
  obtain r v1 where i: "vfs_insert name q zs n v = (r, v1)" by fastforce
  note h = insert_heap [OF Cons.prems(2) i]
  show ?case using Cons.prems(1) i h Cons.IH [of _ _ v1] Cons.prems(2)
    unfolding insert_loop.simps path Let_def by (auto split: option.splits)
qed simp

lemma undo_all_heap [simp]: "v_heap (undo_all log v) = v_heap v"
proof (induction log arbitrary: v)
  case (Cons u log)
  have "v_heap (undo_one u v) = v_heap v" by (cases u) (simp add: undo_one_def split: option.splits)
  with Cons show ?case by simp
qed simp

lemma insert_package_heap:
  assumes "heap_ok (v_heap v)" and "vfs_insert_package root names zs v = (ok, v')"
  shows "v_heap v' = v_heap v"
proof -
  let ?w = "v\<lparr>v_files := vfs_file_drop_caches (v_files v)\<rparr>"
  have w: "v_heap ?w = v_heap v" by (simp add: v_heap_def)
  have "v_heap v1 = v_heap v" if "insert_loop root zs 0 l [] ?w = (b, log, v1)" for l b log v1
    using insert_loop_heap [OF that] assms(1) w by simp
  then show ?thesis using assms
    by (auto simp: vfs_insert_package_def Let_def v_alloc_same split: if_splits prod.splits bool.splits)
qed

lemma zip_index_heap: "heap_ok h \<Longrightarrow> snd (zip_index mbtwc entries root h) = h"
proof -
  assume h: "heap_ok h"
  have fn: "snd (zip_filename mbtwc n f h) = h" for n f
    using h by (simp add: zip_filename_def Let_def split: option.splits)
  have n: "h1 = h" if "vfs_normalize_path p h = (r, h1)" for p r h1
    using normalize_heap [OF h, of p] that by simp
  have f: "h1 = h" if "zip_filename mbtwc nm fl h = (r, h1)" for nm fl r h1 using fn [of nm fl] that by simp
  have ad: "snd (zip_add_file rel i sz st h) = h" for rel i sz st using h by (simp add: zip_add_file_def Let_def)
  have step: "snd (zip_index_step mbtwc r i e st h) = h" for r i e st
    by (auto simp: zip_index_step_def Let_def ad split: option.splits prod.splits dest!: n f)
  have loop: "snd (zip_index_loop mbtwc r i es st h) = h" for r i es st
    by (induction es arbitrary: i st) (simp_all add: res_bind_heap step)
  have l: "snd (res_bind (zip_index_loop mbtwc r i es st h) (\<lambda>st h. if \<not> zi_found st then (Inl MZ_ZIP_FILE_NOT_FOUND, h)
                    else (Inr (r, zi_files st), h))) = h" for r i es st
    by (rule res_bind_heap [OF loop]) simp
  show ?thesis by (auto simp: zip_index_def l split: option.splits prod.splits dest!: n)
qed

lemma package_open_heap: "heap_ok h \<Longrightarrow> snd (zip_package_open archives mbtwc pid path root h) = h"
  using zip_index_heap [of h]
  by (auto simp: zip_package_open_def split: option.splits prod.splits sum.splits) (metis snd_conv)+

lemma add_package_heap:
  assumes h: "heap_ok (v_heap v)" and add: "vfs_add_package fuel api path v = (r, v')"
  shows "v_heap v' = v_heap v"
proof -
  have s: "h1 = v_heap v" if "vfs_scan fuel (va_find api) p [] ([], 0) (v_heap v) = Some (b, f, h1)" for p b f h1
    using scan_heap [OF h that] by simp
  have i: "v_heap w' = v_heap v" if "vfs_insert_package root names zs w = (b, w')" "v_heap w = v_heap v" for root names zs w b w'
    using insert_package_heap [OF _ that(1)] h that(2) by simp
  have o': "h1 = v_heap v" if "zip_package_open a m pid p q (v_heap v) = (x, h1)" for a m pid p q x h1
    using package_open_heap [OF h, of a m pid p q] that by simp
  have c: "fs_heap (zip_package_close p f) = fs_heap f" for p f by (simp add: zip_package_close_def split: option.splits)
  show ?thesis
  proof (cases path)
    case None
    with add show ?thesis by (simp add: vfs_add_package_def)
  next
    case (Some p)
    show ?thesis
    proof (cases "ml_path_is_directory (va_attributes api) p")
      case True
      with add Some show ?thesis
        by (auto simp: vfs_add_package_def split: if_splits option.splits prod.splits bool.splits dest!: s intro: i)
    next
      case False
      let ?arch = "zip_package_open (va_archives api) (va_mbtwc api) (length (v_zip_packages v))"
      let ?sep = "zip_package_root_separator (Some p)"
      let ?d = "case ?sep of None \<Rightarrow> p | Some i \<Rightarrow> take i p" and ?r = "case ?sep of None \<Rightarrow> [] | Some i \<Rightarrow> drop (i + 1) p"
      obtain z h1 where z: "?arch (Some ?d) (Some ?r) (v_heap v) = (z, h1)" by fastforce
      have h1: "h1 = v_heap v" using o' [OF z] .
      let ?w = "\<lambda>zp. v\<lparr>v_files := zip_package_retain zp (v_files v)\<rparr>"
      have w: "v_heap (?w zp) = v_heap v" for zp by (simp add: v_heap_def zip_package_retain_def)
      have "v' = v \<or> (\<exists>zp b w. z = Some zp \<and> vfs_insert_package None [] (Some zp) (?w zp) = (b, w)
          \<and> (v' = w\<lparr>v_files := zip_package_close (Some zp) (v_files w)\<rparr> \<or> v' = w\<lparr>v_zip_packages := zp # v_zip_packages w\<rparr>))"
        using add Some False z h1
        by (auto simp: vfs_add_package_def Let_def v_alloc_same [OF h] split: if_split_asm option.split_asm prod.split_asm bool.split_asm)
      then show ?thesis using i [OF _ w] c by (auto simp: v_heap_def)
    qed
  qed
qed

end
