(* ===== verification/VfsUid.thy ===== *)
theory VfsUid
  imports VfsIndex
begin

text \<open>
  UIDs of files in packages (\<open>src/src/modloader/vfs.c\<close>): every UID that the loader hands
  out, normal or forward-only, parses back to the entry it was made for. The second part is the
  termination of the directory scan.
\<close>

subsection \<open>Hexadecimal numbers\<close>

lemma hex_value_digit: "d < 16 \<Longrightarrow> hex_value (hex_digit d) = Some d \<and> hex_digit d \<noteq> 0
   \<and> hex_digit d \<noteq> 115 \<and> hex_digit d \<noteq> 120 \<and> hex_digit d \<noteq> 88"
proof -
  have all: "\<forall>d\<in>set [0..<16]. hex_value (hex_digit d) = Some d \<and> hex_digit d \<noteq> 0
     \<and> hex_digit d \<noteq> 115 \<and> hex_digit d \<noteq> 120 \<and> hex_digit d \<noteq> 88"
    by code_simp
  assume "d < 16"
  with all show ?thesis by simp
qed

definition hex_char :: "wchar \<Rightarrow> bool" where
  "hex_char c \<longleftrightarrow> (\<exists>d<16. c = hex_digit d)"

lemma hex_string_chars: "c \<in> set (hex_string n) \<Longrightarrow> hex_char c"
proof (induction n rule: hex_string.induct)
  case (1 n)
  have "hex_char (hex_digit (n mod 16))" by (auto simp: hex_char_def intro!: exI [of _ "n mod 16"])
  moreover have "hex_char (hex_digit n)" if "n < 16" using that by (auto simp: hex_char_def)
  ultimately show ?case using 1 by (subst (asm) (2) hex_string.simps) (auto split: if_splits)
qed

lemma hex_string_ne: "hex_string n \<noteq> []"
  by (subst hex_string.simps) simp

lemma hex_char_facts: "hex_char c \<Longrightarrow> c \<noteq> 0 \<and> c \<noteq> 115 \<and> c \<noteq> 120 \<and> c \<noteq> 88 \<and> hex_value c \<noteq> None"
  using hex_value_digit by (auto simp: hex_char_def)

lemma wcstoull_digits_append:
  "\<forall>c\<in>set a. hex_char c \<Longrightarrow>
     wcstoull_digits acc (a @ b) = wcstoull_digits (fst (wcstoull_digits acc a)) b"
proof (induction a arbitrary: acc)
  case (Cons c a)
  then have "hex_char c" by simp
  then obtain d where "hex_value c = Some d" using hex_char_facts by blast
  with Cons show ?case by simp
qed simp

lemma wcstoull_digits_hex: "wcstoull_digits 0 (hex_string n) = (n, [])"
proof (induction n rule: hex_string.induct)
  case (1 n)
  show ?case
  proof (cases "n < 16")
    case True
    then show ?thesis by (subst hex_string.simps) (simp add: hex_value_digit)
  next
    case False
    have d: "hex_value (hex_digit (n mod 16)) = Some (n mod 16)" by (simp add: hex_value_digit)
    have "hex_string n = hex_string (n div 16) @ [hex_digit (n mod 16)]"
      using False by (subst hex_string.simps) simp
    moreover have "wcstoull_digits 0 (hex_string (n div 16) @ [hex_digit (n mod 16)]) = (n, [])"
      using 1 [OF False] d by (subst wcstoull_digits_append) (auto simp: hex_string_chars)
    ultimately show ?thesis by simp
  qed
qed

lemma wcstoull16_hex: "n < 2 ^ 64 \<Longrightarrow> wcstoull16 (hex_string n) = (n, [])"
proof -
  assume n: "n < 2 ^ 64"
  have "\<not> (wat (hex_string n) 1 = 120 \<or> wat (hex_string n) 1 = 88)"
  proof (cases "1 < length (hex_string n)")
    case True
    then have "hex_char (hex_string n ! 1)" using hex_string_chars nth_mem by blast
    with True show ?thesis by (auto simp: wat_def dest: hex_char_facts)
  qed (simp add: wat_def)
  with n show ?thesis by (simp add: wcstoull16_def wcstoull_digits_hex)
qed

subsection \<open>Round trip\<close>

lemma uid_parts:
  "first_string (uid_buffer i) = uid_prefix @ hex_string i"
  "first_string (drop (length (first_string (uid_buffer i)) + 1) (uid_buffer i))
     = uid_prefix @ [115] @ hex_string i"
proof -
  have p: "\<forall>c\<in>set uid_prefix. c \<noteq> 0" by (simp add: uid_prefix_def)
  have h: "\<forall>c\<in>set (hex_string i). c \<noteq> 0" using hex_string_chars hex_char_facts by blast
  have whole: "takeWhile (\<lambda>c. c \<noteq> 0) (s @ 0 # t) = s" if "\<forall>c\<in>set s. c \<noteq> 0" for s t :: wstr
    using that by (induction s) auto
  show first: "first_string (uid_buffer i) = uid_prefix @ hex_string i"
    using whole [of "uid_prefix @ hex_string i"] p h by (auto simp: first_string_def uid_buffer_def)
  have "drop (length (uid_prefix @ hex_string i) + 1) (uid_buffer i) = uid_prefix @ [115] @ hex_string i"
    by (simp add: uid_buffer_def)
  moreover have "takeWhile (\<lambda>c. c \<noteq> 0) (uid_prefix @ [115] @ hex_string i) = uid_prefix @ [115] @ hex_string i"
    using p h by (subst takeWhile_eq_all_conv) auto
  ultimately show "first_string (drop (length (first_string (uid_buffer i)) + 1) (uid_buffer i))
     = uid_prefix @ [115] @ hex_string i" unfolding first by (simp add: first_string_def)
qed

lemma vfs_uid_entry_parse:
  assumes "i < length (v_entries v)" and "i < 2 ^ 64"
  shows "vfs_uid_entry (Some (uid_prefix @ hex_string i)) v = Some (i, False)"
    and "vfs_uid_entry (Some (uid_prefix @ [115] @ hex_string i)) v = Some (i, True)"
proof -
  obtain c s where cs: "hex_string i = c # s" using hex_string_ne by (cases "hex_string i") auto
  then have "hex_char c" using hex_string_chars [of c i] by simp
  then have c: "iswxdigit c" "c \<noteq> 115" using hex_char_facts by (auto simp: iswxdigit_def)
  have w: "wcstoull16 (c # s) = (i, [])" using wcstoull16_hex [OF assms(2)] cs by simp
  show "vfs_uid_entry (Some (uid_prefix @ hex_string i)) v = Some (i, False)"
    using assms(1) c w by (simp add: vfs_uid_entry_def cs)
  show "vfs_uid_entry (Some (uid_prefix @ [115] @ hex_string i)) v = Some (i, True)"
    using assms(1) c w by (simp add: vfs_uid_entry_def cs)
qed

text \<open>
  C13: UIDs round trip. The normal and the forward-only UID of every entry of the index parse back
  to the number of the entry and say which of the two they are; for an entry of an archive each
  of them is its own path.
\<close>

theorem vfs_uid_roundtrip:
  assumes "config_reach fuel api v" and "i < length (v_entries v)" and "i < 2 ^ 64"
  shows "vfs_uid_entry (Some (vfs_entry_uid (v_entries v ! i))) v = Some (i, False)
     \<and> vfs_uid_entry (Some (vfs_entry_streaming_uid (v_entries v ! i))) v = Some (i, True)
     \<and> (ve_zip (v_entries v ! i) \<noteq> None \<longrightarrow>
          vfs_uid_to_path (Some (vfs_entry_uid (v_entries v ! i))) v = Some (vfs_entry_uid (v_entries v ! i))
        \<and> vfs_uid_to_path (Some (vfs_entry_streaming_uid (v_entries v ! i))) v
            = Some (vfs_entry_streaming_uid (v_entries v ! i)))"
proof -
  let ?e = "v_entries v ! i"
  have "ve_uid ?e = uid_buffer i" using config_index_ok [OF assms(1)] assms(2) by (simp add: index_ok_def)
  then have u: "vfs_entry_uid ?e = uid_prefix @ hex_string i"
    "vfs_entry_streaming_uid ?e = uid_prefix @ [115] @ hex_string i"
    using uid_parts by (simp_all add: vfs_entry_uid_def vfs_entry_streaming_uid_def)
  note parse = vfs_uid_entry_parse [OF assms(2,3), folded u]
  show ?thesis using parse by (auto simp: vfs_uid_to_path_def vfs_entry_read_path_def)
qed

theorem vfs_uid_roundtrip_witness:
  "\<exists>v. v_entries v \<noteq> [] \<and> vfs_uid_entry (Some (vfs_entry_streaming_uid (v_entries v ! 0))) v = Some (0, True)"
proof -
  obtain v' where v': "vfs_add_package (Suc (Suc 0)) (example_api [66]) (Some [109]) example_vfs = (Some True, v')"
    using example_add(1) by (metis prod.collapse)
  have "config_reach (Suc (Suc 0)) (example_api [66]) example_vfs" unfolding example_vfs_def by (rule config_init)
  from config_add [OF this v'] have r: "config_reach (Suc (Suc 0)) (example_api [66]) v'" .
  have ne: "0 < length (v_entries v')"
    using v' by (auto simp: example_simps example_normalize)
  have "(0 :: nat) < 2 ^ 64" by simp
  from vfs_uid_roundtrip [OF r ne this] ne show ?thesis by blast
qed

subsection \<open>Scanning ends\<close>

lemma ml_path_extend_str_length:
  assumes "ml_path_extend_str p h = (Inr s, h')"
  shows "length p \<le> length s"
  using assms
  by (auto simp: ml_path_extend_str_def ml_path_extend_def ml_path_buffer_def res_bind_def ml_mem_alloc_def
      split: if_splits prod.splits sum.splits bool.splits)

lemma vfs_join_length:
  assumes "vfs_join left right h = (Some s, h')"
  shows "length left + length right \<le> length s"
  using assms
  by (auto simp: vfs_join_def split: if_splits prod.splits bool.splits sum.splits dest!: ml_path_extend_str_length)

text \<open>The names of a listing are not empty, and long search patterns find nothing.\<close>

definition bounded_tree :: "nat \<Rightarrow> find_api \<Rightarrow> bool" where
  "bounded_tree N finds \<longleftrightarrow>
     (\<forall>pattern found c. finds pattern = Some (found, c) \<longrightarrow>
        length pattern \<le> N \<and> (\<forall>f\<in>set found. fd_name f \<noteq> []))"

lemma vfs_scan_enough_fuel:
  shows "bounded_tree N finds \<Longrightarrow> 0 < fuel \<Longrightarrow> N + 2 \<le> fuel + length relative \<Longrightarrow>
      vfs_scan fuel finds root relative files h \<noteq> None"
    and "bounded_tree N finds \<Longrightarrow> 0 < fuel \<Longrightarrow> N + 1 \<le> fuel + length relative \<Longrightarrow>
      \<forall>f\<in>set found. fd_name f \<noteq> [] \<Longrightarrow>
      vfs_scan_loop fuel finds root relative found complete files h \<noteq> None"
proof (induction fuel finds root relative files h and fuel finds root relative found complete files h
    rule: vfs_scan_vfs_scan_loop.induct)
  case (2 fuel finds root relative files h)
  show ?case
  proof (cases "if relative = [] then (case ml_mem_alloc h of (ok, h) \<Rightarrow> (if ok then Some root else None, h))
      else vfs_join root relative h")
    case (Pair d h1)
    show ?thesis
    proof (cases d)
      case None
      with Pair show ?thesis by simp
    next
      case (Some dir)
      have len: "length relative \<le> length dir"
        using Pair Some by (auto split: if_splits prod.splits dest: vfs_join_length)
      obtain q h2 where j: "vfs_join dir [42] h1 = (q, h2)" by fastforce
      show ?thesis
      proof (cases q)
        case None
        with Pair Some j show ?thesis by simp
      next
        case (Some pattern)
        have plen: "length relative + 1 \<le> length pattern" using vfs_join_length j Some len by fastforce
        show ?thesis
        proof (cases "finds pattern")
          case None
          with Pair \<open>d = Some dir\<close> j Some show ?thesis by simp
        next
          case F: (Some r)
          obtain found c where r: "finds pattern = Some (found, c)" using F by (cases r) auto
          have "length pattern \<le> N" and tl: "\<forall>f\<in>set found. fd_name f \<noteq> []"
            using 2(2) r by (auto simp: bounded_tree_def)
          with plen 2(4) have fuel: "0 < fuel" "N + 1 \<le> fuel + length relative" by linarith+
          have "vfs_scan_loop fuel finds root relative found c files h2 \<noteq> None"
            using 2(1) [OF Pair [symmetric] \<open>d = Some dir\<close> j [symmetric] Some r refl 2(2) fuel tl] .
          with Pair \<open>d = Some dir\<close> j Some r show ?thesis by simp
        qed
      qed
    qed
  qed
next
  case (4 fuel finds root relative f found complete files h)
  let ?child = "if relative = [] then (case ml_mem_alloc h of (ok, h) \<Rightarrow> (if ok then Some (fd_name f) else None, h))
      else vfs_join relative (fd_name f) h"
  have ne: "fd_name f \<noteq> []" and tl: "\<forall>f\<in>set found. fd_name f \<noteq> []" using 4(9) by auto
  note fuel = 4(6,7,8)
  show ?case
  proof (cases "fd_name f = [DOT] \<or> fd_name f = [DOT, DOT]")
    case True
    with 4(1) [OF True fuel tl] show ?thesis by (simp del: not_None_eq)
  next
    case nodots: False
    obtain c h1 where c: "?child = (c, h1)" by fastforce
    show ?thesis
    proof (cases c)
      case None
      with nodots c show ?thesis by simp
    next
      case (Some child)
      have "length relative + length (fd_name f) \<le> length child"
        using c Some by (auto split: if_splits prod.splits dest: vfs_join_length)
      moreover have "0 < length (fd_name f)" using ne by simp
      ultimately have len: "N + 2 \<le> fuel + length child" using fuel(3) by linarith
      have loop: "vfs_scan_loop fuel finds root relative (f # found) complete files h =
          (if fd_directory f then
            (if fd_reparse f then vfs_scan_loop fuel finds root relative found complete files h1
             else case vfs_scan fuel finds root child files h1 of
               None \<Rightarrow> None
             | Some (False, files, h) \<Rightarrow> Some (False, files, h)
             | Some (True, files, h) \<Rightarrow> vfs_scan_loop fuel finds root relative found complete files h)
          else case vfs_path_list_append files child h1 of
            (None, h) \<Rightarrow> Some (False, files, h)
          | (Some files, h) \<Rightarrow> vfs_scan_loop fuel finds root relative found complete files h)"
        using nodots c Some by simp
      note Q = 4(4) [OF nodots c [symmetric] Some] and P = 4(3) [OF nodots c [symmetric] Some]
      show ?thesis
      proof (cases "fd_directory f")
        case dir: True
        show ?thesis
        proof (cases "fd_reparse f")
          case True
          with 4(2) [OF nodots c [symmetric] Some dir True fuel tl] dir show ?thesis unfolding loop by (simp del: not_None_eq)
        next
          case False
          obtain b files' h2 where s: "vfs_scan fuel finds root child files h1 = Some (b, files', h2)"
            using P [OF dir False fuel(1,2) len] by (cases "vfs_scan fuel finds root child files h1") auto
          show ?thesis
          proof (cases b)
            case True
            then have "b = True" by simp
            from Q [OF dir False s refl this refl fuel tl] dir False True s show ?thesis
              unfolding loop by (simp del: not_None_eq)
          next
            case b: False
            with dir False s show ?thesis unfolding loop by simp
          qed
        qed
      next
        case nodir: False
        obtain l h2 where l: "vfs_path_list_append files child h1 = (l, h2)" by fastforce
        show ?thesis
        proof (cases l)
          case None
          with nodir l show ?thesis unfolding loop by simp
        next
          case (Some files')
          from 4(5) [OF nodots c [symmetric] \<open>c = Some child\<close> nodir l [symmetric] Some fuel tl] nodir l Some
          show ?thesis unfolding loop by simp
        qed
      qed
    qed
  qed
qed auto

text \<open>
  C16: scanning a package directory returns. The system lists no file without a name and no
  directory whose search pattern is longer than some bound (Windows has one); then the recursion
  over the tree ends, whatever else the enumeration reports and whenever memory runs out, and
  a fuel of the bound and two is enough for the model.
\<close>

theorem vfs_scan_returns:
  assumes "bounded_tree N finds" and "N + 2 \<le> fuel"
  shows "\<exists>ok files' h'. vfs_scan fuel finds root [] files h = Some (ok, files', h')"
  using vfs_scan_enough_fuel(1) [OF assms(1), of fuel "[]" root files h] assms(2) by auto

theorem vfs_scan_returns_witness:
  "\<exists>ok files' h'. vfs_scan 12 (\<lambda>p. if length p \<le> 10 then
       Some ([\<lparr>fd_name = [65], fd_directory = True, fd_reparse = False\<rparr>], True) else None) [109] [] ([], 0) (\<lambda>_. True)
     = Some (ok, files', h')"
  by (rule vfs_scan_returns [where N = 10]) (auto simp: bounded_tree_def split: if_splits)

end
