(* ===== verification/VfsCache.thy ===== *)
theory VfsCache
  imports VfsIndex
begin

text \<open>
  The lookup caches (\<open>src/src/modloader/vfs.c\<close>, \<open>vfs_lookup_domain\<close> and
  \<open>vfs_virtual_to_uid\<close>) under concurrency. A lookup is the sequence of its accesses to the
  shared state: reading the generation, the cache under the shared lock, the index, and storing
  under the exclusive lock if the generation is still the one it began in. The steps of any
  number of threads interleave with each other, with the resets of the caches and, while no
  lookup runs, with the configuration.
\<close>

subsection \<open>What configuration leaves alone\<close>

definition same_caches :: "vfs \<Rightarrow> vfs \<Rightarrow> bool" where
  "same_caches v v' \<longleftrightarrow> v_lookup_caches v' = v_lookup_caches v \<and> v_uid_cache v' = v_uid_cache v
     \<and> v_frozen v' = v_frozen v \<and> v_generation v' = v_generation v
     \<and> v_generation_sequence v' = v_generation_sequence v"

lemma same_caches_refl [simp]: "same_caches v v"
  by (simp add: same_caches_def)

lemma same_caches_trans: "same_caches a b \<Longrightarrow> same_caches b c \<Longrightarrow> same_caches a c"
  by (simp add: same_caches_def)

lemma same_caches_upd [simp]:
  "same_caches v (with_heap h w) = same_caches v w" "same_caches (with_heap h v) w = same_caches v w"
  "same_caches v (w\<lparr>v_entries := e\<rparr>) = same_caches v w"
  "same_caches v (w\<lparr>v_index := i\<rparr>) = same_caches v w"
  "same_caches v (w\<lparr>v_entry_capacity := n\<rparr>) = same_caches v w"
  "same_caches v (w\<lparr>v_files := f\<rparr>) = same_caches v w" "same_caches (v\<lparr>v_files := f\<rparr>) w = same_caches v w"
  "same_caches v (w\<lparr>v_zip_packages := z\<rparr>) = same_caches v w"
  by (simp_all add: same_caches_def with_heap_def)

lemma same_caches_alloc: "v_alloc v = (ok, v') \<Longrightarrow> same_caches v v'"
  by (auto dest: v_alloc_heap)

lemma same_caches_normalize: "v_normalize path v = (r, v') \<Longrightarrow> same_caches v v'"
  by (auto dest: v_normalize_heap)

lemmas same_caches_steps = same_caches_alloc same_caches_normalize

lemma same_caches_insert: "vfs_insert relative path zs n v = (r, v') \<Longrightarrow> same_caches v v'"
  by (auto simp: vfs_insert_def Let_def split: if_splits option.splits prod.splits bool.splits
      dest!: v_alloc_heap v_normalize_heap)

lemma same_caches_insert_loop: "insert_loop root zs n files log v = (b, log', v') \<Longrightarrow> same_caches v v'"
proof (induction files arbitrary: n log v)
  case (Cons f files)
  obtain path h where p: "(case zs of Some _ \<Rightarrow> (None, v)
      | None \<Rightarrow> (case vfs_join (case root of None \<Rightarrow> [] | Some r \<Rightarrow> r) f (v_heap v) of
           (p, h) \<Rightarrow> (p, with_heap h v))) = (path, h)" by fastforce
  then have h: "same_caches v h" by (auto split: option.splits prod.splits)
  obtain r w where i: "vfs_insert f path zs n h = (r, w)" by fastforce
  then have "same_caches v w" using h same_caches_insert same_caches_trans by blast
  with Cons p i show ?case by (cases r) (auto simp: Let_def dest!: Cons.IH elim: same_caches_trans)
qed simp

lemma same_caches_undo: "same_caches v (undo_one u v)"
  by (cases u) (simp add: undo_one_def split: option.split)

lemma same_caches_undo_all: "same_caches v (undo_all log v)"
  by (induction log arbitrary: v) (auto intro: same_caches_trans same_caches_undo)

lemma same_caches_package: "vfs_insert_package root files zs v = (b, v') \<Longrightarrow> same_caches v v'"
  using same_caches_trans [OF _ same_caches_undo_all]
  by (auto simp: vfs_insert_package_def Let_def split: if_splits prod.splits bool.splits option.splits
      dest!: v_alloc_heap same_caches_insert_loop)

lemma same_caches_add: "vfs_add_package fuel api path v = (res, v') \<Longrightarrow> same_caches v v'"
  by (auto simp: vfs_add_package_def Let_def split: if_splits option.splits prod.splits bool.splits
      dest!: v_alloc_heap same_caches_package)

subsection \<open>The lookup without caches\<close>

definition uncached :: "lookup_kind \<Rightarrow> wstr \<Rightarrow> vfs \<Rightarrow> wstr option" where
  "uncached k path v = (case vfs_key path of None \<Rightarrow> None | Some key \<Rightarrow> index_value k key v)"

lemma uncached_cong:
  "the_index v' = the_index v \<Longrightarrow> v_entries v' = v_entries v \<Longrightarrow> uncached k path v' = uncached k path v"
  by (simp add: uncached_def index_value_def split: option.split)

lemma index_value_with_heap [simp]: "index_value k key (with_heap h v) = index_value k key v"
  by (simp add: index_value_def the_index_def split: option.split)

lemma cache_of_set [simp]:
  "cache_of k v \<noteq> None \<Longrightarrow> cache_of k' (set_cache k t v) = (if k' = k then Some t else cache_of k' v)"
  by (auto simp: cache_of_def set_cache_def nth_list_update split: lookup_kind.splits if_splits)

lemma set_cache_frame [simp]:
  "the_index (set_cache k t v) = the_index v" "v_entries (set_cache k t v) = v_entries v"
  "v_frozen (set_cache k t v) = v_frozen v" "v_generation (set_cache k t v) = v_generation v"
  by (simp_all add: set_cache_def the_index_def split: lookup_kind.split)

lemma uncached_frame [simp]:
  "uncached k path (with_heap h v) = uncached k path v"
  "uncached k path (set_cache k' t v) = uncached k path v"
  "uncached k path (clear_lookup_cache_locked v) = uncached k path v"
  "uncached k path (v\<lparr>v_frozen := f\<rparr>) = uncached k path v"
  "uncached k path (v\<lparr>v_generation := g\<rparr>) = uncached k path v"
  "uncached k path (v\<lparr>v_generation_sequence := g\<rparr>) = uncached k path v"
  by (rule uncached_cong; simp add: clear_lookup_cache_locked_def with_heap_def the_index_def
      set_cache_def split: lookup_kind.split)+

lemma cache_of_cleared: "cache_of k (clear_lookup_cache_locked v) = map_option (\<lambda>_. kh_init) (cache_of k v)"
  by (auto simp: cache_of_def clear_lookup_cache_locked_def split: lookup_kind.split)

lemma clear_frozen: "v_frozen (clear_lookup_cache_locked v) = v_frozen v"
  by (simp add: clear_lookup_cache_locked_def)

lemma cache_of_same: "same_caches v v' \<Longrightarrow> cache_of k v' = cache_of k v"
  by (simp add: cache_of_def same_caches_def split: lookup_kind.split)

lemma cache_of_upd [simp]:
  "cache_of k (with_heap h v) = cache_of k v" "cache_of k (v\<lparr>v_frozen := f\<rparr>) = cache_of k v"
  "cache_of k (v\<lparr>v_generation := g\<rparr>) = cache_of k v"
  "cache_of k (v\<lparr>v_generation_sequence := g\<rparr>) = cache_of k v"
  by (simp_all add: cache_of_def with_heap_def split: lookup_kind.split)

subsection \<open>Steps\<close>

text \<open>Where a lookup is: the generation it read, and the result it holds before it stores it.\<close>

datatype lookup_pc =
    Began lookup_kind wstr "64 word"
  | Missed lookup_kind wstr "64 word"
  | Found lookup_kind wstr "64 word" "wstr option"

type_synonym threads = "nat \<Rightarrow> lookup_pc option"

text \<open>A step may be the last one of a lookup; then it has the answer.\<close>

type_synonym answer = "(lookup_kind \<times> wstr \<times> wstr option) option"

inductive lookup_step :: "nat \<Rightarrow> vfs_api \<Rightarrow> vfs \<times> threads \<Rightarrow> answer \<Rightarrow> vfs \<times> threads \<Rightarrow> bool"
  for fuel api where
  begin_lookup: "T t = None \<Longrightarrow> cache_of k v \<noteq> None \<Longrightarrow>
     lookup_step fuel api (v, T) None (v, T(t \<mapsto> Began k path (vfs_generation v)))"
| hit: "T t = Some (Began k path g) \<Longrightarrow> g \<noteq> 0 \<Longrightarrow> cache_of k v = Some c \<Longrightarrow> kh_get c path = Some r \<Longrightarrow>
     lookup_step fuel api (v, T) (Some (k, path, r)) (v, T(t := None))"
| miss: "T t = Some (Began k path g) \<Longrightarrow> cache_of k v = Some c \<Longrightarrow> g = 0 \<or> kh_get c path = None \<Longrightarrow>
     lookup_step fuel api (v, T) None (v, T(t \<mapsto> Missed k path g))"
| fails: "T t = Some (Missed k path g) \<Longrightarrow> v_normalize path v = (None, v') \<Longrightarrow>
     lookup_step fuel api (v, T) (Some (k, path, None)) (v', T(t := None))"
| reads: "T t = Some (Missed k path 0) \<Longrightarrow> v_normalize path v = (Some key, v') \<Longrightarrow>
     lookup_step fuel api (v, T) (Some (k, path, index_value k key v')) (v', T(t := None))"
| no_key: "T t = Some (Missed k path g) \<Longrightarrow> g \<noteq> 0 \<Longrightarrow> v_normalize path v = (Some key, v1) \<Longrightarrow>
     v_alloc v1 = (False, v2) \<Longrightarrow>
     lookup_step fuel api (v, T) (Some (k, path, index_value k key v1)) (v2, T(t := None))"
| finds: "T t = Some (Missed k path g) \<Longrightarrow> g \<noteq> 0 \<Longrightarrow> v_normalize path v = (Some key, v1) \<Longrightarrow>
     v_alloc v1 = (True, v2) \<Longrightarrow>
     lookup_step fuel api (v, T) None (v2, T(t \<mapsto> Found k path g (index_value k key v1)))"
| stores: "T t = Some (Found k path g result) \<Longrightarrow> lookup_store k path g result v = (r, v') \<Longrightarrow>
     lookup_step fuel api (v, T) (Some (k, path, r)) (v', T(t := None))"
| begin_reset: "lookup_step fuel api (v, T) None (vfs_begin_lookup_reset v, T)"
| reset: "vfs_reset_lookup_caches v = (g, v') \<Longrightarrow> lookup_step fuel api (v, T) None (v', T)"
| configure: "(\<And>t. T t = None) \<Longrightarrow> vfs_add_package fuel api path v = (res, v') \<Longrightarrow>
     lookup_step fuel api (v, T) None (v', T)"

inductive_cases lookup_stepE: "lookup_step fuel api s a s'"

inductive lookup_reach :: "nat \<Rightarrow> vfs_api \<Rightarrow> vfs \<times> threads \<Rightarrow> bool" for fuel api where
  lookup_init: "lookup_reach fuel api (vfs_init files depth, \<lambda>_. None)"
| lookup_next: "lookup_reach fuel api s \<Longrightarrow> lookup_step fuel api s a s' \<Longrightarrow> lookup_reach fuel api s'"

text \<open>
  The invariant: what a cache holds is what the uncached lookup gives, and only once the index is
  frozen; a lookup that began in a generation runs with the frozen index too.
\<close>

definition pc_ok :: "vfs \<Rightarrow> lookup_pc \<Rightarrow> bool" where
  "pc_ok v pc \<longleftrightarrow> (case pc of
     Began k path g \<Rightarrow> g \<noteq> 0 \<longrightarrow> v_frozen v
   | Missed k path g \<Rightarrow> g \<noteq> 0 \<longrightarrow> v_frozen v
   | Found k path g r \<Rightarrow> v_frozen v \<and> r = uncached k path v)"

definition cache_inv :: "vfs \<Rightarrow> bool" where
  "cache_inv v \<longleftrightarrow> (v_generation v \<noteq> 0 \<longrightarrow> v_frozen v)
     \<and> (\<forall>k c path r. cache_of k v = Some c \<longrightarrow> kh_get c path = Some r \<longrightarrow>
          v_frozen v \<and> r = uncached k path v)"

definition lookups_inv :: "vfs \<times> threads \<Rightarrow> bool" where
  "lookups_inv s \<longleftrightarrow> cache_inv (fst s) \<and> (\<forall>t pc. snd s t = Some pc \<longrightarrow> pc_ok (fst s) pc)"

lemma cache_inv_with_heap [simp]: "cache_inv (with_heap h v) = cache_inv v"
  by (simp add: cache_inv_def)

lemma pc_ok_with_heap [simp]: "pc_ok (with_heap h v) pc = pc_ok v pc"
  by (simp add: pc_ok_def split: lookup_pc.split)

lemma lookups_inv_pc: "lookups_inv (v, T) \<Longrightarrow> T t = Some pc \<Longrightarrow> pc_ok v pc"
  by (simp add: lookups_inv_def)

lemma lookups_inv_thread:
  assumes "lookups_inv (v, T)" and "\<And>pc. new = Some pc \<Longrightarrow> pc_ok v pc"
  shows "lookups_inv (with_heap h v, T(t := new))"
  using assms by (auto simp: lookups_inv_def)

lemma lookups_inv_same_heap: "lookups_inv (with_heap h v, T) = lookups_inv (v, T)"
  by (simp add: lookups_inv_def)

lemma cache_inv_store:
  assumes inv: "cache_inv v" and fr: "v_frozen v" and r: "result = uncached k path v"
    and st: "lookup_store k path g result v = (r', v')"
  shows "cache_inv v' \<and> r' = uncached k path v' \<and> uncached k' path' v' = uncached k' path' v
     \<and> (\<forall>pc. pc_ok v pc \<longrightarrow> pc_ok v' pc)"
proof (cases "vfs_generation v \<noteq> g \<or> cache_of k v = None")
  case True
  with st have "r' = result \<and> v' = v" by (auto simp: lookup_store_def split: option.splits if_splits)
  with inv r show ?thesis by simp
next
  case False
  then obtain c where c: "cache_of k v = Some c" "vfs_generation v = g" by auto
  show ?thesis
  proof (cases "kh_get c path")
    case (Some x)
    with st c have "r' = x \<and> v' = v" by (simp add: lookup_store_def)
    with inv c Some show ?thesis by (auto simp: cache_inv_def)
  next
    case None
    obtain b h where al: "v_alloc v = (b, with_heap h v)" using v_alloc_heap by (metis surj_pair)
    show ?thesis
    proof (cases b)
      case False
      with st c None al have "r' = result \<and> v' = with_heap h v" by (simp add: lookup_store_def)
      with inv r show ?thesis by simp
    next
      case True
      let ?w = "set_cache k (kh_set path result c) (with_heap h v)"
      have st': "r' = result" "v' = ?w" using st c None al True by (auto simp: lookup_store_def)
      have cs: "cache_of k2 ?w = (if k2 = k then Some (kh_set path result c) else cache_of k2 v)" for k2
        using c by simp
      have "cache_inv ?w"
        unfolding cache_inv_def cs
        using inv c fr r by (auto simp: cache_inv_def kh_simps split: if_splits)
      with st' r show ?thesis by (auto simp: pc_ok_def split: lookup_pc.splits)
    qed
  qed
qed

lemma reset_inv:
  assumes inv: "lookups_inv (v, T)" and frozen: "v_frozen v'"
    and caches: "\<And>k. cache_of k v' = map_option (\<lambda>_. kh_init) (cache_of k v)"
    and same: "\<And>k path. uncached k path v' = uncached k path v"
  shows "lookups_inv (v', T)"
  using inv frozen caches same
  by (fastforce simp: lookups_inv_def cache_inv_def pc_ok_def kh_simps split: lookup_pc.splits)

lemma lookup_step_inv:
  assumes inv: "lookups_inv s" and step: "lookup_step fuel api s a s'"
  shows "lookups_inv s'
     \<and> (\<forall>k path r. a = Some (k, path, r) \<longrightarrow>
          r = uncached k path (fst s') \<or> r = None \<and> fst (v_normalize path (fst s)) = None)"
  using step
proof (cases rule: lookup_step.cases)
  case (begin_lookup T t k v path)
  then show ?thesis using inv lookups_inv_thread [of v T _ "fs_heap (v_files v)"]
    by (auto simp: lookups_inv_def cache_inv_def pc_ok_def vfs_generation_def)
next
  case (hit T t k path g v c r)
  then show ?thesis using inv by (auto simp: lookups_inv_def cache_inv_def)
next
  case (miss T t k path g v c)
  then show ?thesis using inv by (fastforce simp: lookups_inv_def pc_ok_def)
next
  case (fails T t k path g v v')
  then show ?thesis using inv by (auto simp: lookups_inv_def dest!: v_normalize_heap)
next
  case (reads T t k path v key v')
  then show ?thesis using inv v_normalize_Some [OF reads(5)]
    by (auto simp: lookups_inv_def uncached_def dest!: v_normalize_heap)
next
  case (no_key T t k path g v key v1 v2)
  then show ?thesis using inv v_normalize_Some [OF no_key(6)]
    by (auto simp: lookups_inv_def uncached_def dest!: v_normalize_heap v_alloc_heap)
next
  case (finds T t k path g v key v1 v2)
  then have "pc_ok v (Missed k path g)" using inv by (auto simp: lookups_inv_def)
  then have "v_frozen v" using finds by (simp add: pc_ok_def)
  moreover have "uncached k path v = index_value k key v"
    using v_normalize_Some [OF finds(6)] by (simp add: uncached_def)
  moreover obtain h h' where hs: "v1 = with_heap h v" "v2 = with_heap h' v1"
    using finds(6,7) v_normalize_heap v_alloc_heap by blast
  ultimately have pc: "pc_ok v1 (Found k path g (index_value k key v1))" by (simp add: pc_ok_def)
  have "lookups_inv (v1, T)" using inv finds(1) hs lookups_inv_same_heap by simp
  from lookups_inv_thread [OF this, of "Some (Found k path g (index_value k key v1))" h' t] pc
  show ?thesis using finds(2,3) hs(2) by simp
next
  case (stores T t k path g result v r v')
  then have pc: "pc_ok v (Found k path g result)" and ci: "cache_inv v" using inv by (auto simp: lookups_inv_def)
  then have fr: "v_frozen v" "result = uncached k path v" by (simp_all add: pc_ok_def)
  note st = cache_inv_store [OF ci fr stores(5)]
  have "pc_ok v' pc" if "(T(t := None)) t' = Some pc" for t' pc
    using that inv stores(1) st by (auto simp: lookups_inv_def split: if_splits)
  then have "lookups_inv s'" using stores(3) st by (simp add: lookups_inv_def)
  then show ?thesis using stores(2,3) st by simp
next
  case (begin_reset v T)
  have "lookups_inv (vfs_begin_lookup_reset v, T)"
    using begin_reset inv
    by (simp add: reset_inv [of v] vfs_begin_lookup_reset_def cache_of_cleared clear_frozen)
  with begin_reset show ?thesis by simp
next
  case (reset v g v' T)
  have "lookups_inv (v', T)"
    using reset inv
    by (auto simp: vfs_reset_lookup_caches_def Let_def cache_of_cleared clear_frozen intro!: reset_inv [of v])
  with reset show ?thesis by simp
next
  case (configure T path v res v')
  have same: "same_caches v v'" using same_caches_add configure by blast
  have "lookups_inv (v', T)"
  proof (cases "v_frozen v")
    case True
    then have "v' = v" using configure(5) by (auto simp: vfs_add_package_def split: option.splits)
    with configure inv show ?thesis by simp
  next
    case False
    then show ?thesis using inv configure same cache_of_same [OF same]
      by (auto simp: lookups_inv_def cache_inv_def same_caches_def)
  qed
  with configure show ?thesis by simp
qed

lemma lookup_reach_inv: "lookup_reach fuel api s \<Longrightarrow> lookups_inv s"
proof (induction rule: lookup_reach.induct)
  case (lookup_init files depth)
  have "c = kh_init" if "cache_of k (vfs_init files depth) = Some c" for k c
    using that by (auto simp: cache_of_def vfs_init_def split: lookup_kind.splits if_splits)
  then have "\<not> (cache_of k (vfs_init files depth) = Some c \<and> kh_get c path = Some r)" for k c path r
    by (metis kh.get_empty option.distinct(1))
  then show ?case by (auto simp: lookups_inv_def cache_inv_def vfs_init_def [THEN arg_cong [of _ _ v_generation]])
next
  case (lookup_next s a s')
  then show ?case using lookup_step_inv by blast
qed

text \<open>
  C10: the caches are transparent. However the steps of lookups in any number of threads interleave
  with each other, with the resets of the caches and with the configuration, every answer is the
  one that the index gives at that moment without caches; only when memory runs out is it none.
\<close>

theorem vfs_lookups_transparent:
  assumes "lookup_reach fuel api (v, T)" and "lookup_step fuel api (v, T) (Some (k, path, r)) (v', T')"
  shows "r = uncached k path v'
     \<or> r = None \<and> \<not> (heap_ok (v_heap v) \<and> length path < 2 ^ 60)"
proof -
  note step = lookup_step_inv [OF lookup_reach_inv [OF assms(1)] assms(2)]
  show ?thesis
  proof (cases "heap_ok (v_heap v) \<and> length path < 2 ^ 60")
    case True
    with step v_normalize_ok [of v path] have "r = uncached k path v' \<or> r = None \<and> vfs_key path = None"
      by simp
    then show ?thesis by (auto simp: uncached_def)
  next
    case False
    with step show ?thesis by auto
  qed
qed

subsection \<open>The functions as runs of steps\<close>

text \<open>
  The model of the functions is one such interleaving: a lookup that nothing interrupts is a run
  of the steps of one thread, from the first to the one with the answer.
\<close>

inductive lookup_run :: "nat \<Rightarrow> vfs_api \<Rightarrow> vfs \<times> threads \<Rightarrow> answer \<Rightarrow> vfs \<times> threads \<Rightarrow> bool"
  for fuel api where
  last_step: "lookup_step fuel api s (Some a) s' \<Longrightarrow> lookup_run fuel api s (Some a) s'"
| more_steps: "lookup_step fuel api s None s1 \<Longrightarrow> lookup_run fuel api s1 a s' \<Longrightarrow> lookup_run fuel api s a s'"

lemma lookup_through_run:
  assumes T: "T t = None" and c: "cache_of k v = Some c"
    and l: "lookup_through k path v = (r, v')"
  shows "lookup_run fuel api (v, T) (Some (k, path, r)) (v', T)"
proof -
  let ?g = "vfs_generation v" let ?T = "\<lambda>pc. T(t \<mapsto> pc)"
  note steps = lookup_step.intros [where fuel = fuel and api = api]
  have start: "lookup_step fuel api (v, T) None (v, ?T (Began k path ?g))"
    using T c by (intro begin_lookup) simp_all
  have close: "T(t := None) = T" using T by auto
  have run: "lookup_run fuel api (v, ?T (Began k path ?g)) (Some (k, path, r)) (v', T)"
  proof (cases "?g \<noteq> 0 \<and> kh_get c path \<noteq> None")
    case True
    then have "kh_get c path = Some r" "v' = v" using l c by (auto simp: lookup_through_def lookup_cached_def)
    with True c hit [of "?T (Began k path ?g)" t k path ?g v c r fuel api] show ?thesis
      by (intro last_step) (simp add: close)
  next
    case False
    then have lc: "lookup_cached k path v = None" using c by (auto simp: lookup_cached_def)
    have m: "lookup_step fuel api (v, ?T (Began k path ?g)) None (v, ?T (Missed k path ?g))"
      using miss [of "?T (Began k path ?g)" t k path ?g v c fuel api] False c by auto
    have "lookup_run fuel api (v, ?T (Missed k path ?g)) (Some (k, path, r)) (v', T)"
    proof (cases "v_normalize path v")
      case (Pair key v1)
      show ?thesis
      proof (cases key)
        case None
        with l lc Pair have "r = None" "v' = v1" by (simp_all add: lookup_through_def Let_def)
        with None Pair fails [of "?T (Missed k path ?g)" t k path ?g v v1 fuel api] show ?thesis
          by (intro last_step) (simp add: close)
      next
        case (Some ky)
        show ?thesis
        proof (cases "?g = 0")
          case True
          with l lc Pair Some have "r = index_value k ky v1" "v' = v1" by (auto simp: lookup_through_def Let_def)
          with True Some Pair reads [of "?T (Missed k path ?g)" t k path v ky v1 fuel api] show ?thesis
            by (intro last_step) (simp add: close)
        next
          case g: False
          obtain b v2 where al: "v_alloc v1 = (b, v2)" by fastforce
          show ?thesis
          proof (cases b)
            case False
            with l lc Pair Some g al have "r = index_value k ky v1" "v' = v2"
              by (auto simp: lookup_through_def Let_def)
            with False Some Pair g al no_key [of "?T (Missed k path ?g)" t k path ?g v ky v1 v2 fuel api]
            show ?thesis by (intro last_step) (simp add: close)
          next
            case True
            with l lc Pair Some g al have st: "lookup_store k path ?g (index_value k ky v1) v2 = (r, v')"
              by (simp add: lookup_through_def Let_def)
            have f: "lookup_step fuel api (v, ?T (Missed k path ?g)) None
                (v2, ?T (Found k path ?g (index_value k ky v1)))"
              using finds [of "?T (Missed k path ?g)" t k path ?g v ky v1 v2 fuel api] True Pair Some g al by simp
            have "lookup_step fuel api (v2, ?T (Found k path ?g (index_value k ky v1))) (Some (k, path, r)) (v', T)"
              using stores [of "?T (Found k path ?g (index_value k ky v1))" t k path ?g "index_value k ky v1" v2 r v'
                  fuel api] st by (simp add: close)
            with f show ?thesis by (blast intro: lookup_run.intros)
          qed
        qed
      qed
    qed
    with m show ?thesis by (blast intro: lookup_run.intros)
  qed
  with start show ?thesis by (blast intro: lookup_run.intros)
qed

subsection \<open>Sequential lookups\<close>

definition tables_alive :: "vfs \<Rightarrow> bool" where
  "tables_alive v \<longleftrightarrow> index_ok v \<and> (\<forall>d<VFS_LOOKUP_DOMAIN_COUNT. cache_of (Domain d) v \<noteq> None)
     \<and> cache_of Uid v \<noteq> None"

lemma tables_alive_with_heap [simp]: "tables_alive (with_heap h v) = tables_alive v"
  by (simp add: tables_alive_def)

lemma index_ok_cong:
  "v_index v' = v_index v \<Longrightarrow> v_entries v' = v_entries v \<Longrightarrow> index_ok v' = index_ok v"
  by (simp add: index_ok_def lookup_index_def the_index_def)

lemma index_ok_caches:
  "index_ok (set_cache k t v) = index_ok v"
  "index_ok (clear_lookup_cache_locked v) = index_ok v"
  "index_ok (v\<lparr>v_frozen := f\<rparr>) = index_ok v"
  "index_ok (v\<lparr>v_generation := g\<rparr>) = index_ok v"
  "index_ok (v\<lparr>v_generation_sequence := g\<rparr>) = index_ok v"
  by (rule index_ok_cong; simp add: set_cache_def clear_lookup_cache_locked_def split: lookup_kind.split)+

lemma tables_alive_store:
  assumes alive: "tables_alive v" and st: "lookup_store k path g result v = (r, v')"
  shows "tables_alive v'"
proof -
  obtain b h where al: "v_alloc v = (b, with_heap h v)" using v_alloc_heap by (metis surj_pair)
  have "v' = v \<or> v' = with_heap h v \<or> cache_of k v \<noteq> None \<and> (\<exists>t. v' = set_cache k t (with_heap h v))"
    using st al by (auto simp: lookup_store_def split: if_splits option.splits prod.splits bool.splits)
  then show ?thesis
  proof (elim disjE conjE exE)
    fix t assume k: "cache_of k v \<noteq> None" and v': "v' = set_cache k t (with_heap h v)"
    show ?thesis using alive k unfolding v' by (simp add: tables_alive_def index_ok_caches)
  qed (use alive in simp_all)
qed

lemma tables_alive_step:
  assumes "tables_alive (fst s)" and "lookup_step fuel api s a s'"
  shows "tables_alive (fst s')"
  using assms(2)
proof (cases rule: lookup_step.cases)
  case (stores T t k path g result v r v')
  then show ?thesis using assms(1) tables_alive_store by auto
next
  case (begin_reset v T)
  then show ?thesis using assms(1)
    by (simp add: vfs_begin_lookup_reset_def cache_of_cleared tables_alive_def index_ok_caches)
next
  case (reset v g v' T)
  then show ?thesis using assms(1)
    by (auto simp: vfs_reset_lookup_caches_def Let_def cache_of_cleared tables_alive_def index_ok_caches)
next
  case (configure T path v res v')
  then have "same_caches v v'" using same_caches_add by blast
  moreover have "index_ok v'" using add_package_spec configure assms(1) by (auto simp: tables_alive_def)
  ultimately show ?thesis using configure assms(1) by (simp add: tables_alive_def cache_of_same)
qed (use assms(1) in \<open>auto dest!: v_normalize_heap v_alloc_heap\<close>)

lemma lookup_reach_alive: "lookup_reach fuel api s \<Longrightarrow> tables_alive (fst s)"
proof (induction rule: lookup_reach.induct)
  case (lookup_init files depth)
  show ?case by (simp add: tables_alive_def init_index_ok cache_of_def) (simp add: vfs_init_def)
next
  case (lookup_next s a s')
  then show ?case using tables_alive_step by blast
qed

lemma lookup_through_uncached:
  assumes "cache_inv v" and "cache_of k v \<noteq> None" and "heap_ok (v_heap v)" and "length path < 2 ^ 60"
  shows "fst (lookup_through k path v) = uncached k path v"
proof -
  obtain c where c: "cache_of k v = Some c" using assms(2) by auto
  show ?thesis
  proof (cases "lookup_cached k path v")
    case (Some x)
    then show ?thesis using assms(1) c
      by (auto simp: lookup_through_def lookup_cached_def cache_inv_def split: if_splits)
  next
    case None
    let ?w = "with_heap (v_heap v) v"
    show ?thesis
    proof (cases "vfs_key path")
      case no_key: None
      then show ?thesis using None v_normalize_ok [OF assms(3,4)]
        by (simp add: lookup_through_def Let_def uncached_def)
    next
      case (Some key)
      have u: "uncached k path v = index_value k key v" using Some by (simp add: uncached_def)
      obtain b h where al: "v_alloc ?w = (b, with_heap h ?w)" using v_alloc_heap by (metis surj_pair)
      have "fst (lookup_store k path (vfs_generation v) (index_value k key v) (with_heap h ?w)) = index_value k key v"
        if "vfs_generation v \<noteq> 0"
      proof -
        have "v_frozen v" using assms(1) that by (simp add: cache_inv_def vfs_generation_def)
        then have pre: "cache_inv (with_heap h ?w)" "v_frozen (with_heap h ?w)"
          "index_value k key v = uncached k path (with_heap h ?w)" using assms(1) u by simp_all
        obtain r v' where st: "lookup_store k path (vfs_generation v) (index_value k key v) (with_heap h ?w) = (r, v')"
          by fastforce
        from cache_inv_store [OF pre st] have "r = uncached k path v'"
          and "uncached k path v' = uncached k path (with_heap h ?w)" by blast+
        with st u show ?thesis by simp
      qed
      then show ?thesis
        using None Some v_normalize_ok [OF assms(3,4)] al u
        by (cases b) (simp_all add: lookup_through_def Let_def)
    qed
  qed
qed

text \<open>
  C14: a lookup in any state the interleavings reach gives an entry's own path for a UID, and
  otherwise what the index has for the normal form of the path.
\<close>

theorem vfs_lookup_domain_spec:
  assumes "lookup_reach fuel api (v, T)" and "heap_ok (v_heap v)" and "length path < 2 ^ 60"
    and "0 \<le> d" and "d < int VFS_LOOKUP_DOMAIN_COUNT"
  shows "fst (vfs_lookup_domain (Some path) d v) =
     (case vfs_uid_to_path (Some path) v of Some r \<Rightarrow> Some r
      | None \<Rightarrow> uncached (Domain (nat d)) path v)"
proof -
  have alive: "tables_alive v" and inv: "cache_inv v"
    using lookup_reach_alive [OF assms(1)] lookup_reach_inv [OF assms(1)] by (simp_all add: lookups_inv_def)
  have "cache_of (Domain (nat d)) v \<noteq> None" using alive assms(4,5) by (simp add: tables_alive_def nat_less_iff)
  note spec = lookup_through_uncached [OF inv this assms(2,3)]
  have "v_index v \<noteq> None" using alive by (simp add: tables_alive_def index_ok_def)
  with spec \<open>cache_of (Domain (nat d)) v \<noteq> None\<close> assms(4,5) show ?thesis
    by (auto simp: vfs_lookup_domain_def split: option.split)
qed

text \<open>A package with two files, added to the initial state.\<close>

definition example_added :: vfs where
  "example_added = snd (vfs_add_package (Suc (Suc 0)) (example_api [66]) (Some [109]) example_vfs)"

lemma example_added_heap: "heap_ok (v_heap example_added)"
  by (simp add: example_added_def example_simps example_normalize heap_ok_def)

lemma example_added_reach: "lookup_reach (Suc (Suc 0)) (example_api [66]) (example_added, \<lambda>_. None)"
proof -
  have "vfs_add_package (Suc (Suc 0)) (example_api [66]) (Some [109]) example_vfs = (Some True, example_added)"
    unfolding example_added_def using example_add(1) by (metis prod.collapse)
  then show ?thesis unfolding example_vfs_def
    by (intro lookup_next [OF lookup_init configure]) simp_all
qed

lemma example_added_lookup: "uncached (Domain 0) [65] example_added = Some [109, BSLASH, 65]"
  by (simp add: uncached_def example_keys index_value_def entry_value_def vfs_entry_read_path_def
      example_added_def example_simps example_normalize)

theorem vfs_lookup_domain_spec_witness:
  "fst (vfs_lookup_domain (Some [65]) 0 example_added) = Some [109, BSLASH, 65]"
proof -
  have "vfs_uid_to_path (Some [65]) example_added = None"
    by (simp add: vfs_uid_to_path_def vfs_uid_entry_def uid_prefix_def)
  with vfs_lookup_domain_spec [OF example_added_reach example_added_heap, of "[65]" 0] example_added_lookup
  show ?thesis by (simp add: VFS_LOOKUP_DOMAIN_COUNT_def)
qed

theorem vfs_lookups_transparent_witness:
  "\<exists>T v' T'. lookup_step (Suc (Suc 0)) (example_api [66]) (example_added, T)
       (Some (Domain 0, [65], Some [109, BSLASH, 65])) (v', T')
     \<and> Some [109, BSLASH, 65] = uncached (Domain 0) [65] v'"
proof -
  note s = lookup_step.intros [where fuel = "Suc (Suc 0)" and api = "example_api [66]"]
  let ?v = example_added and ?k = "Domain 0" and ?p = "[65] :: wstr"
  have gen: "v_generation ?v = 0" "cache_of ?k ?v = Some kh_init"
    by (simp_all add: example_added_def example_simps example_normalize cache_of_def VFS_LOOKUP_DOMAIN_COUNT_def)
  let ?T1 = "Map.empty(0 \<mapsto> Began ?k ?p 0)" and ?T2 = "Map.empty(0 \<mapsto> Missed ?k ?p 0)"
  have r1: "lookup_reach (Suc (Suc 0)) (example_api [66]) (?v, ?T1)"
    using lookup_next [OF example_added_reach s(1) [of _ 0 ?k ?v ?p]] gen by (simp add: vfs_generation_def)
  have r2: "lookup_reach (Suc (Suc 0)) (example_api [66]) (?v, ?T2)"
    using lookup_next [OF r1 s(3) [of ?T1 0 ?k ?p 0 ?v]] gen by simp
  have n: "v_normalize ?p ?v = (Some [97], with_heap (v_heap ?v) ?v)"
    using v_normalize_ok [OF example_added_heap, of ?p] example_keys by simp
  let ?w = "with_heap (v_heap ?v) ?v"
  have val: "index_value ?k [97] ?w = Some [109, BSLASH, 65]"
    using example_added_lookup example_keys by (simp add: uncached_def)
  from s(5) [of ?T2 0 ?k ?p ?v "[97]" ?w] n val
  have step: "lookup_step (Suc (Suc 0)) (example_api [66]) (?v, ?T2)
      (Some (?k, ?p, Some [109, BSLASH, 65])) (?w, ?T2(0 := None))" by simp
  have "Some [109, BSLASH, 65] = uncached ?k ?p ?w"
    using vfs_lookups_transparent [OF r2 step] by blast
  with step show ?thesis by blast
qed

end
