(* ===== verification/VfsRoutes.thy ===== *)
theory VfsRoutes
  imports VfsIndex
begin

text \<open>
  Writable paths (\<open>src/src/modloader/vfs.c\<close>): the table of virtual paths that writes go
  to, its cache, and the comparison of last segments that lets most paths of the game skip both.
  The theorems say that neither the cache nor the comparison changes what a path is routed to.
\<close>

subsection \<open>Last segments\<close>

lemma filename_loop:
  "ml_path_filename_loop p f =
     (if \<forall>c\<in>set p. not_separator c then f else rev (takeWhile not_separator (rev p)))"
proof (induction p arbitrary: f)
  case (Cons c p)
  show ?case
  proof (cases "\<forall>c\<in>set p. not_separator c")
    case True
    then have "takeWhile not_separator (rev p) = rev p" by (simp add: takeWhile_eq_all_conv)
    with True Cons show ?thesis by (auto simp: takeWhile_append)
  next
    case False
    then show ?thesis using Cons by (auto simp: takeWhile_append)
  qed
qed simp

lemma ml_path_filename_suffix: "ml_path_filename p = rev (takeWhile not_separator (rev p))"
proof (cases "\<forall>c\<in>set p. not_separator c")
  case True
  then have "rev (takeWhile not_separator (rev p)) = p" by (simp add: takeWhile_eq_all_conv [THEN iffD2])
  with True show ?thesis by (simp add: ml_path_filename_def filename_loop)
next
  case False
  then show ?thesis by (auto simp: ml_path_filename_def filename_loop)
qed

text \<open>A path up to a file name: empty, or ending at a separator.\<close>

definition dir_prefix :: "wstr \<Rightarrow> bool" where
  "dir_prefix p \<longleftrightarrow> p = [] \<or> ml_path_separator (last p)"

lemma filename_split: "\<exists>pre. path = pre @ ml_path_filename path \<and> dir_prefix pre"
proof -
  let ?r = "rev path"
  have "path = rev (dropWhile not_separator ?r) @ rev (takeWhile not_separator ?r)"
    by (metis rev_append rev_rev_ident takeWhile_dropWhile_id)
  moreover have "dir_prefix (rev (dropWhile not_separator ?r))"
    using hd_dropWhile [of not_separator ?r] by (auto simp: dir_prefix_def last_rev)
  ultimately show ?thesis by (auto simp: ml_path_filename_suffix)
qed

lemma filename_no_sep: "\<forall>c\<in>set (ml_path_filename path). not_separator c"
  by (auto simp: ml_path_filename_suffix dest: set_takeWhileD)

lemma filename_append:
  assumes "dir_prefix pre" and "\<forall>c\<in>set seg. not_separator c"
  shows "ml_path_filename (pre @ seg) = seg"
proof -
  have "takeWhile not_separator (rev seg @ rev pre) = rev seg @ takeWhile not_separator (rev pre)"
    using assms(2) by (simp add: takeWhile_append)
  moreover have "takeWhile not_separator (rev pre) = []"
    using assms(1) by (cases "rev pre") (auto simp: dir_prefix_def last_rev hd_rev)
  ultimately show ?thesis by (simp add: ml_path_filename_suffix)
qed

lemma components_append:
  assumes "dir_prefix pre" and "\<forall>c\<in>set seg. not_separator c" and "seg \<noteq> []"
  shows "components (pre @ seg) = components pre @ [seg]"
  using assms(1)
proof (induction pre rule: length_induct)
  case (1 pre)
  show ?case
  proof (cases pre)
    case Nil
    then show ?thesis using components_single [OF assms(2,3)] by simp
  next
    case (Cons c p)
    show ?thesis
    proof (cases "ml_path_separator c")
      case True
      then have "dir_prefix p" using 1(2) Cons by (auto simp: dir_prefix_def split: if_splits)
      with 1(1) Cons True show ?thesis by (simp add: components_sep)
    next
      case False
      let ?d = "dropWhile not_separator p"
      have "\<exists>c\<in>set p. ml_path_separator c" using 1(2) Cons False by (auto simp: dir_prefix_def split: if_splits)
      then have tw: "takeWhile not_separator (p @ seg) = takeWhile not_separator p"
        and dw: "dropWhile not_separator (p @ seg) = ?d @ seg" and ne: "?d \<noteq> []"
        by (auto simp: takeWhile_append dropWhile_append)
      have "last ?d = last p"
        using ne by (metis last_appendR takeWhile_dropWhile_id)
      then have "dir_prefix ?d" using 1(2) Cons ne by (auto simp: dir_prefix_def split: if_splits)
      moreover have "length ?d < length pre" using Cons by (simp add: length_dropWhile_le le_imp_less_Suc)
      ultimately have "components (?d @ seg) = components ?d @ [seg]" using 1(1) by blast
      with Cons False tw dw show ?thesis by (simp add: components_not_sep)
    qed
  qed
qed

lemma strip_device_append:
  assumes "dir_prefix pre" and "\<forall>c\<in>set seg. not_separator c" and "COLON \<notin> set seg" and "seg \<noteq> []"
  shows "\<exists>pre'. strip_device (pre @ seg) = pre' @ seg \<and> dir_prefix pre'"
proof -
  have drop_seps: "\<exists>pre'. dropWhile ml_path_separator (p @ seg) = pre' @ seg \<and> dir_prefix pre'"
    if "dir_prefix p" for p
    using that
  proof (induction p)
    case Nil
    then show ?case using assms(2,4) by (cases seg) (auto simp: dir_prefix_def)
  next
    case (Cons c p)
    then show ?case by (auto simp: dir_prefix_def split: if_splits)
  qed
  have drop_colon: "\<exists>pre'. drop 1 (dropWhile (\<lambda>c. c \<noteq> COLON) (p @ seg)) = pre' @ seg \<and> dir_prefix pre'"
    if "dir_prefix p" "COLON \<in> set p" for p
    using that
  proof (induction p)
    case (Cons c p)
    then show ?case
      by (cases "c = COLON") (auto simp: dir_prefix_def ml_path_separator_def split: if_splits)
  qed simp
  obtain p1 where p1: "dropWhile ml_path_separator (pre @ seg) = p1 @ seg" "dir_prefix p1"
    using drop_seps [OF assms(1)] by blast
  show ?thesis
  proof (cases "COLON \<in> set (takeWhile not_separator (p1 @ seg))")
    case True
    then have "COLON \<in> set p1" using assms(3) set_takeWhileD by fastforce
    then obtain p2 where "drop 1 (dropWhile (\<lambda>c. c \<noteq> COLON) (p1 @ seg)) = p2 @ seg" "dir_prefix p2"
      using drop_colon p1(2) by blast
    with True p1 drop_seps [of p2] show ?thesis by (simp add: strip_device_def Let_def)
  next
    case False
    with p1 drop_seps [of p1] show ?thesis by (simp add: strip_device_def Let_def)
  qed
qed

lemma resolve_dots_snoc:
  "seg \<noteq> [DOT] \<Longrightarrow> seg \<noteq> [DOT, DOT] \<Longrightarrow>
     resolve_dots stack (xs @ [seg]) = map_option (\<lambda>qs. qs @ [map towlower seg]) (resolve_dots stack xs)"
  by (induction stack xs rule: resolve_dots.induct) (auto split: list.split)

lemma wat_lower: "wat (map towlower s) i = towlower (wat s i)"
  by (simp add: wat_def towlower_def)

text \<open>The key of a path with a last segment ends with the folded segment.\<close>

lemma vfs_key_last_segment:
  assumes "vfs_last_segment path = Some seg" and "vfs_key path = Some key"
  shows "vfs_last_segment key = Some (map towlower seg)"
proof -
  have seg: "seg = ml_path_filename path" "seg \<noteq> []" "seg \<noteq> [DOT]" "seg \<noteq> [DOT, DOT]" "COLON \<notin> set seg"
    using assms(1) by (auto simp: vfs_last_segment_def Let_def split: if_splits)
  have ns: "\<forall>c\<in>set seg. not_separator c" using filename_no_sep seg(1) by blast
  obtain pre where pre: "path = pre @ seg" "dir_prefix pre" using filename_split [of path] seg(1) by blast
  obtain p' where p': "strip_device path = p' @ seg" "dir_prefix p'"
    using strip_device_append [OF pre(2) ns seg(5,2)] pre(1) by blast
  obtain qs where qs: "key = join_parts (qs @ [map towlower seg])"
    using assms(2) p' components_append [OF p'(2) ns seg(2)] resolve_dots_snoc [OF seg(3,4), of "[]"]
    by (auto simp: vfs_key_is_spec key_spec_def)
  let ?q = "map towlower seg"
  have "ml_path_filename key = ?q"
  proof (cases "qs = []")
    case True
    then show ?thesis using filename_append [of "[]" ?q] ns qs by (simp add: dir_prefix_def)
  next
    case False
    then show ?thesis using filename_append [of "join_parts qs @ [BSLASH]" ?q] ns qs
      by (simp add: dir_prefix_def join_parts_snoc ml_path_separator_def)
  qed
  moreover have "COLON \<notin> set ?q" using seg(5) by (auto simp: towlower_fix)
  moreover have "wat ?q 0 \<noteq> 0 \<and> \<not> (wat ?q 0 = DOT \<and> (wat ?q 1 = 0 \<or> (wat ?q 1 = DOT \<and> wat ?q 2 = 0)))"
    using assms(1) seg(1) by (auto simp: vfs_last_segment_def Let_def wat_lower towlower_fix split: if_splits)
  ultimately show ?thesis by (auto simp: vfs_last_segment_def)
qed

subsection \<open>Routing\<close>

text \<open>What a path is routed to: the entry of its normal form.\<close>

definition writable_spec :: "wstr \<Rightarrow> vfs \<Rightarrow> wstr option" where
  "writable_spec path v = (case vfs_key path of None \<Rightarrow> None | Some key \<Rightarrow> map_of (v_writable v) key)"

text \<open>The comparison of the operating system does not distinguish what the keys fold.\<close>

definition folds_case :: "(wchar \<Rightarrow> wchar) \<Rightarrow> bool" where
  "folds_case up \<longleftrightarrow> (\<forall>c. up (towlower c) = up c)"

lemma ordinal_folds_case: "ordinal_ascii up \<Longrightarrow> folds_case up"
  unfolding folds_case_def
proof
  fix c
  assume up: "ordinal_ascii up"
  show "up (towlower c) = up c"
  proof (cases "65 \<le> c \<and> c \<le> 90")
    case True
    then have "unat (c + 32) = unat c + 32" by (simp add: word_le_nat_alt unat_word_ariths)
    then have "97 \<le> c + 32 \<and> c + 32 \<le> 122 \<and> c + 32 < 128 \<and> c < 128 \<and> \<not> 97 \<le> c"
      using True by (simp add: word_le_nat_alt word_less_nat_alt)
    then show ?thesis using True up by (simp add: ordinal_ascii_def towlower_def)
  next
    case False
    then have "towlower c = c" unfolding towlower_def by (rule if_not_P)
    then show ?thesis by simp
  qed
qed

lemma find_map_of: "map_option snd (find (\<lambda>e. fst e = key) w) = map_of w key"
  by (induction w) auto

lemma find_None_map_of: "find (\<lambda>e. fst e = key) w = None \<longleftrightarrow> map_of w key = None"
  by (metis find_map_of option.map_disc_iff)

lemma prefilter_sound:
  assumes "folds_case up" and "\<not> vfs_writable_segment_may_match up path v"
  shows "writable_spec path v = None"
proof (rule ccontr)
  assume "writable_spec path v \<noteq> None"
  then obtain key phys where key: "vfs_key path = Some key" "(key, phys) \<in> set (v_writable v)"
    by (auto simp: writable_spec_def dest: map_of_SomeD split: option.splits)
  obtain seg where seg: "vfs_last_segment path = Some seg"
    using assms(2) by (auto simp: vfs_writable_segment_may_match_def split: option.splits)
  have "vfs_last_segment key = Some (map towlower seg)" by (rule vfs_key_last_segment [OF seg key(1)])
  moreover have "CompareStringOrdinal up seg (map towlower seg)"
    using assms(1) by (simp add: CompareStringOrdinal_def folds_case_def)
  ultimately have "vfs_writable_segment_may_match up path v"
    using key(2) seg by (auto simp: vfs_writable_segment_may_match_def list_ex_iff intro!: bexI [of _ "(key, phys)"])
  with assms(2) show False by simp
qed

text \<open>The states of the table, and what its cache holds in them.\<close>

inductive writable_reach :: "(wchar \<Rightarrow> wchar) \<Rightarrow> vfs \<Rightarrow> bool" for up where
  writable_init: "writable_reach up (vfs_init files depth)"
| writable_register: "writable_reach up v \<Longrightarrow> vfs_register_writable_path up virtual physical v = (ok, v')
     \<Longrightarrow> writable_reach up v'"
| writable_route: "writable_reach up v \<Longrightarrow> vfs_route_writable_path up path v = (r, v')
     \<Longrightarrow> writable_reach up v'"
| writable_enter: "writable_reach up v \<Longrightarrow> writable_reach up (vfs_recursion_guard_enter v)"
| writable_leave: "writable_reach up v \<Longrightarrow> writable_reach up (vfs_recursion_guard_leave v)"

definition writable_ok :: "vfs \<Rightarrow> bool" where
  "writable_ok v \<longleftrightarrow> (\<exists>cache. v_writable_cache v = Some cache
     \<and> (\<forall>path r. kh_get cache path = Some r \<longrightarrow> r = writable_spec path v))"

lemma with_heap_twice [simp]: "with_heap h (with_heap h' v) = with_heap h v"
  by (simp add: with_heap_def)

lemma v_heap_with_heap [simp]: "v_heap (with_heap h v) = h"
  by (simp add: v_heap_def with_heap_def)

lemma writable_spec_frame [simp]:
  "writable_spec path (with_heap h v) = writable_spec path v"
  "writable_spec path (v\<lparr>v_writable_cache := c\<rparr>) = writable_spec path v"
  "writable_spec path (v\<lparr>v_recursion_depth := n\<rparr>) = writable_spec path v"
  by (simp_all add: writable_spec_def split: option.split)

lemma writable_ok_with_heap [simp]: "writable_ok (with_heap h v) = writable_ok v"
  by (simp add: writable_ok_def)

text \<open>A registration either adds one route and forgets the cache, or it changes nothing.\<close>

lemma register_spec:
  assumes reg: "vfs_register_writable_path up virtual physical v = (ok, v')"
  shows "(\<exists>h. v' = with_heap h v) \<and>
       (ok \<longrightarrow> (\<exists>vp pp key p. virtual = Some vp \<and> physical = Some pp \<and> vfs_key vp = Some key
          \<and> map_of (v_writable v) key = Some p \<and> CompareStringOrdinal up pp p))
     \<or> ok \<and> (\<exists>vp pp key. virtual = Some vp \<and> physical = Some pp \<and> vfs_key vp = Some key
          \<and> map_of (v_writable v) key = None \<and> v_writable v' = v_writable v @ [(key, pp)]
          \<and> v_writable_cache v' = map_option (\<lambda>_. kh_init) (v_writable_cache v)
          \<and> v_recursion_depth v' = v_recursion_depth v)"
proof -
  have same: "(\<exists>h. v = with_heap h v)"
    by (rule exI [of _ "v_heap v"]) (simp add: with_heap_def v_heap_def)
  show ?thesis
  proof (cases "virtual = None \<or> physical = None \<or> physical = Some []")
    case True
    with reg have "v' = v \<and> \<not> ok"
      by (auto simp: vfs_register_writable_path_def split: option.splits)
    with same show ?thesis by auto
  next
    case False
    then obtain vp pp where vp: "virtual = Some vp" "physical = Some pp" "pp \<noteq> []" by auto
    obtain ko h1 where n: "v_normalize vp v = (ko, with_heap h1 v)" using v_normalize_heap by (metis surj_pair)
    show ?thesis
    proof (cases "ko = None \<or> ko = Some []")
      case True
      with reg vp n have "v' = with_heap h1 v \<and> \<not> ok"
        by (auto simp: vfs_register_writable_path_def)
      then show ?thesis by auto
    next
      case False
      then obtain key where key: "ko = Some key" "key \<noteq> []" by auto
      have k: "vfs_key vp = Some key" using n key v_normalize_Some by simp
      obtain b h2 where al: "v_alloc (with_heap h1 v) = (b, with_heap h2 v)"
        using v_alloc_heap [of "with_heap h1 v"] by (metis surj_pair with_heap_twice)
      show ?thesis
      proof (cases b)
        case False
        with reg vp n key al have "v' = with_heap h2 v \<and> \<not> ok"
          by (auto simp: vfs_register_writable_path_def)
        then show ?thesis by auto
      next
        case True
        show ?thesis
        proof (cases "find (\<lambda>e. fst e = key) (v_writable v)")
          case (Some e)
          then have "map_of (v_writable v) key = Some (snd e)" by (metis find_map_of option.simps(9))
          moreover have "v' = with_heap h2 v \<and> ok = CompareStringOrdinal up pp (snd e)"
            using reg vp n key al True Some by (auto simp: vfs_register_writable_path_def)
          ultimately show ?thesis using vp k by auto
        next
          case None
          then have new: "map_of (v_writable v) key = None" by (simp add: find_None_map_of)
          obtain b3 h3 where al3: "v_alloc (with_heap h2 v) = (b3, with_heap h3 v)"
            using v_alloc_heap [of "with_heap h2 v"] by (metis surj_pair with_heap_twice)
          have "v' = with_heap h3 v \<and> \<not> ok \<or> ok \<and> v_writable v' = v_writable v @ [(key, pp)]
              \<and> v_writable_cache v' = map_option (\<lambda>_. kh_init) (v_writable_cache v)
              \<and> v_recursion_depth v' = v_recursion_depth v"
            using reg vp n key al True None al3
            by (auto simp: vfs_register_writable_path_def clear_writable_cache_locked_def split: if_splits bool.splits)
          then show ?thesis using vp k new by auto
        qed
      qed
    qed
  qed
qed

lemma writable_ok_cache:
  "writable_ok v \<Longrightarrow> v_writable_cache v = Some cache \<Longrightarrow>
     writable_ok (with_heap h v\<lparr>v_writable_cache := Some (kh_set p (writable_spec p v) cache)\<rparr>)"
  by (auto simp: writable_ok_def kh_simps split: if_splits)

lemma v_alloc_ok: "heap_ok (v_heap v) \<Longrightarrow> v_alloc v = (True, with_heap (v_heap v) v)"
  by (simp add: v_alloc_def)

lemma route_spec:
  assumes ok: "writable_ok v" and up: "folds_case up" and r: "vfs_route_writable_path up path v = (r, v')"
  shows "writable_ok v' \<and> v_writable v' = v_writable v
     \<and> (\<forall>p. path = Some p \<longrightarrow> v_recursion_depth v = 0 \<longrightarrow> r = writable_spec p v
           \<or> r = None \<and> \<not> (heap_ok (v_heap v) \<and> length p < 2 ^ 60))"
proof -
  obtain cache where cache: "v_writable_cache v = Some cache"
    and hits: "\<And>p r. kh_get cache p = Some r \<Longrightarrow> r = writable_spec p v"
    using ok by (auto simp: writable_ok_def)
  show ?thesis
  proof (cases "path = None \<or> v_recursion_depth v \<noteq> 0 \<or> v_writable v = []")
    case True
    then have "r = None \<and> v' = v"
      using r cache by (auto simp: vfs_route_writable_path_def split: option.splits)
    with True ok show ?thesis by (auto simp: writable_spec_def split: option.split)
  next
    case False
    then obtain p where p: "path = Some p" "v_recursion_depth v = 0" "v_writable v \<noteq> []" by auto
    show ?thesis
    proof (cases "kh_get cache p")
      case (Some x)
      then have "r = x \<and> v' = v" using r p cache by (simp add: vfs_route_writable_path_def)
      with hits [OF Some] ok p show ?thesis by simp
    next
      case miss: None
      show ?thesis
      proof (cases "vfs_writable_segment_may_match up p v")
        case False
        then have "r = None \<and> v' = v" using r p cache miss by (simp add: vfs_route_writable_path_def)
        with prefilter_sound [OF up False] ok p show ?thesis by simp
      next
        case may: True
        obtain ko h1 where n: "v_normalize p v = (ko, with_heap h1 v)" using v_normalize_heap by (metis surj_pair)
        show ?thesis
        proof (cases ko)
          case None
          then have "r = None \<and> v' = with_heap h1 v" using r p cache miss may n
            by (simp add: vfs_route_writable_path_def)
          moreover have "writable_spec p v = None" if "heap_ok (v_heap v)" "length p < 2 ^ 60"
            using v_normalize_ok [OF that] n None by (simp add: writable_spec_def)
          ultimately show ?thesis using ok p by auto
        next
          case (Some key)
          then have spec: "writable_spec p v = map_of (v_writable v) key"
            using n v_normalize_Some by (simp add: writable_spec_def)
          obtain b h2 where al: "v_alloc (with_heap h1 v) = (b, with_heap h2 v)"
            using v_alloc_heap [of "with_heap h1 v"] by (metis surj_pair with_heap_twice)
          obtain b3 h3 where al3: "v_alloc (with_heap h2 v) = (b3, with_heap h3 v)"
            using v_alloc_heap [of "with_heap h2 v"] by (metis surj_pair with_heap_twice)
          show ?thesis
          proof (cases b)
            case False
            then have res: "r = None \<and> v' = with_heap h2 v" using r p cache miss may n Some al
              by (simp add: vfs_route_writable_path_def)
            have "\<not> (heap_ok (v_heap v) \<and> length p < 2 ^ 60)"
            proof
              assume h: "heap_ok (v_heap v) \<and> length p < 2 ^ 60"
              then have e: "with_heap h1 v = with_heap (v_heap v) v" using v_normalize_ok [of v p] n by (metis snd_conv)
              have "v_alloc (with_heap (v_heap v) v) = (True, with_heap (v_heap v) v)"
                using v_alloc_ok [of "with_heap (v_heap v) v"] h by simp
              with al e False show False by (metis fst_conv)
            qed
            with res ok p show ?thesis by simp
          next
            case True
            let ?w = "with_heap h3 v\<lparr>v_writable_cache := Some (kh_set p (writable_spec p v) cache)\<rparr>"
            have res: "r = writable_spec p v \<and> (v' = with_heap h3 v \<or> v' = ?w)"
              using r p cache miss may n Some al al3 True spec
              by (cases b3) (auto simp: vfs_route_writable_path_def Let_def find_map_of)
            then have "writable_ok v' \<and> v_writable v' = v_writable v"
              using ok writable_ok_cache [OF ok cache] by (elim conjE disjE) simp_all
            with res p show ?thesis by simp
          qed
        qed
      qed
    qed
  qed
qed

lemma writable_reach_ok:
  assumes "folds_case up"
  shows "writable_reach up v \<Longrightarrow> writable_ok v"
proof (induction rule: writable_reach.induct)
  case (writable_init files depth)
  show ?case by (simp add: writable_ok_def vfs_init_def kh_simps)
next
  case (writable_register v virtual physical ok v')
  from register_spec [OF writable_register(2)] show ?case
    using writable_register(3) by (auto simp: writable_ok_def kh_simps)
next
  case (writable_route v path r v')
  then show ?case using route_spec [OF _ assms] by blast
qed (simp_all add: writable_ok_def vfs_recursion_guard_enter_def vfs_recursion_guard_leave_def)

subsection \<open>Properties\<close>

text \<open>
  C12: a path is routed to the writable entry of its normal form. In every state the registrations
  and routes reach, neither the cache of earlier answers nor the comparison of last segments
  changes the answer; under the recursion guard nothing is routed, and when memory runs out the
  answer is none.
\<close>

theorem vfs_route_writable_path_spec:
  assumes "writable_reach up v" and "ordinal_ascii up"
    and "vfs_route_writable_path up (Some path) v = (r, v')"
  shows "(v_recursion_depth v = 0 \<and> heap_ok (v_heap v) \<and> length path < 2 ^ 60 \<longrightarrow>
            r = (case vfs_key path of None \<Rightarrow> None | Some key \<Rightarrow> map_of (v_writable v) key))
     \<and> (v_recursion_depth v \<noteq> 0 \<longrightarrow> r = None)
     \<and> (r \<noteq> None \<longrightarrow> r = (case vfs_key path of None \<Rightarrow> None | Some key \<Rightarrow> map_of (v_writable v) key))"
proof -
  have up: "folds_case up" by (rule ordinal_folds_case [OF assms(2)])
  have zero: "r = None" if "v_recursion_depth v \<noteq> 0"
    using assms(3) that by (auto simp: vfs_route_writable_path_def split: option.splits)
  from route_spec [OF writable_reach_ok [OF up assms(1)] up assms(3)] zero show ?thesis
    unfolding writable_spec_def by blast
qed

definition ascii_up :: "wchar \<Rightarrow> wchar" where
  "ascii_up c = (if 97 \<le> c \<and> c \<le> 122 then c - 32 else c)"

lemma ordinal_ascii_up: "ordinal_ascii ascii_up"
  by (simp add: ordinal_ascii_def ascii_up_def)

text \<open>The initial state after \<open>A\<close> has been made writable as \<open>B\<close>.\<close>

definition example_writable :: vfs where
  "example_writable =
     snd (vfs_register_writable_path ascii_up (Some [65]) (Some [66]) (vfs_init (fs_initial (\<lambda>_. True)) 0))"

lemma example_keys_AB: "vfs_key [65] = Some [97]" "vfs_key [97] = Some [97]"
  by code_simp+

lemma example_register:
  "vfs_register_writable_path ascii_up (Some [65]) (Some [66]) (vfs_init (fs_initial (\<lambda>_. True)) 0)
     = (True, example_writable)"
  "v_writable example_writable = [([97], [66])]" "v_recursion_depth example_writable = 0"
  "heap_ok (v_heap example_writable)"
  by (simp_all add: example_writable_def vfs_register_writable_path_def v_normalize_def vfs_normalize_path_ok
      example_keys_AB vfs_init_def v_alloc_def clear_writable_cache_locked_def with_heap_def v_heap_def fs_initial_def)

lemma example_writable_reach: "writable_reach ascii_up example_writable"
  using writable_register [OF writable_init example_register(1)] .

theorem vfs_route_writable_path_spec_witness:
  "fst (vfs_route_writable_path ascii_up (Some [97]) example_writable) = Some [66]"
proof -
  obtain r v' where r: "vfs_route_writable_path ascii_up (Some [97]) example_writable = (r, v')" by fastforce
  have "length [97 :: wchar] < 2 ^ 60" by simp
  then have "r = (case vfs_key [97] of None \<Rightarrow> None | Some key \<Rightarrow> map_of (v_writable example_writable) key)"
    using vfs_route_writable_path_spec [OF example_writable_reach ordinal_ascii_up r] example_register(3,4) by blast
  with r show ?thesis by (simp only: example_keys_AB example_register(2)) simp
qed

text \<open>
  C15: what is registered is routed. After a successful registration every spelling of the virtual
  path goes to the registered file (or to the one registered before, whose name is the same to
  the operating system).
\<close>

theorem vfs_register_then_route:
  assumes "writable_reach up v" and "ordinal_ascii up"
    and "vfs_register_writable_path up (Some virtual) (Some physical) v = (True, v1)"
    and "vfs_key path = vfs_key virtual" and "length path < 2 ^ 60"
    and "v_recursion_depth v = 0" and "heap_ok (v_heap v1)"
  shows "\<exists>p. fst (vfs_route_writable_path up (Some path) v1) = Some p \<and> CompareStringOrdinal up physical p"
proof -
  have up: "folds_case up" by (rule ordinal_folds_case [OF assms(2)])
  have reach: "writable_reach up v1" by (rule writable_register [OF assms(1,3)])
  obtain r v' where r: "vfs_route_writable_path up (Some path) v1 = (r, v')" by fastforce
  obtain key p where key: "vfs_key virtual = Some key" and p: "map_of (v_writable v1) key = Some p"
      "CompareStringOrdinal up physical p" and depth: "v_recursion_depth v1 = 0"
    using register_spec [OF assms(3)] assms(6) by (auto simp: CompareStringOrdinal_def map_add_def)
  have "writable_spec path v1 = Some p" using assms(4) key p(1) by (simp add: writable_spec_def)
  with route_spec [OF writable_reach_ok [OF up reach] up r] depth assms(5,7) p(2) r show ?thesis by auto
qed

theorem vfs_register_then_route_witness:
  "\<exists>p. fst (vfs_route_writable_path ascii_up (Some [97]) example_writable) = Some p
     \<and> CompareStringOrdinal ascii_up [66] p"
  by (rule vfs_register_then_route [OF writable_init ordinal_ascii_up example_register(1)])
    (simp_all add: example_keys_AB example_register(4) vfs_init_def)

end
