(* ===== verification/Vdf.thy ===== *)
theory Vdf
  imports Prelude
begin

text \<open>
  The reader of Valve's text KeyValues (\<open>src/src/steam/vdf.c\<close>): its tokens, the
  evaluator of conditionals, and the recursive descent that builds the tree.

  Bytes are \<^typ>\<open>8 word\<close>, and the unread input \<open>p->data + p->get .. p->size\<close> is the list
  \<open>vp_rest\<close>. A token is the string in \<open>p->token\<close> up to its NUL, returned as a value: every
  caller that keeps a token copies it before it reads the next one. Recursion and loops are on
  fuel; \<open>VdfTotal\<close> shows that what \<open>vdf_parse_buffer\<close> and \<open>evaluate_conditional\<close> give
  them is always enough.
\<close>

definition c_string :: "bytes \<Rightarrow> bytes" where
  "c_string s = takeWhile (\<lambda>c. c \<noteq> 0) s"

definition VDF_TOKEN_SIZE :: nat where "VDF_TOKEN_SIZE = 0x40000"
definition VDF_MAX_DEPTH :: nat where "VDF_MAX_DEPTH = 4096"
definition VDF_IDENTIFIER_SIZE :: nat where "VDF_IDENTIFIER_SIZE = 128"
definition INT_MAX :: nat where "INT_MAX = 2147483647"

record vdf_parser =
  vp_rest :: bytes
  vp_overflow :: bool
  vp_error :: bool
  vp_heap :: heap

definition vp_alloc :: "vdf_parser \<Rightarrow> bool \<times> vdf_parser" where
  "vp_alloc p = (case ml_mem_alloc (vp_heap p) of (ok, h) \<Rightarrow> (ok, p\<lparr>vp_heap := h\<rparr>))"

definition vp_fail :: "vdf_parser \<Rightarrow> vdf_parser" where
  "vp_fail p = p\<lparr>vp_error := True\<rparr>"

definition is_space :: "8 word \<Rightarrow> bool" where
  "is_space c \<longleftrightarrow> c = 32 \<or> (9 \<le> c \<and> c \<le> 13)"

definition ascii_upper :: "8 word \<Rightarrow> 8 word" where
  "ascii_upper c = (if 97 \<le> c \<and> c \<le> 122 then c - 32 else c)"

fun ascii_equal :: "bytes \<Rightarrow> bytes \<Rightarrow> bool" where
  "ascii_equal [] [] = True"
| "ascii_equal (l # left) (r # right) =
     (if ascii_upper l \<noteq> ascii_upper r then False else ascii_equal left right)"
| "ascii_equal _ _ = False"

subsection \<open>Text helpers\<close>

definition eat_white_space :: "vdf_parser \<Rightarrow> vdf_parser" where
  "eat_white_space p =
     (if vp_overflow p then p
      else let rest = dropWhile is_space (vp_rest p)
           in p\<lparr>vp_rest := rest, vp_overflow := (rest = [])\<rparr>)"

definition get_char :: "vdf_parser \<Rightarrow> 8 word \<times> vdf_parser" where
  "get_char p =
     (if vp_overflow p then (0, p)
      else case vp_rest p of
        [] \<Rightarrow> (0, p\<lparr>vp_overflow := True\<rparr>)
      | c # rest \<Rightarrow> (c, p\<lparr>vp_rest := rest\<rparr>))"

function skip_line :: "vdf_parser \<Rightarrow> vdf_parser" where
  "skip_line p =
     (case get_char p of (c, p') \<Rightarrow>
        if c \<noteq> 10 \<and> \<not> vp_overflow p' then skip_line p' else p')"
  by pat_completeness auto

termination skip_line
  by (relation "measure (\<lambda>p. length (vp_rest p))")
    (auto simp: get_char_def split: if_splits list.splits)

declare skip_line.simps [simp del]

definition eat_cpp_comment :: "vdf_parser \<Rightarrow> bool \<times> vdf_parser" where
  "eat_cpp_comment p =
     (if vp_overflow p \<or> length (vp_rest p) < 2
         \<or> bat (vp_rest p) 0 \<noteq> 47 \<or> bat (vp_rest p) 1 \<noteq> 47 then (False, p)
      else (True, skip_line (p\<lparr>vp_rest := drop 2 (vp_rest p)\<rparr>)))"

definition escaped_char :: "8 word \<Rightarrow> 8 word" where
  "escaped_char c =
     (if c = 110 then 10 else if c = 116 then 9 else if c = 118 then 11 else if c = 98 then 8
      else if c = 114 then 13 else if c = 102 then 12 else if c = 97 then 7
      else if c = 92 then 92 else if c = 63 then 63 else if c = 39 then 39
      else if c = 34 then 34 else 0)"

definition get_delimited_char :: "vdf_parser \<Rightarrow> 8 word \<times> vdf_parser" where
  "get_delimited_char p =
     (case get_char p of (c, p) \<Rightarrow>
        if c \<noteq> 92 then (c, p)
        else case vp_rest p of
          [] \<Rightarrow> (0, p)
        | d # rest \<Rightarrow>
            let converted = escaped_char d
            in (converted, if converted \<noteq> 0 then p\<lparr>vp_rest := rest\<rparr> else p))"

text \<open>The loop of \<open>read_quoted\<close>; \<open>token\<close> holds the characters stored so far.\<close>

function quoted_loop :: "bytes \<Rightarrow> vdf_parser \<Rightarrow> bytes \<times> vdf_parser" where
  "quoted_loop token p =
     (if vp_overflow p then (token, p)
      else if vp_rest p \<noteq> [] \<and> hd (vp_rest p) = 34 then (token, p\<lparr>vp_rest := tl (vp_rest p)\<rparr>)
      else case get_delimited_char p of (c, p') \<Rightarrow>
        quoted_loop (if length token < VDF_TOKEN_SIZE then token @ [c] else token) p')"
  by pat_completeness auto

termination quoted_loop
  by (relation "measures [\<lambda>(token, p). length (vp_rest p), \<lambda>(token, p). if vp_overflow p then 0 else 1]")
    (auto simp: get_delimited_char_def get_char_def Let_def split: if_splits list.splits prod.splits)

declare quoted_loop.simps [simp del]

definition read_quoted :: "vdf_parser \<Rightarrow> bytes \<times> vdf_parser" where
  "read_quoted p =
     (case quoted_loop [] (p\<lparr>vp_rest := tl (vp_rest p)\<rparr>) of (token, p) \<Rightarrow>
        let stored = (if length token \<ge> VDF_TOKEN_SIZE then VDF_TOKEN_SIZE - 1 else length token)
        in (c_string (take stored token), p))"

function eat_comments :: "vdf_parser \<Rightarrow> vdf_parser" where
  "eat_comments p =
     (case eat_cpp_comment p of
        (False, p') \<Rightarrow> p'
      | (True, p') \<Rightarrow>
          let p'' = eat_white_space p'
          in if vp_overflow p'' then p'' else eat_comments p'')"
  by pat_completeness auto

lemma skip_line_shorter: "length (vp_rest (skip_line p)) \<le> length (vp_rest p)"
proof (induction p rule: skip_line.induct)
  case (1 p)
  obtain c p' where g: "get_char p = (c, p')" by fastforce
  then have "length (vp_rest p') \<le> length (vp_rest p)"
    by (auto simp: get_char_def split: if_splits list.splits)
  with 1 g show ?case by (subst skip_line.simps) (auto intro: order_trans)
qed

lemma eat_white_space_shorter: "length (vp_rest (eat_white_space p)) \<le> length (vp_rest p)"
  by (simp add: eat_white_space_def Let_def length_dropWhile_le)

lemma eat_cpp_comment_shorter:
  "eat_cpp_comment p = (True, p') \<Longrightarrow> length (vp_rest p') < length (vp_rest p)"
  using skip_line_shorter [of "p\<lparr>vp_rest := drop 2 (vp_rest p)\<rparr>"]
  by (auto simp: eat_cpp_comment_def split: if_splits)

termination eat_comments
proof (relation "measure (\<lambda>p. length (vp_rest p))", simp)
  fix p p' p'' x
  assume "(x, p') = eat_cpp_comment p" "x = True" "p'' = eat_white_space p'"
  then show "(p'', p) \<in> measure (\<lambda>p. length (vp_rest p))"
    using eat_white_space_shorter [of p'] eat_cpp_comment_shorter [of p p'] by (simp add: order_le_less_trans)
qed

declare eat_comments.simps [simp del]

subsection \<open>Tokens\<close>

text \<open>
  The loop over an unquoted token: the characters stored, whether \<open>[\<close> has been seen, whether it
  is a conditional, and whether it was too long.
\<close>

fun unquoted_loop :: "bytes \<Rightarrow> bytes \<Rightarrow> bool \<Rightarrow> bool \<Rightarrow> bool \<Rightarrow> bytes \<times> bytes \<times> bool \<times> bool" where
  "unquoted_loop [] token bracket conditional reported = ([], token, conditional, reported)"
| "unquoted_loop (c # rest) token bracket conditional reported =
     (if c = 0 \<or> c = 34 \<or> c = 61 \<or> c = 123 \<or> c = 125 then (c # rest, token, conditional, reported)
      else
        let conditional = (if c = 91 then conditional else if c = 93 \<and> bracket then True else conditional);
            bracket = (if c = 91 then True else bracket)
        in if is_space c then (c # rest, token, conditional, reported)
           else if length token < VDF_TOKEN_SIZE - 1
                then unquoted_loop rest (token @ [c]) bracket conditional reported
                else unquoted_loop rest token bracket conditional True)"

text \<open>The token (\<open>None\<close> for NULL), whether it was quoted and whether it is a conditional.\<close>

definition read_token :: "vdf_parser \<Rightarrow> bytes option \<times> bool \<times> bool \<times> vdf_parser" where
  "read_token p =
     (if vp_overflow p then (None, False, False, p)
      else let p = eat_white_space p
      in if vp_overflow p then (None, False, False, p)
      else let p = eat_comments p
      in if vp_overflow p then (None, False, False, p)
      else case vp_rest p of
        [] \<Rightarrow> (None, False, False, p)
      | c # rest \<Rightarrow>
          if c = 34 then (case read_quoted p of (token, p) \<Rightarrow> (Some token, True, False, p))
          else if c = 123 \<or> c = 125 \<or> c = 61 then (Some [c], False, False, p\<lparr>vp_rest := rest\<rparr>)
          else case unquoted_loop (c # rest) [] False False False of
            (rest, token, conditional, reported) \<Rightarrow>
              (Some token, False, conditional,
               p\<lparr>vp_rest := rest, vp_error := (vp_error p \<or> reported)\<rparr>))"

subsection \<open>Conditionals\<close>

text \<open>\<open>ve_text\<close> is the text from \<open>position\<close> on; past its end the characters are NUL.\<close>

record vdf_expression =
  ve_text :: bytes
  ve_current :: "8 word"
  ve_depth :: nat

definition next_token :: "vdf_expression \<Rightarrow> vdf_expression" where
  "next_token e =
     (let text = dropWhile (\<lambda>c. c = 32) (ve_text e)
      in e\<lparr>ve_current := bat text 0, ve_text := drop 1 text\<rparr>)"

definition evaluate_symbol :: "bytes \<Rightarrow> bool" where
  "evaluate_symbol identifier =
     (let name = (if bat identifier 0 = 36 then drop 1 identifier else identifier)
      in if ascii_equal identifier (B ''$0'') then False
         else if ascii_equal identifier (B ''$1'') then True
         else list_ex (ascii_equal name) [B ''WINDOWS'', B ''WIN32'', B ''WIN64'', B ''VISTA'', B ''WIN7''])"

definition is_digit :: "8 word \<Rightarrow> bool" where
  "is_digit c \<longleftrightarrow> 48 \<le> c \<and> c \<le> 57"

definition is_ascii_alnum :: "8 word \<Rightarrow> bool" where
  "is_ascii_alnum c \<longleftrightarrow> is_digit c \<or> (65 \<le> c \<and> c \<le> 90) \<or> (97 \<le> c \<and> c \<le> 122)"

text \<open>The loops that collect an identifier or a number, up to the size of the buffer.\<close>

fun identifier_loop :: "(8 word \<Rightarrow> bool) \<Rightarrow> bytes \<Rightarrow> bytes \<Rightarrow> bytes \<times> bytes" where
  "identifier_loop ok identifier [] = (identifier, [])"
| "identifier_loop ok identifier (c # text) =
     (if ok c \<and> length identifier < VDF_IDENTIFIER_SIZE
      then identifier_loop ok (identifier @ [c]) text else (identifier, c # text))"

definition factor_identifier :: "vdf_expression \<Rightarrow> bytes \<times> vdf_expression" where
  "factor_identifier e =
     (case (if ve_current e = 36
            then identifier_loop (\<lambda>c. is_ascii_alnum c \<or> c = 95) [36] (ve_text e)
            else identifier_loop is_digit [ve_current e] (ve_text e)) of
        (identifier, text) \<Rightarrow> (identifier, e\<lparr>ve_text := text\<rparr>))"

definition factor_value :: "bytes \<Rightarrow> bool" where
  "factor_value identifier =
     (if bat identifier 0 = 36 then evaluate_symbol identifier
      else length (takeWhile (\<lambda>c. c = 48) identifier) \<noteq> length identifier)"

fun make_factor :: "nat \<Rightarrow> vdf_expression \<Rightarrow> (bool \<times> vdf_expression) option"
and make_term :: "nat \<Rightarrow> vdf_expression \<Rightarrow> (bool \<times> vdf_expression) option"
and term_loop :: "nat \<Rightarrow> bool \<Rightarrow> vdf_expression \<Rightarrow> (bool \<times> vdf_expression) option"
and make_expression :: "nat \<Rightarrow> vdf_expression \<Rightarrow> (bool \<times> vdf_expression) option"
and expression_loop :: "nat \<Rightarrow> bool \<Rightarrow> vdf_expression \<Rightarrow> (bool \<times> vdf_expression) option" where
  "make_factor 0 e = None"
| "make_factor (Suc fuel) e =
     (if ve_current e = 40 then
        let e = next_token e
        in case (if ve_depth e < VDF_MAX_DEPTH then
                   (case make_expression fuel (e\<lparr>ve_depth := ve_depth e + 1\<rparr>) of
                      None \<Rightarrow> None
                    | Some (value, e) \<Rightarrow> Some (value, e\<lparr>ve_depth := ve_depth e - 1\<rparr>))
                 else Some (False, e)) of
             None \<Rightarrow> None
           | Some (value, e) \<Rightarrow> Some (value, next_token e)
      else if ve_current e = 36 \<or> is_digit (ve_current e) then
        case factor_identifier e of (identifier, e) \<Rightarrow>
          if length identifier \<ge> VDF_IDENTIFIER_SIZE - 1 then Some (False, next_token e)
          else Some (factor_value identifier, next_token e)
      else if ve_current e = 33 then Some (False, e)
      else Some (False, next_token e))"
| "make_term 0 e = None"
| "make_term (Suc fuel) e =
     (case make_factor fuel e of None \<Rightarrow> None | Some (value, e) \<Rightarrow> term_loop fuel value e)"
| "term_loop 0 value e = None"
| "term_loop (Suc fuel) value e =
     (if ve_current e = 33 then
        (case make_factor fuel (next_token e) of None \<Rightarrow> None
         | Some (value, e) \<Rightarrow> term_loop fuel (\<not> value) e)
      else Some (value, e))"
| "make_expression 0 e = None"
| "make_expression (Suc fuel) e =
     (case make_term fuel e of None \<Rightarrow> None | Some (value, e) \<Rightarrow> expression_loop fuel value e)"
| "expression_loop 0 value e = None"
| "expression_loop (Suc fuel) value e =
     (if ve_current e = 124 \<or> ve_current e = 38 then
        let oper = ve_current e;
            nxt = bat (ve_text e) 0;
            e = e\<lparr>ve_text := drop 1 (ve_text e)\<rparr>
        in if and nxt oper \<noteq> oper then Some (value, e)
           else case make_term fuel (next_token e) of None \<Rightarrow> None
             | Some (right, e) \<Rightarrow>
                 expression_loop fuel (if oper = 38 then value \<and> right else value \<or> right) e
      else Some (value, e))"

definition evaluate_conditional :: "bytes \<Rightarrow> bool" where
  "evaluate_conditional token =
     (if token = [] then False
      else let e = next_token \<lparr>ve_text = drop 1 token, ve_current = 0, ve_depth = 0\<rparr>
           in case make_expression (4 * length token + 8) e of
                None \<Rightarrow> False | Some (value, _) \<Rightarrow> value)"

subsection \<open>The tree\<close>

datatype vdf_object = Vdf_object (vo_key: "bytes option") (vo_data: vdf_data)
and vdf_data =
    VDF_TYPE_NONE
  | VDF_TYPE_ARRAY "vdf_object list"
  | VDF_TYPE_STRING bytes

text \<open>\<open>copy_string\<close> and \<open>calloc\<close> fail when memory runs out; the parser then has an error.\<close>

definition copy_string :: "bytes \<Rightarrow> vdf_parser \<Rightarrow> bytes option \<times> vdf_parser" where
  "copy_string s p = (case vp_alloc p of (True, p) \<Rightarrow> (Some s, p) | (False, p) \<Rightarrow> (None, p))"

definition new_object :: "bytes option \<Rightarrow> vdf_parser \<Rightarrow> vdf_object option \<times> vdf_parser" where
  "new_object key p =
     (case vp_alloc p of
        (False, p) \<Rightarrow> (None, vp_fail p)
      | (True, p) \<Rightarrow>
          (case key of
             None \<Rightarrow> (Some (Vdf_object None VDF_TYPE_NONE), p)
           | Some k \<Rightarrow>
               (case copy_string k p of
                  (None, p) \<Rightarrow> (None, vp_fail p)
                | (Some copy, p) \<Rightarrow> (Some (Vdf_object (Some copy) VDF_TYPE_NONE), p))))"

definition clear_object :: "vdf_object \<Rightarrow> vdf_object" where
  "clear_object obj = Vdf_object (vo_key obj) VDF_TYPE_NONE"

definition set_key :: "vdf_object \<Rightarrow> bytes \<Rightarrow> vdf_parser \<Rightarrow> (vdf_object option) \<times> vdf_parser" where
  "set_key obj key p =
     (case copy_string key p of
        (None, p) \<Rightarrow> (None, vp_fail p)
      | (Some copy, p) \<Rightarrow> (Some (Vdf_object (Some copy) (vo_data obj)), p))"

definition append_child :: "vdf_object list \<Rightarrow> vdf_object \<Rightarrow> vdf_parser \<Rightarrow> vdf_object list \<times> vdf_parser" where
  "append_child children child p =
     (case vp_alloc p of (False, p) \<Rightarrow> (children, vp_fail p) | (True, p) \<Rightarrow> (children @ [child], p))"

fun remove_first_named :: "bytes \<Rightarrow> vdf_object list \<Rightarrow> vdf_object list" where
  "remove_first_named key [] = []"
| "remove_first_named key (child # children) =
     (if ascii_equal (case vo_key child of None \<Rightarrow> [] | Some k \<Rightarrow> k) key then children
      else child # remove_first_named key children)"

text \<open>\<open>strtol\<close> in base 10 for a 32-bit \<open>long\<close>: the number, what it consumed, whether it overflowed.\<close>

definition LONG_MAX :: int where "LONG_MAX = 2147483647"
definition LONG_MIN :: int where "LONG_MIN = -2147483648"

definition digits_value :: "bytes \<Rightarrow> nat" where
  "digits_value ds = foldl (\<lambda>n d. n * 10 + (unat d - 48)) 0 ds"

definition strtol10 :: "bytes \<Rightarrow> int \<times> nat \<times> bool" where
  "strtol10 s =
     (let rest = dropWhile is_space s;
          negative = (bat rest 0 = 45);
          rest = (if bat rest 0 = 45 \<or> bat rest 0 = 43 then drop 1 rest else rest);
          digits = takeWhile is_digit rest;
          n = (if negative then - int (digits_value digits) else int (digits_value digits))
      in if digits = [] then (0, 0, False)
         else (if n > LONG_MAX then LONG_MAX else if n < LONG_MIN then LONG_MIN else n,
               length s - length (drop (length digits) rest), n > LONG_MAX \<or> n < LONG_MIN))"

text \<open>\<open>%ld\<close>\<close>

fun dec_digits :: "nat \<Rightarrow> bytes" where
  "dec_digits n = (if n < 10 then [of_nat (48 + n)] else dec_digits (n div 10) @ [of_nat (48 + n mod 10)])"

declare dec_digits.simps [simp del]

definition dec_string :: "int \<Rightarrow> bytes" where
  "dec_string n = (if n < 0 then 45 # dec_digits (nat (- n)) else dec_digits (nat n))"

definition number_char :: "8 word \<Rightarrow> bool" where
  "number_char c \<longleftrightarrow> c = 32 \<or> c = 43 \<or> c = 44 \<or> c = 45 \<or> c = 46 \<or> is_digit c"

definition stored_value :: "bytes \<Rightarrow> bytes" where
  "stored_value v =
     (if v \<noteq> [] \<and> list_all number_char v then
        (case strtol10 v of (number, consumed, overflow) \<Rightarrow>
           if (consumed = length v \<and> bat v 0 \<noteq> 48 \<and> \<not> overflow) \<or> (bat v 0 = 48 \<and> bat v 1 = 0)
           then dec_string number else v)
      else v)"

definition set_value :: "vdf_object \<Rightarrow> bytes \<Rightarrow> vdf_parser \<Rightarrow> bool \<times> vdf_object \<times> vdf_parser" where
  "set_value obj v p =
     (case copy_string (stored_value v) p of
        (None, p) \<Rightarrow> (False, obj, vp_fail p)
      | (Some str, p) \<Rightarrow> (True, Vdf_object (vo_key obj) (VDF_TYPE_STRING str), p))"

subsection \<open>The recursive descent\<close>

text \<open>
  One entry of a block after its name: \<open>value\<close> and the state are what the reads up to the value
  leave, \<open>children\<close> what a conditional before the value may have removed.
\<close>

definition entry_value ::
  "bytes \<Rightarrow> vdf_object list \<Rightarrow> vdf_parser
     \<Rightarrow> bytes option \<times> bool \<times> bool \<times> bool \<times> vdf_object list \<times> vdf_parser" where
  "entry_value key children p =
     (let (v, quoted, conditional, p) = read_token p;
          (accepted, v, quoted, conditional, p) =
            (case v of
               Some t \<Rightarrow> if conditional then (evaluate_conditional t, read_token p)
                         else (True, v, quoted, conditional, p)
             | None \<Rightarrow> (True, v, quoted, conditional, p))
      in case v of
           None \<Rightarrow> (v, quoted, conditional, accepted, children, p)
         | Some t \<Rightarrow>
             if bat t 0 = 61 \<and> \<not> quoted then
               let (v, quoted, conditional, p) = read_token p
               in if conditional then
                    let (accepted, v, quoted, conditional, p) =
                      (case v of
                         Some t \<Rightarrow> (evaluate_conditional t, read_token p)
                       | None \<Rightarrow> (accepted, v, quoted, conditional, p))
                    in (v, quoted, conditional, accepted,
                        if accepted then remove_first_named key children else children, p)
                  else (v, quoted, conditional, accepted, children, p)
             else (v, quoted, conditional, accepted, children, p))"

text \<open>A value, and the token after it if that is a conditional.\<close>

definition store_value ::
  "bytes \<Rightarrow> bytes \<Rightarrow> vdf_object \<Rightarrow> bool \<Rightarrow> vdf_object list \<Rightarrow> vdf_parser
     \<Rightarrow> vdf_object \<times> bool \<times> vdf_object list \<times> vdf_parser" where
  "store_value key v child accepted children p =
     (case set_value child v p of
        (False, child, p) \<Rightarrow> (child, accepted, children, p)
      | (True, child, p) \<Rightarrow>
          (case read_token p of
             (peek, _, True, q) \<Rightarrow>
               let accepted = evaluate_conditional (case peek of None \<Rightarrow> [] | Some t \<Rightarrow> t)
               in (child, accepted, if accepted then remove_first_named key children else children, q)
           | (_, _, False, q) \<Rightarrow>
               (child, accepted, children, q\<lparr>vp_rest := vp_rest p, vp_overflow := False\<rparr>)))"

text \<open>
  \<open>load_block\<close> returns the children of the object, which it makes an array; its loop is
  \<open>load_loop\<close>. \<open>None\<close> is running out of fuel.
\<close>

fun load_block :: "nat \<Rightarrow> nat \<Rightarrow> vdf_parser \<Rightarrow> (vdf_object list \<times> vdf_parser) option"
and load_loop :: "nat \<Rightarrow> nat \<Rightarrow> vdf_object list \<Rightarrow> vdf_parser \<Rightarrow> (vdf_object list \<times> vdf_parser) option" where
  "load_block 0 depth p = None"
| "load_block (Suc fuel) depth p =
     (if depth > VDF_MAX_DEPTH then Some ([], vp_fail p) else load_loop fuel depth [] p)"
| "load_loop 0 depth children p = None"
| "load_loop (Suc fuel) depth children p =
     (case read_token p of (name, quoted, conditional, p) \<Rightarrow>
        case name of
          None \<Rightarrow> Some (children, vp_fail p)
        | Some name \<Rightarrow>
            if vp_error p then Some (children, vp_fail p)
            else if name = [] then Some (children, vp_fail p)
            else if bat name 0 = 125 \<and> \<not> quoted then Some (children, p)
            else case new_object (Some name) p of
              (None, p) \<Rightarrow> Some (children, p)
            | (Some child, p) \<Rightarrow>
                (case entry_value name children p of (v, quoted, conditional, accepted, children, p) \<Rightarrow>
                   case v of
                     None \<Rightarrow> Some (children, vp_fail p)
                   | Some v \<Rightarrow>
                       if (bat v 0 = 125 \<and> \<not> quoted) \<or> (\<not> (bat v 0 = 123 \<and> \<not> quoted) \<and> conditional)
                       then Some (children, vp_fail p)
                       else case (if bat v 0 = 123 \<and> \<not> quoted
                                  then map_option
                                    (\<lambda>(cs, p). (Vdf_object (vo_key child) (VDF_TYPE_ARRAY cs), accepted, children, p))
                                    (load_block fuel (depth + 1) p)
                                  else Some (store_value name v child accepted children p)) of
                         None \<Rightarrow> None
                       | Some (child, accepted, children, p) \<Rightarrow>
                           (case (if vp_error p \<or> \<not> accepted then (children, p)
                                  else append_child children child p) of
                              (children, p) \<Rightarrow> load_loop fuel depth children p)))"

subsection \<open>Top-level entries\<close>

datatype vdf_current = Current_null | Current_root | Current_scratch vdf_object

definition INCLUDE :: bytes where "INCLUDE = B ''#include''"

fun top_loop :: "nat \<Rightarrow> vdf_object \<Rightarrow> vdf_current \<Rightarrow> vdf_parser \<Rightarrow> (vdf_object \<times> vdf_parser) option" where
  "top_loop 0 root current p = None"
| "top_loop (Suc fuel) root current p =
     (case read_token p of (s, quoted, conditional, p) \<Rightarrow>
        case s of
          None \<Rightarrow> Some (root, p)
        | Some s \<Rightarrow>
            if vp_overflow p \<or> (s = [] \<and> \<not> quoted) then Some (root, p)
            else if ascii_equal s INCLUDE then
              (case read_token p of (f, _, _, p) \<Rightarrow>
                 let p = (if f = None \<or> f = Some [] then vp_fail p else p)
                 in if \<not> vp_overflow p \<and> \<not> vp_error p then top_loop fuel root current p else Some (root, p))
            else
              case (case current of
                      Current_null \<Rightarrow> new_object (Some s) p
                    | Current_root \<Rightarrow> set_key root s p
                    | Current_scratch obj \<Rightarrow> set_key obj s p) of
                (None, p) \<Rightarrow> Some (root, p)
              | (Some obj, p) \<Rightarrow>
                  (case read_token p of (v, quoted, conditional, p) \<Rightarrow>
                     case (if conditional
                           then (evaluate_conditional (case v of None \<Rightarrow> [] | Some t \<Rightarrow> t), read_token p)
                           else (True, v, quoted, conditional, p)) of
                       (accepted, v, quoted, conditional, p) \<Rightarrow>
                         case (if v \<noteq> None \<and> bat (the v) 0 = 123 \<and> \<not> quoted
                               then map_option (\<lambda>(cs, p). (Vdf_object (vo_key obj) (VDF_TYPE_ARRAY cs), p))
                                      (load_block fuel 1 p)
                               else Some (obj, vp_fail p)) of
                           None \<Rightarrow> None
                         | Some (obj, p) \<Rightarrow>
                             let obj = (if accepted then obj else clear_object obj);
                                 root = (if current = Current_root then obj else root);
                                 current =
                                   (if accepted then Current_null
                                    else if current = Current_root then Current_root else Current_scratch obj)
                             in if \<not> vp_overflow p \<and> \<not> vp_error p then top_loop fuel root current p
                                else Some (root, p)))"

definition UTF8_BOM :: bytes where "UTF8_BOM = [239, 187, 191]"

definition vdf_parse_buffer :: "bytes option \<Rightarrow> heap \<Rightarrow> vdf_object option \<times> heap" where
  "vdf_parse_buffer buffer h =
     (case buffer of None \<Rightarrow> (None, h)
      | Some data \<Rightarrow>
          if length data > INT_MAX then (None, h)
          else case ml_mem_alloc h of
            (False, h) \<Rightarrow> (None, h)
          | (True, h) \<Rightarrow>
              (case new_object None \<lparr>vp_rest = data, vp_overflow = False, vp_error = False, vp_heap = h\<rparr> of
                 (None, p) \<Rightarrow> (None, vp_heap p)
               | (Some root, p) \<Rightarrow>
                   let p = (if take 3 data = UTF8_BOM then p\<lparr>vp_rest := drop 3 data\<rparr> else p)
                   in case top_loop (length data + 3) root Current_root p of
                        None \<Rightarrow> (None, h)
                      | Some (root, p) \<Rightarrow> (if vp_error p then None else Some root, vp_heap p)))"

text \<open>
  The file system as \<open>vdf_parse_file\<close> meets it: opening gives the size, if it can be read, and
  what reading that many bytes yields.
\<close>

type_synonym vdf_files = "wstr \<Rightarrow> (int option \<times> (nat \<Rightarrow> bytes option)) option"

definition vdf_parse_file :: "vdf_files \<Rightarrow> wstr \<Rightarrow> heap \<Rightarrow> vdf_object option \<times> heap" where
  "vdf_parse_file files path h =
     (case files path of
        Some (Some bytes_size, contents) \<Rightarrow>
          if bytes_size > 0 \<and> bytes_size \<le> int INT_MAX then
            (case ml_mem_alloc h of
               (False, h) \<Rightarrow> (None, h)
             | (True, h) \<Rightarrow>
                 (case contents (nat bytes_size) of
                    None \<Rightarrow> (None, h)
                  | Some data \<Rightarrow> if data = [] then (None, h) else vdf_parse_buffer (Some data) h))
          else (None, h)
      | _ \<Rightarrow> (None, h))"

subsection \<open>Access\<close>

definition children_of :: "vdf_object option \<Rightarrow> vdf_object list" where
  "children_of obj = (case obj of Some (Vdf_object _ (VDF_TYPE_ARRAY cs)) \<Rightarrow> cs | _ \<Rightarrow> [])"

definition vdf_object_get_array_length :: "vdf_object option \<Rightarrow> nat" where
  "vdf_object_get_array_length obj = length (children_of obj)"

definition vdf_object_index_array :: "vdf_object option \<Rightarrow> nat \<Rightarrow> vdf_object option" where
  "vdf_object_index_array obj i =
     (if i < vdf_object_get_array_length obj then Some (children_of obj ! i) else None)"

fun first_named :: "bytes \<Rightarrow> vdf_object list \<Rightarrow> vdf_object option" where
  "first_named str [] = None"
| "first_named str (child # cs) =
     (case vo_key child of
        Some k \<Rightarrow> if ascii_equal k str then Some child else first_named str cs
      | None \<Rightarrow> first_named str cs)"

definition vdf_object_index_array_str :: "vdf_object option \<Rightarrow> bytes option \<Rightarrow> vdf_object option" where
  "vdf_object_index_array_str obj str =
     (case str of None \<Rightarrow> None | Some s \<Rightarrow> first_named s (children_of obj))"

definition vdf_object_get_string :: "vdf_object option \<Rightarrow> bytes option" where
  "vdf_object_get_string obj = (case obj of Some (Vdf_object _ (VDF_TYPE_STRING s)) \<Rightarrow> Some s | _ \<Rightarrow> None)"

end
