(* ===== verification/VdfTotal.thy ===== *)
theory VdfTotal
  imports Vdf
begin

text \<open>
  The reader of KeyValues (\<open>src/src/steam/vdf.c\<close>) always returns, within its bounds:
  the fuel of the model is enough for every input and every failure of memory, tokens fit their
  buffer, and the tree it returns is well formed and no deeper than \<open>VDF_MAX_DEPTH\<close>.
\<close>

subsection \<open>Tokens\<close>

lemma eat_white_space_rest: "length (vp_rest (eat_white_space p)) \<le> length (vp_rest p)"
  by (rule eat_white_space_shorter)

lemma eat_comments_rest: "length (vp_rest (eat_comments p)) \<le> length (vp_rest p)"
proof (induction p rule: eat_comments.induct)
  case (1 p)
  show ?case
  proof (cases "eat_cpp_comment p")
    case (Pair b p')
    show ?thesis
    proof (cases b)
      case False
      with Pair have "p' = p" by (auto simp: eat_cpp_comment_def split: if_splits)
      with Pair False show ?thesis by (simp add: eat_comments.simps [of p])
    next
      case True
      with Pair have "length (vp_rest p') < length (vp_rest p)" by (simp add: eat_cpp_comment_shorter)
      moreover have "length (vp_rest (eat_white_space p')) \<le> length (vp_rest p')" by (rule eat_white_space_rest)
      ultimately show ?thesis using 1 Pair True
        by (simp add: eat_comments.simps [of p] Let_def) (meson le_less_trans less_imp_le order_trans)
    qed
  qed
qed

lemma get_delimited_rest: "get_delimited_char p = (c, p') \<Longrightarrow> length (vp_rest p') \<le> length (vp_rest p)"
  by (auto simp: get_delimited_char_def get_char_def Let_def split: if_splits list.splits prod.splits)

lemma quoted_loop_bounds:
  "quoted_loop token p = (token', p') \<Longrightarrow> length token \<le> VDF_TOKEN_SIZE \<Longrightarrow>
     length (vp_rest p') \<le> length (vp_rest p) \<and> length token' \<le> VDF_TOKEN_SIZE"
proof (induction token p rule: quoted_loop.induct)
  case (1 token p)
  show ?case
  proof (cases "vp_overflow p \<or> vp_rest p \<noteq> [] \<and> hd (vp_rest p) = 34")
    case True
    with 1(2,3) show ?thesis by (auto simp: quoted_loop.simps [of token p] split: if_splits)
  next
    case False
    obtain c q where d: "get_delimited_char p = (c, q)" by fastforce
    let ?t = "if length token < VDF_TOKEN_SIZE then token @ [c] else token"
    have "quoted_loop ?t q = (token', p')" using 1(2) False d by (auto simp: quoted_loop.simps [of token p])
    moreover have "length ?t \<le> VDF_TOKEN_SIZE" using 1(3) by simp
    ultimately have "length (vp_rest p') \<le> length (vp_rest q) \<and> length token' \<le> VDF_TOKEN_SIZE"
      using 1(1) False d by auto
    with get_delimited_rest [OF d] show ?thesis by linarith
  qed
qed

lemma c_string_facts: "length (c_string s) \<le> length s \<and> 0 \<notin> set (c_string s)"
  by (auto simp: c_string_def length_takeWhile_le dest: set_takeWhileD)

text \<open>A token fits the buffer with its NUL.\<close>

definition token_ok :: "bytes \<Rightarrow> bool" where
  "token_ok t \<longleftrightarrow> length t < VDF_TOKEN_SIZE \<and> 0 \<notin> set t"

lemma token_size [simp]: "0 < VDF_TOKEN_SIZE" "Suc 0 < VDF_TOKEN_SIZE"
  by (simp_all add: VDF_TOKEN_SIZE_def)

lemma read_quoted_bounds:
  assumes "read_quoted p = (t, p')" and "vp_rest p = c # rest"
  shows "length (vp_rest p') < length (vp_rest p) \<and> token_ok t"
proof -
  obtain token q where l: "quoted_loop [] (p\<lparr>vp_rest := tl (vp_rest p)\<rparr>) = (token, q)" by fastforce
  let ?n = "if length token \<ge> VDF_TOKEN_SIZE then VDF_TOKEN_SIZE - 1 else length token"
  have t: "t = c_string (take ?n token)" "p' = q" using assms(1) l by (auto simp: read_quoted_def Let_def)
  have "length (take ?n token) < VDF_TOKEN_SIZE" by simp
  then have "length t < VDF_TOKEN_SIZE" unfolding t(1)
    using c_string_facts [of "take ?n token"] by (meson le_less_trans)
  moreover have "0 \<notin> set t" using c_string_facts t(1) by blast
  moreover have "length (vp_rest q) < length (vp_rest p)" using quoted_loop_bounds [OF l] assms(2) by simp
  ultimately show ?thesis using t(2) by (simp add: token_ok_def)
qed

lemma unquoted_loop_bounds:
  "unquoted_loop rest token bracket conditional reported = (rest', token', c, r) \<Longrightarrow> token_ok token \<Longrightarrow>
     length rest' + length token' \<le> length rest + length token \<and> token_ok token' \<and> length rest' \<le> length rest"
proof (induction rest token bracket conditional reported rule: unquoted_loop.induct)
  case (2 ch rest token bracket conditional reported)
  let ?stop = "ch = 0 \<or> ch = 34 \<or> ch = 61 \<or> ch = 123 \<or> ch = 125"
  let ?c = "if ch = 91 then conditional else if ch = 93 \<and> bracket then True else conditional"
  let ?b = "if ch = 91 then True else bracket"
  show ?case
  proof (cases "?stop \<or> is_space ch")
    case True
    with 2(3,4) show ?thesis by (auto simp: Let_def split: if_splits)
  next
    case False
    then have stop: "\<not> ?stop" "\<not> is_space ch" by blast+
    show ?thesis
    proof (cases "length token < VDF_TOKEN_SIZE - 1")
      case True
      have "token_ok (token @ [ch])" using 2(4) True stop by (auto simp: token_ok_def)
      moreover have "unquoted_loop rest (token @ [ch]) ?b ?c reported = (rest', token', c, r)"
        using 2(3) stop True by (auto simp: Let_def split: if_splits)
      ultimately show ?thesis using 2(1) [OF stop(1) refl refl stop(2) True] by auto
    next
      case False
      have "unquoted_loop rest token ?b ?c True = (rest', token', c, r)"
        using 2(3) stop False by (auto simp: Let_def split: if_splits)
      with 2(2) [OF stop(1) refl refl stop(2) False] 2(4) show ?thesis by auto
    qed
  qed
qed auto

text \<open>Only tokens that are too long are errors, and reading allocates nothing.\<close>

lemma skip_line_frame: "vp_error (skip_line p) = vp_error p \<and> vp_heap (skip_line p) = vp_heap p"
proof (induction p rule: skip_line.induct)
  case (1 p)
  obtain c p' where g: "get_char p = (c, p')" by fastforce
  then have "vp_error p' = vp_error p \<and> vp_heap p' = vp_heap p"
    by (auto simp: get_char_def split: if_splits list.splits)
  with 1 g show ?case by (subst (1 2) skip_line.simps) auto
qed

lemma eat_white_space_frame: "vp_error (eat_white_space p) = vp_error p \<and> vp_heap (eat_white_space p) = vp_heap p"
  by (simp add: eat_white_space_def Let_def)

lemma eat_comments_frame: "vp_error (eat_comments p) = vp_error p \<and> vp_heap (eat_comments p) = vp_heap p"
proof (induction p rule: eat_comments.induct)
  case (1 p)
  obtain b p' where e: "eat_cpp_comment p = (b, p')" by fastforce
  then have step: "vp_error p' = vp_error p \<and> vp_heap p' = vp_heap p"
    using skip_line_frame [of "p\<lparr>vp_rest := drop 2 (vp_rest p)\<rparr>"]
    by (auto simp: eat_cpp_comment_def split: if_splits)
  show ?case
  proof (cases b)
    case False
    with e step show ?thesis by (simp add: eat_comments.simps [of p])
  next
    case True
    let ?w = "eat_white_space p'"
    have IH: "vp_error (eat_comments ?w) = vp_error ?w \<and> vp_heap (eat_comments ?w) = vp_heap ?w"
      if "\<not> vp_overflow ?w"
      using 1 [OF e [symmetric]] True that by blast
    have "eat_comments p = (if vp_overflow ?w then ?w else eat_comments ?w)"
      by (subst eat_comments.simps) (simp add: e True Let_def)
    with IH eat_white_space_frame [of p'] step show ?thesis by (cases "vp_overflow ?w") simp_all
  qed
qed

lemma quoted_loop_frame:
  "quoted_loop token p = (token', p') \<Longrightarrow> vp_error p' = vp_error p \<and> vp_heap p' = vp_heap p"
proof (induction token p rule: quoted_loop.induct)
  case (1 token p)
  show ?case
  proof (cases "vp_overflow p \<or> vp_rest p \<noteq> [] \<and> hd (vp_rest p) = 34")
    case True
    with 1(2) show ?thesis by (auto simp: quoted_loop.simps [of token p] split: if_splits)
  next
    case False
    obtain c q where d: "get_delimited_char p = (c, q)" by fastforce
    then have "vp_error q = vp_error p \<and> vp_heap q = vp_heap p"
      by (auto simp: get_delimited_char_def get_char_def Let_def split: if_splits list.splits prod.splits)
    moreover have "quoted_loop (if length token < VDF_TOKEN_SIZE then token @ [c] else token) q = (token', p')"
      using 1(2) False d by (auto simp: quoted_loop.simps [of token p])
    ultimately show ?thesis using 1(1) False d by auto
  qed
qed

text \<open>Reading a token never moves back; a token that is not empty or quoted has been consumed.\<close>

lemma read_token_bounds:
  assumes "read_token p = (t, quoted, conditional, p')"
  shows "length (vp_rest p') \<le> length (vp_rest p)
     \<and> (\<forall>s. t = Some s \<longrightarrow> token_ok s \<and> (s \<noteq> [] \<or> quoted \<longrightarrow> length (vp_rest p') < length (vp_rest p)))
     \<and> (t = None \<longrightarrow> \<not> conditional) \<and> vp_heap p' = vp_heap p \<and> (vp_error p \<longrightarrow> vp_error p')"
proof -
  let ?q = "eat_white_space p"
  let ?r = "eat_comments ?q"
  have len: "length (vp_rest ?r) \<le> length (vp_rest p)" "length (vp_rest ?q) \<le> length (vp_rest p)"
    using eat_comments_rest [of ?q] eat_white_space_rest [of p] by linarith+
  have err: "vp_error ?q = vp_error p" "vp_error ?r = vp_error p" "vp_heap ?q = vp_heap p" "vp_heap ?r = vp_heap p"
    using eat_comments_frame [of ?q] eat_white_space_frame [of p] by simp_all
  show ?thesis
  proof (cases "vp_overflow p \<or> vp_overflow ?q \<or> vp_overflow ?r \<or> vp_rest ?r = []")
    case True
    then have "t = None \<and> \<not> conditional \<and> (p' = p \<or> p' = ?q \<or> p' = ?r)"
      using assms by (auto simp: read_token_def Let_def split: if_splits)
    with len err show ?thesis by auto
  next
    case False
    then obtain c rest where r: "vp_rest ?r = c # rest" by (cases "vp_rest ?r") auto
    have live: "\<not> vp_overflow p" "\<not> vp_overflow ?q" "\<not> vp_overflow ?r" using False by blast+
    show ?thesis
    proof (cases "c = 34")
      case True
      obtain tk q where rq: "read_quoted ?r = (tk, q)" by fastforce
      have "read_token p = (Some tk, True, False, q)"
        using live r True rq by (simp add: read_token_def Let_def)
      then have res: "t = Some tk" "quoted" "\<not> conditional" "p' = q" using assms by simp_all
      have "vp_error q = vp_error ?r \<and> vp_heap q = vp_heap ?r"
        using rq by (auto simp: read_quoted_def Let_def split: prod.splits dest!: quoted_loop_frame)
      then have "vp_error p' = vp_error p" "vp_heap p' = vp_heap p" using res err by simp_all
      moreover have "length (vp_rest p') < length (vp_rest ?r)" "token_ok tk"
        using read_quoted_bounds [OF rq r] res by simp_all
      ultimately show ?thesis using res(1-3) len(1) by auto
    next
      case quote: False
      show ?thesis
      proof (cases "c = 123 \<or> c = 125 \<or> c = 61")
        case True
        have "read_token p = (Some [c], False, False, ?r\<lparr>vp_rest := rest\<rparr>)"
          using live r quote True by (simp add: read_token_def Let_def)
        then have res: "t = Some [c]" "\<not> quoted" "\<not> conditional" "p' = ?r\<lparr>vp_rest := rest\<rparr>"
          using assms by simp_all
        have "token_ok [c]" using True by (auto simp: token_ok_def)
        moreover have "vp_rest p' = rest" "vp_error p' = vp_error p" "vp_heap p' = vp_heap p"
          using res err by simp_all
        moreover have "length rest < length (vp_rest ?r)" using r by simp
        ultimately show ?thesis using res(1-3) len(1) by auto
      next
        case False
        obtain rest' tk cd rp where u: "unquoted_loop (c # rest) [] False False False = (rest', tk, cd, rp)"
          by (metis prod_cases4)
        have "read_token p = (Some tk, False, cd, ?r\<lparr>vp_rest := rest', vp_error := (vp_error ?r \<or> rp)\<rparr>)"
          using live r quote False u by (simp add: read_token_def Let_def del: unquoted_loop.simps)
        then have res: "t = Some tk" "\<not> quoted" "conditional = cd"
            "p' = ?r\<lparr>vp_rest := rest', vp_error := (vp_error ?r \<or> rp)\<rparr>"
          using assms by simp_all
        have "token_ok []" by (simp add: token_ok_def)
        note b = unquoted_loop_bounds [OF u this]
        have less: "tk \<noteq> [] \<Longrightarrow> length rest' < length (vp_rest ?r)" using b r by (cases tk) auto
        have "vp_rest p' = rest'" "vp_error p' = (vp_error p \<or> rp)" "vp_heap p' = vp_heap p"
          using res err by simp_all
        moreover have "token_ok tk" "length rest' \<le> length (vp_rest ?r)" using b r by simp_all
        ultimately show ?thesis using less len(1) res(1,2) by auto
      qed
    qed
  qed
qed

subsection \<open>Conditionals\<close>

definition expr_size :: "vdf_expression \<Rightarrow> nat" where
  "expr_size e = length (ve_text e) + (if ve_current e = 0 then 0 else 1)"

lemma next_token_size: "expr_size (next_token e) \<le> length (ve_text e)"
proof -
  let ?t = "dropWhile (\<lambda>c. c = 32) (ve_text e)"
  have "length ?t \<le> length (ve_text e)" by (rule length_dropWhile_le)
  moreover have "expr_size (next_token e) \<le> length ?t"
    by (cases ?t) (simp_all add: expr_size_def next_token_def Let_def bat_def)
  ultimately show ?thesis by simp
qed

lemma next_token_less: "ve_current e \<noteq> 0 \<Longrightarrow> expr_size (next_token e) < expr_size e"
  using next_token_size [of e] by (simp add: expr_size_def)

lemma next_token_le: "expr_size (next_token e) \<le> expr_size e"
  using next_token_size [of e] by (simp add: expr_size_def)

lemma identifier_loop_rest: "identifier_loop ok s t = (i, t') \<Longrightarrow> length t' \<le> length t"
  by (induction ok s t rule: identifier_loop.induct) (auto split: if_splits)

lemma factor_identifier_size: "factor_identifier e = (i, e') \<Longrightarrow> expr_size e' \<le> expr_size e"
  by (auto simp: factor_identifier_def expr_size_def split: prod.splits if_splits dest: identifier_loop_rest)

lemma expr_size_depth [simp]: "expr_size (e\<lparr>ve_depth := d\<rparr>) = expr_size e"
  by (simp add: expr_size_def)

lemma drop_text_less: "ve_current e \<noteq> 0 \<Longrightarrow>
    expr_size (next_token (e\<lparr>ve_text := drop 1 (ve_text e)\<rparr>)) < expr_size e"
  using next_token_size [of "e\<lparr>ve_text := drop 1 (ve_text e)\<rparr>"] by (simp add: expr_size_def)

definition yields :: "nat \<Rightarrow> (bool \<times> vdf_expression) option \<Rightarrow> bool" where
  "yields n r \<longleftrightarrow> (\<exists>v e. r = Some (v, e) \<and> expr_size e \<le> n)"

lemma yieldsI: "expr_size e \<le> n \<Longrightarrow> yields n (Some (v, e))"
  by (simp add: yields_def)

lemma yieldsE:
  assumes "yields n r" obtains v e where "r = Some (v, e)" "expr_size e \<le> n"
  using assms by (auto simp: yields_def)

lemma yields_mono: "yields m r \<Longrightarrow> m \<le> n \<Longrightarrow> yields n r"
  by (auto simp: yields_def)

lemma conditional_fuel:
  "(\<forall>e. 4 * expr_size e + 1 \<le> fuel \<longrightarrow> yields (expr_size e) (make_factor fuel e))
   \<and> (\<forall>e. 4 * expr_size e + 2 \<le> fuel \<longrightarrow> yields (expr_size e) (make_term fuel e))
   \<and> (\<forall>v e. 4 * expr_size e + 1 \<le> fuel \<longrightarrow> yields (expr_size e) (term_loop fuel v e))
   \<and> (\<forall>e. 4 * expr_size e + 3 \<le> fuel \<longrightarrow> yields (expr_size e) (make_expression fuel e))
   \<and> (\<forall>v e. 4 * expr_size e + 1 \<le> fuel \<longrightarrow> yields (expr_size e) (expression_loop fuel v e))"
proof (induction fuel)
  case (Suc fuel)
  then have factor: "\<And>e. 4 * expr_size e + 1 \<le> fuel \<Longrightarrow> yields (expr_size e) (make_factor fuel e)"
    and trm: "\<And>e. 4 * expr_size e + 2 \<le> fuel \<Longrightarrow> yields (expr_size e) (make_term fuel e)"
    and tloop: "\<And>v e. 4 * expr_size e + 1 \<le> fuel \<Longrightarrow> yields (expr_size e) (term_loop fuel v e)"
    and expr: "\<And>e. 4 * expr_size e + 3 \<le> fuel \<Longrightarrow> yields (expr_size e) (make_expression fuel e)"
    and eloop: "\<And>v e. 4 * expr_size e + 1 \<le> fuel \<Longrightarrow> yields (expr_size e) (expression_loop fuel v e)"
    by blast+
  show ?case
  proof (intro conjI allI impI)
    fix e assume f: "4 * expr_size e + 1 \<le> Suc fuel"
    show "yields (expr_size e) (make_factor (Suc fuel) e)"
    proof (cases "ve_current e = 40")
      case True
      let ?n = "next_token e"
      have less: "expr_size ?n < expr_size e" using True by (simp add: next_token_less)
      show ?thesis
      proof (cases "ve_depth ?n < VDF_MAX_DEPTH")
        case open_ok: True
        let ?d = "?n\<lparr>ve_depth := ve_depth ?n + 1\<rparr>"
        have "4 * expr_size ?d + 3 \<le> fuel" using less f by simp
        from expr [OF this] obtain v e' where r: "make_expression fuel ?d = Some (v, e')" "expr_size e' \<le> expr_size ?n"
          by (auto elim: yieldsE)
        have "expr_size (next_token (e'\<lparr>ve_depth := ve_depth e' - 1\<rparr>)) \<le> expr_size e"
          using next_token_le [of "e'\<lparr>ve_depth := ve_depth e' - 1\<rparr>"] r(2) less by simp
        then show ?thesis using True open_ok r(1) by (simp add: Let_def yieldsI)
      next
        case False
        have "expr_size (next_token ?n) \<le> expr_size e" using next_token_le [of ?n] less by simp
        then show ?thesis using True False by (simp add: Let_def yieldsI)
      qed
    next
      case no_paren: False
      obtain i e' where fi: "factor_identifier e = (i, e')" by fastforce
      have "expr_size (next_token e') \<le> expr_size e"
        using factor_identifier_size [OF fi] next_token_le [of e'] by simp
      then show ?thesis using no_paren fi next_token_le [of e] by (simp add: yieldsI)
    qed
  next
    fix e assume f: "4 * expr_size e + 2 \<le> Suc fuel"
    then obtain v e' where r: "make_factor fuel e = Some (v, e')" "expr_size e' \<le> expr_size e"
      using factor [of e] by (auto elim: yieldsE)
    then show "yields (expr_size e) (make_term (Suc fuel) e)"
      using tloop [of e' v] f by (simp add: yields_mono)
  next
    fix v e assume f: "4 * expr_size e + 1 \<le> Suc fuel"
    show "yields (expr_size e) (term_loop (Suc fuel) v e)"
    proof (cases "ve_current e = 33")
      case True
      then have less: "expr_size (next_token e) < expr_size e" by (simp add: next_token_less)
      then obtain w e' where r: "make_factor fuel (next_token e) = Some (w, e')" "expr_size e' \<le> expr_size (next_token e)"
        using factor [of "next_token e"] f by (auto elim: yieldsE)
      then show ?thesis using True tloop [of e' "\<not> w"] f less by (simp add: yields_mono)
    qed (simp add: yieldsI)
  next
    fix e assume f: "4 * expr_size e + 3 \<le> Suc fuel"
    then obtain v e' where r: "make_term fuel e = Some (v, e')" "expr_size e' \<le> expr_size e"
      using trm [of e] by (auto elim: yieldsE)
    then show "yields (expr_size e) (make_expression (Suc fuel) e)"
      using eloop [of e' v] f by (simp add: yields_mono)
  next
    fix v e assume f: "4 * expr_size e + 1 \<le> Suc fuel"
    let ?e = "e\<lparr>ve_text := drop 1 (ve_text e)\<rparr>"
    show "yields (expr_size e) (expression_loop (Suc fuel) v e)"
    proof (cases "(ve_current e = 124 \<or> ve_current e = 38) \<and> and (bat (ve_text e) 0) (ve_current e) = ve_current e")
      case True
      then have "ve_current e \<noteq> 0" by auto
      then have less: "expr_size (next_token ?e) < expr_size e" by (rule drop_text_less)
      then obtain w e' where r: "make_term fuel (next_token ?e) = Some (w, e')"
          "expr_size e' \<le> expr_size (next_token ?e)"
        using trm [of "next_token ?e"] f by (auto elim: yieldsE)
      let ?v = "if ve_current e = 38 then v \<and> w else v \<or> w"
      have "yields (expr_size e) (expression_loop fuel ?v e')"
        using eloop [of e' ?v] r(2) f less by (simp add: yields_mono)
      then show ?thesis using True r(1) by (auto simp: Let_def)
    next
      case False
      have "expr_size ?e \<le> expr_size e" by (simp add: expr_size_def)
      with False show ?thesis by (auto simp: Let_def yieldsI)
    qed
  qed
qed simp

subsection \<open>Well-formed trees\<close>

text \<open>The nesting of blocks, and what a token buffer, the names and the nesting limit allow.\<close>

fun vdf_depth :: "vdf_object \<Rightarrow> nat" and data_depth :: "vdf_data \<Rightarrow> nat" where
  "vdf_depth (Vdf_object key data) = data_depth data"
| "data_depth VDF_TYPE_NONE = 0"
| "data_depth (VDF_TYPE_STRING s) = 0"
| "data_depth (VDF_TYPE_ARRAY cs) = Suc (foldr max (map vdf_depth cs) 0)"

fun vdf_entry_ok :: "vdf_object \<Rightarrow> bool" and vdf_data_ok :: "vdf_data \<Rightarrow> bool" where
  "vdf_entry_ok (Vdf_object key data) \<longleftrightarrow>
     (case key of None \<Rightarrow> False | Some k \<Rightarrow> token_ok k \<and> k \<noteq> []) \<and> vdf_data_ok data"
| "vdf_data_ok VDF_TYPE_NONE \<longleftrightarrow> False"
| "vdf_data_ok (VDF_TYPE_STRING s) \<longleftrightarrow> token_ok s"
| "vdf_data_ok (VDF_TYPE_ARRAY cs) \<longleftrightarrow> list_all vdf_entry_ok cs"

lemma foldr_max_le: "foldr max ns 0 \<le> (m :: nat) \<longleftrightarrow> (\<forall>n\<in>set ns. n \<le> m)"
  by (induction ns) auto

definition block_ok :: "nat \<Rightarrow> vdf_object list \<Rightarrow> bool" where
  "block_ok depth cs \<longleftrightarrow> (\<forall>c\<in>set cs. vdf_entry_ok c \<and> vdf_depth c + depth \<le> VDF_MAX_DEPTH)"

lemma block_ok_subset: "block_ok depth cs \<Longrightarrow> set cs' \<subseteq> set cs \<Longrightarrow> block_ok depth cs'"
  by (auto simp: block_ok_def)

lemma block_ok_array:
  assumes "block_ok (Suc depth) cs" and "depth < VDF_MAX_DEPTH" and "token_ok k" and "k \<noteq> []"
  shows "block_ok depth [Vdf_object (Some k) (VDF_TYPE_ARRAY cs)]"
proof -
  have "foldr max (map vdf_depth cs) 0 \<le> VDF_MAX_DEPTH - Suc depth"
    unfolding foldr_max_le using assms(1) by (fastforce simp: block_ok_def)
  then have "Suc (foldr max (map vdf_depth cs) 0) + depth \<le> VDF_MAX_DEPTH" using assms(2) by linarith
  moreover have "list_all vdf_entry_ok cs" using assms(1) by (simp add: block_ok_def list_all_iff)
  ultimately show ?thesis using assms(3,4) by (simp add: block_ok_def)
qed

lemma remove_first_named_subset: "set (remove_first_named key cs) \<subseteq> set cs"
  by (induction cs) auto

lemma dec_digits_facts: "0 \<notin> set (dec_digits n) \<and> (n < 10 ^ Suc k \<longrightarrow> length (dec_digits n) \<le> Suc k)"
proof (induction n arbitrary: k rule: dec_digits.induct)
  case (1 n)
  have digit: "of_nat (48 + d) \<noteq> (0 :: 8 word)" if "d < 10" for d
  proof -
    have "unat (of_nat (48 + d) :: 8 word) = 48 + d" using that by (simp only: unat_of_nat) simp
    then show ?thesis by (metis add_is_0 unat_0 zero_neq_numeral)
  qed
  show ?case
  proof (cases "n < 10")
    case True
    then show ?thesis using digit [of n] by (subst (1 2) dec_digits.simps) auto
  next
    case False
    have m: "n mod 10 < 10" by simp
    have eq: "dec_digits n = dec_digits (n div 10) @ [of_nat (48 + n mod 10)]"
      using False by (subst dec_digits.simps) simp
    have "length (dec_digits n) \<le> Suc k" if n: "n < 10 ^ Suc k"
    proof -
      have "k \<noteq> 0" using n False by (cases k) auto
      then obtain j where "k = Suc j" by (cases k) auto
      moreover have "n div 10 < 10 ^ Suc j" using n \<open>k = Suc j\<close> by auto
      ultimately show ?thesis using 1 [OF False, of j] eq by simp
    qed
    moreover have "0 \<notin> set (dec_digits n)" using 1 [OF False] digit [OF m] eq by auto
    ultimately show ?thesis by blast
  qed
qed

lemma stored_value_ok:
  assumes "token_ok v" shows "token_ok (stored_value v)"
proof -
  obtain n c ov where s: "strtol10 v = (n, c, ov)" by (metis prod_cases3)
  then have "LONG_MIN \<le> n \<and> n \<le> LONG_MAX"
    by (auto simp: strtol10_def Let_def LONG_MIN_def LONG_MAX_def split: if_splits)
  then have "n < 10000000000" "- n < 10000000000" by (auto simp: LONG_MIN_def LONG_MAX_def)
  then have n: "nat n < 10 ^ Suc 9" "nat (- n) < 10 ^ Suc 9" by simp_all
  have d: "length (dec_string n) \<le> 11 \<and> 0 \<notin> set (dec_string n)"
    using dec_digits_facts [of "nat n" 9] dec_digits_facts [of "nat (- n)" 9] n by (simp add: dec_string_def)
  then have "token_ok (dec_string n)" by (simp add: token_ok_def VDF_TOKEN_SIZE_def)
  with assms s show ?thesis by (simp add: stored_value_def)
qed

subsection \<open>Blocks\<close>

lemma new_object_facts:
  "new_object key p = (r, p') \<Longrightarrow> vp_rest p' = vp_rest p
     \<and> (\<forall>c. r = Some c \<longrightarrow> c = Vdf_object key VDF_TYPE_NONE)"
  by (auto simp: new_object_def vp_alloc_def copy_string_def vp_fail_def split: prod.splits bool.splits option.splits)

lemma append_child_facts:
  "append_child children child p = (cs, p') \<Longrightarrow> vp_rest p' = vp_rest p \<and> set cs \<subseteq> insert child (set children)"
  by (auto simp: append_child_def vp_alloc_def vp_fail_def split: prod.splits bool.splits)

lemma set_value_facts:
  "set_value obj v p = (b, obj', p') \<Longrightarrow> vp_rest p' = vp_rest p
     \<and> (b \<longrightarrow> obj' = Vdf_object (vo_key obj) (VDF_TYPE_STRING (stored_value v))) \<and> (\<not> b \<longrightarrow> vp_error p')"
  by (auto simp: set_value_def vp_alloc_def copy_string_def vp_fail_def split: prod.splits bool.splits option.splits)

text \<open>What reads leave behind: no more input than before, and a value that has been consumed.\<close>

definition reads :: "vdf_parser \<Rightarrow> bytes option \<Rightarrow> bool \<Rightarrow> vdf_parser \<Rightarrow> bool" where
  "reads p v quoted p' \<longleftrightarrow> length (vp_rest p') \<le> length (vp_rest p)
     \<and> (\<forall>t. v = Some t \<longrightarrow> token_ok t \<and> (t \<noteq> [] \<or> quoted \<longrightarrow> length (vp_rest p') < length (vp_rest p)))"

lemma reads_token: "read_token p = (v, quoted, conditional, p') \<Longrightarrow> reads p v quoted p'"
  using read_token_bounds by (simp add: reads_def)

lemma reads_trans: "reads p v1 q1 p1 \<Longrightarrow> reads p1 v quoted p' \<Longrightarrow> reads p v quoted p'"
  by (auto simp: reads_def)

lemma entry_value_facts:
  assumes "entry_value key children p = (v, quoted, conditional, accepted, children', p')"
  shows "reads p v quoted p' \<and> set children' \<subseteq> set children"
proof -
  obtain v1 q1 c1 p1 where r1: "read_token p = (v1, q1, c1, p1)" by (metis prod_cases4)
  note b1 = reads_token [OF r1]
  define second where "second = (case v1 of
      Some t \<Rightarrow> if c1 then (evaluate_conditional t, read_token p1) else (True, v1, q1, c1, p1)
    | None \<Rightarrow> (True, v1, q1, c1, p1))"
  obtain a2 v2 q2 c2 p2 where r2: "second = (a2, v2, q2, c2, p2)" by (metis prod_cases5)
  have b2: "reads p v2 q2 p2"
  proof (cases "v1 \<noteq> None \<and> c1")
    case True
    then have "read_token p1 = (v2, q2, c2, p2)" using r2 by (auto simp: second_def)
    from reads_trans [OF b1 reads_token [OF this]] show ?thesis .
  next
    case False
    then have "v2 = v1 \<and> q2 = q1 \<and> p2 = p1" using r2 by (auto simp: second_def split: option.splits)
    with b1 show ?thesis by simp
  qed
  obtain v3 q3 c3 p3 where r3: "read_token p2 = (v3, q3, c3, p3)" by (metis prod_cases4)
  have b3: "reads p v3 q3 p3" by (rule reads_trans [OF b2 reads_token [OF r3]])
  define fourth where "fourth = (case v3 of
      Some t \<Rightarrow> (evaluate_conditional t, read_token p3) | None \<Rightarrow> (a2, v3, q3, c3, p3))"
  obtain a4 v4 q4 c4 p4 where r4: "fourth = (a4, v4, q4, c4, p4)" by (metis prod_cases5)
  have b4: "reads p v4 q4 p4"
  proof (cases v3)
    case (Some t)
    then have "read_token p3 = (v4, q4, c4, p4)" using r4 by (auto simp: fourth_def)
    from reads_trans [OF b3 reads_token [OF this]] show ?thesis .
  next
    case None
    then show ?thesis using r4 b3 by (simp add: fourth_def)
  qed
  have "entry_value key children p =
     (case v2 of None \<Rightarrow> (v2, q2, c2, a2, children, p2)
      | Some t \<Rightarrow> if bat t 0 = 61 \<and> \<not> q2 then
           if c3 then (v4, q4, c4, a4, if a4 then remove_first_named key children else children, p4)
           else (v3, q3, c3, a2, children, p3)
         else (v2, q2, c2, a2, children, p2))"
    unfolding entry_value_def r1 Let_def prod.case second_def [symmetric] r2 r3 fourth_def [symmetric] r4 ..
  with assms b2 b3 b4 remove_first_named_subset [of key children] show ?thesis
    by (auto split: option.splits if_splits)
qed

lemma store_value_facts:
  assumes "store_value key v (Vdf_object k VDF_TYPE_NONE) accepted children p = (child', accepted', children', p')"
  shows "length (vp_rest p') \<le> length (vp_rest p) \<and> set children' \<subseteq> set children
     \<and> (vp_error p' \<or> child' = Vdf_object k (VDF_TYPE_STRING (stored_value v)))"
proof -
  let ?child = "Vdf_object k VDF_TYPE_NONE"
  obtain b c1 p1 where sv: "set_value ?child v p = (b, c1, p1)" by (metis prod_cases3)
  note f = set_value_facts [OF sv]
  show ?thesis
  proof (cases b)
    case False
    with assms sv f show ?thesis by (auto simp: store_value_def)
  next
    case True
    obtain peek q c p2 where r: "read_token p1 = (peek, q, c, p2)" by (metis prod_cases4)
    from read_token_bounds [OF r] assms sv f True r remove_first_named_subset [of key children] show ?thesis
      by (cases c) (auto simp: store_value_def Let_def split: if_splits)
  qed
qed

text \<open>The fuel a block with some input left needs, what it yields and that it reads forward.\<close>

definition loads :: "nat \<Rightarrow> vdf_parser \<Rightarrow> (vdf_object list \<times> vdf_parser) option \<Rightarrow> bool" where
  "loads depth p r \<longleftrightarrow> (\<exists>cs p'. r = Some (cs, p') \<and> length (vp_rest p') \<le> length (vp_rest p) \<and> block_ok depth cs)"

lemma loadsI: "length (vp_rest p') \<le> length (vp_rest p) \<Longrightarrow> block_ok depth cs \<Longrightarrow> loads depth p (Some (cs, p'))"
  by (simp add: loads_def)

lemma loads_later: "loads depth p1 r \<Longrightarrow> length (vp_rest p1) \<le> length (vp_rest p) \<Longrightarrow> loads depth p r"
  by (auto simp: loads_def intro: order_trans)

lemma vp_fail_rest [simp]: "vp_rest (vp_fail p) = vp_rest p" "vp_error (vp_fail p)"
  by (simp_all add: vp_fail_def)

lemma load_fuel:
  "(\<forall>depth p. length (vp_rest p) + 2 \<le> fuel \<longrightarrow> loads depth p (load_block fuel depth p)
      \<and> (\<forall>cs p'. load_block fuel depth p = Some (cs, p') \<longrightarrow> vp_error p' \<or> depth \<le> VDF_MAX_DEPTH))
   \<and> (\<forall>depth children p. depth \<le> VDF_MAX_DEPTH \<longrightarrow> length (vp_rest p) + 1 \<le> fuel \<longrightarrow> block_ok depth children
      \<longrightarrow> loads depth p (load_loop fuel depth children p))"
proof (induction fuel)
  case (Suc fuel)
  then have block: "\<And>depth p. length (vp_rest p) + 2 \<le> fuel \<Longrightarrow> loads depth p (load_block fuel depth p)
      \<and> (\<forall>cs p'. load_block fuel depth p = Some (cs, p') \<longrightarrow> vp_error p' \<or> depth \<le> VDF_MAX_DEPTH)"
    and loop: "\<And>depth children p. depth \<le> VDF_MAX_DEPTH \<Longrightarrow> length (vp_rest p) + 1 \<le> fuel \<Longrightarrow>
      block_ok depth children \<Longrightarrow> loads depth p (load_loop fuel depth children p)"
    by blast+
  show ?case
  proof (intro conjI allI impI)
    fix depth and p :: vdf_parser assume f: "length (vp_rest p) + 2 \<le> Suc fuel"
    show "loads depth p (load_block (Suc fuel) depth p)"
      using loop [of depth p "[]"] f
      by (cases "depth > VDF_MAX_DEPTH") (auto simp: block_ok_def intro!: loadsI)
  next
    fix depth p cs p' assume "load_block (Suc fuel) depth p = Some (cs, p')"
    then show "vp_error p' \<or> depth \<le> VDF_MAX_DEPTH" by (auto split: if_splits)
  next
    fix depth children and p :: vdf_parser
    assume d: "depth \<le> VDF_MAX_DEPTH" and f: "length (vp_rest p) + 1 \<le> Suc fuel" and ok: "block_ok depth children"
    obtain name q c p1 where r1: "read_token p = (name, q, c, p1)" by (metis prod_cases4)
    have b1: "reads p name q p1" by (rule reads_token [OF r1])
    then have l1: "length (vp_rest p1) \<le> length (vp_rest p)" by (simp add: reads_def)
    show "loads depth p (load_loop (Suc fuel) depth children p)"
    proof (cases "name = None \<or> vp_error p1 \<or> name = Some [] \<or> (bat (the name) 0 = 125 \<and> \<not> q)")
      case True
      then show ?thesis using r1 l1 ok by (cases name) (auto intro!: loadsI)
    next
      case False
      then obtain n where n: "name = Some n" "n \<noteq> []" "\<not> vp_error p1" "\<not> (bat n 0 = 125 \<and> \<not> q)" by auto
      have l1': "length (vp_rest p1) < length (vp_rest p)" and tn: "token_ok n"
        using b1 n by (auto simp: reads_def)
      obtain co p2 where no: "new_object (Some n) p1 = (co, p2)" by fastforce
      note no' = new_object_facts [OF no]
      show ?thesis
      proof (cases co)
        case None
        then show ?thesis using r1 n no no' l1 ok by (auto intro!: loadsI)
      next
        case (Some child)
        then have child: "child = Vdf_object (Some n) VDF_TYPE_NONE" using no' by simp
        obtain v vq vc acc cs3 p3 where ev: "entry_value n children p2 = (v, vq, vc, acc, cs3, p3)"
          by (metis prod_cases6)
        from entry_value_facts [OF ev] have e: "reads p2 v vq p3" "block_ok depth cs3"
          using ok block_ok_subset by blast+
        have l3: "length (vp_rest p3) < length (vp_rest p)" using e(1) l1' no' by (simp add: reads_def)
        show ?thesis
        proof (cases "v = None \<or> (bat (the v) 0 = 125 \<and> \<not> vq) \<or> (\<not> (bat (the v) 0 = 123 \<and> \<not> vq) \<and> vc)")
          case True
          then show ?thesis using r1 n no Some ev l3 e(2) by (cases v) (auto intro!: loadsI)
        next
          case False
          then obtain w where w: "v = Some w" "\<not> (bat w 0 = 125 \<and> \<not> vq)"
              "\<not> (\<not> (bat w 0 = 123 \<and> \<not> vq) \<and> vc)" by auto
          define stored where "stored = (if bat w 0 = 123 \<and> \<not> vq
              then map_option (\<lambda>(cs, p). (Vdf_object (vo_key child) (VDF_TYPE_ARRAY cs), acc, cs3, p))
                (load_block fuel (depth + 1) p3)
              else Some (store_value n w child acc cs3 p3))"
          have "\<exists>child' acc' cs4 p4. stored = Some (child', acc', cs4, p4) \<and> length (vp_rest p4) \<le> length (vp_rest p3)
              \<and> block_ok depth cs4 \<and> (vp_error p4 \<or> block_ok depth [child'])"
          proof (cases "bat w 0 = 123 \<and> \<not> vq")
            case True
            then have "w \<noteq> []" by (auto simp: bat_def)
            then have "length (vp_rest p3) < length (vp_rest p2)" using e(1) w(1) by (simp add: reads_def)
            then have "length (vp_rest p3) + 2 \<le> fuel" using l1' no' f by simp
            from block [OF this, of "depth + 1"] obtain cs p4 where b: "load_block fuel (depth + 1) p3 = Some (cs, p4)"
                "length (vp_rest p4) \<le> length (vp_rest p3)" "block_ok (depth + 1) cs"
                "vp_error p4 \<or> depth + 1 \<le> VDF_MAX_DEPTH"
              by (auto simp: loads_def)
            have "vp_error p4 \<or> block_ok depth [Vdf_object (Some n) (VDF_TYPE_ARRAY cs)]"
              using b(3,4) block_ok_array [of depth cs n] tn n(2) by auto
            with b(1,2) e(2) True child show ?thesis by (simp add: stored_def)
          next
            case no_block: False
            obtain child' acc' cs4 p4 where sv: "store_value n w child acc cs3 p3 = (child', acc', cs4, p4)"
              by (metis prod_cases4)
            from store_value_facts [OF sv [unfolded child]] have g: "length (vp_rest p4) \<le> length (vp_rest p3)"
                "set cs4 \<subseteq> set cs3" "vp_error p4 \<or> child' = Vdf_object (Some n) (VDF_TYPE_STRING (stored_value w))"
              by blast+
            have "token_ok w" using e(1) w(1) by (simp add: reads_def)
            then have "vp_error p4 \<or> block_ok depth [child']"
              using g(3) stored_value_ok tn n(2) d by (auto simp: block_ok_def)
            with g block_ok_subset [OF e(2)] sv no_block show ?thesis by (auto simp: stored_def)
          qed
          then obtain child' acc' cs4 p4 where st: "stored = Some (child', acc', cs4, p4)"
              "length (vp_rest p4) \<le> length (vp_rest p3)" "block_ok depth cs4"
              "vp_error p4 \<or> block_ok depth [child']" by blast
          define final where "final = (if vp_error p4 \<or> \<not> acc' then (cs4, p4) else append_child cs4 child' p4)"
          obtain cs5 p5 where fi: "final = (cs5, p5)" by fastforce
          have "vp_rest p5 = vp_rest p4 \<and> block_ok depth cs5"
          proof (cases "vp_error p4 \<or> \<not> acc'")
            case True
            with fi st(3) show ?thesis by (auto simp: final_def)
          next
            case False
            then have a: "append_child cs4 child' p4 = (cs5, p5)" using fi by (simp add: final_def)
            from append_child_facts [OF a] st(3,4) False show ?thesis by (auto simp: block_ok_def)
          qed
          then have "loads depth p5 (load_loop fuel depth cs5 p5)" "length (vp_rest p5) \<le> length (vp_rest p)"
            using loop [OF d, of p5 cs5] st(2) l3 f by auto
          moreover have "load_loop (Suc fuel) depth children p = load_loop fuel depth cs5 p5"
          proof -
            have bad: "\<not> ((bat w 0 = 125 \<and> \<not> vq) \<or> (\<not> (bat w 0 = 123 \<and> \<not> vq) \<and> vc))"
              using w(2,3) by blast
            have "load_loop (Suc fuel) depth children p =
              (case stored of None \<Rightarrow> None | Some (child, accepted, children, p) \<Rightarrow>
                 (case (if vp_error p \<or> \<not> accepted then (children, p) else append_child children child p) of
                    (children, p) \<Rightarrow> load_loop fuel depth children p))"
              unfolding stored_def load_loop.simps r1 prod.case n(1) option.case if_not_P [OF n(3)] if_not_P [OF n(2)]
                if_not_P [OF n(4)] no Some ev w(1) if_not_P [OF bad] ..
            then show ?thesis using st(1) fi by (simp add: final_def)
          qed
          ultimately show ?thesis using loads_later by metis
        qed
      qed
    qed
  qed
qed simp

subsection \<open>The whole input\<close>

text \<open>The first entry: unless the input has none, its name and, unless it was rejected, its block.\<close>

definition vdf_root_ok :: "vdf_object \<Rightarrow> bool" where
  "vdf_root_ok root \<longleftrightarrow> (\<forall>k. vo_key root = Some k \<longrightarrow> token_ok k)
     \<and> (vo_data root = VDF_TYPE_NONE \<or> (\<exists>cs. vo_data root = VDF_TYPE_ARRAY cs \<and> block_ok 1 cs))"

lemma set_key_facts:
  "set_key obj key p = (r, p') \<Longrightarrow> vp_rest p' = vp_rest p
     \<and> (\<forall>c. r = Some c \<longrightarrow> vo_key c = Some key \<and> vo_data c = vo_data obj)"
  by (auto simp: set_key_def vp_alloc_def copy_string_def vp_fail_def split: prod.splits bool.splits option.splits)

definition parsed :: "(vdf_object \<times> vdf_parser) option \<Rightarrow> bool" where
  "parsed r \<longleftrightarrow> (\<exists>root p. r = Some (root, p) \<and> (vp_error p \<or> vdf_root_ok root))"

lemma parsed_continue:
  "(\<not> vp_overflow p \<and> \<not> vp_error p \<Longrightarrow> parsed r) \<Longrightarrow> vp_error p \<or> vdf_root_ok root \<Longrightarrow>
     parsed (if \<not> vp_overflow p \<and> \<not> vp_error p then r else Some (root, p))"
  by (auto simp: parsed_def)

lemma top_fuel:
  "length (vp_rest p) + 3 \<le> fuel \<Longrightarrow> vdf_root_ok root \<Longrightarrow>
     parsed (top_loop fuel root current p)"
proof (induction fuel arbitrary: root current p)
  case (Suc fuel)
  obtain s q c p1 where r1: "read_token p = (s, q, c, p1)" by (metis prod_cases4)
  have b1: "reads p s q p1" by (rule reads_token [OF r1])
  show ?case
  proof (cases "s = None \<or> vp_overflow p1 \<or> (s = Some [] \<and> \<not> q)")
    case True
    then have "top_loop (Suc fuel) root current p = Some (root, p1)" using r1 by (cases s) auto
    with Suc.prems(2) show ?thesis by (simp add: parsed_def)
  next
    case False
    then obtain t where t: "s = Some t" "\<not> vp_overflow p1" "\<not> (vp_overflow p1 \<or> (t = [] \<and> \<not> q))" by auto
    have l1: "length (vp_rest p1) < length (vp_rest p)" and tok: "token_ok t"
      using b1 t by (auto simp: reads_def)
    show ?thesis
    proof (cases "ascii_equal t INCLUDE")
      case True
      obtain f fq fc p2 where r2: "read_token p1 = (f, fq, fc, p2)" by (metis prod_cases4)
      let ?p = "if f = None \<or> f = Some [] then vp_fail p2 else p2"
      have l2: "length (vp_rest ?p) + 3 \<le> fuel"
        using reads_token [OF r2] l1 Suc.prems(1) by (simp add: reads_def)
      have "top_loop (Suc fuel) root current p =
          (if \<not> vp_overflow ?p \<and> \<not> vp_error ?p then top_loop fuel root current ?p else Some (root, ?p))"
        unfolding top_loop.simps r1 prod.case t(1) option.case if_not_P [OF t(3)] if_P [OF True] r2 Let_def ..
      moreover have "parsed (if \<not> vp_overflow ?p \<and> \<not> vp_error ?p then top_loop fuel root current ?p
          else Some (root, ?p))"
        by (rule parsed_continue [OF Suc.IH [OF l2 Suc.prems(2)] disjI2 [OF Suc.prems(2)]])
      ultimately show ?thesis by (rule ssubst)
    next
      case entry: False
      define made where "made = (case current of Current_null \<Rightarrow> new_object (Some t) p1
          | Current_root \<Rightarrow> set_key root t p1 | Current_scratch obj \<Rightarrow> set_key obj t p1)"
      obtain mo p2 where mo: "made = (mo, p2)" by fastforce
      have made: "vp_rest p2 = vp_rest p1 \<and> (\<forall>obj. mo = Some obj \<longrightarrow> vo_key obj = Some t)"
      proof (cases current)
        case Current_null
        then have "new_object (Some t) p1 = (mo, p2)" using mo by (simp add: made_def)
        from new_object_facts [OF this] show ?thesis by auto
      next
        case Current_root
        then have "set_key root t p1 = (mo, p2)" using mo by (simp add: made_def)
        from set_key_facts [OF this] show ?thesis by simp
      next
        case (Current_scratch obj)
        then have "set_key obj t p1 = (mo, p2)" using mo by (simp add: made_def)
        from set_key_facts [OF this] show ?thesis by simp
      qed
      then have l2: "vp_rest p2 = vp_rest p1" and key: "\<And>obj. mo = Some obj \<Longrightarrow> vo_key obj = Some t" by blast+
      have top: "top_loop (Suc fuel) root current p = (case made of (None, p) \<Rightarrow> Some (root, p)
        | (Some obj, p) \<Rightarrow> (case read_token p of (v, quoted, conditional, p) \<Rightarrow>
             case (if conditional then (evaluate_conditional (case v of None \<Rightarrow> [] | Some t \<Rightarrow> t), read_token p)
                   else (True, v, quoted, conditional, p)) of
               (accepted, v, quoted, conditional, p) \<Rightarrow>
                 case (if v \<noteq> None \<and> bat (the v) 0 = 123 \<and> \<not> quoted
                       then map_option (\<lambda>(cs, p). (Vdf_object (vo_key obj) (VDF_TYPE_ARRAY cs), p)) (load_block fuel 1 p)
                       else Some (obj, vp_fail p)) of
                   None \<Rightarrow> None
                 | Some (obj, p) \<Rightarrow>
                     let obj = (if accepted then obj else clear_object obj);
                         root = (if current = Current_root then obj else root);
                         current = (if accepted then Current_null
                            else if current = Current_root then Current_root else Current_scratch obj)
                     in if \<not> vp_overflow p \<and> \<not> vp_error p then top_loop fuel root current p else Some (root, p)))"
        unfolding made_def top_loop.simps r1 prod.case t(1) option.case if_not_P [OF t(3)] if_not_P [OF entry] ..
      show ?thesis
      proof (cases mo)
        case None
        then show ?thesis using top mo Suc.prems(2) by (simp add: parsed_def)
      next
        case (Some obj)
        obtain v3 q3 c3 p3 where r3: "read_token p2 = (v3, q3, c3, p3)" by (metis prod_cases4)
        define second where "second = (if c3 then (evaluate_conditional (case v3 of None \<Rightarrow> [] | Some t \<Rightarrow> t), read_token p3)
            else (True, v3, q3, c3, p3))"
        obtain acc v4 q4 c4 p4 where r4: "second = (acc, v4, q4, c4, p4)" by (metis prod_cases5)
        have b4: "reads p2 v4 q4 p4"
        proof (cases c3)
          case True
          then have "read_token p3 = (v4, q4, c4, p4)" using r4 by (simp add: second_def)
          from reads_trans [OF reads_token [OF r3] reads_token [OF this]] show ?thesis .
        next
          case False
          then show ?thesis using reads_token [OF r3] r4 by (simp add: second_def)
        qed
        define body where "body = (if v4 \<noteq> None \<and> bat (the v4) 0 = 123 \<and> \<not> q4
            then map_option (\<lambda>(cs, p). (Vdf_object (vo_key obj) (VDF_TYPE_ARRAY cs), p)) (load_block fuel 1 p4)
            else Some (obj, vp_fail p4))"
        have "\<exists>obj' p5. body = Some (obj', p5) \<and> length (vp_rest p5) \<le> length (vp_rest p4) \<and> vo_key obj' = Some t
            \<and> (vp_error p5 \<or> vdf_root_ok obj')"
        proof (cases "v4 \<noteq> None \<and> bat (the v4) 0 = 123 \<and> \<not> q4")
          case True
          then obtain w where w: "v4 = Some w" by blast
          with True have "w \<noteq> []" by (cases w) (simp_all add: bat_def)
          note w = w this
          then have "length (vp_rest p4) < length (vp_rest p2)" using b4 by (simp add: reads_def)
          then have "length (vp_rest p4) + 2 \<le> fuel" using l1 l2 Suc.prems(1) by simp
          then have "loads 1 p4 (load_block fuel 1 p4)" using load_fuel [of fuel] by blast
          then obtain cs p5 where lb: "load_block fuel 1 p4 = Some (cs, p5)"
              "length (vp_rest p5) \<le> length (vp_rest p4)" "block_ok 1 cs" by (auto simp: loads_def)
          have "vdf_root_ok (Vdf_object (Some t) (VDF_TYPE_ARRAY cs))" using lb(3) tok by (simp add: vdf_root_ok_def)
          with lb True key [OF Some] show ?thesis by (simp add: body_def)
        next
          case False
          then show ?thesis using key [OF Some] by (auto simp: body_def)
        qed
        then obtain obj' p5 where b: "body = Some (obj', p5)" "length (vp_rest p5) \<le> length (vp_rest p4)"
            "vo_key obj' = Some t" "vp_error p5 \<or> vdf_root_ok obj'" by blast
        let ?obj = "if acc then obj' else clear_object obj'"
        let ?root = "if current = Current_root then ?obj else root"
        let ?current = "if acc then Current_null
            else if current = Current_root then Current_root else Current_scratch ?obj"
        have l5: "length (vp_rest p5) + 3 \<le> fuel"
          using b(2) b4 l1 l2 Suc.prems(1) by (simp add: reads_def)
        have "vp_error p5 \<or> vdf_root_ok ?obj" using b(3,4) by (auto simp: vdf_root_ok_def clear_object_def)
        then have root: "vp_error p5 \<or> vdf_root_ok ?root" using Suc.prems(2) by auto
        have "top_loop (Suc fuel) root current p =
            (if \<not> vp_overflow p5 \<and> \<not> vp_error p5 then top_loop fuel ?root ?current p5 else Some (?root, p5))"
          unfolding top mo Some prod.case option.case r3 second_def [symmetric] r4 body_def [symmetric] b(1) Let_def ..
        moreover have "parsed (if \<not> vp_overflow p5 \<and> \<not> vp_error p5 then top_loop fuel ?root ?current p5
            else Some (?root, p5))"
        proof (rule parsed_continue [OF _ root])
          assume "\<not> vp_overflow p5 \<and> \<not> vp_error p5"
          then have "vdf_root_ok ?root" using root by blast
          then show "parsed (top_loop fuel ?root ?current p5)" by (rule Suc.IH [OF l5])
        qed
        ultimately show ?thesis by (rule ssubst)
      qed
    qed
  qed
qed simp

lemma parser_parsed:
  assumes "new_object None \<lparr>vp_rest = data, vp_overflow = False, vp_error = False, vp_heap = h\<rparr> = (Some root, p)"
  shows "parsed (top_loop (length data + 3) root Current_root
     (if take 3 data = UTF8_BOM then p\<lparr>vp_rest := drop 3 data\<rparr> else p))"
proof -
  from new_object_facts [OF assms] have "vp_rest p = data" "root = Vdf_object None VDF_TYPE_NONE" by simp_all
  then show ?thesis by (intro top_fuel) (simp_all add: vdf_root_ok_def)
qed

lemma parse_buffer_ok:
  assumes "vdf_parse_buffer (Some data) h = (Some root, h')"
  shows "vdf_root_ok root"
proof -
  obtain h1 where a: "ml_mem_alloc h = (True, h1)" and len: "\<not> length data > INT_MAX"
    using assms by (auto simp: vdf_parse_buffer_def split: prod.splits bool.splits if_splits)
  let ?p = "\<lparr>vp_rest = data, vp_overflow = False, vp_error = False, vp_heap = h1\<rparr>"
  obtain ro p where no: "new_object None ?p = (ro, p)" by fastforce
  show ?thesis
  proof (cases ro)
    case None
    then show ?thesis using assms a len no by (simp add: vdf_parse_buffer_def)
  next
    case (Some r0)
    let ?q = "if take 3 data = UTF8_BOM then p\<lparr>vp_rest := drop 3 data\<rparr> else p"
    from parser_parsed [OF no [unfolded Some]] obtain r1 p1 where
      top: "top_loop (length data + 3) r0 Current_root ?q = Some (r1, p1)" "vp_error p1 \<or> vdf_root_ok r1"
      by (auto simp: parsed_def)
    have "vdf_parse_buffer (Some data) h = (if vp_error p1 then None else Some r1, vp_heap p1)"
      unfolding vdf_parse_buffer_def option.case if_not_P [OF len] a prod.case bool.case no Some Let_def top(1) ..
    with assms top(2) show ?thesis by (auto split: if_splits)
  qed
qed

subsection \<open>Properties\<close>

text \<open>
  C17: parsing returns for every input. Whatever the bytes and wherever memory runs out, the loop
  over the top-level entries, the recursion over blocks and the evaluation of conditionals all
  end, within fuel that is linear in the length of the input.
\<close>

theorem vdf_parse_returns:
  "(new_object None \<lparr>vp_rest = data, vp_overflow = False, vp_error = False, vp_heap = h\<rparr> = (Some root, p) \<longrightarrow>
      (\<exists>root' p'. top_loop (length data + 3) root Current_root
         (if take 3 data = UTF8_BOM then p\<lparr>vp_rest := drop 3 data\<rparr> else p) = Some (root', p')))
   \<and> (\<exists>value e'. make_expression (4 * length token + 8)
        (next_token \<lparr>ve_text = drop 1 token, ve_current = 0, ve_depth = 0\<rparr>) = Some (value, e'))"
proof -
  let ?e = "\<lparr>ve_text = drop 1 token, ve_current = 0, ve_depth = 0\<rparr>"
  have "4 * expr_size (next_token ?e) + 3 \<le> 4 * length token + 8"
    using next_token_size [of ?e] by simp
  then have "yields (expr_size (next_token ?e)) (make_expression (4 * length token + 8) (next_token ?e))"
    using conditional_fuel [of "4 * length token + 8"] by blast
  then have "\<exists>value e'. make_expression (4 * length token + 8) (next_token ?e) = Some (value, e')"
    by (auto simp: yields_def)
  moreover have "\<exists>root' p'. top_loop (length data + 3) root Current_root
         (if take 3 data = UTF8_BOM then p\<lparr>vp_rest := drop 3 data\<rparr> else p) = Some (root', p')"
    if "new_object None \<lparr>vp_rest = data, vp_overflow = False, vp_error = False, vp_heap = h\<rparr> = (Some root, p)"
    using parser_parsed [OF that] by (auto simp: parsed_def)
  ultimately show ?thesis by blast
qed

theorem vdf_parse_returns_witness:
  "\<exists>root' p'. top_loop (length (B ''a'') + 3) (Vdf_object None VDF_TYPE_NONE) Current_root
     \<lparr>vp_rest = B ''a'', vp_overflow = False, vp_error = False, vp_heap = \<lambda>_. True\<rparr> = Some (root', p')"
proof -
  let ?p = "\<lparr>vp_rest = B ''a'', vp_overflow = False, vp_error = False, vp_heap = \<lambda>_. True\<rparr>"
  have "new_object None ?p = (Some (Vdf_object None VDF_TYPE_NONE), ?p)"
    by (simp add: new_object_def vp_alloc_def ml_mem_alloc_def)
  with vdf_parse_returns [of "B ''a''" "\<lambda>_. True" "Vdf_object None VDF_TYPE_NONE" ?p "[]"]
  show ?thesis by (simp add: UTF8_BOM_def)
qed

text \<open>
  C20: a tree that is returned is within the bounds. Every name and value fits the token buffer and
  has no NUL inside, every entry of a block has a name and a value or a block, and the
  recursion was never deeper than \<open>VDF_MAX_DEPTH\<close>.
\<close>

theorem vdf_parse_bounds:
  assumes "vdf_parse_buffer (Some data) h = (Some root, h')"
  shows "vdf_depth root \<le> VDF_MAX_DEPTH
     \<and> (\<forall>k. vo_key root = Some k \<longrightarrow> length k < VDF_TOKEN_SIZE \<and> 0 \<notin> set k)
     \<and> list_all vdf_entry_ok (children_of (Some root))"
proof -
  have ok: "vdf_root_ok root" by (rule parse_buffer_ok [OF assms])
  obtain k d where root: "root = Vdf_object k d" by (cases root)
  have "vdf_depth root \<le> VDF_MAX_DEPTH \<and> list_all vdf_entry_ok (children_of (Some root))"
  proof (cases "d = VDF_TYPE_NONE")
    case True
    then show ?thesis by (simp add: root children_of_def)
  next
    case False
    then obtain cs where d: "d = VDF_TYPE_ARRAY cs" and cs: "block_ok 1 cs"
      using ok by (auto simp: vdf_root_ok_def root)
    have "\<forall>c\<in>set cs. vdf_depth c \<le> VDF_MAX_DEPTH - 1" using cs by (fastforce simp: block_ok_def)
    then have "foldr max (map vdf_depth cs) 0 \<le> VDF_MAX_DEPTH - 1" unfolding foldr_max_le by simp
    moreover have "0 < VDF_MAX_DEPTH" by (simp add: VDF_MAX_DEPTH_def)
    ultimately have "vdf_depth root \<le> VDF_MAX_DEPTH" unfolding root d vdf_depth.simps data_depth.simps by linarith
    moreover have "list_all vdf_entry_ok cs" using cs by (simp add: block_ok_def list_all_iff)
    ultimately show ?thesis by (simp add: root d children_of_def)
  qed
  with ok show ?thesis by (simp add: vdf_root_ok_def token_ok_def)
qed

end
