(* ===== verification/VdfRoundtrip.thy ===== *)
theory VdfRoundtrip
  imports VdfTotal
begin

text \<open>
  Printing and parsing of KeyValues: a tree that is written with quoted and escaped strings is read
  back by \<open>vdf_parse_buffer\<close> (\<open>src/src/steam/vdf.c\<close>) as it was. The printer is
  part of the specification; the repository has none. The second part is lookup by name.
\<close>

subsection \<open>The printer\<close>

definition vdf_escape :: "8 word \<Rightarrow> bytes" where
  "vdf_escape c = (if c = 34 \<or> c = 92 then [92, c] else [c])"

definition vdf_quote :: "bytes \<Rightarrow> bytes" where
  "vdf_quote s = 34 # concat (map vdf_escape s) @ [34]"

fun vdf_print :: "vdf_object \<Rightarrow> bytes" and data_print :: "vdf_data \<Rightarrow> bytes" where
  "vdf_print (Vdf_object key data) = vdf_quote (case key of None \<Rightarrow> [] | Some k \<Rightarrow> k) @ data_print data"
| "data_print VDF_TYPE_NONE = []"
| "data_print (VDF_TYPE_STRING s) = 32 # vdf_quote s @ [10]"
| "data_print (VDF_TYPE_ARRAY cs) = 123 # concat (map vdf_print cs) @ [125]"

text \<open>Trees that the format can express: values that are not integers in another notation.\<close>

fun vdf_plain :: "vdf_object \<Rightarrow> bool" and data_plain :: "vdf_data \<Rightarrow> bool" where
  "vdf_plain (Vdf_object key data) \<longleftrightarrow> data_plain data"
| "data_plain VDF_TYPE_NONE \<longleftrightarrow> False"
| "data_plain (VDF_TYPE_STRING s) \<longleftrightarrow> stored_value s = s"
| "data_plain (VDF_TYPE_ARRAY cs) \<longleftrightarrow> list_all vdf_plain cs"

subsection \<open>Reading back a quoted string\<close>

lemma quoted_loop_escape:
  "vp_rest p = concat (map vdf_escape s) @ 34 # rest \<Longrightarrow> \<not> vp_overflow p \<Longrightarrow> 0 \<notin> set s \<Longrightarrow>
     length token + length s < VDF_TOKEN_SIZE \<Longrightarrow>
     quoted_loop token p = (token @ s, p\<lparr>vp_rest := rest\<rparr>)"
proof (induction s arbitrary: token p)
  case Nil
  then show ?case by (subst quoted_loop.simps) simp
next
  case (Cons c s)
  let ?q = "p\<lparr>vp_rest := concat (map vdf_escape s) @ 34 # rest\<rparr>"
  have d: "get_delimited_char p = (c, ?q)"
    using Cons.prems by (auto simp: get_delimited_char_def get_char_def vdf_escape_def [of c] escaped_char_def Let_def)
  have "vp_rest p \<noteq> [] \<and> hd (vp_rest p) \<noteq> 34" using Cons.prems by (auto simp: vdf_escape_def)
  then have "quoted_loop token p = quoted_loop (token @ [c]) ?q"
    using Cons.prems d by (subst quoted_loop.simps) simp
  also have "\<dots> = ((token @ [c]) @ s, ?q\<lparr>vp_rest := rest\<rparr>)"
    using Cons.prems by (intro Cons.IH) simp_all
  finally show ?case by simp
qed

lemma read_quoted_quote:
  assumes "vp_rest p = vdf_quote s @ rest" and "\<not> vp_overflow p" and "token_ok s"
  shows "read_quoted p = (s, p\<lparr>vp_rest := rest\<rparr>)"
proof -
  have "quoted_loop [] (p\<lparr>vp_rest := tl (vp_rest p)\<rparr>) = ([] @ s, p\<lparr>vp_rest := tl (vp_rest p)\<rparr>\<lparr>vp_rest := rest\<rparr>)"
    using assms by (intro quoted_loop_escape) (auto simp: vdf_quote_def token_ok_def)
  moreover have "c_string s = s"
    using assms(3) by (auto simp: c_string_def token_ok_def takeWhile_eq_all_conv)
  ultimately show ?thesis using assms(3) by (simp add: read_quoted_def Let_def token_ok_def)
qed

text \<open>The helpers that skip leave a state at a token as it is.\<close>

lemma skip_to_token:
  assumes "vp_rest p = ws @ c # rest" and "\<forall>w\<in>set ws. is_space w" and "\<not> is_space c" and "c \<noteq> 47"
    and "\<not> vp_overflow p"
  shows "eat_white_space p = p\<lparr>vp_rest := c # rest\<rparr>"
    and "eat_comments (p\<lparr>vp_rest := c # rest\<rparr>) = p\<lparr>vp_rest := c # rest\<rparr>"
proof -
  have "dropWhile is_space (ws @ c # rest) = c # rest" using assms(2,3) by (induction ws) auto
  then show "eat_white_space p = p\<lparr>vp_rest := c # rest\<rparr>" using assms(1,5) by (simp add: eat_white_space_def Let_def)
  show "eat_comments (p\<lparr>vp_rest := c # rest\<rparr>) = p\<lparr>vp_rest := c # rest\<rparr>"
    using assms(4) by (subst eat_comments.simps) (simp add: eat_cpp_comment_def bat_def)
qed

lemma read_token_quote:
  assumes "vp_rest p = ws @ vdf_quote s @ rest" and "\<forall>w\<in>set ws. is_space w" and "\<not> vp_overflow p" and "token_ok s"
  shows "read_token p = (Some s, True, False, p\<lparr>vp_rest := rest\<rparr>)"
proof -
  obtain r where r: "vdf_quote s @ rest = 34 # r" by (simp add: vdf_quote_def)
  note skip = skip_to_token [of p ws 34 r]
  have "\<not> is_space 34" by (simp add: is_space_def)
  then have "eat_white_space p = p\<lparr>vp_rest := 34 # r\<rparr>" "eat_comments (p\<lparr>vp_rest := 34 # r\<rparr>) = p\<lparr>vp_rest := 34 # r\<rparr>"
    using skip assms(1-3) r by simp_all
  moreover have "read_quoted (p\<lparr>vp_rest := 34 # r\<rparr>) = (s, p\<lparr>vp_rest := rest\<rparr>)"
    using read_quoted_quote [of "p\<lparr>vp_rest := 34 # r\<rparr>" s rest] assms(3,4) r by simp
  ultimately show ?thesis using assms(3) by (simp add: read_token_def Let_def)
qed

lemma read_token_brace:
  assumes "vp_rest p = ws @ c # rest" and "\<forall>w\<in>set ws. is_space w" and "\<not> vp_overflow p" and "c = 123 \<or> c = 125"
  shows "read_token p = (Some [c], False, False, p\<lparr>vp_rest := rest\<rparr>)"
proof -
  have "\<not> is_space c" "c \<noteq> 47" "c \<noteq> 34" using assms(4) by (auto simp: is_space_def)
  with skip_to_token [OF assms(1,2) _ _ assms(3)] assms(3,4) show ?thesis
    by (auto simp: read_token_def Let_def)
qed

lemma heap_ok_alloc: "heap_ok (vp_heap p) \<Longrightarrow> vp_alloc p = (True, p)"
  by (simp add: vp_alloc_def)

text \<open>After a value the next token is a name or the end of the block, never a conditional.\<close>

lemma store_value_plain:
  assumes "heap_ok (vp_heap p)" and "\<not> vp_overflow p" and "\<not> vp_error p" and "stored_value v = v"
    and "read_token p = (Some t, q, False, p\<lparr>vp_rest := r\<rparr>)"
  shows "store_value key v (Vdf_object k VDF_TYPE_NONE) True children p
     = (Vdf_object k (VDF_TYPE_STRING v), True, children, p)"
  using assms by (simp add: store_value_def set_value_def copy_string_def heap_ok_alloc)

definition print_all :: "vdf_object list \<Rightarrow> bytes" where
  "print_all cs = concat (map vdf_print cs)"

lemma entry_tokens:
  assumes "vdf_entry_ok c"
  shows "\<exists>k d. c = Vdf_object (Some k) d \<and> token_ok k \<and> k \<noteq> [] \<and> vdf_data_ok d"
  using assms by (cases c) (auto split: option.splits)

lemma first_token:
  assumes "vp_rest p = ws @ print_all cs @ 125 # rest" and "\<forall>w\<in>set ws. is_space w" and "\<not> vp_overflow p"
    and "list_all vdf_entry_ok cs"
  shows "\<exists>t q r. read_token p = (Some t, q, False, p\<lparr>vp_rest := r\<rparr>)"
proof (cases cs)
  case Nil
  with read_token_brace [of p ws 125 rest] assms show ?thesis by (auto simp: print_all_def)
next
  case (Cons c cs')
  then obtain k d where c: "c = Vdf_object (Some k) d" "token_ok k" using assms(4) entry_tokens by fastforce
  have "vp_rest p = ws @ vdf_quote k @ (data_print d @ print_all cs' @ 125 # rest)"
    using assms(1) Cons c by (simp add: print_all_def)
  from read_token_quote [OF this assms(2,3) c(2)] show ?thesis by blast
qed

lemma load_printed:
  "vp_rest p = ws @ print_all cs @ 125 # rest \<Longrightarrow> \<forall>w\<in>set ws. is_space w \<Longrightarrow> \<not> vp_overflow p \<Longrightarrow>
     \<not> vp_error p \<Longrightarrow> heap_ok (vp_heap p) \<Longrightarrow> list_all vdf_plain cs \<Longrightarrow> block_ok depth cs \<Longrightarrow>
     length (vp_rest p) + 1 \<le> fuel \<Longrightarrow>
     load_loop fuel depth acc p = Some (acc @ cs, p\<lparr>vp_rest := rest\<rparr>)"
proof (induction fuel arbitrary: p ws cs rest depth acc rule: less_induct)
  case (less fuel)
  note prems = less.prems
  obtain f where f: "fuel = Suc f" using prems(8) by (cases fuel) auto
  show ?case
  proof (cases cs)
    case Nil
    have "read_token p = (Some [125], False, False, p\<lparr>vp_rest := rest\<rparr>)"
      using read_token_brace [of p ws 125 rest] prems Nil by (simp add: print_all_def)
    with prems(4) Nil f show ?thesis by (simp add: bat_def)
  next
    case (Cons c cs')
    have ok: "vdf_entry_ok c" "block_ok depth cs'" "list_all vdf_plain cs'" "vdf_plain c"
        "vdf_depth c + depth \<le> VDF_MAX_DEPTH" "list_all vdf_entry_ok cs'"
      using prems(6,7) Cons by (auto simp: block_ok_def list_all_iff)
    obtain k d where c: "c = Vdf_object (Some k) d" "token_ok k" "k \<noteq> []" "vdf_data_ok d"
      using entry_tokens [OF ok(1)] by blast
    let ?r = "data_print d @ print_all cs' @ 125 # rest"
    let ?p1 = "p\<lparr>vp_rest := ?r\<rparr>"
    have rest0: "vp_rest p = ws @ vdf_quote k @ ?r" using prems(1) Cons c by (simp add: print_all_def)
    then have name: "read_token p = (Some k, True, False, ?p1)"
      using read_token_quote prems(2,3) c(2) by blast
    have len1: "length ?r + 2 \<le> length (vp_rest p)" unfolding rest0 by (simp add: vdf_quote_def)
    have no: "new_object (Some k) ?p1 = (Some (Vdf_object (Some k) VDF_TYPE_NONE), ?p1)"
      using prems(5) by (simp add: new_object_def copy_string_def heap_ok_alloc)
    have loop: "load_loop fuel depth acc p =
        (case entry_value k acc ?p1 of (v, quoted, conditional, accepted, children, p) \<Rightarrow>
           case v of
             None \<Rightarrow> Some (children, vp_fail p)
           | Some v \<Rightarrow>
               if (bat v 0 = 125 \<and> \<not> quoted) \<or> (\<not> (bat v 0 = 123 \<and> \<not> quoted) \<and> conditional)
               then Some (children, vp_fail p)
               else case (if bat v 0 = 123 \<and> \<not> quoted
                          then map_option
                            (\<lambda>(cs, p). (Vdf_object (Some k) (VDF_TYPE_ARRAY cs), accepted, children, p))
                            (load_block f (depth + 1) p)
                          else Some (store_value k v (Vdf_object (Some k) VDF_TYPE_NONE) accepted children p)) of
                 None \<Rightarrow> None
               | Some (child, accepted, children, p) \<Rightarrow>
                   (case (if vp_error p \<or> \<not> accepted then (children, p)
                          else append_child children child p) of
                      (children, p) \<Rightarrow> load_loop f depth children p))"
    proof -
      have "\<not> vp_error ?p1" "\<not> (bat k 0 = 125 \<and> \<not> True)" using prems(4) by simp_all
      then show ?thesis
        unfolding f load_loop.simps name prod.case option.case by (simp only: c(3) if_False no prod.case option.case vdf_object.sel)
    qed
    have app: "append_child acc c q = (acc @ [c], q)" if "heap_ok (vp_heap q)" for q
      using that by (simp add: append_child_def heap_ok_alloc)
    show ?thesis
    proof (cases d)
      case VDF_TYPE_NONE
      with c(4) show ?thesis by simp
    next
      case (VDF_TYPE_STRING v)
      let ?r2 = "10 # print_all cs' @ 125 # rest"
      let ?p2 = "p\<lparr>vp_rest := ?r2\<rparr>"
      have v: "token_ok v" "stored_value v = v" using c VDF_TYPE_STRING ok(4) by simp_all
      have "read_token ?p1 = (Some v, True, False, ?p1\<lparr>vp_rest := ?r2\<rparr>)"
        using read_token_quote [of ?p1 "[32]" v ?r2] v(1) prems(3) VDF_TYPE_STRING by (simp add: is_space_def)
      then have val: "read_token ?p1 = (Some v, True, False, ?p2)" by simp
      have ev: "entry_value k acc ?p1 = (Some v, True, False, True, acc, ?p2)"
        by (simp add: entry_value_def val)
      obtain t q r where ahead: "read_token ?p2 = (Some t, q, False, ?p2\<lparr>vp_rest := r\<rparr>)"
        using first_token [of ?p2 "[10]" cs' rest] prems(3) ok(6) by (auto simp: is_space_def)
      have sv: "store_value k v (Vdf_object (Some k) VDF_TYPE_NONE) True acc ?p2 = (c, True, acc, ?p2)"
        using store_value_plain [OF _ _ _ v(2) ahead] prems(3-5) c VDF_TYPE_STRING by simp
      have "load_loop fuel depth acc p = load_loop f depth (acc @ [c]) ?p2"
        unfolding loop ev using prems(4,5) sv app by simp
      also have "\<dots> = Some ((acc @ [c]) @ cs', ?p2\<lparr>vp_rest := rest\<rparr>)"
      proof (rule less.IH [of f ?p2 "[10]" cs' rest depth "acc @ [c]"])
        have "length ?r2 \<le> length ?r" using VDF_TYPE_STRING by (simp add: vdf_quote_def)
        then show "length (vp_rest ?p2) + 1 \<le> f" using len1 prems(8) f by simp
      qed (use f prems ok in \<open>simp_all add: is_space_def\<close>)
      finally show ?thesis using Cons by simp
    next
      case (VDF_TYPE_ARRAY ds)
      let ?r2 = "print_all ds @ 125 # print_all cs' @ 125 # rest"
      let ?p2 = "p\<lparr>vp_rest := ?r2\<rparr>"
      let ?p3 = "p\<lparr>vp_rest := print_all cs' @ 125 # rest\<rparr>"
      have r: "?r = 123 # ?r2" using VDF_TYPE_ARRAY by (simp add: print_all_def)
      have val: "read_token ?p1 = (Some [123], False, False, ?p2)"
        using read_token_brace [of ?p1 "[]" 123 ?r2] prems(3) by (simp add: r)
      have ev: "entry_value k acc ?p1 = (Some [123], False, False, True, acc, ?p2)"
        by (simp add: entry_value_def val bat_def)
      have "vdf_depth c = Suc (foldr max (map vdf_depth ds) 0)" by (simp add: c VDF_TYPE_ARRAY)
      then have dd: "foldr max (map vdf_depth ds) 0 \<le> VDF_MAX_DEPTH - Suc depth" "Suc depth \<le> VDF_MAX_DEPTH"
        using ok(5) by linarith+
      have "list_all vdf_entry_ok ds" using c VDF_TYPE_ARRAY by simp
      then have bk: "block_ok (depth + 1) ds"
        using dd unfolding foldr_max_le by (fastforce simp: block_ok_def list_all_iff)
      obtain f' where f': "f = Suc f'" using len1 prems(8) f by (cases f) auto
      have "load_loop f' (depth + 1) [] ?p2 = Some ([] @ ds, ?p2\<lparr>vp_rest := print_all cs' @ 125 # rest\<rparr>)"
      proof (rule less.IH [of f' ?p2 "[]" ds "print_all cs' @ 125 # rest" "depth + 1" "[]"])
        show "length (vp_rest ?p2) + 1 \<le> f'" using len1 prems(8) f f' r by simp
        show "list_all vdf_plain ds" using ok(4) c VDF_TYPE_ARRAY by simp
      qed (use f f' prems bk in simp_all)
      then have lb: "load_block f (depth + 1) ?p2 = Some (ds, ?p3)"
        using dd(2) f' by simp
      have "load_loop fuel depth acc p = load_loop f depth (acc @ [c]) ?p3"
        unfolding loop ev using prems(4,5) lb app c VDF_TYPE_ARRAY by (simp add: bat_def)
      also have "\<dots> = Some ((acc @ [c]) @ cs', ?p3\<lparr>vp_rest := rest\<rparr>)"
      proof (rule less.IH [of f ?p3 "[]" cs' rest depth "acc @ [c]"])
        show "length (vp_rest ?p3) + 1 \<le> f" using len1 prems(8) f r by simp
      qed (use f prems ok in simp_all)
      finally show ?thesis using Cons by simp
    qed
  qed
qed

lemma print_parse:
  assumes "root = Vdf_object (Some key) (VDF_TYPE_ARRAY cs)" and "vdf_entry_ok root" and "vdf_plain root"
    and "vdf_depth root \<le> VDF_MAX_DEPTH" and "\<not> ascii_equal key INCLUDE" and "heap_ok h"
    and "length (vdf_print root) \<le> INT_MAX"
  shows "vdf_parse_buffer (Some (vdf_print root)) h = (Some root, h)"
proof -
  define dat where "dat = vdf_print root"
  let ?r = "print_all cs @ [125]"
  let ?p = "\<lparr>vp_rest = dat, vp_overflow = False, vp_error = False, vp_heap = h\<rparr>"
  have data: "dat = vdf_quote key @ 123 # ?r" by (simp add: dat_def assms(1) print_all_def)
  have key: "token_ok key" "key \<noteq> []" "list_all vdf_entry_ok cs" "list_all vdf_plain cs"
    using assms(1-3) by simp_all
  have heap: "ml_mem_alloc h = (True, h)" "heap_ok (vp_heap ?p)" using assms(6) by simp_all
  have no: "new_object None ?p = (Some (Vdf_object None VDF_TYPE_NONE), ?p)"
    using heap(2) by (simp add: new_object_def heap_ok_alloc)
  have bom: "take 3 dat \<noteq> UTF8_BOM" unfolding data by (simp add: vdf_quote_def UTF8_BOM_def)
  define n where "n = length dat + 1"
  have t1: "read_token ?p = (Some key, True, False, ?p\<lparr>vp_rest := 123 # ?r\<rparr>)"
    using read_token_quote [of ?p "[]" key "123 # ?r"] key(1) data by simp
  have t2: "read_token (?p\<lparr>vp_rest := 123 # ?r\<rparr>) = (Some [123], False, False, ?p\<lparr>vp_rest := ?r\<rparr>)"
    using read_token_brace [of "?p\<lparr>vp_rest := 123 # ?r\<rparr>" "[]" 123 ?r] by simp
  have sk: "set_key (Vdf_object None VDF_TYPE_NONE) key (?p\<lparr>vp_rest := 123 # ?r\<rparr>)
      = (Some (Vdf_object (Some key) VDF_TYPE_NONE), ?p\<lparr>vp_rest := 123 # ?r\<rparr>)"
    using heap(2) by (simp add: set_key_def copy_string_def heap_ok_alloc)
  have "Suc (foldr max (map vdf_depth cs) 0) \<le> VDF_MAX_DEPTH" using assms(1,4) by simp
  then have dd: "foldr max (map vdf_depth cs) 0 \<le> VDF_MAX_DEPTH - 1" "1 \<le> VDF_MAX_DEPTH" by linarith+
  then have bk: "block_ok 1 cs"
    using key(3) unfolding foldr_max_le by (fastforce simp: block_ok_def list_all_iff)
  have "load_loop n 1 [] (?p\<lparr>vp_rest := ?r\<rparr>) = Some ([] @ cs, ?p\<lparr>vp_rest := ?r\<rparr>\<lparr>vp_rest := []\<rparr>)"
    using key(4) bk heap(2) by (intro load_printed [of _ "[]"]) (simp_all add: n_def data)
  then have lb: "load_block (Suc n) 1 (?p\<lparr>vp_rest := ?r\<rparr>) = Some (cs, ?p\<lparr>vp_rest := []\<rparr>)"
    using dd(2) by simp
  have last: "top_loop (Suc n) r c (?p\<lparr>vp_rest := []\<rparr>) = Some (r, ?p\<lparr>vp_rest := [], vp_overflow := True\<rparr>)" for r c
    by (simp add: read_token_def eat_white_space_def)
  have fuel: "length dat + 3 = Suc (Suc n)" by (simp add: n_def)
  have "top_loop (length dat + 3) (Vdf_object None VDF_TYPE_NONE) Current_root ?p
      = Some (root, ?p\<lparr>vp_rest := [], vp_overflow := True\<rparr>)"
    using assms(1,5) lb last t1 t2 sk
    unfolding fuel by (subst top_loop.simps) (simp add: bat_def del: load_block.simps top_loop.simps)
  then show ?thesis
    using assms(7) heap(1) no bom by (simp add: vdf_parse_buffer_def dat_def [symmetric] del: top_loop.simps)
qed

text \<open>
  C19: printing and parsing round trip. A tree whose names and values fit the token buffer, whose
  values are not numbers in another notation, and which is not nested deeper than the limit is
  read back exactly from its quoted and escaped text, when memory suffices.
\<close>

theorem vdf_print_parse:
  assumes "root = Vdf_object (Some key) (VDF_TYPE_ARRAY cs)" and "vdf_entry_ok root" and "vdf_plain root"
    and "vdf_depth root \<le> VDF_MAX_DEPTH" and "\<not> ascii_equal key INCLUDE" and "heap_ok h"
    and "length (vdf_print root) \<le> INT_MAX"
  shows "vdf_parse_buffer (Some (vdf_print root)) h = (Some root, h)"
  using assms by (rule print_parse)

definition example_vdf :: vdf_object where
  "example_vdf = Vdf_object (Some (B ''a'')) (VDF_TYPE_ARRAY
     [Vdf_object (Some (B ''b'')) (VDF_TYPE_STRING [34]), Vdf_object (Some (B ''c'')) (VDF_TYPE_ARRAY [])])"

lemma example_vdf_ok:
  "vdf_entry_ok example_vdf" "vdf_plain example_vdf" "vdf_depth example_vdf \<le> VDF_MAX_DEPTH"
  "length (vdf_print example_vdf) \<le> INT_MAX" "\<not> ascii_equal (B ''a'') INCLUDE"
  by (simp_all add: example_vdf_def token_ok_def VDF_TOKEN_SIZE_def VDF_MAX_DEPTH_def INT_MAX_def INCLUDE_def
      stored_value_def number_char_def is_digit_def ascii_upper_def vdf_quote_def vdf_escape_def)

lemma example_vdf_parse: "vdf_parse_buffer (Some (vdf_print example_vdf)) (\<lambda>_. True) = (Some example_vdf, \<lambda>_. True)"
  by (rule print_parse [OF example_vdf_def example_vdf_ok(1,2,3,5) heap_ok_const example_vdf_ok(4)])

theorem vdf_print_parse_witness:
  "vdf_parse_buffer (Some (vdf_print example_vdf)) (\<lambda>_. True) = (Some example_vdf, \<lambda>_. True)"
  by (rule vdf_print_parse [OF example_vdf_def example_vdf_ok(1,2,3,5) heap_ok_const example_vdf_ok(4)])

theorem vdf_parse_bounds_witness:
  "list_all vdf_entry_ok (children_of (Some example_vdf)) \<and> vdf_depth example_vdf \<le> VDF_MAX_DEPTH"
  using vdf_parse_bounds [OF example_vdf_parse] by simp

subsection \<open>Lookup by name\<close>

lemma ascii_equal_map: "ascii_equal a b \<longleftrightarrow> map ascii_upper a = map ascii_upper b"
  by (induction a b rule: ascii_equal.induct) auto

definition named :: "bytes \<Rightarrow> vdf_object \<Rightarrow> bool" where
  "named name c \<longleftrightarrow> (\<exists>k. vo_key c = Some k \<and> map ascii_upper k = map ascii_upper name)"

lemma first_named_iff:
  "first_named name cs = Some child \<longleftrightarrow>
     (\<exists>i<length cs. cs ! i = child \<and> named name child \<and> (\<forall>j<i. \<not> named name (cs ! j)))"
proof (induction cs)
  case (Cons c cs)
  have step: "first_named name (c # cs) = (if named name c then Some c else first_named name cs)"
    by (auto simp: named_def ascii_equal_map split: option.splits)
  show ?case
  proof (cases "named name c")
    case True
    then show ?thesis unfolding step by (auto simp: less_Suc_eq_0_disj intro!: exI [of _ 0])
  next
    case False
    show ?thesis unfolding step if_not_P [OF False] Cons
    proof
      assume "\<exists>i<length cs. cs ! i = child \<and> named name child \<and> (\<forall>j<i. \<not> named name (cs ! j))"
      then obtain i where "i < length cs" "cs ! i = child" "named name child" "\<forall>j<i. \<not> named name (cs ! j)" by blast
      with False show "\<exists>i<length (c # cs). (c # cs) ! i = child \<and> named name child
          \<and> (\<forall>j<i. \<not> named name ((c # cs) ! j))"
        by (intro exI [of _ "Suc i"]) (auto simp: less_Suc_eq_0_disj)
    next
      assume "\<exists>i<length (c # cs). (c # cs) ! i = child \<and> named name child
          \<and> (\<forall>j<i. \<not> named name ((c # cs) ! j))"
      then obtain i where i: "i < length (c # cs)" "(c # cs) ! i = child" "named name child"
          "\<forall>j<i. \<not> named name ((c # cs) ! j)" by blast
      with False obtain i' where "i = Suc i'" by (cases i) auto
      with i show "\<exists>i<length cs. cs ! i = child \<and> named name child \<and> (\<forall>j<i. \<not> named name (cs ! j))"
        by (intro exI [of _ i']) auto
    qed
  qed
qed simp

text \<open>
  Lookup finds the first entry of a block whose name is the same up to the case of ASCII
  letters, and nothing when there is none or the value is not a block.
\<close>

theorem vdf_lookup_first:
  "vdf_object_index_array_str obj (Some name) = Some child \<longleftrightarrow>
     (\<exists>i. vdf_object_index_array obj i = Some child
        \<and> (\<exists>k. vo_key child = Some k \<and> map ascii_upper k = map ascii_upper name)
        \<and> (\<forall>j<i. \<forall>c k. vdf_object_index_array obj j = Some c \<longrightarrow> vo_key c = Some k \<longrightarrow>
             map ascii_upper k \<noteq> map ascii_upper name))"
  unfolding vdf_object_index_array_str_def option.case first_named_iff
  by (auto simp: vdf_object_index_array_def vdf_object_get_array_length_def named_def split: if_splits)

theorem vdf_lookup_first_witness:
  "vdf_object_index_array_str (Some example_vdf) (Some (B ''C'')) = Some (Vdf_object (Some (B ''c'')) (VDF_TYPE_ARRAY []))"
  unfolding vdf_lookup_first
  by (rule exI [of _ 1])
    (auto simp: vdf_object_index_array_def vdf_object_get_array_length_def children_of_def example_vdf_def ascii_upper_def)

end
