(* ===== verification/SteamApp.thy ===== *)
theory SteamApp
  imports Paths VdfRoundtrip
begin

text \<open>
  The search for an installed game (\<open>src/src/steam/app.c\<close>): the libraries of the Steam
  client, their order, and the manifest of the game in each.

  The registry value, the conversion from UTF-8, the attributes of files and the files
  themselves are the record \<open>steam_env\<close>. \<open>_snwprintf\<close> into a buffer of \<open>MAX_PATH\<close>
  characters is \<open>path_buffer\<close>: the text, or \<open>None\<close> where the code gives up.
\<close>

record steam_env =
  se_registry :: "wstr option"
  se_utf8 :: "bytes \<Rightarrow> nat \<Rightarrow> wstr option"
  se_attributes :: attributes_api
  se_files :: vdf_files

definition STEAM_UNIVERSE_PUBLIC :: "32 word" where "STEAM_UNIVERSE_PUBLIC = 1"

definition path_buffer :: "wstr \<Rightarrow> wstr option" where
  "path_buffer s = (if length s < MAX_PATH then Some s else None)"

definition utf8_to_wide :: "steam_env \<Rightarrow> bytes \<Rightarrow> nat \<Rightarrow> wstr option" where
  "utf8_to_wide env utf8 out_count =
     (if out_count = 0 then None
      else case se_utf8 env utf8 out_count of None \<Rightarrow> None | Some w \<Rightarrow> Some (take (out_count - 1) w))"

definition vdf_get_string :: "vdf_object option \<Rightarrow> bytes \<Rightarrow> bytes" where
  "vdf_get_string obj key =
     (case vdf_object_get_string (vdf_object_index_array_str obj (Some key)) of None \<Rightarrow> [] | Some s \<Rightarrow> s)"

text \<open>The digits of \<open>get_int\<close>, in 32-bit arithmetic.\<close>

definition hex_digit_value :: "8 word \<Rightarrow> 32 word option" where
  "hex_digit_value c =
     (if is_digit c then Some (ucast (c - 48))
      else if 97 \<le> c \<and> c \<le> 102 then Some (ucast (c - 97 + 10))
      else if 65 \<le> c \<and> c \<le> 70 then Some (ucast (c - 65 + 10)) else None)"

fun hex_loop :: "32 word \<Rightarrow> bytes \<Rightarrow> 32 word" where
  "hex_loop n [] = n"
| "hex_loop n (c # s) = (case hex_digit_value c of Some d \<Rightarrow> hex_loop (n * 16 + d) s | None \<Rightarrow> n)"

fun dec_loop :: "32 word \<Rightarrow> bytes \<Rightarrow> 32 word" where
  "dec_loop n [] = n"
| "dec_loop n (c # s) = (if is_digit c then dec_loop (n * 10 + ucast (c - 48)) s else n)"

definition get_int :: "vdf_object option \<Rightarrow> bytes \<Rightarrow> 32 word" where
  "get_int obj key =
     (let s = vdf_get_string obj key;
          sign = (if bat s 0 = 45 then - 1 else 1);
          s = (if bat s 0 = 45 \<or> bat s 0 = 43 then drop 1 s else s);
          n = (if bat s 0 = 48 \<and> (bat s 1 = 120 \<or> bat s 1 = 88) then hex_loop 0 (drop 2 s)
               else if bat s 0 = 39 then scast (bat s 1)
               else dec_loop 0 s)
      in n * sign)"

definition is_absolute_path :: "bytes \<Rightarrow> bool" where
  "is_absolute_path path \<longleftrightarrow> 58 \<in> set path \<or> bat path 0 = 47 \<or> bat path 0 = 92"

text \<open>\<open>%u\<close>\<close>

definition unsigned_string :: "32 word \<Rightarrow> wstr" where
  "unsigned_string n = map ucast (dec_digits (unat n))"

definition manifest_file :: "32 word \<Rightarrow> wstr \<Rightarrow> wstr" where
  "manifest_file app_id library_root =
     library_root @ [BSLASH] @ L ''steamapps'' @ [BSLASH] @ L ''appmanifest_'' @ unsigned_string app_id @ L ''.acf''"

definition find_game_in_library :: "steam_env \<Rightarrow> 32 word \<Rightarrow> wstr \<Rightarrow> heap \<Rightarrow> wstr option \<times> heap" where
  "find_game_in_library env app_id library_root h =
     (case path_buffer (manifest_file app_id library_root) of
        None \<Rightarrow> (None, h)
      | Some manifest_path \<Rightarrow>
          (case vdf_parse_file (se_files env) manifest_path h of
             (None, h) \<Rightarrow> (None, h)
           | (Some acf, h) \<Rightarrow>
               if get_int (Some acf) (B ''AppID'') \<noteq> app_id
                  \<or> get_int (Some acf) (B ''Universe'') \<noteq> STEAM_UNIVERSE_PUBLIC then (None, h)
               else case utf8_to_wide env (vdf_get_string (Some acf) (B ''InstallDir'')) MAX_PATH of
                 None \<Rightarrow> (None, h)
               | Some install_dir \<Rightarrow>
                   if install_dir = [] then (None, h)
                   else case path_buffer (library_root @ [BSLASH] @ L ''steamapps'' @ [BSLASH] @ L ''common'' @ [BSLASH]
                                          @ install_dir) of
                     None \<Rightarrow> (None, h)
                   | Some game_path \<Rightarrow>
                       (case se_attributes env game_path of
                          None \<Rightarrow> (None, h)
                        | Some attributes \<Rightarrow>
                            (if attr_directory attributes then Some game_path else None, h))))"

fun load_library_loop :: "steam_env \<Rightarrow> wstr \<Rightarrow> wstr list \<Rightarrow> heap \<Rightarrow> vdf_object option \<times> heap" where
  "load_library_loop env steam_path [] h = (None, h)"
| "load_library_loop env steam_path (folder # folders) h =
     (case path_buffer (steam_path @ [BSLASH] @ folder @ [BSLASH] @ L ''libraryfolders.vdf'') of
        None \<Rightarrow> load_library_loop env steam_path folders h
      | Some library_path \<Rightarrow>
          (case vdf_parse_file (se_files env) library_path h of
             (Some library_folders, h) \<Rightarrow> (Some library_folders, h)
           | (None, h) \<Rightarrow> load_library_loop env steam_path folders h))"

definition load_library_folders :: "steam_env \<Rightarrow> wstr \<Rightarrow> heap \<Rightarrow> vdf_object option \<times> heap" where
  "load_library_folders env steam_path h = load_library_loop env steam_path [L ''steamapps'', L ''config''] h"

text \<open>The position of the entry \<open>"0"\<close>, which the code compares by its address.\<close>

fun steam_library_index :: "vdf_object list \<Rightarrow> nat \<Rightarrow> nat option" where
  "steam_library_index [] i = None"
| "steam_library_index (child # cs) i =
     (case vo_key child of
        Some k \<Rightarrow> if ascii_equal k (B ''0'') then Some i else steam_library_index cs (i + 1)
      | None \<Rightarrow> steam_library_index cs (i + 1))"

text \<open>The loop over the libraries, from the last block back; \<open>i\<close> blocks are left.\<close>

fun library_loop ::
  "steam_env \<Rightarrow> 32 word \<Rightarrow> vdf_object option \<Rightarrow> nat option \<Rightarrow> nat \<Rightarrow> heap \<Rightarrow> wstr option \<times> heap" where
  "library_loop env app_id library_folders steam_library 0 h = (None, h)"
| "library_loop env app_id library_folders steam_library (Suc i) h =
     (let library = vdf_object_index_array library_folders i;
          library_path = vdf_get_string library (B ''path'')
      in if steam_library = Some i \<or> \<not> is_absolute_path library_path
         then library_loop env app_id library_folders steam_library i h
         else case utf8_to_wide env library_path MAX_PATH of
           None \<Rightarrow> library_loop env app_id library_folders steam_library i h
         | Some library_root \<Rightarrow>
             (case find_game_in_library env app_id library_root h of
                (Some path, h) \<Rightarrow> (Some path, h)
              | (None, h) \<Rightarrow> library_loop env app_id library_folders steam_library i h))"

text \<open>The path found, with \<open>None\<close> for \<open>false\<close> and an empty path; \<open>has_path\<close> is \<open>path != NULL\<close>.\<close>

definition app_find_game_path :: "steam_env \<Rightarrow> 32 word \<Rightarrow> bool \<Rightarrow> heap \<Rightarrow> wstr option \<times> heap" where
  "app_find_game_path env app_id has_path h =
     (if \<not> has_path then (None, h)
      else case se_registry env of
        None \<Rightarrow> (None, h)
      | Some steam_path \<Rightarrow>
          if steam_path = [] then (None, h)
          else case load_library_folders env steam_path h of
            (library_folders, h) \<Rightarrow>
              (case library_loop env app_id library_folders
                      (steam_library_index (children_of library_folders) 0)
                      (vdf_object_get_array_length library_folders) h of
                 (Some path, h) \<Rightarrow> (Some path, h)
               | (None, h) \<Rightarrow> find_game_in_library env app_id steam_path h))"

subsection \<open>The order of the search\<close>

text \<open>The root of the \<open>i\<close>-th block, if it is a library to search, and the first that has the game.\<close>

definition library_root_at :: "steam_env \<Rightarrow> vdf_object option \<Rightarrow> nat \<Rightarrow> wstr option" where
  "library_root_at env folders i =
     (let library_path = vdf_get_string (vdf_object_index_array folders i) (B ''path'')
      in if steam_library_index (children_of folders) 0 = Some i \<or> \<not> is_absolute_path library_path then None
         else utf8_to_wide env library_path MAX_PATH)"

definition library_roots :: "steam_env \<Rightarrow> vdf_object option \<Rightarrow> wstr list" where
  "library_roots env folders =
     List.map_filter (library_root_at env folders) [0..<vdf_object_get_array_length folders]"

fun first_library :: "steam_env \<Rightarrow> 32 word \<Rightarrow> wstr list \<Rightarrow> heap \<Rightarrow> wstr option \<times> heap" where
  "first_library env app_id [] h = (None, h)"
| "first_library env app_id (root # roots) h =
     (case find_game_in_library env app_id root h of
        (Some path, h) \<Rightarrow> (Some path, h)
      | (None, h) \<Rightarrow> first_library env app_id roots h)"

lemma first_library_append:
  "first_library env app_id (as @ bs) h = (case first_library env app_id as h of
     (Some path, h) \<Rightarrow> (Some path, h) | (None, h) \<Rightarrow> first_library env app_id bs h)"
  by (induction as arbitrary: h) (auto split: prod.splits option.splits)

lemma library_loop_first:
  "library_loop env app_id folders (steam_library_index (children_of folders) 0) n h
     = first_library env app_id (rev (List.map_filter (library_root_at env folders) [0..<n])) h"
proof (induction n arbitrary: h)
  case (Suc n)
  let ?f = "library_root_at env folders" and ?sl = "steam_library_index (children_of folders) 0"
  have roots: "rev (List.map_filter ?f [0..<Suc n])
      = (case ?f n of None \<Rightarrow> [] | Some r \<Rightarrow> [r]) @ rev (List.map_filter ?f [0..<n])"
    by (auto simp: List.map_filter_def split: option.split)
  have step: "library_loop env app_id folders ?sl (Suc n) h =
      (case ?f n of None \<Rightarrow> library_loop env app_id folders ?sl n h
       | Some r \<Rightarrow> (case find_game_in_library env app_id r h of
           (Some path, h) \<Rightarrow> (Some path, h) | (None, h) \<Rightarrow> library_loop env app_id folders ?sl n h))"
    by (simp add: library_root_at_def Let_def)
  show ?case unfolding roots step Suc.IH by (cases "?f n") (simp_all split: prod.split option.split)
qed (simp add: List.map_filter_def)

text \<open>
  C32: libraries are searched from the last block of the folders file back to the first, without
  the entry of Steam's own folder and without relative paths, and then in Steam's own folder; the
  first that has the game wins.
\<close>

theorem app_search_order:
  assumes "se_registry env = Some steam_path" and "steam_path \<noteq> []"
    and "load_library_folders env steam_path h = (folders, h1)"
  shows "app_find_game_path env app_id True h
     = first_library env app_id (rev (library_roots env folders) @ [steam_path]) h1"
  using assms
  by (simp add: app_find_game_path_def library_loop_first library_roots_def first_library_append)
    (auto split: option.splits prod.splits)

theorem app_search_order_witness:
  "app_find_game_path \<lparr>se_registry = Some [65], se_utf8 = \<lambda>_ _. None, se_attributes = \<lambda>_. None, se_files = \<lambda>_. None\<rparr>
     7 True (\<lambda>_. True) = (None, \<lambda>_. True)"
proof -
  let ?env = "\<lparr>se_registry = Some [65], se_utf8 = \<lambda>_ _. None, se_attributes = \<lambda>_. None, se_files = \<lambda>_. None\<rparr>"
  have "load_library_folders ?env [65] (\<lambda>_. True) = (None, \<lambda>_. True)"
    by (simp add: load_library_folders_def path_buffer_def MAX_PATH_def vdf_parse_file_def)
  from app_search_order [OF _ _ this, where app_id = 7]
  show ?thesis
    by (simp add: library_roots_def vdf_object_get_array_length_def children_of_def find_game_in_library_def
        vdf_parse_file_def List.map_filter_def split: option.split)
qed

text \<open>
  C33: what is found is the game. A path that is returned is an existing directory below a library
  whose manifest, in some state of memory, parses and names this application in the public
  universe, and it fits the buffers.
\<close>

theorem app_found_valid:
  assumes "app_find_game_path env app_id has_path h = (Some path, h')"
  shows "\<exists>root acf install_dir ha hb attributes.
     vdf_parse_file (se_files env) (manifest_file app_id root) ha = (Some acf, hb)
   \<and> get_int (Some acf) (B ''AppID'') = app_id \<and> get_int (Some acf) (B ''Universe'') = 1
   \<and> utf8_to_wide env (vdf_get_string (Some acf) (B ''InstallDir'')) MAX_PATH = Some install_dir \<and> install_dir \<noteq> []
   \<and> path = root @ [BSLASH] @ L ''steamapps'' @ [BSLASH] @ L ''common'' @ [BSLASH] @ install_dir
   \<and> length path < MAX_PATH \<and> se_attributes env path = Some attributes \<and> attr_directory attributes"
proof -
  have found: "\<exists>root ha hb. find_game_in_library env app_id root ha = (Some path, hb)"
  proof -
    have loop: "\<exists>root ha hb. find_game_in_library env app_id root ha = (Some path, hb)"
      if "library_loop env app_id folders sl n ha = (Some path, hb)" for folders sl n ha hb
      using that by (induction n arbitrary: ha) (auto simp: Let_def split: if_splits option.splits prod.splits)
    show ?thesis using assms
      by (auto simp: app_find_game_path_def split: if_splits option.splits prod.splits dest: loop)
  qed
  then obtain root ha hb where "find_game_in_library env app_id root ha = (Some path, hb)" by blast
  then show ?thesis
    by (fastforce simp: find_game_in_library_def path_buffer_def STEAM_UNIVERSE_PUBLIC_def
        split: if_splits option.splits prod.splits)
qed

text \<open>A library \<open>A\<close> that has the game 7 in the folder \<open>g\<close>.\<close>

definition example_manifest :: vdf_object where
  "example_manifest = Vdf_object (Some (B ''a'')) (VDF_TYPE_ARRAY
     [Vdf_object (Some (B ''AppID'')) (VDF_TYPE_STRING (B ''7'')),
      Vdf_object (Some (B ''Universe'')) (VDF_TYPE_STRING (B ''1'')),
      Vdf_object (Some (B ''InstallDir'')) (VDF_TYPE_STRING (B ''g''))])"

definition example_env :: steam_env where
  "example_env = \<lparr>se_registry = Some [65], se_utf8 = \<lambda>s _. Some (map ucast s),
     se_attributes = \<lambda>_. Some \<lparr>attr_directory = True, attr_reparse = False\<rparr>,
     se_files = \<lambda>p. if p = manifest_file 7 [65]
       then Some (Some 9, \<lambda>_. Some (vdf_print example_manifest)) else None\<rparr>"

lemma stored_digit: "stored_value [55] = [55]" "stored_value [49] = [49]" "stored_value [103] = [103]"
  by (simp_all add: stored_value_def number_char_def is_digit_def strtol10_def is_space_def bat_def digits_value_def
      LONG_MAX_def LONG_MIN_def dec_string_def dec_digits.simps)

lemma example_manifest_parse:
  "vdf_parse_buffer (Some (vdf_print example_manifest)) (\<lambda>_. True) = (Some example_manifest, \<lambda>_. True)"
  by (rule print_parse [OF example_manifest_def])
    (simp_all add: example_manifest_def token_ok_def VDF_TOKEN_SIZE_def VDF_MAX_DEPTH_def INT_MAX_def INCLUDE_def
      stored_digit ascii_upper_def vdf_quote_def vdf_escape_def)

lemma example_folders: "load_library_folders example_env [65] h = (None, h)"
  by (simp add: load_library_folders_def path_buffer_def MAX_PATH_def vdf_parse_file_def example_env_def
      manifest_file_def unsigned_string_def dec_digits.simps)

lemma example_game: "find_game_in_library example_env 7 [65] (\<lambda>_. True)
     = (Some ([65, BSLASH] @ L ''steamapps'' @ [BSLASH] @ L ''common'' @ [BSLASH, 103]), \<lambda>_. True)"
proof -
  have parse: "vdf_parse_file (se_files example_env) (manifest_file 7 [65]) (\<lambda>_. True) = (Some example_manifest, \<lambda>_. True)"
    using example_manifest_parse
    by (simp add: vdf_parse_file_def example_env_def INT_MAX_def ml_mem_alloc_def)
      (simp add: example_manifest_def vdf_quote_def)
  have path: "path_buffer (manifest_file 7 [65]) = Some (manifest_file 7 [65])"
    by (simp add: path_buffer_def MAX_PATH_def manifest_file_def unsigned_string_def dec_digits.simps)
  have ints: "get_int (Some example_manifest) (B ''AppID'') = 7" "get_int (Some example_manifest) (B ''Universe'') = 1"
    "vdf_get_string (Some example_manifest) (B ''InstallDir'') = [103]"
    by (simp_all add: get_int_def vdf_get_string_def example_manifest_def vdf_object_index_array_str_def children_of_def
        ascii_upper_def vdf_object_get_string_def bat_def is_digit_def)
  show ?thesis
    unfolding find_game_in_library_def path option.case parse prod.case ints STEAM_UNIVERSE_PUBLIC_def
    by (simp add: utf8_to_wide_def MAX_PATH_def example_env_def path_buffer_def)
qed

lemma example_found:
  "app_find_game_path example_env 7 True (\<lambda>_. True)
     = (Some ([65, BSLASH] @ L ''steamapps'' @ [BSLASH] @ L ''common'' @ [BSLASH, 103]), \<lambda>_. True)"
proof -
  have "se_registry example_env = Some [65]" by (simp add: example_env_def)
  then show ?thesis
    unfolding app_find_game_path_def
    by (simp add: example_folders vdf_object_get_array_length_def children_of_def example_game del: L_Cons)
qed

theorem app_found_valid_witness:
  "\<exists>root acf dir. get_int (Some acf) (B ''AppID'') = 7 \<and>
     [65, BSLASH] @ L ''steamapps'' @ [BSLASH] @ L ''common'' @ [BSLASH, 103]
       = root @ [BSLASH] @ L ''steamapps'' @ [BSLASH] @ L ''common'' @ [BSLASH] @ dir"
  using app_found_valid [OF example_found] by blast

end
