(* ===== verification/Lifecycle.thy ===== *)
theory Lifecycle
  imports Prelude
begin

unbundle bit_operations_syntax

text \<open>
  The phases of the game's start and their observers (\<open>src/src/modloader/lifecycle.c\<close>).

  A phase is the enumeration's \<open>int\<close>, a callback a number with \<open>NULL\<close> as \<open>None\<close>. Each
  exported function is cut where other threads, or a callback it calls, can run in between:
  \<open>ml_lifecycle_on_phase\<close> between its test and its store, both under the lock, because
  \<open>InterlockedOr\<close> does not take the lock; \<open>ml_lifecycle_advance\<close> after \<open>InterlockedOr\<close> and
  after each callback it takes. The step relation \<open>lc_step\<close> interleaves the pieces in every way.
\<close>

definition ML_LIFECYCLE_PHASE_UNKNOWN :: int where "ML_LIFECYCLE_PHASE_UNKNOWN = 0"
definition ML_LIFECYCLE_PHASE_LAST :: int where "ML_LIFECYCLE_PHASE_LAST = 6"

record observer =
  ob_phase :: int
  ob_callback :: "nat option"
  ob_userp :: nat

record lifecycle =
  lc_observers :: "observer list"
  lc_capacity :: nat
  lc_reached :: "32 word"
  lc_heap :: heap

definition ml_lifecycle_init :: "lifecycle \<Rightarrow> lifecycle" where
  "ml_lifecycle_init lc = lc\<lparr>lc_observers := [], lc_capacity := 0, lc_reached := 0\<rparr>"

definition ml_lifecycle_uninit :: "lifecycle \<Rightarrow> lifecycle" where
  "ml_lifecycle_uninit lc = ml_lifecycle_init lc"

definition phase_mask :: "int \<Rightarrow> 32 word" where
  "phase_mask phase = push_bit (nat phase) 1"

definition phase_reached :: "lifecycle \<Rightarrow> int \<Rightarrow> bool" where
  "phase_reached lc phase \<longleftrightarrow> lc_reached lc AND phase_mask phase \<noteq> 0"

fun current_loop :: "lifecycle \<Rightarrow> nat \<Rightarrow> int" where
  "current_loop lc 0 = ML_LIFECYCLE_PHASE_UNKNOWN"
| "current_loop lc (Suc phase) = (if phase_reached lc (int (Suc phase)) then int (Suc phase) else current_loop lc phase)"

definition ml_lifecycle_current :: "lifecycle \<Rightarrow> int" where
  "ml_lifecycle_current lc = current_loop lc (nat ML_LIFECYCLE_PHASE_LAST)"

definition valid_phase :: "int \<Rightarrow> bool" where
  "valid_phase phase \<longleftrightarrow> \<not> (phase \<le> ML_LIFECYCLE_PHASE_UNKNOWN \<or> phase > ML_LIFECYCLE_PHASE_LAST)"

text \<open>\<open>ml_lifecycle_on_phase\<close>: the test under the lock, and the store that ends with its release.\<close>

definition on_phase_test :: "int \<Rightarrow> nat option \<Rightarrow> lifecycle \<Rightarrow> bool" where
  "on_phase_test phase callback lc \<longleftrightarrow> valid_phase phase \<and> callback \<noteq> None \<and> \<not> phase_reached lc phase"

definition on_phase_store :: "observer \<Rightarrow> lifecycle \<Rightarrow> bool \<times> lifecycle" where
  "on_phase_store ob lc =
     (if length (lc_observers lc) = lc_capacity lc then
        (case ml_mem_alloc (lc_heap lc) of
           (False, h) \<Rightarrow> (False, lc\<lparr>lc_heap := h\<rparr>)
         | (True, h) \<Rightarrow> (True, lc\<lparr>lc_observers := lc_observers lc @ [ob],
             lc_capacity := (if lc_capacity lc = 0 then 8 else lc_capacity lc * 2), lc_heap := h\<rparr>))
      else (True, lc\<lparr>lc_observers := lc_observers lc @ [ob]\<rparr>))"

text \<open>\<open>ml_lifecycle_advance\<close>: \<open>InterlockedOr\<close>, with whether the phase is new, and one search of the loop.\<close>

definition advance_reach :: "int \<Rightarrow> lifecycle \<Rightarrow> bool \<times> lifecycle" where
  "advance_reach phase lc = (\<not> phase_reached lc phase, lc\<lparr>lc_reached := lc_reached lc OR phase_mask phase\<rparr>)"

definition advance_take :: "int \<Rightarrow> lifecycle \<Rightarrow> observer option \<times> lifecycle" where
  "advance_take phase lc =
     (case find_index (\<lambda>ob. ob_callback ob \<noteq> None \<and> ob_phase ob = phase) (lc_observers lc) of
        None \<Rightarrow> (None, lc)
      | Some i \<Rightarrow> (Some (lc_observers lc ! i),
          lc\<lparr>lc_observers := (lc_observers lc)[i := (lc_observers lc ! i)\<lparr>ob_callback := None\<rparr>]\<rparr>))"

text \<open>
  The machine: the registration that holds the lock, the phases whose \<open>ml_lifecycle_advance\<close> is
  in its loop, and two histories: the observers that were accepted and the calls that were made.
\<close>

record lc_machine =
  lm_state :: lifecycle
  lm_pending :: "observer option"
  lm_draining :: "int set"
  lm_accepted :: "observer list"
  lm_calls :: "observer list"

definition lc_start :: "lifecycle \<Rightarrow> lc_machine" where
  "lc_start lc = \<lparr>lm_state = ml_lifecycle_init lc, lm_pending = None, lm_draining = {}, lm_accepted = [], lm_calls = []\<rparr>"

inductive lc_step :: "lc_machine \<Rightarrow> lc_machine \<Rightarrow> bool" where
  lc_register: "lm_pending m = None \<Longrightarrow> on_phase_test phase callback (lm_state m) \<Longrightarrow>
     lc_step m (m\<lparr>lm_pending := Some \<lparr>ob_phase = phase, ob_callback = callback, ob_userp = userp\<rparr>\<rparr>)"
| lc_store: "lm_pending m = Some ob \<Longrightarrow> on_phase_store ob (lm_state m) = (True, lc) \<Longrightarrow>
     lc_step m (m\<lparr>lm_state := lc, lm_pending := None, lm_accepted := lm_accepted m @ [ob]\<rparr>)"
| lc_store_fails: "lm_pending m = Some ob \<Longrightarrow> on_phase_store ob (lm_state m) = (False, lc) \<Longrightarrow>
     lc_step m (m\<lparr>lm_state := lc, lm_pending := None\<rparr>)"
| lc_advance: "valid_phase phase \<Longrightarrow> advance_reach phase (lm_state m) = (True, lc) \<Longrightarrow>
     lc_step m (m\<lparr>lm_state := lc, lm_draining := insert phase (lm_draining m)\<rparr>)"
| lc_advance_again: "valid_phase phase \<Longrightarrow> advance_reach phase (lm_state m) = (False, lc) \<Longrightarrow>
     lc_step m (m\<lparr>lm_state := lc\<rparr>)"
| lc_call: "lm_pending m = None \<Longrightarrow> phase \<in> lm_draining m \<Longrightarrow> advance_take phase (lm_state m) = (Some ob, lc) \<Longrightarrow>
     lc_step m (m\<lparr>lm_state := lc, lm_calls := lm_calls m @ [ob]\<rparr>)"
| lc_done: "lm_pending m = None \<Longrightarrow> phase \<in> lm_draining m \<Longrightarrow> advance_take phase (lm_state m) = (None, lc) \<Longrightarrow>
     lc_step m (m\<lparr>lm_state := lc, lm_draining := lm_draining m - {phase}\<rparr>)"

inductive lc_reach :: "lc_machine \<Rightarrow> bool" where
  lc_reach_start: "lc_reach (lc_start lc)"
| lc_reach_step: "lc_reach m \<Longrightarrow> lc_step m m' \<Longrightarrow> lc_reach m'"

subsection \<open>Phases as bits\<close>

lemma bit_phase_mask: "valid_phase p \<Longrightarrow> bit (phase_mask p) n \<longleftrightarrow> n = nat p"
  by (simp add: phase_mask_def valid_phase_def ML_LIFECYCLE_PHASE_UNKNOWN_def ML_LIFECYCLE_PHASE_LAST_def)
    (auto simp: bit_exp_iff)

lemma phase_reached_bit: "valid_phase p \<Longrightarrow> phase_reached lc p \<longleftrightarrow> bit (lc_reached lc) (nat p)"
  unfolding phase_reached_def bit_eq_iff [where 'a = "32 word"]
  by (auto simp: bit_and_iff bit_phase_mask simp del: bit_eq_iff dest: bit_imp_possible_bit)

lemma phase_reached_advance:
  assumes "advance_reach q lc = (fresh, lc')" and "valid_phase q" and "valid_phase p"
  shows "phase_reached lc' p \<longleftrightarrow> phase_reached lc p \<or> p = q" "fresh \<longleftrightarrow> \<not> phase_reached lc q"
    "lc_observers lc' = lc_observers lc"
  using assms
  by (auto simp: advance_reach_def phase_reached_bit bit_or_iff bit_phase_mask valid_phase_def
      ML_LIFECYCLE_PHASE_UNKNOWN_def)

lemma phase_reached_frame: "lc_reached lc' = lc_reached lc \<Longrightarrow> phase_reached lc' p = phase_reached lc p"
  by (simp add: phase_reached_def)

lemma on_phase_store_cases:
  assumes "on_phase_store ob lc = (done, lc')"
  shows "lc_reached lc' = lc_reached lc" "lc_observers lc' = lc_observers lc @ (if done then [ob] else [])"
  using assms by (auto simp: on_phase_store_def split: if_splits prod.splits bool.splits)

lemma advance_take_cases:
  assumes "advance_take p lc = (found, lc')"
  shows "lc_reached lc' = lc_reached lc"
  using assms by (auto simp: advance_take_def split: option.splits)

subsection \<open>Every observer is called once, in the order of registration\<close>

definition of_phase :: "int \<Rightarrow> observer list \<Rightarrow> observer list" where
  "of_phase p obs = filter (\<lambda>ob. ob_phase ob = p) obs"

abbreviation taken :: "observer \<Rightarrow> observer" where
  "taken ob \<equiv> ob\<lparr>ob_callback := None\<rparr>"

lemma of_phase_append: "of_phase p (xs @ ys) = of_phase p xs @ of_phase p ys"
  by (simp add: of_phase_def)

lemma find_index_filter:
  assumes "find_index (\<lambda>x. P x \<and> Q x) xs = Some i"
  shows "\<exists>as bs. filter Q xs = as @ xs ! i # bs \<and> (\<forall>a\<in>set as. \<not> P a) \<and> P (xs ! i) \<and> Q (xs ! i)
     \<and> (\<forall>y. Q y \<longrightarrow> filter Q (xs[i := y]) = as @ y # bs)"
  using assms
proof (induction xs arbitrary: i)
  case (Cons x xs)
  show ?case
  proof (cases "P x \<and> Q x")
    case True
    with Cons.prems have "i = 0" by simp
    with True show ?thesis by - (rule exI [of _ "[]"], rule exI [of _ "filter Q xs"], auto)
  next
    case False
    with Cons.prems obtain j where j: "find_index (\<lambda>x. P x \<and> Q x) xs = Some j" "i = Suc j"
      by (auto split: if_splits)
    from Cons.IH [OF j(1)] obtain as bs where IH: "filter Q xs = as @ xs ! j # bs" "\<forall>a\<in>set as. \<not> P a"
      "P (xs ! j)" "Q (xs ! j)" "\<forall>y. Q y \<longrightarrow> filter Q (xs[j := y]) = as @ y # bs" by blast
    show ?thesis
    proof (cases "Q x")
      case True
      with False IH j(2) show ?thesis by - (rule exI [of _ "x # as"], rule exI [of _ bs], auto)
    qed (use IH j(2) in auto)
  qed
qed simp

lemma filter_update_other: "\<not> Q (xs ! i) \<Longrightarrow> \<not> Q y \<Longrightarrow> filter Q (xs[i := y]) = filter Q xs"
  by (induction xs arbitrary: i) (auto split: nat.split)

text \<open>
  The first \<open>k\<close> accepted observers of the phase were called, and their entries hold no callback;
  \<open>k\<close> is 0 before the phase and all of them after its \<open>ml_lifecycle_advance\<close>.
\<close>

definition phase_inv :: "lc_machine \<Rightarrow> int \<Rightarrow> nat \<Rightarrow> bool" where
  "phase_inv m p k \<longleftrightarrow>
     k \<le> length (of_phase p (lm_accepted m))
   \<and> of_phase p (lm_calls m) = take k (of_phase p (lm_accepted m))
   \<and> of_phase p (lc_observers (lm_state m))
       = map taken (take k (of_phase p (lm_accepted m))) @ drop k (of_phase p (lm_accepted m))
   \<and> (\<not> phase_reached (lm_state m) p \<longrightarrow> k = 0 \<and> p \<notin> lm_draining m)
   \<and> (phase_reached (lm_state m) p \<longrightarrow> p \<notin> lm_draining m \<longrightarrow>
        k = length (of_phase p (lm_accepted m)) \<and> (\<forall>ob. lm_pending m = Some ob \<longrightarrow> ob_phase ob \<noteq> p))"

definition lc_inv :: "lc_machine \<Rightarrow> bool" where
  "lc_inv m \<longleftrightarrow> (\<forall>p. valid_phase p \<longrightarrow> (\<exists>k. phase_inv m p k))
   \<and> (\<forall>p\<in>lm_draining m. valid_phase p)
   \<and> (\<forall>ob\<in>set (lm_accepted m). ob_callback ob \<noteq> None)
   \<and> (\<forall>ob. lm_pending m = Some ob \<longrightarrow> ob_callback ob \<noteq> None \<and> valid_phase (ob_phase ob))"

lemma not_reached_init: "valid_phase p \<Longrightarrow> \<not> phase_reached (ml_lifecycle_init lc) p"
  by (simp add: phase_reached_def ml_lifecycle_init_def)

lemma lc_inv_start: "lc_inv (lc_start lc)"
  by (auto simp: lc_inv_def phase_inv_def lc_start_def not_reached_init of_phase_def)
    (simp add: ml_lifecycle_init_def)

text \<open>The search of the loop takes the first accepted observer of the phase that was not called.\<close>

lemma take_observer:
  assumes inv: "phase_inv m p k" and acc: "\<forall>ob\<in>set (lm_accepted m). ob_callback ob \<noteq> None"
    and step: "advance_take p (lm_state m) = (found, lc)"
  shows "case found of
      None \<Rightarrow> lc = lm_state m \<and> k = length (of_phase p (lm_accepted m))
    | Some ob \<Rightarrow> k < length (of_phase p (lm_accepted m)) \<and> ob = of_phase p (lm_accepted m) ! k
        \<and> of_phase p (lc_observers lc)
            = map taken (take (Suc k) (of_phase p (lm_accepted m))) @ drop (Suc k) (of_phase p (lm_accepted m))
        \<and> (\<forall>q. q \<noteq> p \<longrightarrow> of_phase q (lc_observers lc) = of_phase q (lc_observers (lm_state m)))"
proof -
  let ?acc = "of_phase p (lm_accepted m)" and ?obs = "lc_observers (lm_state m)"
  let ?live = "\<lambda>ob. ob_callback ob \<noteq> None"
  have obs: "of_phase p ?obs = map taken (take k ?acc) @ drop k ?acc" and k: "k \<le> length ?acc"
    using inv by (auto simp: phase_inv_def)
  have live: "\<forall>ob\<in>set (drop k ?acc). ?live ob"
    using acc by (auto simp: of_phase_def dest!: in_set_dropD)
  have dead: "\<forall>ob\<in>set (map taken (take k ?acc)). \<not> ?live ob" by auto
  show ?thesis
  proof (cases "find_index (\<lambda>ob. ?live ob \<and> ob_phase ob = p) ?obs")
    case None
    then have "\<forall>ob\<in>set (of_phase p ?obs). \<not> ?live ob" by (auto simp: of_phase_def)
    with obs live have "drop k ?acc = []" by (cases "drop k ?acc") auto
    moreover have "found = None" "lc = lm_state m" using step unfolding advance_take_def None by simp_all
    ultimately show ?thesis using k by simp
  next
    case (Some i)
    from find_index_filter [OF Some] obtain as bs where
      split: "of_phase p ?obs = as @ ?obs ! i # bs" "\<forall>a\<in>set as. \<not> ?live a" "?live (?obs ! i)" "ob_phase (?obs ! i) = p"
        "\<forall>y. ob_phase y = p \<longrightarrow> of_phase p (?obs[i := y]) = as @ y # bs"
      unfolding of_phase_def by blast
    have "takeWhile (\<lambda>ob. \<not> ?live ob) (of_phase p ?obs) = as"
      using split(1-3) by (simp add: takeWhile_append)
    moreover have "takeWhile (\<lambda>ob. \<not> ?live ob) (of_phase p ?obs) = map taken (take k ?acc)"
      unfolding obs using live dead by (cases "drop k ?acc") (auto simp: takeWhile_append)
    ultimately have ascalled: "as = map taken (take k ?acc)" by simp
    with split(1) obs ascalled have tail: "drop k ?acc = ?obs ! i # bs" by simp
    then have "k < length ?acc" by (metis drop_eq_Nil leI list.distinct(1))
    with tail have nth: "k < length ?acc" "?obs ! i = ?acc ! k" "bs = drop (Suc k) ?acc"
      using Cons_nth_drop_Suc [of k ?acc] by simp_all
    have lc: "found = Some (?obs ! i)" "lc_observers lc = ?obs[i := taken (?obs ! i)]"
      using step unfolding advance_take_def Some by auto
    have "of_phase q (lc_observers lc) = of_phase q ?obs" if "q \<noteq> p" for q
      unfolding lc of_phase_def using split(4) that by (intro filter_update_other) auto
    with split nth ascalled lc show ?thesis
      by (simp add: take_Suc_conv_app_nth)
  qed
qed

lemma lc_inv_step:
  assumes "lc_step m m'" and "lc_inv m"
  shows "lc_inv m'"
  using assms
proof (cases rule: lc_step.cases)
  case (lc_register phase callback userp)
  then show ?thesis using assms(2)
    by (auto simp: lc_inv_def phase_inv_def on_phase_test_def)
next
  case (lc_store ob lc)
  have frame: "phase_reached lc p = phase_reached (lm_state m) p" "lc_observers lc = lc_observers (lm_state m) @ [ob]" for p
    using phase_reached_frame [OF on_phase_store_cases(1) [OF lc_store(3)]] on_phase_store_cases(2) [OF lc_store(3)] by simp_all
  have "\<exists>k. phase_inv m' p k" if p: "valid_phase p" for p
  proof -
    obtain k where k: "phase_inv m p k" using assms(2) p by (auto simp: lc_inv_def)
    then have "phase_inv m' p k" using lc_store frame
      by (cases "ob_phase ob = p") (auto simp: phase_inv_def of_phase_append of_phase_def)
    then show ?thesis by blast
  qed
  then show ?thesis using lc_store assms(2) by (auto simp: lc_inv_def)
next
  case (lc_store_fails ob lc)
  have frame: "phase_reached lc p = phase_reached (lm_state m) p" "lc_observers lc = lc_observers (lm_state m)" for p
    using phase_reached_frame [OF on_phase_store_cases(1) [OF lc_store_fails(3)]] on_phase_store_cases(2) [OF lc_store_fails(3)] by simp_all
  then show ?thesis using assms(2) lc_store_fails
    by (auto simp: lc_inv_def phase_inv_def)
next
  case (lc_advance phase lc)
  note adv = phase_reached_advance [OF lc_advance(3,2)]
  have "\<exists>k. phase_inv m' p k" if p: "valid_phase p" for p
  proof -
    obtain k where "phase_inv m p k" using assms(2) p by (auto simp: lc_inv_def)
    then have "phase_inv m' p k" using adv [OF p] lc_advance(1) by (auto simp: phase_inv_def)
    then show ?thesis by blast
  qed
  then show ?thesis using lc_advance(1,2) assms(2) by (auto simp: lc_inv_def)
next
  case (lc_advance_again phase lc)
  note adv = phase_reached_advance [OF lc_advance_again(3,2)]
  have "\<exists>k. phase_inv m' p k" if p: "valid_phase p" for p
  proof -
    obtain k where "phase_inv m p k" using assms(2) p by (auto simp: lc_inv_def)
    then have "phase_inv m' p k" using adv [OF p] lc_advance_again(1) by (auto simp: phase_inv_def)
    then show ?thesis by blast
  qed
  then show ?thesis using lc_advance_again(1,2) assms(2) by (auto simp: lc_inv_def)
next
  case (lc_call phase ob lc)
  have reached: "phase_reached lc p = phase_reached (lm_state m) p" for p
    using advance_take_cases [OF lc_call(4)] by (rule phase_reached_frame)
  have acc: "\<forall>ob\<in>set (lm_accepted m). ob_callback ob \<noteq> None" using assms(2) by (simp add: lc_inv_def)
  have "\<exists>k. phase_inv m' p k" if p: "valid_phase p" for p
  proof -
    obtain k where k: "phase_inv m p k" using assms(2) p by (auto simp: lc_inv_def)
    have valid: "valid_phase phase" using lc_call(3) assms(2) by (auto simp: lc_inv_def)
    obtain j where j: "phase_inv m phase j" using assms(2) valid by (auto simp: lc_inv_def)
    note taken = take_observer [OF j acc lc_call(4), simplified]
    have ob: "ob_phase ob = phase" using taken by (auto simp: of_phase_def dest: nth_mem)
    show ?thesis
    proof (cases "p = phase")
      case True
      have "phase_inv m' p (Suc j)" using j taken ob True lc_call(1,3) reached
        by (auto simp: phase_inv_def of_phase_append of_phase_def take_Suc_conv_app_nth)
      then show ?thesis by blast
    next
      case False
      have "phase_inv m' p k" using k taken ob False lc_call(1) reached
        by (auto simp: phase_inv_def of_phase_append) (simp_all add: of_phase_def)
      then show ?thesis by blast
    qed
  qed
  then show ?thesis using lc_call(1) assms(2) by (auto simp: lc_inv_def)
next
  case (lc_done phase lc)
  have acc: "\<forall>ob\<in>set (lm_accepted m). ob_callback ob \<noteq> None" using assms(2) by (simp add: lc_inv_def)
  have "\<exists>k. phase_inv m' p k" if p: "valid_phase p" for p
  proof -
    obtain k where k: "phase_inv m p k" using assms(2) p by (auto simp: lc_inv_def)
    show ?thesis
    proof (cases "p = phase")
      case True
      with k have k': "phase_inv m phase k" by simp
      from take_observer [OF k' acc lc_done(4)] have "lc = lm_state m" "k = length (of_phase phase (lm_accepted m))"
        by simp_all
      then have "phase_inv m' p k" using k True lc_done(1,2) by (auto simp: phase_inv_def)
      then show ?thesis by blast
    next
      case False
      have "lc = lm_state m" using lc_done(4) by (auto simp: advance_take_def split: option.splits)
      then have "phase_inv m' p k" using k False lc_done(1) by (auto simp: phase_inv_def)
      then show ?thesis by blast
    qed
  qed
  then show ?thesis using lc_done(1) assms(2) by (auto simp: lc_inv_def)
qed

lemma lc_reach_inv: "lc_reach m \<Longrightarrow> lc_inv m"
  by (induction rule: lc_reach.induct) (auto intro: lc_inv_start lc_inv_step)

text \<open>
  C39: in every interleaving of registrations and phases, the callbacks called for a phase are the
  first of its accepted observers, in the order of registration and each once; none before the
  phase is reached, and all of them when \<open>ml_lifecycle_advance\<close> has returned.
\<close>

theorem lifecycle_calls_once:
  assumes "lc_reach m" and "valid_phase p"
  shows "of_phase p (lm_calls m) = take (length (of_phase p (lm_calls m))) (of_phase p (lm_accepted m))
     \<and> (\<not> phase_reached (lm_state m) p \<longrightarrow> of_phase p (lm_calls m) = [])
     \<and> (phase_reached (lm_state m) p \<longrightarrow> p \<notin> lm_draining m \<longrightarrow> of_phase p (lm_calls m) = of_phase p (lm_accepted m))"
proof -
  obtain k where "phase_inv m p k" using lc_reach_inv [OF assms(1)] assms(2) by (auto simp: lc_inv_def)
  then show ?thesis by (auto simp: phase_inv_def)
qed

text \<open>An observer of phase 2 that registers, and is called when the phase is reached.\<close>

abbreviation example_observer :: "nat option \<Rightarrow> observer" where
  "example_observer callback \<equiv> \<lparr>ob_phase = 2, ob_callback = callback, ob_userp = 5\<rparr>"

abbreviation example_lc :: "observer list \<Rightarrow> nat \<Rightarrow> 32 word \<Rightarrow> lifecycle" where
  "example_lc obs capacity reached \<equiv>
     \<lparr>lc_observers = obs, lc_capacity = capacity, lc_reached = reached, lc_heap = \<lambda>_. True\<rparr>"

abbreviation example_reached :: lc_machine where
  "example_reached \<equiv> \<lparr>lm_state = example_lc [example_observer (Some 9)] 8 4, lm_pending = None, lm_draining = {2},
     lm_accepted = [example_observer (Some 9)], lm_calls = []\<rparr>"

abbreviation example_called :: lc_machine where
  "example_called \<equiv> \<lparr>lm_state = example_lc [example_observer None] 8 4, lm_pending = None, lm_draining = {},
     lm_accepted = [example_observer (Some 9)], lm_calls = [example_observer (Some 9)]\<rparr>"

lemma example_lifecycle: "lc_reach example_reached" "lc_reach example_called"
proof -
  have phases: "valid_phase 2" "phase_mask 2 = 4"
    by (simp_all add: valid_phase_def ML_LIFECYCLE_PHASE_UNKNOWN_def ML_LIFECYCLE_PHASE_LAST_def phase_mask_def
        push_bit_eq_mult)
  let ?m0 = "lc_start (example_lc [] 0 0)"
  let ?m1 = "?m0\<lparr>lm_pending := Some (example_observer (Some 9))\<rparr>"
  let ?m2 = "?m1\<lparr>lm_state := example_lc [example_observer (Some 9)] 8 0, lm_pending := None,
    lm_accepted := [example_observer (Some 9)]\<rparr>"
  have m1: "lc_reach ?m1"
    by (rule lc_reach_step [OF lc_reach_start lc_register])
      (simp_all add: lc_start_def ml_lifecycle_init_def on_phase_test_def phases phase_reached_def)
  have "lc_step ?m1 ?m2"
    using lc_store [of ?m1 "example_observer (Some 9)" "example_lc [example_observer (Some 9)] 8 0"]
    by (simp add: lc_start_def ml_lifecycle_init_def on_phase_store_def ml_mem_alloc_def)
  with m1 have m2: "lc_reach ?m2" by (rule lc_reach_step)
  have "lc_step ?m2 example_reached"
    using lc_advance [of 2 ?m2 "example_lc [example_observer (Some 9)] 8 4"]
    by (simp add: lc_start_def advance_reach_def phases phase_reached_def)
  with m2 show m3: "lc_reach example_reached" by (rule lc_reach_step)
  let ?m4 = "example_called\<lparr>lm_draining := {2}\<rparr>"
  have "lc_step example_reached ?m4"
    using lc_call [of example_reached 2 "example_observer (Some 9)" "example_lc [example_observer None] 8 4"]
    by (simp add: advance_take_def)
  with m3 have m4: "lc_reach ?m4" by (rule lc_reach_step)
  have "lc_step ?m4 example_called"
    using lc_done [of ?m4 2 "example_lc [example_observer None] 8 4"] by (simp add: advance_take_def)
  with m4 show "lc_reach example_called" by (rule lc_reach_step)
qed

theorem lifecycle_calls_once_witness:
  "of_phase 2 (lm_calls example_called) = of_phase 2 (lm_accepted example_called)
   \<and> length (of_phase 2 (lm_calls example_called)) = 1"
  using lifecycle_calls_once [OF example_lifecycle(2), of 2]
  by (simp add: valid_phase_def ML_LIFECYCLE_PHASE_UNKNOWN_def ML_LIFECYCLE_PHASE_LAST_def phase_reached_def
      phase_mask_def push_bit_eq_mult of_phase_def)

subsection \<open>\<open>ml_lifecycle_advance\<close> returns\<close>

text \<open>The registrations of a phase that is reached: those stored, and the one that holds the lock.\<close>

definition coming :: "int \<Rightarrow> lc_machine \<Rightarrow> nat" where
  "coming p m = length (of_phase p (lm_accepted m))
     + (case lm_pending m of Some ob \<Rightarrow> if ob_phase ob = p then 1 else 0 | None \<Rightarrow> 0)"

lemma step_coming:
  assumes "lc_step m m'" and "valid_phase p" and "phase_reached (lm_state m) p"
  shows "coming p m' \<le> coming p m \<and> phase_reached (lm_state m') p"
  using assms(1)
proof (cases rule: lc_step.cases)
  case (lc_register phase callback userp)
  then show ?thesis using assms by (auto simp: coming_def on_phase_test_def)
next
  case (lc_store ob lc)
  then show ?thesis using assms(3) phase_reached_frame [OF on_phase_store_cases(1) [OF lc_store(3)]]
    by (auto simp: coming_def of_phase_append) (auto simp: of_phase_def)
next
  case (lc_store_fails ob lc)
  then show ?thesis using assms(3) phase_reached_frame [OF on_phase_store_cases(1) [OF lc_store_fails(3)]]
    by (auto simp: coming_def)
next
  case (lc_advance phase lc)
  then show ?thesis using assms(3) phase_reached_advance(1) [OF lc_advance(3,2) assms(2)] by (simp add: coming_def)
next
  case (lc_advance_again phase lc)
  then show ?thesis using assms(3) phase_reached_advance(1) [OF lc_advance_again(3,2) assms(2)] by (simp add: coming_def)
next
  case (lc_call phase ob lc)
  then show ?thesis using assms(3) phase_reached_frame [OF advance_take_cases [OF lc_call(4)]] by (simp add: coming_def)
next
  case (lc_done phase lc)
  then show ?thesis using assms(3) phase_reached_frame [OF advance_take_cases [OF lc_done(4)]] by (simp add: coming_def)
qed

lemma steps_coming:
  assumes "lc_step\<^sup>*\<^sup>* m m'" and "valid_phase p" and "phase_reached (lm_state m) p"
  shows "coming p m' \<le> coming p m \<and> phase_reached (lm_state m') p"
  using assms by (induction rule: rtranclp_induct) (auto dest: step_coming)

lemma lc_reach_steps: "lc_step\<^sup>*\<^sup>* m m' \<Longrightarrow> lc_reach m \<Longrightarrow> lc_reach m'"
  by (induction rule: rtranclp_induct) (auto intro: lc_reach_step)

lemma release_lock: "\<exists>m'. lc_step\<^sup>*\<^sup>* m m' \<and> lm_pending m' = None \<and> lm_draining m' = lm_draining m"
proof (cases "lm_pending m")
  case (Some ob)
  obtain stored lc where store: "on_phase_store ob (lm_state m) = (stored, lc)" by (cases "on_phase_store ob (lm_state m)")
  show ?thesis
  proof (cases stored)
    case True
    with store have "lc_step m (m\<lparr>lm_state := lc, lm_pending := None, lm_accepted := lm_accepted m @ [ob]\<rparr>)"
      by (simp add: lc_store [OF Some])
    then show ?thesis by (intro exI conjI, rule r_into_rtranclp) simp_all
  next
    case False
    with store have "lc_step m (m\<lparr>lm_state := lc, lm_pending := None\<rparr>)"
      by (simp add: lc_store_fails [OF Some])
    then show ?thesis by (intro exI conjI, rule r_into_rtranclp) simp_all
  qed
qed blast

lemma drain_phase:
  assumes "lc_reach m" and "valid_phase p" and "p \<in> lm_draining m" and "lm_pending m = None"
  shows "\<exists>m'. lc_step\<^sup>*\<^sup>* m m' \<and> p \<notin> lm_draining m'"
  using assms
proof (induction "length (of_phase p (lm_accepted m)) - length (of_phase p (lm_calls m))" arbitrary: m rule: less_induct)
  case less
  have inv: "lc_inv m" using less.prems(1) by (rule lc_reach_inv)
  then obtain k where k: "phase_inv m p k" using less.prems(2) by (auto simp: lc_inv_def)
  have acc: "\<forall>ob\<in>set (lm_accepted m). ob_callback ob \<noteq> None" using inv by (simp add: lc_inv_def)
  obtain found lc where take: "advance_take p (lm_state m) = (found, lc)" by (cases "advance_take p (lm_state m)")
  note taken = take_observer [OF k acc take]
  show ?case
  proof (cases found)
    case None
    with take have "lc_step m (m\<lparr>lm_state := lc, lm_draining := lm_draining m - {p}\<rparr>)"
      by (simp add: lc_done [OF less.prems(4,3)])
    then show ?thesis by (intro exI conjI r_into_rtranclp) auto
  next
    case (Some ob)
    let ?m = "m\<lparr>lm_state := lc, lm_calls := lm_calls m @ [ob]\<rparr>"
    have step: "lc_step m ?m" using take Some by (simp add: lc_call [OF less.prems(4,3)])
    have "ob_phase ob = p" "length (of_phase p (lm_calls m)) < length (of_phase p (lm_accepted m))"
      using taken Some k nth_mem [of k "of_phase p (lm_accepted m)"] by (auto simp: phase_inv_def of_phase_def)
    then have "\<exists>m'. lc_step\<^sup>*\<^sup>* ?m m' \<and> p \<notin> lm_draining m'"
      using less.prems by (intro less.hyps) (auto simp: of_phase_append of_phase_def intro: lc_reach_step [OF _ step])
    then show ?thesis using step by (blast intro: converse_rtranclp_into_rtranclp)
  qed
qed

text \<open>
  C40: an \<open>ml_lifecycle_advance\<close> that is in its loop makes a bounded number of calls, whatever
  registrations and other phases run meanwhile, and it is never blocked: from every reachable
  state it can run to its end, with every accepted observer of the phase called.
\<close>

theorem lifecycle_advance_ends:
  assumes "lc_reach m" and "valid_phase p" and "p \<in> lm_draining m"
  shows "(\<forall>m'. lc_step\<^sup>*\<^sup>* m m' \<longrightarrow> length (of_phase p (lm_calls m')) \<le> coming p m)
     \<and> (\<exists>m'. lc_step\<^sup>*\<^sup>* m m' \<and> p \<notin> lm_draining m' \<and> of_phase p (lm_calls m') = of_phase p (lm_accepted m'))"
proof -
  have reached: "phase_reached (lm_state m) p"
    using lc_reach_inv [OF assms(1)] assms(2,3) by (auto simp: lc_inv_def phase_inv_def)
  have calls: "\<exists>k. phase_inv m' p k" if "lc_step\<^sup>*\<^sup>* m m'" for m'
    using lc_reach_inv [OF lc_reach_steps [OF that assms(1)]] assms(2) by (auto simp: lc_inv_def)
  have "length (of_phase p (lm_calls m')) \<le> coming p m" if "lc_step\<^sup>*\<^sup>* m m'" for m'
  proof -
    have "length (of_phase p (lm_calls m')) \<le> coming p m'"
      using calls [OF that] by (auto simp: phase_inv_def coming_def)
    then show ?thesis using steps_coming [OF that assms(2) reached] by simp
  qed
  moreover obtain m1 where m1: "lc_step\<^sup>*\<^sup>* m m1" "lm_pending m1 = None" "lm_draining m1 = lm_draining m"
    using release_lock by blast
  then obtain m2 where m2: "lc_step\<^sup>*\<^sup>* m1 m2" "p \<notin> lm_draining m2"
    using drain_phase [OF lc_reach_steps [OF m1(1) assms(1)] assms(2)] assms(3) by auto
  have steps: "lc_step\<^sup>*\<^sup>* m m2" using m1(1) m2(1) by simp
  have "of_phase p (lm_calls m2) = of_phase p (lm_accepted m2)"
    using calls [OF steps] m2(2) steps_coming [OF steps assms(2) reached] by (auto simp: phase_inv_def)
  ultimately show ?thesis using steps m2(2) by blast
qed

theorem lifecycle_advance_ends_witness:
  "\<exists>m'. lc_step\<^sup>*\<^sup>* example_reached m' \<and> 2 \<notin> lm_draining m' \<and> of_phase 2 (lm_calls m') = of_phase 2 (lm_accepted m')"
  using lifecycle_advance_ends [OF example_lifecycle(1), of 2]
  by (simp add: valid_phase_def ML_LIFECYCLE_PHASE_UNKNOWN_def ML_LIFECYCLE_PHASE_LAST_def)

end
