(* ===== verification/MinHook.thy ===== *)
theory MinHook
  imports Prelude "HOL-Library.Multiset"
begin

text \<open>
  The hooking library the loader ships (\<open>src/deps/minhook/hook.c\<close>): the table of hooks, the
  bytes it patches, and the threads whose instruction pointers it moves. Every exported function
  holds the library's spin lock, so each is one atomic step.

  Memory is a function from addresses to bytes, a pointer a 64-bit word with \<open>NULL\<close> as 0. What
  the disassembler and the buffer allocator answer (\<open>CreateTrampolineFunction\<close>,
  \<open>AllocateBuffer\<close>) and which pages are executable are the record \<open>mh_env\<close>: the trampoline is a
  function of the memory and the arguments, the buffer one of the number of requests so far. The
  memory of the state is the patched code, not the buffers. Every other call that can fail
  consumes one outcome of the stream \<open>mh_system\<close>.
\<close>

type_synonym ptr = "64 word"
type_synonym memory = "ptr \<Rightarrow> 8 word"

datatype mh_status =
    MH_UNKNOWN | MH_OK | MH_ERROR_ALREADY_INITIALIZED | MH_ERROR_NOT_INITIALIZED | MH_ERROR_ALREADY_CREATED
  | MH_ERROR_NOT_CREATED | MH_ERROR_ENABLED | MH_ERROR_DISABLED | MH_ERROR_NOT_EXECUTABLE
  | MH_ERROR_UNSUPPORTED_FUNCTION | MH_ERROR_MEMORY_ALLOC | MH_ERROR_MEMORY_PROTECT
  | MH_ERROR_MODULE_NOT_FOUND | MH_ERROR_FUNCTION_NOT_FOUND

record trampoline =
  tr_relay :: ptr
  tr_patch_above :: bool
  tr_nip :: nat
  tr_old_ips :: "8 word list"
  tr_new_ips :: "8 word list"

record hook_entry =
  he_target :: ptr
  he_detour :: ptr
  he_trampoline :: ptr
  he_backup :: "8 word list"
  he_patch_above :: bool
  he_enabled :: bool
  he_queue_enable :: bool
  he_nip :: nat
  he_old_ips :: "8 word list"
  he_new_ips :: "8 word list"

record mh_env =
  me_executable :: "ptr \<Rightarrow> bool"
  me_buffer :: "nat \<Rightarrow> ptr \<Rightarrow> ptr option"
  me_trampoline :: "memory \<Rightarrow> ptr \<Rightarrow> ptr \<Rightarrow> ptr \<Rightarrow> trampoline option"

text \<open>The library, the code it patches, and the instruction pointers of the other threads.\<close>

record minhook =
  mh_initialized :: bool
  mh_items :: bool            \<comment> \<open>\<open>g_hooks.pItems != NULL\<close>\<close>
  mh_capacity :: nat
  mh_entries :: "hook_entry list"
  mh_memory :: memory
  mh_threads :: "ptr list"
  mh_requests :: nat          \<comment> \<open>calls of \<open>AllocateBuffer\<close>\<close>
  mh_system :: heap

definition mh_call :: "minhook \<Rightarrow> bool \<times> minhook" where
  "mh_call st = (case ml_mem_alloc (mh_system st) of (ok, h) \<Rightarrow> (ok, st\<lparr>mh_system := h\<rparr>))"

subsection \<open>Memory\<close>

definition read_bytes :: "memory \<Rightarrow> ptr \<Rightarrow> nat \<Rightarrow> 8 word list" where
  "read_bytes m p n = map (\<lambda>i. m (p + of_nat i)) [0..<n]"

definition write_bytes :: "memory \<Rightarrow> ptr \<Rightarrow> 8 word list \<Rightarrow> memory" where
  "write_bytes m p bs = (\<lambda>a. if unat (a - p) < length bs then bs ! unat (a - p) else m a)"

definition little_endian32 :: "32 word \<Rightarrow> 8 word list" where
  "little_endian32 w = [ucast w, ucast (drop_bit 8 w), ucast (drop_bit 16 w), ucast (drop_bit 24 w)]"

definition JMP_REL_SIZE :: nat where "JMP_REL_SIZE = 5"
definition JMP_REL_SHORT_SIZE :: nat where "JMP_REL_SHORT_SIZE = 2"

definition patch_target :: "hook_entry \<Rightarrow> ptr" where
  "patch_target e = (if he_patch_above e then he_target e - of_nat JMP_REL_SIZE else he_target e)"

definition patch_size :: "hook_entry \<Rightarrow> nat" where
  "patch_size e = (if he_patch_above e then JMP_REL_SIZE + JMP_REL_SHORT_SIZE else JMP_REL_SIZE)"

definition jump_bytes :: "hook_entry \<Rightarrow> 8 word list" where
  "jump_bytes e =
     0xE9 # little_endian32 (ucast (he_detour e - (patch_target e + of_nat JMP_REL_SIZE)))
     @ (if he_patch_above e then [0xEB, 0 - of_nat (JMP_REL_SHORT_SIZE + JMP_REL_SIZE)] else [])"

subsection \<open>The table\<close>

definition INITIAL_HOOK_CAPACITY :: nat where "INITIAL_HOOK_CAPACITY = 32"

definition find_hook_entry :: "minhook \<Rightarrow> ptr \<Rightarrow> nat option" where
  "find_hook_entry st target = find_index (\<lambda>e. target = he_target e) (mh_entries st)"

text \<open>Room for one more entry.\<close>

definition add_hook_room :: "minhook \<Rightarrow> bool \<times> minhook" where
  "add_hook_room st =
     (if \<not> mh_items st then
        (case mh_call (st\<lparr>mh_capacity := INITIAL_HOOK_CAPACITY\<rparr>) of (ok, st) \<Rightarrow> (ok, st\<lparr>mh_items := ok\<rparr>))
      else if length (mh_entries st) \<ge> mh_capacity st then
        (case mh_call st of
           (False, st) \<Rightarrow> (False, st) | (True, st) \<Rightarrow> (True, st\<lparr>mh_capacity := mh_capacity st * 2\<rparr>))
      else (True, st))"

definition delete_hook_entry :: "nat \<Rightarrow> minhook \<Rightarrow> minhook" where
  "delete_hook_entry pos st =
     (let es = mh_entries st;
          st = st\<lparr>mh_entries := butlast (if pos < length es - 1 then es[pos := last es] else es)\<rparr>
      in if mh_capacity st div 2 \<ge> INITIAL_HOOK_CAPACITY \<and> mh_capacity st div 2 \<ge> length (mh_entries st) then
           (case mh_call st of
              (False, st) \<Rightarrow> st | (True, st) \<Rightarrow> st\<lparr>mh_capacity := mh_capacity st div 2\<rparr>)
         else st)"

subsection \<open>Threads\<close>

text \<open>The address for an instruction pointer, 0 for none.\<close>

fun boundary_loop :: "(8 word \<times> 8 word) list \<Rightarrow> ptr \<Rightarrow> ptr \<Rightarrow> ptr \<Rightarrow> ptr option" where
  "boundary_loop [] from to ip = None"
| "boundary_loop ((a, b) # ips) from to ip = (if ip = from + ucast a then Some (to + ucast b) else boundary_loop ips from to ip)"

definition find_old_ip :: "hook_entry \<Rightarrow> ptr \<Rightarrow> ptr" where
  "find_old_ip e ip =
     (if he_patch_above e \<and> ip = he_target e - of_nat JMP_REL_SIZE then he_target e
      else case boundary_loop (take (he_nip e) (zip (he_new_ips e) (he_old_ips e))) (he_trampoline e) (he_target e) ip of
        Some found \<Rightarrow> found
      | None \<Rightarrow> if ip = he_detour e then he_target e else 0)"

definition find_new_ip :: "hook_entry \<Rightarrow> ptr \<Rightarrow> ptr" where
  "find_new_ip e ip =
     (case boundary_loop (take (he_nip e) (zip (he_old_ips e) (he_new_ips e))) (he_target e) (he_trampoline e) ip of
        Some found \<Rightarrow> found | None \<Rightarrow> 0)"

datatype freeze_action = ACTION_DISABLE | ACTION_ENABLE | ACTION_APPLY_QUEUED

definition action_enable :: "freeze_action \<Rightarrow> hook_entry \<Rightarrow> bool" where
  "action_enable action e =
     (case action of ACTION_DISABLE \<Rightarrow> False | ACTION_ENABLE \<Rightarrow> True | ACTION_APPLY_QUEUED \<Rightarrow> he_queue_enable e)"

text \<open>
  \<open>ProcessThreadIPs\<close> over the entries of the range, with the instruction pointer of the local
  context and the one the thread has: they differ when \<open>SetThreadContext\<close> fails.
\<close>

fun process_thread_ip :: "freeze_action \<Rightarrow> hook_entry list \<Rightarrow> ptr \<Rightarrow> ptr \<Rightarrow> heap \<Rightarrow> ptr \<times> heap" where
  "process_thread_ip action [] c ip h = (ip, h)"
| "process_thread_ip action (e # es) c ip h =
     (let enable = action_enable action e in
      if he_enabled e = enable then process_thread_ip action es c ip h
      else let found = (if enable then find_new_ip e c else find_old_ip e c) in
        if found = 0 then process_thread_ip action es c ip h
        else case ml_mem_alloc h of (moved, h) \<Rightarrow> process_thread_ip action es found (if moved then found else ip) h)"

text \<open>Each thread is opened and suspended and its context read, or left alone.\<close>

fun freeze_threads :: "freeze_action \<Rightarrow> hook_entry list \<Rightarrow> ptr list \<Rightarrow> heap \<Rightarrow> ptr list \<times> heap" where
  "freeze_threads action es [] h = ([], h)"
| "freeze_threads action es (ip # ips) h =
     (case ml_mem_alloc h of
        (suspended, h) \<Rightarrow>
          (case (if suspended then process_thread_ip action es ip ip h else (ip, h)) of
             (ip, h) \<Rightarrow>
               (case freeze_threads action es ips h of (ips, h) \<Rightarrow> (ip # ips, h))))"

definition freeze :: "hook_entry list \<Rightarrow> freeze_action \<Rightarrow> minhook \<Rightarrow> mh_status \<times> minhook" where
  "freeze es action st =
     (case mh_call st of
        (False, st) \<Rightarrow> (MH_ERROR_MEMORY_ALLOC, st)
      | (True, st) \<Rightarrow>
          (case freeze_threads action es (mh_threads st) (mh_system st) of
             (ips, h) \<Rightarrow> (MH_OK, st\<lparr>mh_threads := ips, mh_system := h\<rparr>)))"

subsection \<open>Enabling\<close>

definition enable_hook_ll :: "nat \<Rightarrow> bool \<Rightarrow> minhook \<Rightarrow> mh_status \<times> minhook" where
  "enable_hook_ll pos enable st =
     (let e = mh_entries st ! pos in
      case mh_call st of
        (False, st) \<Rightarrow> (MH_ERROR_MEMORY_PROTECT, st)
      | (True, st) \<Rightarrow>
          (MH_OK, st\<lparr>mh_memory := write_bytes (mh_memory st) (patch_target e)
                 (if enable then jump_bytes e else take (patch_size e) (he_backup e)),
              mh_entries := (mh_entries st)[pos := e\<lparr>he_enabled := enable, he_queue_enable := enable\<rparr>]\<rparr>))"

fun enable_loop :: "(hook_entry \<Rightarrow> bool) \<Rightarrow> nat list \<Rightarrow> minhook \<Rightarrow> mh_status \<times> minhook" where
  "enable_loop goal [] st = (MH_OK, st)"
| "enable_loop goal (i # is) st =
     (let e = mh_entries st ! i in
      if he_enabled e = goal e then enable_loop goal is st
      else case enable_hook_ll i (goal e) st of
        (status, st) \<Rightarrow> if status \<noteq> MH_OK then (status, st) else enable_loop goal is st)"

text \<open>\<open>EnableAllHooksLL\<close> and the body of \<open>MH_ApplyQueued\<close> are the same loop with different goals.\<close>

definition enable_from_first :: "(hook_entry \<Rightarrow> bool) \<Rightarrow> freeze_action \<Rightarrow> minhook \<Rightarrow> mh_status \<times> minhook" where
  "enable_from_first goal action st =
     (case find_index (\<lambda>e. he_enabled e \<noteq> goal e) (mh_entries st) of
        None \<Rightarrow> (MH_OK, st)
      | Some first \<Rightarrow>
          (case freeze (mh_entries st) action st of
             (status, st) \<Rightarrow>
               if status \<noteq> MH_OK then (status, st)
               else enable_loop goal [first..<length (mh_entries st)] st))"

definition enable_all_hooks_ll :: "bool \<Rightarrow> minhook \<Rightarrow> mh_status \<times> minhook" where
  "enable_all_hooks_ll enable st = enable_from_first (\<lambda>_. enable) (if enable then ACTION_ENABLE else ACTION_DISABLE) st"

definition MH_Initialize :: "minhook \<Rightarrow> mh_status \<times> minhook" where
  "MH_Initialize st =
     (if mh_initialized st then (MH_ERROR_ALREADY_INITIALIZED, st)
      else case mh_call st of
        (False, st) \<Rightarrow> (MH_ERROR_MEMORY_ALLOC, st) | (True, st) \<Rightarrow> (MH_OK, st\<lparr>mh_initialized := True\<rparr>))"

definition MH_Uninitialize :: "minhook \<Rightarrow> mh_status \<times> minhook" where
  "MH_Uninitialize st =
     (if \<not> mh_initialized st then (MH_ERROR_NOT_INITIALIZED, st)
      else case enable_all_hooks_ll False st of
        (status, st) \<Rightarrow>
          if status \<noteq> MH_OK then (status, st)
          else (status, st\<lparr>mh_initialized := False, mh_items := False, mh_capacity := 0, mh_entries := []\<rparr>))"

definition new_hook :: "memory \<Rightarrow> ptr \<Rightarrow> ptr \<Rightarrow> trampoline \<Rightarrow> hook_entry" where
  "new_hook m target buffer ct =
     \<lparr>he_target = target, he_detour = tr_relay ct, he_trampoline = buffer,
      he_backup = (if tr_patch_above ct then read_bytes m (target - of_nat JMP_REL_SIZE) (JMP_REL_SIZE + JMP_REL_SHORT_SIZE)
                   else read_bytes m target JMP_REL_SIZE),
      he_patch_above = tr_patch_above ct, he_enabled = False, he_queue_enable = False,
      he_nip = tr_nip ct, he_old_ips = tr_old_ips ct, he_new_ips = tr_new_ips ct\<rparr>"

text \<open>The status, and \<open>*ppOriginal\<close> where it is written.\<close>

definition MH_CreateHook :: "mh_env \<Rightarrow> ptr \<Rightarrow> ptr \<Rightarrow> minhook \<Rightarrow> mh_status \<times> ptr option \<times> minhook" where
  "MH_CreateHook env target detour st =
     (if \<not> mh_initialized st then (MH_ERROR_NOT_INITIALIZED, None, st)
      else if \<not> (me_executable env target \<and> me_executable env detour) then (MH_ERROR_NOT_EXECUTABLE, None, st)
      else if find_hook_entry st target \<noteq> None then (MH_ERROR_ALREADY_CREATED, None, st)
      else case me_buffer env (mh_requests st) target of
        None \<Rightarrow> (MH_ERROR_MEMORY_ALLOC, None, st\<lparr>mh_requests := Suc (mh_requests st)\<rparr>)
      | Some buffer \<Rightarrow>
          let st = st\<lparr>mh_requests := Suc (mh_requests st)\<rparr> in
          (case me_trampoline env (mh_memory st) target detour buffer of
             None \<Rightarrow> (MH_ERROR_UNSUPPORTED_FUNCTION, None, st)
           | Some ct \<Rightarrow>
               (case add_hook_room st of
                  (False, st) \<Rightarrow> (MH_ERROR_MEMORY_ALLOC, None, st)
                | (True, st) \<Rightarrow>
                    (MH_OK, Some buffer,
                     st\<lparr>mh_entries := mh_entries st @ [new_hook (mh_memory st) target buffer ct]\<rparr>))))"

definition MH_RemoveHook :: "ptr \<Rightarrow> minhook \<Rightarrow> mh_status \<times> minhook" where
  "MH_RemoveHook target st =
     (if \<not> mh_initialized st then (MH_ERROR_NOT_INITIALIZED, st)
      else case find_hook_entry st target of
        None \<Rightarrow> (MH_ERROR_NOT_CREATED, st)
      | Some pos \<Rightarrow>
          (case (if he_enabled (mh_entries st ! pos) then
                   (case freeze [mh_entries st ! pos] ACTION_DISABLE st of
                      (status, st) \<Rightarrow> if status = MH_OK then enable_hook_ll pos False st else (status, st))
                 else (MH_OK, st)) of
             (status, st) \<Rightarrow> (status, if status = MH_OK then delete_hook_entry pos st else st)))"

text \<open>\<open>EnableHook\<close>; \<open>NULL\<close> is \<open>MH_ALL_HOOKS\<close>. The freeze is always for enabling, as in the code.\<close>

definition enable_hook :: "ptr \<Rightarrow> bool \<Rightarrow> minhook \<Rightarrow> mh_status \<times> minhook" where
  "enable_hook target enable st =
     (if \<not> mh_initialized st then (MH_ERROR_NOT_INITIALIZED, st)
      else if target = 0 then enable_all_hooks_ll enable st
      else case find_hook_entry st target of
        None \<Rightarrow> (MH_ERROR_NOT_CREATED, st)
      | Some pos \<Rightarrow>
          if he_enabled (mh_entries st ! pos) = enable then (if enable then MH_ERROR_ENABLED else MH_ERROR_DISABLED, st)
          else case freeze [mh_entries st ! pos] ACTION_ENABLE st of
            (status, st) \<Rightarrow> if status = MH_OK then enable_hook_ll pos enable st else (status, st))"

definition MH_EnableHook :: "ptr \<Rightarrow> minhook \<Rightarrow> mh_status \<times> minhook" where
  "MH_EnableHook target st = enable_hook target True st"

definition MH_DisableHook :: "ptr \<Rightarrow> minhook \<Rightarrow> mh_status \<times> minhook" where
  "MH_DisableHook target st = enable_hook target False st"

definition queue_hook :: "ptr \<Rightarrow> bool \<Rightarrow> minhook \<Rightarrow> mh_status \<times> minhook" where
  "queue_hook target queue st =
     (if \<not> mh_initialized st then (MH_ERROR_NOT_INITIALIZED, st)
      else if target = 0 then (MH_OK, st\<lparr>mh_entries := map (\<lambda>e. e\<lparr>he_queue_enable := queue\<rparr>) (mh_entries st)\<rparr>)
      else case find_hook_entry st target of
        None \<Rightarrow> (MH_ERROR_NOT_CREATED, st)
      | Some pos \<Rightarrow>
          (MH_OK, st\<lparr>mh_entries := (mh_entries st)[pos := (mh_entries st ! pos)\<lparr>he_queue_enable := queue\<rparr>]\<rparr>))"

definition MH_QueueEnableHook :: "ptr \<Rightarrow> minhook \<Rightarrow> mh_status \<times> minhook" where
  "MH_QueueEnableHook target st = queue_hook target True st"

definition MH_QueueDisableHook :: "ptr \<Rightarrow> minhook \<Rightarrow> mh_status \<times> minhook" where
  "MH_QueueDisableHook target st = queue_hook target False st"

definition MH_ApplyQueued :: "minhook \<Rightarrow> mh_status \<times> minhook" where
  "MH_ApplyQueued st =
     (if \<not> mh_initialized st then (MH_ERROR_NOT_INITIALIZED, st)
      else enable_from_first he_queue_enable ACTION_APPLY_QUEUED st)"

text \<open>
  \<open>GetModuleHandleW\<close> and \<open>GetProcAddress\<close> are parameters; the answer also has \<open>*ppTarget\<close> where
  it is written.
\<close>

definition MH_CreateHookApiEx ::
  "mh_env \<Rightarrow> ('w \<Rightarrow> 'm option) \<Rightarrow> ('m \<Rightarrow> 'n \<Rightarrow> ptr) \<Rightarrow> 'w \<Rightarrow> 'n \<Rightarrow> ptr \<Rightarrow> minhook
     \<Rightarrow> mh_status \<times> ptr option \<times> ptr option \<times> minhook" where
  "MH_CreateHookApiEx env GetModuleHandleW GetProcAddress module_name proc_name detour st =
     (case GetModuleHandleW module_name of
        None \<Rightarrow> (MH_ERROR_MODULE_NOT_FOUND, None, None, st)
      | Some m \<Rightarrow>
          let target = GetProcAddress m proc_name in
          if target = 0 then (MH_ERROR_FUNCTION_NOT_FOUND, None, None, st)
          else case MH_CreateHook env target detour st of
            (status, original, st) \<Rightarrow> (status, original, Some target, st))"

definition MH_CreateHookApi ::
  "mh_env \<Rightarrow> ('w \<Rightarrow> 'm option) \<Rightarrow> ('m \<Rightarrow> 'n \<Rightarrow> ptr) \<Rightarrow> 'w \<Rightarrow> 'n \<Rightarrow> ptr \<Rightarrow> minhook
     \<Rightarrow> mh_status \<times> ptr option \<times> minhook" where
  "MH_CreateHookApi env GetModuleHandleW GetProcAddress module_name proc_name detour st =
     (case MH_CreateHookApiEx env GetModuleHandleW GetProcAddress module_name proc_name detour st of
        (status, original, _, st) \<Rightarrow> (status, original, st))"

definition MH_StatusToString :: "mh_status \<Rightarrow> string" where
  "MH_StatusToString status =
     (case status of
        MH_UNKNOWN \<Rightarrow> ''MH_UNKNOWN'' | MH_OK \<Rightarrow> ''MH_OK''
      | MH_ERROR_ALREADY_INITIALIZED \<Rightarrow> ''MH_ERROR_ALREADY_INITIALIZED''
      | MH_ERROR_NOT_INITIALIZED \<Rightarrow> ''MH_ERROR_NOT_INITIALIZED''
      | MH_ERROR_ALREADY_CREATED \<Rightarrow> ''MH_ERROR_ALREADY_CREATED''
      | MH_ERROR_NOT_CREATED \<Rightarrow> ''MH_ERROR_NOT_CREATED''
      | MH_ERROR_ENABLED \<Rightarrow> ''MH_ERROR_ENABLED'' | MH_ERROR_DISABLED \<Rightarrow> ''MH_ERROR_DISABLED''
      | MH_ERROR_NOT_EXECUTABLE \<Rightarrow> ''MH_ERROR_NOT_EXECUTABLE''
      | MH_ERROR_UNSUPPORTED_FUNCTION \<Rightarrow> ''MH_ERROR_UNSUPPORTED_FUNCTION''
      | MH_ERROR_MEMORY_ALLOC \<Rightarrow> ''MH_ERROR_MEMORY_ALLOC''
      | MH_ERROR_MEMORY_PROTECT \<Rightarrow> ''MH_ERROR_MEMORY_PROTECT''
      | MH_ERROR_MODULE_NOT_FOUND \<Rightarrow> ''MH_ERROR_MODULE_NOT_FOUND''
      | MH_ERROR_FUNCTION_NOT_FOUND \<Rightarrow> ''MH_ERROR_FUNCTION_NOT_FOUND'')"

subsection \<open>Patching and restoring\<close>

lemma length_jump_bytes: "length (jump_bytes e) = patch_size e"
  by (simp add: jump_bytes_def patch_size_def little_endian32_def JMP_REL_SIZE_def JMP_REL_SHORT_SIZE_def)

lemma write_read_bytes:
  assumes "length bs = n"
  shows "write_bytes (write_bytes m p bs) p (read_bytes m p n) = m"
proof
  fix a
  have "p + of_nat (unat (a - p)) = a" by simp
  then show "write_bytes (write_bytes m p bs) p (read_bytes m p n) a = m a"
    using assms by (simp add: write_bytes_def read_bytes_def)
qed

lemma mh_call_frame:
  assumes "mh_call st = (ok, st')"
  shows "mh_initialized st' = mh_initialized st \<and> mh_items st' = mh_items st \<and> mh_capacity st' = mh_capacity st
    \<and> mh_entries st' = mh_entries st \<and> mh_memory st' = mh_memory st \<and> mh_threads st' = mh_threads st"
  using assms by (auto simp: mh_call_def ml_mem_alloc_def)

lemma freeze_frame:
  assumes "freeze es action st = (status, st')"
  shows "mh_initialized st' = mh_initialized st \<and> mh_entries st' = mh_entries st \<and> mh_memory st' = mh_memory st"
  using assms by (auto simp: freeze_def dest!: mh_call_frame split: prod.splits bool.splits)

lemma add_hook_room_frame:
  assumes "add_hook_room st = (ok, st')"
  shows "mh_initialized st' = mh_initialized st \<and> mh_entries st' = mh_entries st \<and> mh_memory st' = mh_memory st"
  using assms by (auto simp: add_hook_room_def dest!: mh_call_frame split: prod.splits bool.splits if_splits)

text \<open>The targets of the table are different, and a hook is what \<open>FindHookEntry\<close> finds for its target.\<close>

definition mh_valid :: "minhook \<Rightarrow> bool" where
  "mh_valid st \<longleftrightarrow> distinct (map he_target (mh_entries st))"

lemma find_hook_entry_Some:
  "find_hook_entry st target = Some pos \<Longrightarrow> pos < length (mh_entries st) \<and> he_target (mh_entries st ! pos) = target"
  by (auto simp: find_hook_entry_def find_index_Some)

lemma find_hook_entry_None: "find_hook_entry st target = None \<longleftrightarrow> target \<notin> he_target ` set (mh_entries st)"
  by (auto simp: find_hook_entry_def)

lemma delete_entries:
  assumes "pos < length es"
  shows "mset (butlast (if pos < length es - 1 then es[pos := last es] else es)) = mset es - {#es ! pos#}"
proof -
  obtain xs l where es: "es = xs @ [l]" using assms by (cases es rule: rev_cases) auto
  show ?thesis
  proof (cases "pos < length xs")
    case True
    then show ?thesis by (simp add: es nth_append list_update_append mset_update add_mset_commute)
  next
    case False
    with assms es have "pos = length xs" by simp
    with es show ?thesis by simp
  qed
qed

lemma delete_hook_entry_spec:
  assumes "mh_valid st" and "pos < length (mh_entries st)"
  shows "mh_valid (delete_hook_entry pos st)"
    "set (mh_entries (delete_hook_entry pos st)) = set (mh_entries st) - {mh_entries st ! pos}"
    "mh_memory (delete_hook_entry pos st) = mh_memory st"
    "mh_initialized (delete_hook_entry pos st) = mh_initialized st"
proof -
  let ?es = "mh_entries st" and ?st = "delete_hook_entry pos st"
  have fields: "mh_entries ?st = butlast (if pos < length ?es - 1 then ?es[pos := last ?es] else ?es)"
    "mh_memory ?st = mh_memory st" "mh_initialized ?st = mh_initialized st"
    by (auto simp: delete_hook_entry_def Let_def mh_call_def ml_mem_alloc_def split: prod.split bool.split)
  then show "mh_memory ?st = mh_memory st" "mh_initialized ?st = mh_initialized st" by simp_all
  have m: "mset (mh_entries ?st) = mset ?es - {#?es ! pos#}"
    unfolding fields by (rule delete_entries [OF assms(2)])
  have split: "mset ?es = add_mset (?es ! pos) (mset (mh_entries ?st))"
    unfolding m using assms(2) by simp
  have "mset (map he_target ?es) = mset (he_target (?es ! pos) # map he_target (mh_entries ?st))"
    using arg_cong [OF split, of "image_mset he_target"] by simp
  then have "distinct (he_target (?es ! pos) # map he_target (mh_entries ?st))"
    using assms(1) unfolding mh_valid_def by (metis mset_eq_imp_distinct_iff)
  then show "mh_valid ?st" and "set (mh_entries ?st) = set ?es - {?es ! pos}"
    using arg_cong [OF split, of set_mset] by (auto simp: mh_valid_def)
qed

text \<open>What a caller sees: whether the library runs, the bytes of the code, the hooks there are.\<close>

definition mh_view :: "minhook \<Rightarrow> bool \<times> memory \<times> hook_entry set" where
  "mh_view st = (mh_initialized st, mh_memory st, set (mh_entries st))"

lemma enable_hook_ll_spec:
  assumes "enable_hook_ll pos enable st = (status, st')"
  shows "mh_initialized st' = mh_initialized st \<and>
    (if status = MH_OK
     then mh_memory st' = write_bytes (mh_memory st) (patch_target (mh_entries st ! pos))
            (if enable then jump_bytes (mh_entries st ! pos)
             else take (patch_size (mh_entries st ! pos)) (he_backup (mh_entries st ! pos))) \<and>
          mh_entries st' = (mh_entries st)[pos := (mh_entries st ! pos)\<lparr>he_enabled := enable, he_queue_enable := enable\<rparr>]
     else mh_memory st' = mh_memory st \<and> mh_entries st' = mh_entries st)"
  using assms by (auto simp: enable_hook_ll_def Let_def dest!: mh_call_frame split: prod.splits bool.splits)

lemma map_target_update: "map he_target (es[i := (es ! i)\<lparr>he_enabled := a, he_queue_enable := b\<rparr>]) = map he_target es"
  by (cases "i < length es") (auto simp: map_update intro!: nth_equalityI simp: nth_list_update)

lemma enable_hook_ll_valid:
  assumes "enable_hook_ll pos enable st = (status, st')" and "mh_valid st"
  shows "mh_valid st'"
  using enable_hook_ll_spec [OF assms(1)] assms(2)
  by (auto simp: mh_valid_def map_target_update split: if_splits)

text \<open>\<open>MH_CreateHook\<close> changes no code: it adds a disabled hook with the bytes it will restore, or nothing.\<close>

lemma create_spec:
  assumes "MH_CreateHook env target detour st = (status, original, st')"
  shows "mh_memory st' = mh_memory st \<and> mh_initialized st' = mh_initialized st \<and>
    (if status = MH_OK
     then target \<notin> he_target ` set (mh_entries st) \<and> mh_initialized st \<and>
          (\<exists>e. mh_entries st' = mh_entries st @ [e] \<and> he_target e = target \<and> \<not> he_enabled e \<and>
               original = Some (he_trampoline e) \<and>
               he_backup e = read_bytes (mh_memory st) (patch_target e) (patch_size e))
     else mh_entries st' = mh_entries st \<and> original = None)"
  using assms
  by (auto simp: MH_CreateHook_def Let_def new_hook_def patch_target_def patch_size_def find_hook_entry_None
      dest!: add_hook_room_frame split: if_splits option.splits prod.splits bool.splits)

lemma create_valid:
  assumes "MH_CreateHook env target detour st = (status, original, st')" and "mh_valid st"
  shows "mh_valid st'"
  using create_spec [OF assms(1)] assms(2) by (auto simp: mh_valid_def split: if_splits)

lemma delete_updated:
  assumes "mh_valid st" and "pos < length (mh_entries st)" and "mh_valid st'"
    and "mh_entries st' = (mh_entries st)[pos := e]" and "he_target e = he_target (mh_entries st ! pos)"
  shows "set (mh_entries (delete_hook_entry pos st')) = set (mh_entries st) - {mh_entries st ! pos}"
proof -
  have inj: "inj_on he_target (set (mh_entries st))" and d: "distinct (mh_entries st)"
    using assms(1) unfolding mh_valid_def by (simp_all add: distinct_map)
  have "distinct (mh_entries st')" using assms(3) by (simp add: mh_valid_def distinct_map)
  have "set (mh_entries (delete_hook_entry pos st')) = set ((mh_entries st)[pos := e]) - {e}"
    using delete_hook_entry_spec(2) [OF assms(3), of pos] assms(2,4) by simp
  also have "\<dots> = set (mh_entries st) - {mh_entries st ! pos}"
  proof -
    have "e \<in> set (mh_entries st) \<Longrightarrow> e = mh_entries st ! pos"
      using inj assms(2,5) by (auto dest: inj_onD)
    then show ?thesis using set_update_distinct [OF d assms(2), of e] by auto
  qed
  finally show ?thesis .
qed

text \<open>\<open>MH_RemoveHook\<close> restores the bytes of an enabled hook and forgets it, or changes nothing.\<close>

lemma remove_disabled:
  assumes "mh_initialized st" and "find_hook_entry st target = Some pos" and "\<not> he_enabled (mh_entries st ! pos)"
  shows "MH_RemoveHook target st = (MH_OK, delete_hook_entry pos st)"
  using assms by (simp add: MH_RemoveHook_def)

lemma remove_enabled:
  assumes "mh_initialized st" and "find_hook_entry st target = Some pos" and "he_enabled (mh_entries st ! pos)"
    and "freeze [mh_entries st ! pos] ACTION_DISABLE st = (fs, st1)" and "enable_hook_ll pos False st1 = (es, st2)"
  shows "MH_RemoveHook target st =
    (if fs \<noteq> MH_OK then (fs, st1) else if es \<noteq> MH_OK then (es, st2) else (MH_OK, delete_hook_entry pos st2))"
  using assms by (simp add: MH_RemoveHook_def)

text \<open>The hook \<open>MH_RemoveHook\<close> takes out.\<close>

definition removed :: "ptr \<Rightarrow> minhook \<Rightarrow> minhook \<Rightarrow> hook_entry \<Rightarrow> bool" where
  "removed target st st' e \<longleftrightarrow> e \<in> set (mh_entries st) \<and> he_target e = target \<and>
     set (mh_entries st') = set (mh_entries st) - {e} \<and>
     mh_memory st' = (if he_enabled e
       then write_bytes (mh_memory st) (patch_target e) (take (patch_size e) (he_backup e)) else mh_memory st)"

lemma remove_spec:
  assumes "MH_RemoveHook target st = (status, st')" and "mh_valid st"
  shows "mh_valid st' \<and>
    (if status = MH_OK then mh_initialized st' = mh_initialized st \<and> (\<exists>e. removed target st st' e)
     else mh_view st' = mh_view st)"
proof (cases "mh_initialized st")
  case False
  with assms show ?thesis by (auto simp: MH_RemoveHook_def)
next
  case init: True
  show ?thesis
  proof (cases "find_hook_entry st target")
    case None
    with assms init show ?thesis by (auto simp: MH_RemoveHook_def)
  next
    case (Some pos)
    let ?e = "mh_entries st ! pos"
    have pos: "pos < length (mh_entries st)" and t: "he_target ?e = target"
      using find_hook_entry_Some [OF Some] by auto
    show ?thesis
    proof (cases "he_enabled ?e")
      case False
      then have st': "status = MH_OK" "st' = delete_hook_entry pos st"
        using assms(1) remove_disabled [OF init Some] by auto
      have "removed target st st' ?e"
        unfolding removed_def st' using delete_hook_entry_spec [OF assms(2) pos] False t pos by simp
      then show ?thesis
        unfolding st' using delete_hook_entry_spec [OF assms(2) pos] by auto
    next
      case True
      obtain fs st1 where fr: "freeze [?e] ACTION_DISABLE st = (fs, st1)" by fastforce
      obtain es st2 where en: "enable_hook_ll pos False st1 = (es, st2)" by fastforce
      note frame = freeze_frame [OF fr]
      have v1: "mh_valid st1" using frame assms(2) by (simp add: mh_valid_def)
      note ll = enable_hook_ll_spec [OF en] and v2 = enable_hook_ll_valid [OF en v1]
      note result = assms(1) [unfolded remove_enabled [OF init Some True fr en]]
      consider "fs \<noteq> MH_OK" "status = fs" "st' = st1" | "fs = MH_OK" "es \<noteq> MH_OK" "status = es" "st' = st2"
        | "fs = MH_OK" "es = MH_OK" "status = MH_OK" "st' = delete_hook_entry pos st2"
        using result by (auto split: if_splits)
      then show ?thesis
      proof cases
        case 1
        with frame v1 show ?thesis by (simp add: mh_view_def)
      next
        case 2
        with ll frame v2 show ?thesis by (simp add: mh_view_def)
      next
        case 3
        have e2: "mh_entries st2 = (mh_entries st)[pos := ?e\<lparr>he_enabled := False, he_queue_enable := False\<rparr>]"
          using ll 3(2) frame by simp
        have pos2: "pos < length (mh_entries st2)" using e2 pos by simp
        note del = delete_hook_entry_spec [OF v2 pos2]
        have "removed target st st' ?e"
          unfolding removed_def 3(4) using delete_updated [OF assms(2) pos v2 e2] ll 3(2) frame True t pos del(3)
          by simp
        then show ?thesis unfolding 3(3,4) using del ll frame by auto
      qed
    qed
  qed
qed

end
