(* ===== verification/HookedCode.thy ===== *)
theory HookedCode
  imports MinHook
begin

text \<open>
  What the hooking library makes of the code: the original bytes, with the jump of every enabled
  hook over them. Every exported operation keeps this, in any sequence of calls, as long as the
  patched areas of two hooks do not overlap; \<open>MH_Uninitialize\<close> gives the original code back.
\<close>

subsection \<open>The code and its hooks\<close>

definition covers :: "hook_entry \<Rightarrow> ptr \<Rightarrow> bool" where
  "covers e a \<longleftrightarrow> unat (a - patch_target e) < patch_size e"

definition separate :: "hook_entry list \<Rightarrow> bool" where
  "separate es \<longleftrightarrow> (\<forall>i < length es. \<forall>j < length es. i \<noteq> j \<longrightarrow> (\<forall>a. covers (es ! i) a \<longrightarrow> \<not> covers (es ! j) a))"

text \<open>The byte of the hooked code at an address.\<close>

definition code_at :: "memory \<Rightarrow> hook_entry list \<Rightarrow> ptr \<Rightarrow> 8 word \<Rightarrow> bool" where
  "code_at m0 es a b \<longleftrightarrow>
     (\<forall>i < length es. he_enabled (es ! i) \<longrightarrow> covers (es ! i) a \<longrightarrow>
        b = jump_bytes (es ! i) ! unat (a - patch_target (es ! i))) \<and>
     ((\<forall>i < length es. he_enabled (es ! i) \<longrightarrow> \<not> covers (es ! i) a) \<longrightarrow> b = m0 a)"

definition hooked_code :: "memory \<Rightarrow> hook_entry list \<Rightarrow> memory \<Rightarrow> bool" where
  "hooked_code m0 es m \<longleftrightarrow> (\<forall>a. code_at m0 es a (m a))"

definition backups :: "memory \<Rightarrow> hook_entry list \<Rightarrow> bool" where
  "backups m0 es \<longleftrightarrow> (\<forall>e \<in> set es. take (patch_size e) (he_backup e) = read_bytes m0 (patch_target e) (patch_size e))"

definition mh_code :: "memory \<Rightarrow> minhook \<Rightarrow> bool" where
  "mh_code m0 st \<longleftrightarrow> mh_valid st \<and> separate (mh_entries st) \<and> backups m0 (mh_entries st)
     \<and> hooked_code m0 (mh_entries st) (mh_memory st)"

subsection \<open>Entries that patch alike\<close>

text \<open>Two entries that differ in their flags and what is only used to move threads.\<close>

definition same_place :: "hook_entry \<Rightarrow> hook_entry \<Rightarrow> bool" where
  "same_place e e' \<longleftrightarrow> he_target e' = he_target e \<and> he_detour e' = he_detour e \<and> he_patch_above e' = he_patch_above e
     \<and> he_backup e' = he_backup e"

lemma same_place:
  assumes "same_place e e'"
  shows "patch_target e' = patch_target e" "patch_size e' = patch_size e" "jump_bytes e' = jump_bytes e"
    "covers e' = covers e"
  using assms by (auto simp: same_place_def patch_target_def patch_size_def jump_bytes_def covers_def fun_eq_iff)

lemma same_place_refl [simp]: "same_place e e"
  by (simp add: same_place_def)

lemma same_place_flags [simp]:
  "same_place e (e\<lparr>he_enabled := a, he_queue_enable := b\<rparr>)" "same_place e (e\<lparr>he_queue_enable := b\<rparr>)"
  by (simp_all add: same_place_def)

lemma entries_alike:
  assumes "list_all2 same_place es es'"
  shows "separate es \<Longrightarrow> separate es'" "backups m0 es \<Longrightarrow> backups m0 es'" "map he_target es' = map he_target es"
proof -
  have at: "i < length es \<Longrightarrow> same_place (es ! i) (es' ! i)" for i
    using assms by (simp add: list_all2_conv_all_nth)
  have len: "length es' = length es" using assms by (simp add: list_all2_lengthD)
  show "separate es \<Longrightarrow> separate es'"
    unfolding separate_def len using same_place(4) [OF at] by simp
  show "map he_target es' = map he_target es"
    using at len by (auto simp: same_place_def intro: nth_equalityI)
  show "backups m0 es \<Longrightarrow> backups m0 es'"
    unfolding backups_def all_set_conv_all_nth len
    using same_place(1,2) [OF at] at by (simp add: same_place_def)
qed

lemma update_alike: "same_place (es ! i) e \<Longrightarrow> list_all2 same_place es (es[i := e])"
  by (cases "i < length es") (auto simp: list_all2_conv_all_nth nth_list_update)

lemma code_alike:
  assumes "list_all2 same_place es es'" and "\<And>i. i < length es \<Longrightarrow> he_enabled (es' ! i) = he_enabled (es ! i)"
    and "hooked_code m0 es m"
  shows "hooked_code m0 es' m"
proof -
  have at: "i < length es \<Longrightarrow> same_place (es ! i) (es' ! i)" for i
    using assms by (simp add: list_all2_conv_all_nth)
  have len: "length es' = length es" using assms by (simp add: list_all2_lengthD)
  show ?thesis
    using assms(3) unfolding hooked_code_def code_at_def len
    using same_place [OF at] assms(2) by simp
qed

lemma mh_code_flags:
  assumes "mh_code m0 st" and "mh_memory st' = mh_memory st" and "list_all2 same_place (mh_entries st) (mh_entries st')"
    and "\<And>i. i < length (mh_entries st) \<Longrightarrow> he_enabled (mh_entries st' ! i) = he_enabled (mh_entries st ! i)"
  shows "mh_code m0 st'"
  using assms entries_alike [OF assms(3)] code_alike [OF assms(3,4)]
  unfolding mh_code_def mh_valid_def by metis

lemma mh_code_frame: "mh_code m0 st \<Longrightarrow> mh_memory st' = mh_memory st \<Longrightarrow> mh_entries st' = mh_entries st \<Longrightarrow> mh_code m0 st'"
  by (simp add: mh_code_def mh_valid_def)

subsection \<open>One hook\<close>

text \<open>Writing the jump of a hook or its backup turns it on or off.\<close>

lemma covers_address: "covers e a \<Longrightarrow> patch_target e + of_nat (unat (a - patch_target e)) = a"
  by simp

lemma code_switch:
  assumes "separate es" and "backups m0 es" and "hooked_code m0 es m" and i: "i < length es"
    and "same_place (es ! i) e" and "he_enabled e = enable"
    and m': "m' = write_bytes m (patch_target (es ! i))
      (if enable then jump_bytes (es ! i) else take (patch_size (es ! i)) (he_backup (es ! i)))"
  shows "hooked_code m0 (es[i := e]) m'"
  unfolding hooked_code_def
proof
  fix a
  let ?e = "es ! i" and ?off = "unat (a - patch_target (es ! i))"
  note same = same_place [OF assms(5)]
  have saved: "take (patch_size ?e) (he_backup ?e) = read_bytes m0 (patch_target ?e) (patch_size ?e)"
    using assms(2) i by (simp add: backups_def)
  show "code_at m0 (es[i := e]) a (m' a)"
  proof (cases "covers ?e a")
    case True
    have others: "j < length es \<Longrightarrow> j \<noteq> i \<Longrightarrow> \<not> covers (es ! j) a" for j
      using assms(1) i True unfolding separate_def by blast
    have "m' a = (if enable then jump_bytes ?e ! ?off else m0 a)"
      unfolding m' using True saved by (simp add: write_bytes_def length_jump_bytes covers_def read_bytes_def)
    then show ?thesis
      unfolding code_at_def using others i same assms(6) True by (auto simp: nth_list_update)
  next
    case False
    then have "m' a = m a"
      unfolding m' using saved by (simp add: write_bytes_def length_jump_bytes covers_def read_bytes_def)
    moreover have "code_at m0 es a (m a)" using assms(3) by (simp add: hooked_code_def)
    ultimately show ?thesis
      unfolding code_at_def using False i same by (auto simp: nth_list_update split: if_splits)
  qed
qed

lemma code_enable_hook_ll:
  assumes "enable_hook_ll i enable st = (status, st')" and "mh_code m0 st" and "i < length (mh_entries st)"
  shows "mh_code m0 st'"
proof (cases "status = MH_OK")
  case False
  with enable_hook_ll_spec [OF assms(1)] have "mh_memory st' = mh_memory st" "mh_entries st' = mh_entries st" by auto
  from mh_code_frame [OF assms(2) this] show ?thesis .
next
  case True
  let ?e = "(mh_entries st ! i)\<lparr>he_enabled := enable, he_queue_enable := enable\<rparr>"
  from enable_hook_ll_spec [OF assms(1)] True
  have m: "mh_memory st' = write_bytes (mh_memory st) (patch_target (mh_entries st ! i))
      (if enable then jump_bytes (mh_entries st ! i) else take (patch_size (mh_entries st ! i)) (he_backup (mh_entries st ! i)))"
    and es: "mh_entries st' = (mh_entries st)[i := ?e]" by auto
  from assms(2) have old: "separate (mh_entries st)" "backups m0 (mh_entries st)" "hooked_code m0 (mh_entries st) (mh_memory st)"
    "mh_valid st" by (auto simp: mh_code_def)
  have alike: "list_all2 same_place (mh_entries st) (mh_entries st')" unfolding es by (rule update_alike) simp
  have "hooked_code m0 (mh_entries st') (mh_memory st')"
    unfolding es by (rule code_switch [OF old(1-3) assms(3) _ _ m]) simp_all
  then show ?thesis
    using entries_alike [OF alike] old enable_hook_ll_valid [OF assms(1) old(4)] by (simp add: mh_code_def)
qed

subsection \<open>The operations\<close>

lemma code_freeze: "freeze es action st = (status, st') \<Longrightarrow> mh_code m0 st \<Longrightarrow> mh_code m0 st'"
  using freeze_frame mh_code_frame by metis

lemma code_enable_loop:
  assumes "enable_loop goal is st = (status, st')" and "mh_code m0 st" and "\<forall>i \<in> set is. i < length (mh_entries st)"
  shows "mh_code m0 st' \<and> mh_initialized st' = mh_initialized st"
  using assms
proof (induction "is" arbitrary: st)
  case Nil
  then show ?case by simp
next
  case (Cons i "is")
  let ?e = "mh_entries st ! i"
  show ?case
  proof (cases "he_enabled ?e = goal ?e")
    case True
    with Cons show ?thesis by simp
  next
    case False
    obtain r st1 where ll: "enable_hook_ll i (goal ?e) st = (r, st1)" by fastforce
    have c1: "mh_code m0 st1" by (rule code_enable_hook_ll [OF ll Cons.prems(2)]) (use Cons.prems(3) in simp)
    have len: "length (mh_entries st1) = length (mh_entries st)" and i1: "mh_initialized st1 = mh_initialized st"
      using enable_hook_ll_spec [OF ll] by (auto split: if_splits)
    show ?thesis
    proof (cases "r = MH_OK")
      case True
      with Cons.prems(1) False ll have "enable_loop goal is st1 = (status, st')" by simp
      from Cons.IH [OF this c1] Cons.prems(3) len i1 show ?thesis by simp
    next
      case False
      with Cons.prems(1) \<open>he_enabled ?e \<noteq> goal ?e\<close> ll c1 i1 show ?thesis by simp
    qed
  qed
qed

lemma code_enable_from_first:
  assumes "enable_from_first goal action st = (status, st')" and "mh_code m0 st"
  shows "mh_code m0 st' \<and> mh_initialized st' = mh_initialized st"
proof (cases "find_index (\<lambda>e. he_enabled e \<noteq> goal e) (mh_entries st)")
  case None
  from assms(1) [unfolded enable_from_first_def None] assms(2) show ?thesis by simp
next
  case (Some first)
  obtain r st1 where fr: "freeze (mh_entries st) action st = (r, st1)" by fastforce
  note c1 = code_freeze [OF fr assms(2)] and f = freeze_frame [OF fr]
  show ?thesis
  proof (cases "r = MH_OK")
    case True
    with assms(1) Some fr have "enable_loop goal [first..<length (mh_entries st)] st1 = (status, st')"
      using f by (simp add: enable_from_first_def)
    from code_enable_loop [OF this c1] f show ?thesis by simp
  next
    case False
    with assms(1) Some fr c1 f show ?thesis by (simp add: enable_from_first_def)
  qed
qed

text \<open>A loop that succeeds leaves no hook of its range away from its goal.\<close>

lemma enable_loop_goal:
  assumes "enable_loop (\<lambda>_. enable) is st = (MH_OK, st')"
  shows "length (mh_entries st') = length (mh_entries st) \<and>
    (\<forall>i < length (mh_entries st). he_enabled (mh_entries st' ! i) =
       (if i \<in> set is then enable else he_enabled (mh_entries st ! i)))"
  using assms
proof (induction "is" arbitrary: st)
  case Nil
  then show ?case by simp
next
  case (Cons j "is")
  show ?case
  proof (cases "he_enabled (mh_entries st ! j) = enable")
    case True
    with Cons.IH [of st] Cons.prems show ?thesis by auto
  next
    case False
    obtain r st1 where ll: "enable_hook_ll j enable st = (r, st1)" by fastforce
    with Cons.prems False have r: "r = MH_OK" and rest: "enable_loop (\<lambda>_. enable) is st1 = (MH_OK, st')"
      by (auto split: if_splits)
    have "mh_entries st1 = (mh_entries st)[j := (mh_entries st ! j)\<lparr>he_enabled := enable, he_queue_enable := enable\<rparr>]"
      using enable_hook_ll_spec [OF ll] r by simp
    with Cons.IH [OF rest] show ?thesis by (auto simp: nth_list_update)
  qed
qed

lemma enable_all_goal:
  assumes "enable_all_hooks_ll enable st = (MH_OK, st')"
  shows "\<forall>i < length (mh_entries st'). he_enabled (mh_entries st' ! i) = enable"
proof (cases "find_index (\<lambda>e. he_enabled e \<noteq> enable) (mh_entries st)")
  case None
  from assms [unfolded enable_all_hooks_ll_def enable_from_first_def None] None show ?thesis by auto
next
  case (Some first)
  obtain r st1 where fr: "freeze (mh_entries st) (if enable then ACTION_ENABLE else ACTION_DISABLE) st = (r, st1)"
    by fastforce
  note f = freeze_frame [OF fr]
  have "enable_loop (\<lambda>_. enable) [first..<length (mh_entries st)] st1 = (MH_OK, st')"
    using assms Some fr f by (auto simp: enable_all_hooks_ll_def enable_from_first_def split: if_splits)
  from enable_loop_goal [OF this] f Some show ?thesis by (auto simp: find_index_Some)
qed

text \<open>With every hook off, the code is the original.\<close>

lemma code_all_off:
  assumes "mh_code m0 st" and "\<forall>i < length (mh_entries st). \<not> he_enabled (mh_entries st ! i)"
  shows "mh_memory st = m0"
proof
  fix a
  have "code_at m0 (mh_entries st) a (mh_memory st a)" using assms(1) by (simp add: mh_code_def hooked_code_def)
  then show "mh_memory st a = m0 a" using assms(2) by (simp add: code_at_def)
qed

lemma code_uninitialize:
  assumes "MH_Uninitialize st = (status, st')" and "mh_code m0 st"
  shows "mh_code m0 st' \<and> (status = MH_OK \<longrightarrow> mh_memory st' = m0)"
proof (cases "mh_initialized st")
  case False
  with assms show ?thesis by (auto simp: MH_Uninitialize_def)
next
  case True
  obtain r st1 where all: "enable_all_hooks_ll False st = (r, st1)" by fastforce
  have c1: "mh_code m0 st1"
    using code_enable_from_first assms(2) all unfolding enable_all_hooks_ll_def by blast
  show ?thesis
  proof (cases "r = MH_OK")
    case False
    with assms(1) True all c1 show ?thesis by (simp add: MH_Uninitialize_def)
  next
    case ok: True
    have "mh_memory st1 = m0" using code_all_off [OF c1] enable_all_goal all ok by blast
    moreover have "st' = st1\<lparr>mh_initialized := False, mh_items := False, mh_capacity := 0, mh_entries := []\<rparr>"
      using assms(1) True all ok by (simp add: MH_Uninitialize_def)
    ultimately show ?thesis
      by (simp add: mh_code_def mh_valid_def separate_def backups_def hooked_code_def code_at_def)
  qed
qed

subsection \<open>Taking a hook out of the table\<close>

lemma separate_set:
  assumes "distinct es"
  shows "separate es \<longleftrightarrow> (\<forall>e \<in> set es. \<forall>e' \<in> set es. e \<noteq> e' \<longrightarrow> (\<forall>a. covers e a \<longrightarrow> \<not> covers e' a))"
  unfolding separate_def using assms by (simp add: all_set_conv_all_nth nth_eq_iff_index_eq)

lemma code_at_set:
  "code_at m0 es a b \<longleftrightarrow>
     (\<forall>e \<in> set es. he_enabled e \<longrightarrow> covers e a \<longrightarrow> b = jump_bytes e ! unat (a - patch_target e)) \<and>
     ((\<forall>e \<in> set es. he_enabled e \<longrightarrow> \<not> covers e a) \<longrightarrow> b = m0 a)"
  by (simp add: code_at_def all_set_conv_all_nth)

lemma valid_distinct: "mh_valid st \<Longrightarrow> distinct (mh_entries st)"
  by (simp add: mh_valid_def distinct_map)

lemma code_delete:
  assumes "mh_code m0 st" and "i < length (mh_entries st)" and "\<not> he_enabled (mh_entries st ! i)"
  shows "mh_code m0 (delete_hook_entry i st)"
proof -
  have v: "mh_valid st" using assms(1) by (simp add: mh_code_def)
  note del = delete_hook_entry_spec [OF v assms(2)]
  note d = valid_distinct [OF v] and d' = valid_distinct [OF del(1)]
  have "separate (mh_entries (delete_hook_entry i st))"
    using assms(1) unfolding mh_code_def separate_set [OF d] separate_set [OF d'] del(2) by blast
  moreover have "backups m0 (mh_entries (delete_hook_entry i st))"
    using assms(1) unfolding mh_code_def backups_def del(2) by blast
  moreover have "hooked_code m0 (mh_entries (delete_hook_entry i st)) (mh_memory (delete_hook_entry i st))"
    using assms(1,3) unfolding mh_code_def hooked_code_def code_at_set del(2,3) by blast
  ultimately show ?thesis using del(1) by (simp add: mh_code_def)
qed

lemma code_remove:
  assumes "MH_RemoveHook target st = (status, st')" and "mh_code m0 st"
  shows "mh_code m0 st'"
proof (cases "mh_initialized st \<and> find_hook_entry st target \<noteq> None")
  case False
  with assms show ?thesis by (auto simp: MH_RemoveHook_def split: if_splits)
next
  case True
  then obtain i where init: "mh_initialized st" and i: "find_hook_entry st target = Some i" by auto
  note f = find_hook_entry_Some [OF i]
  show ?thesis
  proof (cases "he_enabled (mh_entries st ! i)")
    case False
    with assms remove_disabled [OF init i] code_delete f show ?thesis by auto
  next
    case True
    obtain fs st1 where fr: "freeze [mh_entries st ! i] ACTION_DISABLE st = (fs, st1)" by fastforce
    obtain es st2 where en: "enable_hook_ll i False st1 = (es, st2)" by fastforce
    note c1 = code_freeze [OF fr assms(2)] and frame = freeze_frame [OF fr]
    have i1: "i < length (mh_entries st1)" using f frame by simp
    note c2 = code_enable_hook_ll [OF en c1 i1]
    have "es = MH_OK \<Longrightarrow> i < length (mh_entries st2) \<and> \<not> he_enabled (mh_entries st2 ! i)"
      using enable_hook_ll_spec [OF en] i1 by simp
    with code_delete [OF c2] c1 c2 assms(1) remove_enabled [OF init i True fr en] show ?thesis
      by (auto split: if_splits)
  qed
qed

text \<open>A hook is created with the original bytes, since no other hook is where it will be.\<close>

lemma code_create:
  assumes "MH_CreateHook env target detour st = (status, original, st')" and "mh_code m0 st"
    and "separate (mh_entries st')"
  shows "mh_code m0 st'"
proof (cases "status = MH_OK")
  case False
  with create_spec [OF assms(1)] have "mh_memory st' = mh_memory st" "mh_entries st' = mh_entries st" by simp_all
  from mh_code_frame [OF assms(2) this] show ?thesis .
next
  case True
  have v: "mh_valid st" using assms(2) by (simp add: mh_code_def)
  note v' = create_valid [OF assms(1) v]
  from create_spec [OF assms(1)] True obtain e where e: "mh_entries st' = mh_entries st @ [e]" "\<not> he_enabled e"
      "he_target e = target" "he_backup e = read_bytes (mh_memory st) (patch_target e) (patch_size e)"
    and new: "target \<notin> he_target ` set (mh_entries st)" and m: "mh_memory st' = mh_memory st" by auto
  have old: "hooked_code m0 (mh_entries st) (mh_memory st)" using assms(2) by (simp add: mh_code_def)
  have sep: "\<forall>e1 \<in> set (mh_entries st'). \<forall>e2 \<in> set (mh_entries st'). e1 \<noteq> e2 \<longrightarrow> (\<forall>a. covers e1 a \<longrightarrow> \<not> covers e2 a)"
    using assms(3) separate_set [OF valid_distinct [OF v']] by blast
  have "e \<notin> set (mh_entries st)" "e \<in> set (mh_entries st')" "set (mh_entries st) \<subseteq> set (mh_entries st')"
    using new e(1,3) by auto
  have fresh: "\<forall>e' \<in> set (mh_entries st). \<not> covers e' a" if "covers e a" for a
  proof
    fix e' assume "e' \<in> set (mh_entries st)"
    then have "e' \<in> set (mh_entries st')" "e \<noteq> e'" using e(1) \<open>e \<notin> set (mh_entries st)\<close> by auto
    then show "\<not> covers e' a" using sep \<open>e \<in> set (mh_entries st')\<close> that by metis
  qed
  have untouched: "mh_memory st a = m0 a" if "covers e a" for a
  proof -
    have "code_at m0 (mh_entries st) a (mh_memory st a)" using old by (simp add: hooked_code_def)
    with fresh [OF that] show ?thesis unfolding code_at_set by blast
  qed
  have inside: "covers e (patch_target e + of_nat i)" if "i < patch_size e" for i
  proof -
    have "i < 2 ^ 64" using that by (simp add: patch_size_def JMP_REL_SIZE_def JMP_REL_SHORT_SIZE_def split: if_splits)
    then show ?thesis using that by (simp add: covers_def unat_of_nat take_bit_nat_eq_self)
  qed
  have "read_bytes (mh_memory st) (patch_target e) (patch_size e) = read_bytes m0 (patch_target e) (patch_size e)"
    unfolding read_bytes_def by (rule map_cong [OF refl]) (use untouched [OF inside] in auto)
  then have "take (patch_size e) (he_backup e) = read_bytes m0 (patch_target e) (patch_size e)"
    using e(4) by (simp add: read_bytes_def)
  then have "backups m0 (mh_entries st')" using assms(2) e(1) by (simp add: backups_def mh_code_def)
  moreover have "hooked_code m0 (mh_entries st') (mh_memory st')"
    using old e(2) unfolding hooked_code_def code_at_set e(1) m by auto
  ultimately show ?thesis using assms(3) v' by (simp add: mh_code_def)
qed

lemma code_enable_hook:
  assumes "enable_hook target enable st = (status, st')" and "mh_code m0 st"
  shows "mh_code m0 st'"
proof (cases "find_hook_entry st target")
  case None
  with assms code_enable_from_first show ?thesis
    by (fastforce simp: enable_hook_def enable_all_hooks_ll_def split: if_splits)
next
  case (Some i)
  obtain fs st1 where fr: "freeze [mh_entries st ! i] ACTION_ENABLE st = (fs, st1)" by fastforce
  obtain es st2 where en: "enable_hook_ll i enable st1 = (es, st2)" by fastforce
  note c1 = code_freeze [OF fr assms(2)] and frame = freeze_frame [OF fr]
  have "mh_code m0 st2" by (rule code_enable_hook_ll [OF en c1]) (use find_hook_entry_Some [OF Some] frame in simp)
  with c1 assms Some fr en code_enable_from_first show ?thesis
    by (fastforce simp: enable_hook_def enable_all_hooks_ll_def split: if_splits)
qed

lemma code_queue_hook:
  assumes "queue_hook target queue st = (status, st')" and "mh_code m0 st"
  shows "mh_code m0 st'"
proof -
  let ?es = "mh_entries st" and ?q = "\<lambda>e. e\<lparr>he_queue_enable := queue\<rparr>"
  have m: "mh_memory st' = mh_memory st"
    using assms(1) by (auto simp: queue_hook_def split: if_splits option.splits)
  have "mh_entries st' = ?es \<or> mh_entries st' = map ?q ?es \<or> (\<exists>i < length ?es. mh_entries st' = ?es[i := ?q (?es ! i)])"
    using assms(1) by (auto simp: queue_hook_def dest: find_hook_entry_Some split: if_splits option.splits)
  then have "list_all2 same_place ?es (mh_entries st')"
    "i < length ?es \<Longrightarrow> he_enabled (mh_entries st' ! i) = he_enabled (?es ! i)" for i
    by (auto simp: list_all2_conv_all_nth nth_list_update split: if_splits)
  with mh_code_flags [OF assms(2) m] show ?thesis by blast
qed

subsection \<open>Every sequence of calls\<close>

text \<open>
  Hooks are created where they do not overlap an existing one; everything else the library allows in
  any order.
\<close>

inductive mh_step :: "mh_env \<Rightarrow> minhook \<Rightarrow> minhook \<Rightarrow> bool" for env where
  step_initialize: "MH_Initialize st = (status, st') \<Longrightarrow> mh_step env st st'"
| step_uninitialize: "MH_Uninitialize st = (status, st') \<Longrightarrow> mh_step env st st'"
| step_create: "MH_CreateHook env target detour st = (status, original, st') \<Longrightarrow> separate (mh_entries st') \<Longrightarrow>
    mh_step env st st'"
| step_remove: "MH_RemoveHook target st = (status, st') \<Longrightarrow> mh_step env st st'"
| step_enable: "MH_EnableHook target st = (status, st') \<Longrightarrow> mh_step env st st'"
| step_disable: "MH_DisableHook target st = (status, st') \<Longrightarrow> mh_step env st st'"
| step_queue_enable: "MH_QueueEnableHook target st = (status, st') \<Longrightarrow> mh_step env st st'"
| step_queue_disable: "MH_QueueDisableHook target st = (status, st') \<Longrightarrow> mh_step env st st'"
| step_apply: "MH_ApplyQueued st = (status, st') \<Longrightarrow> mh_step env st st'"

text \<open>Before the first call: no hook, and the code as it was loaded.\<close>

definition mh_fresh :: "memory \<Rightarrow> minhook \<Rightarrow> bool" where
  "mh_fresh m0 st \<longleftrightarrow> \<not> mh_initialized st \<and> mh_entries st = [] \<and> mh_memory st = m0"

lemma code_fresh: "mh_fresh m0 st \<Longrightarrow> mh_code m0 st"
  by (simp add: mh_fresh_def mh_code_def mh_valid_def separate_def backups_def hooked_code_def code_at_def)

lemma code_step: "mh_step env st st' \<Longrightarrow> mh_code m0 st \<Longrightarrow> mh_code m0 st'"
proof (induction rule: mh_step.induct)
  case (step_initialize st status st')
  then show ?case
    by (auto simp: MH_Initialize_def dest!: mh_call_frame split: if_splits prod.splits bool.splits intro: mh_code_frame)
next
  case (step_apply st status st')
  then show ?case using code_enable_from_first by (auto simp: MH_ApplyQueued_def split: if_splits)
qed (auto simp: MH_EnableHook_def MH_DisableHook_def MH_QueueEnableHook_def MH_QueueDisableHook_def
    dest: code_uninitialize code_create code_remove code_enable_hook code_queue_hook)

lemma code_steps: "(mh_step env)\<^sup>*\<^sup>* st st' \<Longrightarrow> mh_code m0 st \<Longrightarrow> mh_code m0 st'"
  by (induction rule: rtranclp_induct) (auto intro: code_step)

text \<open>
  C7: after any sequence of calls, failed ones included, every byte of the code is the original one
  or belongs to the jump of the one enabled hook that covers it, and a successful
  \<open>MH_Uninitialize\<close> restores the original code byte for byte.
\<close>

theorem hooked_code_restored:
  assumes "mh_fresh m0 st0" and "(mh_step env)\<^sup>*\<^sup>* st0 st"
  shows "hooked_code m0 (mh_entries st) (mh_memory st) \<and>
    (\<forall>st'. MH_Uninitialize st = (MH_OK, st') \<longrightarrow> mh_memory st' = m0)"
  using code_steps [OF assms(2) code_fresh [OF assms(1)]] code_uninitialize
  unfolding mh_code_def by blast

text \<open>A hook is created and enabled; the library is then shut down.\<close>

definition example_env :: mh_env where
  "example_env = \<lparr>me_executable = \<lambda>p. p \<noteq> 0, me_buffer = \<lambda>n target. Some 0x70000000,
     me_trampoline = \<lambda>m target detour buffer. Some \<lparr>tr_relay = buffer + 0x20, tr_patch_above = True, tr_nip = 1,
       tr_old_ips = [0], tr_new_ips = [0]\<rparr>\<rparr>"

definition example_minhook :: minhook where
  "example_minhook = \<lparr>mh_initialized = False, mh_items = False, mh_capacity = 0, mh_entries = [],
     mh_memory = \<lambda>_. 0xCC, mh_threads = [0x1000], mh_requests = 0, mh_system = \<lambda>_. True\<rparr>"

definition example_created :: minhook where
  "example_created = snd (snd (MH_CreateHook example_env 0x1000 0x2000 (snd (MH_Initialize example_minhook))))"

definition example_enabled :: minhook where
  "example_enabled = snd (MH_EnableHook 0x1000 example_created)"

lemma example_entries: "length (mh_entries example_created) = 1"
  by code_simp

lemma example_steps: "(mh_step example_env)\<^sup>*\<^sup>* example_minhook example_enabled"
proof -
  have "separate (mh_entries example_created)" by (simp add: separate_def example_entries)
  then have "mh_step example_env (snd (MH_Initialize example_minhook)) example_created"
    unfolding example_created_def by (auto intro!: step_create prod_eqI)
  moreover have "mh_step example_env example_minhook (snd (MH_Initialize example_minhook))"
    by (rule step_initialize [of _ "fst (MH_Initialize example_minhook)"]) simp
  moreover have "mh_step example_env example_created example_enabled"
    unfolding example_enabled_def by (rule step_enable [of _ _ "fst (MH_EnableHook 0x1000 example_created)"]) simp
  ultimately show ?thesis by (meson converse_rtranclp_into_rtranclp rtranclp.rtrancl_refl)
qed

theorem hooked_code_restored_witness:
  "map (mh_memory example_enabled) [0xFFB, 0xFFC, 0x1000, 0x1001] = [0xE9, 0x20, 0xEB, 0xF9] \<and>
   fst (MH_Uninitialize example_enabled) = MH_OK \<and> mh_memory (snd (MH_Uninitialize example_enabled)) = (\<lambda>_. 0xCC)"
proof -
  have "mh_fresh (\<lambda>_. 0xCC) example_minhook" by (simp add: mh_fresh_def example_minhook_def)
  note hooked_code_restored [OF this example_steps]
  moreover have "fst (MH_Uninitialize example_enabled) = MH_OK" by code_simp
  moreover have "map (mh_memory example_enabled) [0xFFB, 0xFFC, 0x1000, 0x1001] = [0xE9, 0x20, 0xEB, 0xF9]" by code_simp
  ultimately show ?thesis by (metis prod.collapse)
qed

subsection \<open>Disabling a hook moves no thread\<close>

text \<open>
  \<open>EnableHook\<close> freezes the threads for enabling, also when it disables: a hook that is on is then
  skipped by \<open>ProcessThreadIPs\<close>, and a thread that stopped at the jump above a hot-patched target,
  or in the relay, keeps its instruction pointer while the bytes under it are restored.
  \<open>MH_RemoveHook\<close> moves it.
\<close>

lemma process_skipped: "he_enabled e \<Longrightarrow> process_thread_ip ACTION_ENABLE [e] c ip h = (ip, h)"
  by (simp add: action_enable_def)

lemma freeze_threads_skipped:
  "he_enabled e \<Longrightarrow> freeze_threads ACTION_ENABLE [e] ips h = (ips', h') \<Longrightarrow> ips' = ips"
  by (induction ips arbitrary: h ips' h')
    (auto simp: process_skipped simp del: process_thread_ip.simps split: prod.splits if_splits)

lemma disable_moves_no_thread:
  assumes "MH_DisableHook target st = (status, st')" and "target \<noteq> 0"
  shows "mh_threads st' = mh_threads st"
proof (cases "find_hook_entry st target")
  case None
  with assms show ?thesis by (auto simp: MH_DisableHook_def enable_hook_def split: if_splits)
next
  case (Some i)
  show ?thesis
  proof (cases "he_enabled (mh_entries st ! i)")
    case True
    note skipped = freeze_threads_skipped [OF True]
    obtain fs st1 where fr: "freeze [mh_entries st ! i] ACTION_ENABLE st = (fs, st1)" by fastforce
    have "mh_threads st1 = mh_threads st"
      using fr skipped by (auto simp: freeze_def dest!: mh_call_frame skipped split: prod.splits bool.splits)
    with assms Some True fr show ?thesis
      by (auto simp: MH_DisableHook_def enable_hook_def enable_hook_ll_def Let_def dest!: mh_call_frame
          split: if_splits prod.splits bool.splits)
  next
    case False
    with assms Some show ?thesis by (auto simp: MH_DisableHook_def enable_hook_def split: if_splits)
  qed
qed

text \<open>A thread that stopped in the hot-patch area is left there by one and moved by the other.\<close>

lemma disable_and_remove_differ:
  "mh_threads (snd (MH_DisableHook 0x1000 (example_enabled\<lparr>mh_threads := [0xFFB]\<rparr>))) = [0xFFB] \<and>
   mh_threads (snd (MH_RemoveHook 0x1000 (example_enabled\<lparr>mh_threads := [0xFFB]\<rparr>))) = [0x1000]"
  by code_simp

end
