(* ===== verification/Hooks.thy ===== *)
theory Hooks
  imports HookedCode
begin

text \<open>
  Single hooks (\<open>src/modloader/hook.c\<close>) and batches of them (\<open>src/modloader/hook_batch.c\<close>). The
  batch functions take the functions that install and remove a hook as arguments; the locale
  \<open>hook_api\<close> is what they rely on, and the wrapper around the hooking library provides it: a batch
  that fails and rolls back completely leaves every byte of the code as it was.

  A call that writes \<open>*original\<close> names the variable by a slot; \<open>None\<close> is \<open>NULL\<close>.
\<close>

datatype ml_hook_result = ML_HOOK_APPLIED | ML_HOOK_SIGNATURE_NOT_FOUND | ML_HOOK_FAILED

record hooked =
  hk_minhook :: minhook
  hk_originals :: "nat \<Rightarrow> ptr"

definition store_original :: "nat option \<Rightarrow> ptr option \<Rightarrow> hooked \<Rightarrow> hooked" where
  "store_original slot original st =
     (case (slot, original) of
        (Some i, Some p) \<Rightarrow> st\<lparr>hk_originals := (hk_originals st)(i := p)\<rparr> | _ \<Rightarrow> st)"

definition ml_hook_install :: "mh_env \<Rightarrow> ptr \<Rightarrow> ptr \<Rightarrow> nat option \<Rightarrow> hooked \<Rightarrow> ml_hook_result \<times> hooked" where
  "ml_hook_install env target detour slot st =
     (if target = 0 then (ML_HOOK_SIGNATURE_NOT_FOUND, st)
      else case MH_CreateHook env target detour (hk_minhook st) of
        (status, original, m) \<Rightarrow>
          let st = store_original slot original (st\<lparr>hk_minhook := m\<rparr>) in
          if status \<noteq> MH_OK then (ML_HOOK_FAILED, st)
          else case MH_EnableHook target m of
            (status, m) \<Rightarrow>
              if status \<noteq> MH_OK then (ML_HOOK_FAILED, st\<lparr>hk_minhook := snd (MH_RemoveHook target m)\<rparr>)
              else (ML_HOOK_APPLIED, st\<lparr>hk_minhook := m\<rparr>))"

definition ml_hook_remove :: "ptr \<Rightarrow> hooked \<Rightarrow> bool \<times> hooked" where
  "ml_hook_remove target st =
     (if target = 0 then (True, st)
      else case MH_RemoveHook target (hk_minhook st) of
        (status, m) \<Rightarrow> (status = MH_OK \<or> status = MH_ERROR_NOT_CREATED, st\<lparr>hk_minhook := m\<rparr>))"

definition ml_hook_disable :: "ptr \<Rightarrow> hooked \<Rightarrow> bool \<times> hooked" where
  "ml_hook_disable target st =
     (if target = 0 then (True, st)
      else case MH_DisableHook target (hk_minhook st) of
        (status, m) \<Rightarrow>
          (status = MH_OK \<or> status = MH_ERROR_DISABLED \<or> status = MH_ERROR_NOT_CREATED, st\<lparr>hk_minhook := m\<rparr>))"

definition ml_hook_result_name :: "ml_hook_result \<Rightarrow> string" where
  "ml_hook_result_name result =
     (case result of
        ML_HOOK_APPLIED \<Rightarrow> ''APPLIED'' | ML_HOOK_SIGNATURE_NOT_FOUND \<Rightarrow> ''SIGNATURE_NOT_FOUND''
      | ML_HOOK_FAILED \<Rightarrow> ''HOOK_FAILED'')"

subsection \<open>Batches\<close>

record ml_hook_spec =
  hs_target :: ptr
  hs_detour :: ptr
  hs_original :: "nat option"

type_synonym 's install_fn = "ptr \<Rightarrow> ptr \<Rightarrow> nat option \<Rightarrow> 's \<Rightarrow> ml_hook_result \<times> 's"
type_synonym 's remove_fn = "ptr \<Rightarrow> 's \<Rightarrow> bool \<times> 's"

text \<open>Removing targets in the order given; the answer says whether every removal succeeded.\<close>

fun remove_all_loop :: "'s remove_fn \<Rightarrow> ptr list \<Rightarrow> bool \<Rightarrow> 's \<Rightarrow> bool \<times> 's" where
  "remove_all_loop remove_fn [] result s = (result, s)"
| "remove_all_loop remove_fn (target # ts) result s =
     (if target = 0 then remove_all_loop remove_fn ts result s
      else case remove_fn target s of
        (ok, s) \<Rightarrow> remove_all_loop remove_fn ts (result \<and> ok) s)"

text \<open>The installed specifications are kept latest first.\<close>

fun install_loop :: "'s install_fn \<Rightarrow> 's remove_fn \<Rightarrow> ml_hook_spec list \<Rightarrow> ml_hook_spec list \<Rightarrow> 's \<Rightarrow> bool \<times> bool \<times> 's" where
  "install_loop install_fn remove_fn installed [] s = (True, True, s)"
| "install_loop install_fn remove_fn installed (spec # specs) s =
     (case install_fn (hs_target spec) (hs_detour spec) (hs_original spec) s of
        (result, s) \<Rightarrow>
          if result \<noteq> ML_HOOK_APPLIED
          then (case remove_all_loop remove_fn (map hs_target installed) True s of
                  (complete, s) \<Rightarrow> (False, complete, s))
          else install_loop install_fn remove_fn (spec # installed) specs s)"

text \<open>The answer, \<open>*rollback_complete\<close> and the state; \<open>None\<close> is a null argument.\<close>

definition ml_hook_batch_install ::
  "ml_hook_spec list option \<Rightarrow> 's install_fn option \<Rightarrow> 's remove_fn option \<Rightarrow> 's \<Rightarrow> bool \<times> bool \<times> 's" where
  "ml_hook_batch_install specs install_fn remove_fn s =
     (case (specs, install_fn, remove_fn) of
        (Some specs, Some install_fn, Some remove_fn) \<Rightarrow>
          if specs = [] then (False, True, s) else install_loop install_fn remove_fn [] specs s
      | _ \<Rightarrow> (False, True, s))"

definition ml_hook_batch_remove :: "ml_hook_spec list option \<Rightarrow> 's remove_fn option \<Rightarrow> 's \<Rightarrow> bool \<times> 's" where
  "ml_hook_batch_remove specs remove_fn s =
     (case (specs, remove_fn) of
        (Some specs, Some remove_fn) \<Rightarrow> remove_all_loop remove_fn (map hs_target (rev specs)) True s
      | _ \<Rightarrow> (False, s))"

text \<open>From the last target back, each target at its first position only.\<close>

fun remove_unique_loop :: "'s remove_fn \<Rightarrow> ptr list \<Rightarrow> bool \<Rightarrow> 's \<Rightarrow> bool \<times> 's" where
  "remove_unique_loop remove_fn [] result s = (result, s)"
| "remove_unique_loop remove_fn (target # before) result s =
     (if target = 0 \<or> target \<in> set before then remove_unique_loop remove_fn before result s
      else case remove_fn target s of
        (ok, s) \<Rightarrow> remove_unique_loop remove_fn before (result \<and> ok) s)"

definition ml_hook_targets_remove_unique :: "ptr list option \<Rightarrow> 's remove_fn option \<Rightarrow> 's \<Rightarrow> bool \<times> 's" where
  "ml_hook_targets_remove_unique targets remove_fn s =
     (case (targets, remove_fn) of
        (Some targets, Some remove_fn) \<Rightarrow> remove_unique_loop remove_fn (rev targets) True s
      | _ \<Rightarrow> (False, s))"

subsection \<open>What the batches rely on\<close>

text \<open>
  \<open>view\<close> is what installing and removing change for the rest of the program. A failed installation
  changes none of it; removing a hook from a state that looks as it did when the hook went in restores
  the installation.
\<close>

locale hook_api =
  fixes install :: "'s install_fn" and remove :: "'s remove_fn"
    and view :: "'s \<Rightarrow> 'v" and valid :: "'s \<Rightarrow> bool"
  assumes install_valid: "valid s \<Longrightarrow> install t d slot s = (r, s') \<Longrightarrow> valid s'"
    and remove_valid: "valid s \<Longrightarrow> remove t s = (ok, s') \<Longrightarrow> valid s'"
    and install_failed: "valid s \<Longrightarrow> install t d slot s = (r, s') \<Longrightarrow> r \<noteq> ML_HOOK_APPLIED \<Longrightarrow> view s' = view s"
    and install_target: "install t d slot s = (ML_HOOK_APPLIED, s') \<Longrightarrow> t \<noteq> 0"
    and undo: "valid s \<Longrightarrow> install t d slot s = (ML_HOOK_APPLIED, s1) \<Longrightarrow> valid s2 \<Longrightarrow> view s2 = view s1 \<Longrightarrow>
      remove t s2 = (True, s3) \<Longrightarrow> view s3 = view s"
begin

text \<open>\<open>restores ts v s\<close>: removing \<open>ts\<close> in order from any state that looks like \<open>s\<close> gives the view \<open>v\<close>.\<close>

definition restores :: "ptr list \<Rightarrow> 'v \<Rightarrow> 's \<Rightarrow> bool" where
  "restores ts v s \<longleftrightarrow> (\<forall>s2 s3 ok. valid s2 \<longrightarrow> view s2 = view s \<longrightarrow> remove_all_loop remove ts ok s2 = (True, s3) \<longrightarrow> view s3 = v)"

lemma remove_all_False: "fst (remove_all_loop remove ts False s) = False"
  by (induction ts arbitrary: s) (auto split: prod.split)

lemma restores_Nil: "restores [] (view s) s"
  by (simp add: restores_def)

lemma restores_view:
  assumes "restores ts v s" and "view s' = view s"
  shows "restores ts v s'"
  using assms(1) unfolding restores_def assms(2) .

lemma restores_dest:
  "restores ts v s \<Longrightarrow> valid s2 \<Longrightarrow> view s2 = view s \<Longrightarrow> remove_all_loop remove ts ok s2 = (True, s3) \<Longrightarrow> view s3 = v"
  unfolding restores_def by blast

lemma restores_Cons:
  assumes "restores ts v s" and "valid s" and i: "install t d slot s = (ML_HOOK_APPLIED, s1)"
  shows "restores (t # ts) v s1"
  unfolding restores_def
proof (intro allI impI)
  fix s2 s3 ok
  assume s2: "valid s2" "view s2 = view s1" and loop: "remove_all_loop remove (t # ts) ok s2 = (True, s3)"
  obtain ok' s2' where r: "remove t s2 = (ok', s2')" by fastforce
  have rest: "remove_all_loop remove ts (ok \<and> ok') s2' = (True, s3)"
    using loop r install_target [OF i] by simp
  have "ok'" using rest remove_all_False [of ts s2'] by (cases ok') auto
  with r have "remove t s2 = (True, s2')" by simp
  from undo [OF assms(2) i s2 this] have "view s2' = view s" .
  with assms(1) remove_valid [OF s2(1) r] rest show "view s3 = v" unfolding restores_def by blast
qed

lemma install_loop_spec:
  assumes "install_loop install remove installed specs s = (ok, complete, s')"
    and "valid s" and "restores (map hs_target installed) v s"
  shows "(\<not> ok \<longrightarrow> complete \<longrightarrow> view s' = v) \<and>
    (ok \<longrightarrow> valid s' \<and> restores (map hs_target (rev specs @ installed)) v s')"
  using assms
proof (induction specs arbitrary: installed s)
  case Nil
  then show ?case by simp
next
  case (Cons spec specs)
  obtain r s1 where i: "install (hs_target spec) (hs_detour spec) (hs_original spec) s = (r, s1)" by fastforce
  have v1: "valid s1" by (rule install_valid [OF Cons.prems(2) i])
  show ?case
  proof (cases "r = ML_HOOK_APPLIED")
    case True
    have "restores (map hs_target (spec # installed)) v s1"
      using restores_Cons [OF Cons.prems(3,2)] i True by simp
    from Cons.IH [OF _ v1 this] Cons.prems(1) i True show ?thesis by simp
  next
    case False
    have "restores (map hs_target installed) v s1"
      by (rule restores_view [OF Cons.prems(3) install_failed [OF Cons.prems(2) i False]])
    from restores_dest [OF this v1 refl] Cons.prems(1) i False show ?thesis by (auto split: prod.splits)
  qed
qed

lemma batch_atomic:
  assumes "ml_hook_batch_install (Some specs) (Some install) (Some remove) s = (ok, complete, s')" and "valid s"
  shows "(\<not> ok \<longrightarrow> complete \<longrightarrow> view s' = view s) \<and>
    (ok \<longrightarrow> (\<forall>s2. ml_hook_batch_remove (Some specs) (Some remove) s' = (True, s2) \<longrightarrow> view s2 = view s))"
proof (cases "specs = []")
  case True
  with assms show ?thesis by (auto simp: ml_hook_batch_install_def)
next
  case False
  then have "install_loop install remove [] specs s = (ok, complete, s')"
    using assms(1) by (simp add: ml_hook_batch_install_def)
  from install_loop_spec [OF this assms(2), of "view s"] restores_Nil
  have fail: "\<not> ok \<longrightarrow> complete \<longrightarrow> view s' = view s"
    and ok: "ok \<longrightarrow> valid s' \<and> restores (map hs_target (rev specs)) (view s) s'" by simp_all
  show ?thesis
  proof (intro conjI impI allI)
    assume "\<not> ok" "complete" with fail show "view s' = view s" by blast
  next
    fix s2 assume "ok" "ml_hook_batch_remove (Some specs) (Some remove) s' = (True, s2)"
    with ok show "view s2 = view s" by (auto simp: ml_hook_batch_remove_def intro: restores_dest [OF _ _ refl])
  qed
qed

end

text \<open>Removing unique targets is removing every target once, where its first position is.\<close>

lemma remove_unique_remdups: "remove_unique_loop remove_fn ts result s = remove_all_loop remove_fn (remdups ts) result s"
  by (induction ts arbitrary: result s) (auto split: prod.split)

subsection \<open>The hooking library provides it\<close>

lemma store_original_minhook [simp]: "hk_minhook (store_original slot original st) = hk_minhook st"
  by (simp add: store_original_def split: option.split)

lemma enable_spec:
  assumes "MH_EnableHook target st = (status, st')" and "target \<noteq> 0" and "mh_valid st"
  shows "mh_valid st' \<and> mh_initialized st' = mh_initialized st \<and>
    (if status = MH_OK
     then \<exists>pos < length (mh_entries st).
       he_target (mh_entries st ! pos) = target \<and> \<not> he_enabled (mh_entries st ! pos) \<and>
       mh_memory st' = write_bytes (mh_memory st) (patch_target (mh_entries st ! pos)) (jump_bytes (mh_entries st ! pos)) \<and>
       mh_entries st' = (mh_entries st)[pos := (mh_entries st ! pos)\<lparr>he_enabled := True, he_queue_enable := True\<rparr>]
     else mh_memory st' = mh_memory st \<and> mh_entries st' = mh_entries st)"
proof (cases "find_hook_entry st target")
  case None
  with assms show ?thesis by (auto simp: MH_EnableHook_def enable_hook_def split: if_splits)
next
  case (Some pos)
  let ?e = "mh_entries st ! pos"
  note f = find_hook_entry_Some [OF Some]
  obtain fs st1 where fr: "freeze [?e] ACTION_ENABLE st = (fs, st1)" by fastforce
  obtain es st2 where en: "enable_hook_ll pos True st1 = (es, st2)" by fastforce
  note frame = freeze_frame [OF fr]
  have v1: "mh_valid st1" using frame assms(3) by (simp add: mh_valid_def)
  note ll = enable_hook_ll_spec [OF en] and v2 = enable_hook_ll_valid [OF en v1]
  consider "status \<noteq> MH_OK" "st' = st" | "fs \<noteq> MH_OK" "status = fs" "st' = st1"
    | "\<not> he_enabled ?e" "fs = MH_OK" "status = es" "st' = st2"
    using assms(1,2) Some fr en by (auto simp: MH_EnableHook_def enable_hook_def split: if_splits)
  then show ?thesis
  proof cases
    case 1
    with assms(3) show ?thesis by simp
  next
    case 2
    with frame v1 show ?thesis by simp
  next
    case 3
    with frame v2 ll f show ?thesis by (auto split: if_splits)
  qed
qed

text \<open>An installed hook: the state before it, and the entry that remembers the bytes.\<close>

lemma installed_entry:
  assumes "ml_hook_install env t d slot s = (ML_HOOK_APPLIED, s1)" and "mh_valid (hk_minhook s)"
  shows "t \<noteq> 0 \<and> mh_initialized (hk_minhook s) \<and> mh_initialized (hk_minhook s1) \<and>
    (\<exists>e. he_target e = t \<and> he_enabled e \<and> t \<notin> he_target ` set (mh_entries (hk_minhook s)) \<and>
       set (mh_entries (hk_minhook s1)) = insert e (set (mh_entries (hk_minhook s))) \<and>
       write_bytes (mh_memory (hk_minhook s1)) (patch_target e) (take (patch_size e) (he_backup e))
         = mh_memory (hk_minhook s))"
proof -
  have t: "t \<noteq> 0" using assms(1) by (auto simp: ml_hook_install_def)
  obtain cs original m1 where c: "MH_CreateHook env t d (hk_minhook s) = (cs, original, m1)" by (metis prod_cases3)
  obtain es m2 where en: "MH_EnableHook t m1 = (es, m2)" by fastforce
  have ok: "cs = MH_OK" "es = MH_OK" "hk_minhook s1 = m2"
    using assms(1) c en t by (auto simp: ml_hook_install_def Let_def split: if_splits)
  note cs = create_spec [OF c] and v1 = create_valid [OF c assms(2)]
  from cs ok(1) obtain e where e: "mh_entries m1 = mh_entries (hk_minhook s) @ [e]" "he_target e = t" "\<not> he_enabled e"
      "he_backup e = read_bytes (mh_memory (hk_minhook s)) (patch_target e) (patch_size e)"
    and new: "t \<notin> he_target ` set (mh_entries (hk_minhook s))" and init: "mh_initialized (hk_minhook s)"
    and mem: "mh_memory m1 = mh_memory (hk_minhook s)" "mh_initialized m1 = mh_initialized (hk_minhook s)"
    by auto
  from enable_spec [OF en t v1] ok(2) obtain pos where pos: "pos < length (mh_entries m1)" "he_target (mh_entries m1 ! pos) = t"
      and m2: "mh_memory m2 = write_bytes (mh_memory m1) (patch_target (mh_entries m1 ! pos)) (jump_bytes (mh_entries m1 ! pos))"
        "mh_entries m2 = (mh_entries m1)[pos := (mh_entries m1 ! pos)\<lparr>he_enabled := True, he_queue_enable := True\<rparr>]"
        "mh_initialized m2 = mh_initialized m1" by auto
  have last: "pos = length (mh_entries (hk_minhook s))" "mh_entries m1 ! pos = e"
    using pos e(1) new by (auto simp: nth_append less_Suc_eq split: if_splits)
  let ?e = "e\<lparr>he_enabled := True, he_queue_enable := True\<rparr>"
  have same: "patch_target ?e = patch_target e" "patch_size ?e = patch_size e" "he_backup ?e = he_backup e"
    by (simp_all add: patch_target_def patch_size_def)
  have "set (mh_entries m2) = insert ?e (set (mh_entries (hk_minhook s)))"
    using m2(2) last e(1) by simp
  moreover have "take (patch_size e) (he_backup e) = he_backup e" using e(4) by (simp add: read_bytes_def)
  then have "write_bytes (mh_memory m2) (patch_target ?e) (take (patch_size ?e) (he_backup ?e)) = mh_memory (hk_minhook s)"
    unfolding same m2(1) last(2) mem(1) using e(4) write_read_bytes [OF length_jump_bytes] by simp
  ultimately show ?thesis
    using t ok(3) e(2) new init m2(3) mem(2) by (auto intro!: exI [of _ ?e])
qed

definition hk_view :: "hooked \<Rightarrow> bool \<times> memory \<times> hook_entry set" where
  "hk_view s = mh_view (hk_minhook s)"

definition hk_valid :: "hooked \<Rightarrow> bool" where
  "hk_valid s = mh_valid (hk_minhook s)"

lemma remove_valid_hook: "hk_valid s \<Longrightarrow> ml_hook_remove t s = (ok, s') \<Longrightarrow> hk_valid s'"
  by (auto simp: ml_hook_remove_def hk_valid_def dest: remove_spec split: if_splits prod.splits)

lemma install_hook:
  assumes "ml_hook_install env t d slot s = (r, s')" and "hk_valid s"
  shows "hk_valid s' \<and> (r \<noteq> ML_HOOK_APPLIED \<longrightarrow> hk_view s' = hk_view s)"
proof (cases "t = 0")
  case True
  with assms show ?thesis by (auto simp: ml_hook_install_def)
next
  case False
  obtain cs original m1 where c: "MH_CreateHook env t d (hk_minhook s) = (cs, original, m1)" by (metis prod_cases3)
  obtain es m2 where en: "MH_EnableHook t m1 = (es, m2)" by fastforce
  obtain rs m3 where rm: "MH_RemoveHook t m2 = (rs, m3)" by fastforce
  note cs = create_spec [OF c] and v1 = create_valid [OF c assms(2) [unfolded hk_valid_def]]
  note es = enable_spec [OF en False v1]
  have v2: "mh_valid m2" using es by blast
  note rs = remove_spec [OF rm v2]
  consider "cs \<noteq> MH_OK" "hk_minhook s' = m1" | "cs = MH_OK" "es \<noteq> MH_OK" "hk_minhook s' = m3"
    | "r = ML_HOOK_APPLIED" "hk_minhook s' = m2"
    using assms(1) c en rm False by (auto simp: ml_hook_install_def Let_def split: if_splits)
  then show ?thesis
  proof cases
    case 1
    with cs v1 show ?thesis by (simp add: hk_valid_def hk_view_def mh_view_def)
  next
    case 2
    from cs 2(1) obtain e where e: "mh_entries m1 = mh_entries (hk_minhook s) @ [e]" "he_target e = t" "\<not> he_enabled e"
      and new: "t \<notin> he_target ` set (mh_entries (hk_minhook s))" and init: "mh_initialized m1"
      and view: "mh_memory m1 = mh_memory (hk_minhook s)" "mh_initialized m1 = mh_initialized (hk_minhook s)" by auto
    from es 2(2) have m2: "mh_entries m2 = mh_entries (hk_minhook s) @ [e]" "mh_memory m2 = mh_memory (hk_minhook s)"
      "mh_initialized m2" using e view init by auto
    have only: "e' = e" if "e' \<in> set (mh_entries m2)" "he_target e' = t" for e'
      using that new m2(1) by auto
    obtain pos where pos: "find_hook_entry m2 t = Some pos"
      using find_hook_entry_None [of m2 t] m2(1) e(2) by (cases "find_hook_entry m2 t") auto
    note f = find_hook_entry_Some [OF pos]
    have "mh_entries m2 ! pos = e" using only f by auto
    with e(3) have "rs = MH_OK" using rm remove_disabled [OF m2(3) pos] by simp
    with rs obtain e' where rem: "removed t m2 m3 e'" and i3: "mh_initialized m3 = mh_initialized m2" by auto
    have "e' = e" using rem only unfolding removed_def by blast
    moreover have "e \<notin> set (mh_entries (hk_minhook s))" using new e(2) by auto
    ultimately have "mh_view m3 = mh_view (hk_minhook s)"
      using rem e(3) m2 i3 view init unfolding removed_def mh_view_def by simp
    with rs 2(3) show ?thesis by (simp add: hk_valid_def hk_view_def)
  next
    case 3
    with v2 show ?thesis by (simp add: hk_valid_def)
  qed
qed

lemma undo_hook:
  assumes "hk_valid s" and "ml_hook_install env t d slot s = (ML_HOOK_APPLIED, s1)" and "hk_valid s2"
    and "hk_view s2 = hk_view s1" and "ml_hook_remove t s2 = (True, s3)"
  shows "hk_view s3 = hk_view s"
proof -
  from installed_entry [OF assms(2) assms(1) [unfolded hk_valid_def]] obtain e
    where e: "t \<noteq> 0" "mh_initialized (hk_minhook s)" "mh_initialized (hk_minhook s1)" "he_target e = t" "he_enabled e"
      "t \<notin> he_target ` set (mh_entries (hk_minhook s))"
      "set (mh_entries (hk_minhook s1)) = insert e (set (mh_entries (hk_minhook s)))"
      "write_bytes (mh_memory (hk_minhook s1)) (patch_target e) (take (patch_size e) (he_backup e)) = mh_memory (hk_minhook s)"
    by blast
  have s2: "mh_initialized (hk_minhook s2)" "mh_memory (hk_minhook s2) = mh_memory (hk_minhook s1)"
    "set (mh_entries (hk_minhook s2)) = insert e (set (mh_entries (hk_minhook s)))"
    using assms(4) e(3,7) by (simp_all add: hk_view_def mh_view_def)
  obtain status m where rm: "MH_RemoveHook t (hk_minhook s2) = (status, m)" by fastforce
  have known: "find_hook_entry (hk_minhook s2) t \<noteq> None"
    using s2(3) e(4) by (simp add: find_hook_entry_None)
  have r: "status = MH_OK" "hk_minhook s3 = m"
    using assms(5) rm e(1) known s2(1)
    by (auto simp: ml_hook_remove_def MH_RemoveHook_def freeze_def enable_hook_ll_def Let_def
        split: if_splits prod.splits option.splits bool.splits)
  from remove_spec [OF rm assms(3) [unfolded hk_valid_def]] r(1) obtain e' where rem: "removed t (hk_minhook s2) m e'"
    and i: "mh_initialized m = mh_initialized (hk_minhook s2)" by auto
  have "e' = e" using rem e(6) s2(3) unfolding removed_def by (metis imageI insertE)
  then have "mh_view m = mh_view (hk_minhook s)"
    using rem e s2 i unfolding removed_def mh_view_def by auto
  then show ?thesis by (simp add: hk_view_def r(2))
qed

interpretation minhook: hook_api "ml_hook_install env" ml_hook_remove hk_view hk_valid for env
proof (unfold_locales, goal_cases)
  case (1 s t d slot r s')
  then show ?case using install_hook by blast
next
  case (2 s t ok s')
  then show ?case by (rule remove_valid_hook)
next
  case (3 s t d slot r s')
  then show ?case using install_hook by blast
next
  case (4 t d slot s s')
  then show ?case by (auto simp: ml_hook_install_def)
next
  case (5 s t d slot s1 s2 s3)
  then show ?case by (rule undo_hook)
qed

text \<open>
  C6: a batch that fails and reports a complete rollback leaves the loader as it was: the same
  hooks, and every byte of the code as before; and when a batch that succeeded is removed and the
  removal reports success, the state before the batch is back, whatever calls of the system failed
  on the way.
\<close>

theorem hook_batch_atomic:
  assumes "hk_valid st"
    and "ml_hook_batch_install (Some specs) (Some (ml_hook_install env)) (Some ml_hook_remove) st = (ok, complete, st')"
  shows "(\<not> ok \<longrightarrow> complete \<longrightarrow> hk_view st' = hk_view st) \<and>
    (ok \<longrightarrow> (\<forall>st2. ml_hook_batch_remove (Some specs) (Some ml_hook_remove) st' = (True, st2) \<longrightarrow> hk_view st2 = hk_view st))"
  by (rule minhook.batch_atomic [OF assms(2,1)])

text \<open>The first hook goes in, the second has no address.\<close>

definition example_hooked :: hooked where
  "example_hooked = \<lparr>hk_minhook = snd (MH_Initialize example_minhook), hk_originals = \<lambda>_. 0\<rparr>"

definition example_batch :: "bool \<times> bool \<times> hooked" where
  "example_batch = ml_hook_batch_install
     (Some [\<lparr>hs_target = 0x1000, hs_detour = 0x2000, hs_original = Some 0\<rparr>, \<lparr>hs_target = 0, hs_detour = 0x2100, hs_original = None\<rparr>])
     (Some (ml_hook_install example_env)) (Some ml_hook_remove) example_hooked"

theorem hook_batch_atomic_witness:
  "fst example_batch = False \<and> fst (snd example_batch) = True \<and>
   hk_originals (snd (snd example_batch)) 0 = 0x70000000 \<and> hk_view (snd (snd example_batch)) = hk_view example_hooked"
proof -
  have valid: "hk_valid example_hooked" by code_simp
  have "example_batch = (fst example_batch, fst (snd example_batch), snd (snd example_batch))" by simp
  note hook_batch_atomic [OF valid this [unfolded example_batch_def], folded example_batch_def]
  moreover have "fst example_batch = False" "fst (snd example_batch) = True"
    "hk_originals (snd (snd example_batch)) 0 = 0x70000000" by code_simp+
  ultimately show ?thesis by simp
qed

end
