(* ===== verification/Scanner.thy ===== *)
theory Scanner
  imports Prelude
begin

unbundle bit_operations_syntax

text \<open>
  Signature scanning (\<open>src/process/scanner.c\<close>): the parser of patterns such as
  \<open>48 8B ?? 4? ?C\<close> and the search, a Boyer-Moore scan whose shifts come from the longest run of
  fixed bytes. A region of memory is the list of its bytes, a match its offset; \<open>ssize_t\<close> values
  are integers, since every one of them is between -1 and the length of the pattern.

  The search is proved to find the first match, whatever the pattern; the parser is proved to read
  back the text of every pattern.
\<close>

subsection \<open>The bad character table\<close>

definition BM_DATA_MAX_LEN :: nat where "BM_DATA_MAX_LEN = 256"

text \<open>The loop over the window, with the index of its next byte.\<close>

fun bad_loop :: "(8 word \<times> 8 word) list \<Rightarrow> nat \<Rightarrow> int list \<Rightarrow> int list" where
  "bad_loop [] i bad = bad"
| "bad_loop ((d, m) # ps) i bad =
     bad_loop ps (Suc i)
       (if m = 0xFF then bad[unat d := int i]
        else map (\<lambda>c. if d AND m = of_nat c AND m then int i else bad ! c) [0..<BM_DATA_MAX_LEN])"

definition bad_data_heuristic :: "(8 word \<times> 8 word) list \<Rightarrow> int list" where
  "bad_data_heuristic window = bad_loop window 0 (replicate BM_DATA_MAX_LEN (- 1))"

subsection \<open>The scan\<close>

definition byte_match :: "8 word \<Rightarrow> 8 word \<times> 8 word \<Rightarrow> bool" where
  "byte_match b e = (case e of (p, m) \<Rightarrow> b AND m = p)"

definition masked_equal :: "bytes \<Rightarrow> (8 word \<times> 8 word) list \<Rightarrow> bool" where
  "masked_equal text pattern = (\<forall>i < length pattern. byte_match (text ! i) (pattern ! i))"

text \<open>The inner loop from index \<open>j - 1\<close> down: the index of the mismatch, if there is one.\<close>

fun match_back :: "bytes \<Rightarrow> (8 word \<times> 8 word) list \<Rightarrow> nat \<Rightarrow> nat option" where
  "match_back txt window 0 = None"
| "match_back txt window (Suc j) =
     (if byte_match (txt ! j) (window ! j) then match_back txt window j else Some j)"

definition bad_shift :: "int list \<Rightarrow> bytes \<Rightarrow> nat \<Rightarrow> nat" where
  "bad_shift bad txt j = nat (max 1 (int j - bad ! unat (txt ! j)))"

text \<open>The pattern is the list of its bytes with their masks; \<open>window\<close> and \<open>start\<close> its part that drives the shifts.\<close>

function scan_loop :: "bytes \<Rightarrow> (8 word \<times> 8 word) list \<Rightarrow> nat \<Rightarrow> (8 word \<times> 8 word) list \<Rightarrow> int list \<Rightarrow> nat \<Rightarrow> nat option" where
  "scan_loop data pattern start window bad s =
     (if s \<le> length data - length pattern then
        (case match_back (drop (s + start) data) window (length window) of
           Some j \<Rightarrow> scan_loop data pattern start window bad (s + bad_shift bad (drop (s + start) data) j)
         | None \<Rightarrow>
             if masked_equal (drop s data) pattern then Some s
             else scan_loop data pattern start window bad (Suc s))
      else None)"
  by pat_completeness auto
termination
  by (relation "measure (\<lambda>(data, pattern, start, window, bad, s). Suc (length data) - s)") (auto simp: bad_shift_def)

declare scan_loop.simps [simp del]

definition sig_scan_window :: "bytes \<Rightarrow> (8 word \<times> 8 word) list \<Rightarrow> nat \<Rightarrow> nat \<Rightarrow> nat option" where
  "sig_scan_window data pattern start n =
     (let window = take n (drop start pattern)
      in scan_loop data pattern start window (bad_data_heuristic window) 0)"

fun run_loop :: "8 word list \<Rightarrow> nat \<Rightarrow> nat \<Rightarrow> nat \<Rightarrow> nat \<Rightarrow> nat \<times> nat" where
  "run_loop [] i run best start = (best, start)"
| "run_loop (m # ms) i run best start =
     (let run = (if m = 0xFF then run + 1 else 0)
      in if run \<noteq> 0 \<and> run \<ge> best then run_loop ms (Suc i) run run (i + 1 - run)
         else run_loop ms (Suc i) run best start)"

text \<open>The length of the longest run of full masks, and where it starts.\<close>

definition longest_fixed_run :: "8 word list \<Rightarrow> nat \<times> nat" where
  "longest_fixed_run masks = run_loop masks 0 0 0 0"

fun fixed_loop :: "(8 word \<times> 8 word) list \<Rightarrow> nat \<Rightarrow> nat" where
  "fixed_loop pattern 0 = 0"
| "fixed_loop pattern (Suc fixed) = (if snd (pattern ! fixed) = 0 then fixed_loop pattern fixed else Suc fixed)"

text \<open>\<open>None\<close> as data is a null pointer.\<close>

definition sig_scan_pattern :: "bytes option \<Rightarrow> (8 word \<times> 8 word) list \<Rightarrow> nat option" where
  "sig_scan_pattern data pattern =
     (case data of None \<Rightarrow> None
      | Some data \<Rightarrow>
          if length pattern = 0 \<or> length data < length pattern then None
          else
            let fixed = fixed_loop pattern (length pattern) in
            if fixed = 0 then Some 0
            else
              let (n, start) = longest_fixed_run (map snd (take fixed pattern));
                  (n, start) = (if n = 0 then (fixed, 0) else (n, start))
              in sig_scan_window (take (length data - (length pattern - fixed)) data) (take fixed pattern) start n)"

subsection \<open>Patterns\<close>

definition char_table :: "int list" where
  "char_table =
     [-1, -1, -1, -1, -1, -1, -1, -1, -1, -2, -2, -2, -1, -2, -1, -1,
      -1, -1, -1, -1, -1, -1, -1, -1, -1, -1, -1, -1, -1, -1, -1, -1,
      -2, -1, -1, -1, -1, -1, -1, -1, -1, -1, -1, -1, -1, -1, -1, -1,
       0,  1,  2,  3,  4,  5,  6,  7,  8,  9, -1, -1, -1, -1, -1, -3,
      -1, 10, 11, 12, 13, 14, 15, -1, -1, -1, -1, -1, -1, -1, -1, -1,
      -1, -1, -1, -1, -1, -1, -1, -1, -1, -1, -1, -1, -1, -1, -1, -1,
      -1, 10, 11, 12, 13, 14, 15, -1, -1, -1, -1, -1, -1, -1, -1, -1,
      -1, -1, -1, -1, -1, -1, -1, -1, -1, -1, -1, -1, -1, -1, -1, -1]"

datatype sig_parse = Sig_pattern "(8 word \<times> 8 word) list" | Sig_no_room | Sig_error

definition end_byte :: "8 word \<times> 8 word \<Rightarrow> 8 word \<times> 8 word" where
  "end_byte b = (case b of (p, m) \<Rightarrow> (p, if m = 0xF then 0xFF else m))"

text \<open>\<open>acc\<close> are the complete bytes, \<open>half\<close> the one whose second character may follow.\<close>

fun build_loop :: "nat \<Rightarrow> bytes \<Rightarrow> (8 word \<times> 8 word) list \<Rightarrow> (8 word \<times> 8 word) option \<Rightarrow> sig_parse" where
  "build_loop out_size [] acc half =
     Sig_pattern (case half of None \<Rightarrow> acc | Some b \<Rightarrow> acc @ [end_byte b])"
| "build_loop out_size (c # cs) acc half =
     (if unat c \<ge> length char_table then Sig_error
      else let v = char_table ! unat c in
        if v = -1 then Sig_error
        else if v = -2 then
          (case half of None \<Rightarrow> build_loop out_size cs acc None
           | Some b \<Rightarrow> build_loop out_size cs (acc @ [end_byte b]) None)
        else if v = -3 then
          (case half of
             Some (p, m) \<Rightarrow> build_loop out_size cs (acc @ [(push_bit 4 p, push_bit 4 m)]) None
           | None \<Rightarrow> if length acc \<ge> out_size then Sig_no_room else build_loop out_size cs acc (Some (0, 0)))
        else
          (case half of
             Some (p, m) \<Rightarrow> build_loop out_size cs (acc @ [(push_bit 4 p OR word_of_int v, push_bit 4 m OR 0xF)]) None
           | None \<Rightarrow>
               if length acc \<ge> out_size then Sig_no_room else build_loop out_size cs acc (Some (word_of_int v, 0xF))))"

definition sig_build_pattern_with_mask :: "bytes \<Rightarrow> nat \<Rightarrow> sig_parse" where
  "sig_build_pattern_with_mask pattern out_size = build_loop out_size pattern [] None"

text \<open>The buffers are doubled until the pattern fits; the fuel bounds the number of rounds.\<close>

fun sig_scan_rounds :: "nat \<Rightarrow> nat \<Rightarrow> bytes \<Rightarrow> heap \<Rightarrow> ((8 word \<times> 8 word) list option \<times> heap) option" where
  "sig_scan_rounds 0 out_size pattern h = None"
| "sig_scan_rounds (Suc fuel) out_size pattern h =
     (case ml_mem_alloc h of (ok1, h) \<Rightarrow>
        case ml_mem_alloc h of (ok2, h) \<Rightarrow>
          if \<not> ok1 \<or> \<not> ok2 then Some (None, h)
          else case sig_build_pattern_with_mask pattern out_size of
            Sig_error \<Rightarrow> Some (None, h)
          | Sig_no_room \<Rightarrow> sig_scan_rounds fuel (2 * out_size) pattern h
          | Sig_pattern p \<Rightarrow> Some (Some p, h))"

definition sig_scan :: "bytes option \<Rightarrow> bytes \<Rightarrow> heap \<Rightarrow> (nat option \<times> heap) option" where
  "sig_scan base pattern h =
     (case sig_scan_rounds (length pattern + 1) 64 pattern h of
        None \<Rightarrow> None
      | Some (None, h) \<Rightarrow> Some (None, h)
      | Some (Some p, h) \<Rightarrow> Some (sig_scan_pattern base p, h))"

subsection \<open>The table\<close>

text \<open>What the scan needs: the table has no entry before a position its byte matches.\<close>

definition bad_ok :: "(8 word \<times> 8 word) list \<Rightarrow> int list \<Rightarrow> bool" where
  "bad_ok window bad \<longleftrightarrow> length bad = BM_DATA_MAX_LEN \<and> (\<forall>b :: 8 word. - 1 \<le> bad ! unat b) \<and>
     (\<forall>b. \<forall>j < length window. byte_match b (window ! j) \<longrightarrow> int j \<le> bad ! unat b)"

lemma byte_256: "unat (b :: 8 word) < BM_DATA_MAX_LEN"
  using unsigned_less [of b] by (simp add: BM_DATA_MAX_LEN_def)

lemma byte_match_same: "byte_match b (p, m) \<Longrightarrow> p AND m = b AND m"
  by (auto simp: byte_match_def ac_simps)

lemma byte_match_full: "byte_match b (p, 0xFF) \<longleftrightarrow> b = p"
proof -
  have "(0xFF :: 8 word) = -1" by simp
  then show ?thesis unfolding byte_match_def prod.case by (simp only: and.right_neutral)
qed

lemma bad_loop_bound:
  assumes "length bad = BM_DATA_MAX_LEN"
    and "\<And>b j. j < i \<Longrightarrow> byte_match b (pre ! j) \<Longrightarrow> int j \<le> bad ! unat b"
    and "\<And>c. c < BM_DATA_MAX_LEN \<Longrightarrow> - 1 \<le> bad ! c \<and> bad ! c < int i" and "length pre = i"
  shows "bad_ok (pre @ ps) (bad_loop ps i bad)"
  using assms
proof (induction ps i bad arbitrary: pre rule: bad_loop.induct)
  case (1 i bad)
  then show ?case using byte_256 by (simp add: bad_ok_def)
next
  case (2 d m ps i bad)
  let ?bad = "if m = 0xFF then bad[unat d := int i]
    else map (\<lambda>c. if d AND m = of_nat c AND m then int i else bad ! c) [0..<BM_DATA_MAX_LEN]"
  have entry: "?bad ! unat b = (if d AND m = b AND m then int i else bad ! unat b)" for b :: "8 word"
  proof (cases "m = 0xFF")
    case True
    then have "m = -1" by simp
    then show ?thesis using byte_256 [of d] byte_256 [of b] "2.prems"(1)
      by (auto simp: nth_list_update word_unat_eq_iff [symmetric])
  next
    case False
    then show ?thesis using byte_256 [of b] by simp
  qed
  have below: "- 1 \<le> bad ! unat b \<and> bad ! unat b < int i" for b :: "8 word" using "2.prems"(3) byte_256 by blast
  have "bad_ok ((pre @ [(d, m)]) @ ps) (bad_loop ps (Suc i) ?bad)"
  proof (rule "2.IH")
    show "length ?bad = BM_DATA_MAX_LEN" using "2.prems"(1) by simp
    show "length (pre @ [(d, m)]) = Suc i" using "2.prems"(4) by simp
    fix b :: "8 word" and j assume j: "j < Suc i" and match: "byte_match b ((pre @ [(d, m)]) ! j)"
    show "int j \<le> ?bad ! unat b"
    proof (cases "j = i")
      case True
      then have "byte_match b (d, m)" using match "2.prems"(4) by (simp add: nth_append)
      with True show ?thesis unfolding entry using byte_match_same by simp
    next
      case False
      with j match "2.prems"(4) have "j < i" "byte_match b (pre ! j)" by (auto simp: nth_append)
      with "2.prems"(2) have "int j \<le> bad ! unat b" by blast
      with \<open>j < i\<close> show ?thesis unfolding entry by auto
    qed
  next
    fix c assume "c < BM_DATA_MAX_LEN"
    then have "unat (of_nat c :: 8 word) = c" by (simp add: BM_DATA_MAX_LEN_def unat_of_nat take_bit_nat_eq_self)
    then show "- 1 \<le> ?bad ! c \<and> ?bad ! c < int (Suc i)"
      using entry [of "of_nat c"] below [of "of_nat c"] by (simp split: if_splits)
  qed
  then show ?case by simp
qed

lemma bad_ok: "bad_ok window (bad_data_heuristic window)"
  using bad_loop_bound [of "replicate BM_DATA_MAX_LEN (- 1)" 0 "[]" window]
  by (simp add: bad_data_heuristic_def)

subsection \<open>The scan finds the first match\<close>

definition matches :: "bytes \<Rightarrow> (8 word \<times> 8 word) list \<Rightarrow> nat \<Rightarrow> bool" where
  "matches data pattern s \<longleftrightarrow> s + length pattern \<le> length data \<and> masked_equal (drop s data) pattern"

definition first_match :: "bytes \<Rightarrow> (8 word \<times> 8 word) list \<Rightarrow> nat option \<Rightarrow> bool" where
  "first_match data pattern result \<longleftrightarrow>
     (case result of
        None \<Rightarrow> \<forall>s. \<not> matches data pattern s
      | Some s \<Rightarrow> matches data pattern s \<and> (\<forall>s' < s. \<not> matches data pattern s'))"

lemma match_back_Some:
  "match_back txt window n = Some j \<Longrightarrow> j < n \<and> \<not> byte_match (txt ! j) (window ! j)"
  by (induction n) (auto split: if_splits)

text \<open>No match is skipped: the byte that mismatched has no earlier place in the window.\<close>

lemma shift_skips_nothing:
  assumes bad: "bad_ok window bad" and window: "window = take n (drop start pattern)" "start + n \<le> length pattern"
    and j: "match_back (drop (s + start) data) window (length window) = Some j"
    and s': "s \<le> s'" "s' < s + bad_shift bad (drop (s + start) data) j"
  shows "\<not> matches data pattern s'"
proof
  assume m: "matches data pattern s'"
  have n: "length window = n" using window by simp
  have jn: "j < n" and mis: "\<not> byte_match (drop (s + start) data ! j) (window ! j)"
    using match_back_Some [OF j] n by auto
  let ?b = "drop (s + start) data ! j" and ?d = "s' - s"
  have len: "s' + length pattern \<le> length data" using m by (simp add: matches_def)
  have b: "?b = data ! (s + start + j)" using len jn window(2) s'(1) by (simp add: nth_drop)
  have at: "byte_match (data ! (s' + i)) (pattern ! i)" if "i < length pattern" for i
    using m that by (auto simp: matches_def masked_equal_def)
  have place: "byte_match ?b (window ! (j - ?d))" if "?d \<le> j"
  proof -
    have "start + (j - ?d) < length pattern" using jn window(2) by simp
    from at [OF this] show ?thesis using that jn window s'(1) unfolding b by (simp add: ac_simps)
  qed
  show False
  proof (cases "s' = s")
    case True
    with place mis show False by simp
  next
    case False
    with s' have d: "int ?d < int j - bad ! unat ?b"
      unfolding bad_shift_def by (auto simp: max_def split: if_splits)
    have "- 1 \<le> bad ! unat ?b" using bad unfolding bad_ok_def by blast
    with d have dj: "?d \<le> j" by linarith
    have "j - ?d < length window" using jn n by simp
    with place [OF dj] bad have "int (j - ?d) \<le> bad ! unat ?b" unfolding bad_ok_def by blast
    with d dj show False by (simp add: of_nat_diff)
  qed
qed

lemma bad_shift_pos: "0 < bad_shift bad txt j"
  by (simp add: bad_shift_def)

lemma scan_loop_first:
  assumes "bad_ok window bad" and "window = take n (drop start pattern)" and "start + n \<le> length pattern"
    and "length pattern \<le> length data" and "\<forall>s' < s. \<not> matches data pattern s'"
  shows "first_match data pattern (scan_loop data pattern start window bad s)"
  using assms
proof (induction data pattern start window bad s rule: scan_loop.induct)
  case (1 data pattern start window bad s)
  show ?case
  proof (cases "s \<le> length data - length pattern")
    case False
    then have "\<not> matches data pattern s'" for s'
      using "1.prems"(4,5) by (cases "s' < s") (auto simp: matches_def)
    with False show ?thesis by (subst scan_loop.simps) (simp add: first_match_def)
  next
    case True
    show ?thesis
    proof (cases "match_back (drop (s + start) data) window (length window)")
      case (Some j)
      let ?s = "s + bad_shift bad (drop (s + start) data) j"
      have "\<forall>s' < ?s. \<not> matches data pattern s'"
        using "1.prems"(5) shift_skips_nothing [OF "1.prems"(1-3) Some] by (meson not_le_imp_less)
      from "1.IH"(2) [OF True Some "1.prems"(1-4) this] True Some
      show ?thesis by (subst scan_loop.simps) simp
    next
      case None
      show ?thesis
      proof (cases "masked_equal (drop s data) pattern")
        case True
        then have "matches data pattern s" using \<open>s \<le> length data - length pattern\<close> "1.prems"(4) by (simp add: matches_def)
        with True \<open>s \<le> length data - length pattern\<close> None "1.prems"(5) show ?thesis
          by (subst scan_loop.simps) (simp add: first_match_def)
      next
        case False
        then have "\<forall>s' < Suc s. \<not> matches data pattern s'"
          using "1.prems"(5) by (auto simp: less_Suc_eq matches_def)
        from "1.IH"(1) [OF True None False "1.prems"(1-4) this] True None False
        show ?thesis by (subst scan_loop.simps) simp
      qed
    qed
  qed
qed

lemma run_loop_range:
  assumes "run \<le> i" and "start + best \<le> i"
  shows "snd (run_loop ms i run best start) + fst (run_loop ms i run best start) \<le> i + length ms"
  using assms
proof (induction ms i run best start rule: run_loop.induct)
  case (1 i run best start)
  then show ?case by simp
next
  case (2 m ms i run best start)
  let ?run = "if m = 0xFF then run + 1 else 0"
  show ?case
  proof (cases "?run \<noteq> 0 \<and> ?run \<ge> best")
    case True
    with "2.IH"(1) [OF refl True] "2.prems" show ?thesis by (auto simp: Let_def split: if_splits)
  next
    case False
    with "2.IH"(2) [OF refl False] "2.prems" show ?thesis by (auto simp: Let_def split: if_splits)
  qed
qed

lemma fixed_loop_range: "fixed_loop pattern n \<le> n \<and> (\<forall>i. fixed_loop pattern n \<le> i \<longrightarrow> i < n \<longrightarrow> snd (pattern ! i) = 0)"
  by (induction n) (auto simp: less_Suc_eq)

text \<open>The parser leaves the wildcard bits of a pattern zero.\<close>

definition wildcards_zero :: "(8 word \<times> 8 word) list \<Rightarrow> bool" where
  "wildcards_zero pattern \<longleftrightarrow> (\<forall>(p, m) \<in> set pattern. p AND m = p)"

lemma matches_fixed:
  assumes "wildcards_zero pattern" and "fixed = fixed_loop pattern (length pattern)" and "length pattern \<le> length data"
  shows "matches data pattern s \<longleftrightarrow> matches (take (length data - (length pattern - fixed)) data) (take fixed pattern) s"
proof -
  have fixed: "fixed \<le> length pattern" and rest: "\<And>i. fixed \<le> i \<Longrightarrow> i < length pattern \<Longrightarrow> snd (pattern ! i) = 0"
    using fixed_loop_range [of pattern "length pattern"] assms(2) by auto
  have any: "byte_match b (pattern ! i)" if "fixed \<le> i" "i < length pattern" for b i
  proof -
    obtain p m where e: "pattern ! i = (p, m)" by fastforce
    with rest [OF that] have "m = 0" by simp
    moreover have "p AND m = p" using assms(1) e that(2) unfolding wildcards_zero_def
      by (metis (mono_tags, lifting) case_prodD nth_mem)
    ultimately show ?thesis by (simp add: e byte_match_def)
  qed
  have "s + length pattern \<le> length data \<longleftrightarrow>
      s + length (take fixed pattern) \<le> length (take (length data - (length pattern - fixed)) data)"
    using fixed assms(3) by auto
  moreover have "masked_equal (drop s data) pattern \<longleftrightarrow>
      masked_equal (drop s (take (length data - (length pattern - fixed)) data)) (take fixed pattern)"
    if "s + length pattern \<le> length data"
    using any fixed that unfolding masked_equal_def by (auto simp: not_le_imp_less) (metis not_le_imp_less)
  ultimately show ?thesis unfolding matches_def by auto
qed

lemma sig_scan_pattern_first:
  assumes "wildcards_zero pattern" and "pattern \<noteq> []"
  shows "first_match data pattern (sig_scan_pattern (Some data) pattern)"
proof (cases "length data < length pattern")
  case True
  then show ?thesis using assms(2) by (simp add: sig_scan_pattern_def first_match_def matches_def)
next
  case False
  define fixed where "fixed = fixed_loop pattern (length pattern)"
  let ?data = "take (length data - (length pattern - fixed)) data" and ?pattern = "take fixed pattern"
  have len: "length pattern \<le> length data" using False by simp
  have fixed: "fixed \<le> length pattern" using fixed_loop_range [of pattern "length pattern"] by (simp add: fixed_def)
  note eq = matches_fixed [OF assms(1) fixed_def len]
  have goal: "first_match data pattern r \<longleftrightarrow> first_match ?data ?pattern r" for r
    unfolding first_match_def eq ..
  show ?thesis
  proof (cases "fixed = 0")
    case True
    then have "first_match ?data ?pattern (Some 0)" by (simp add: first_match_def matches_def masked_equal_def)
    with True False assms(2) show ?thesis unfolding goal by (simp add: sig_scan_pattern_def fixed_def [symmetric])
  next
    case nonzero: False
    obtain n start where run: "longest_fixed_run (map snd ?pattern) = (n, start)" by fastforce
    have range: "start + n \<le> fixed"
      using run_loop_range [of 0 0 0 0 "map snd ?pattern"] run fixed unfolding longest_fixed_run_def by simp
    obtain n' start' where w: "(n', start') = (if n = 0 then (fixed, 0) else (n, start))"
      by (metis surj_pair)
    then have range': "start' + n' \<le> length ?pattern" using range fixed by (auto split: if_splits)
    have "first_match ?data ?pattern (sig_scan_window ?data ?pattern start' n')"
      unfolding sig_scan_window_def Let_def
      by (rule scan_loop_first [OF bad_ok refl range']) (use len fixed in auto)
    moreover have "sig_scan_pattern (Some data) pattern = sig_scan_window ?data ?pattern start' n'"
      using False assms(2) nonzero run w
      by (simp add: sig_scan_pattern_def fixed_def [symmetric] Let_def split: if_splits)
    ultimately show ?thesis unfolding goal by simp
  qed
qed

subsection \<open>The parser\<close>

text \<open>Parsing either fits or has read more characters than the buffers have bytes.\<close>

lemma no_room_long:
  "build_loop out_size cs acc half = Sig_no_room \<Longrightarrow> out_size < length acc + length cs + (if half = None then 0 else 1)"
proof (induction cs arbitrary: acc half)
  case (Cons c cs)
  from Cons.prems show ?case
    by (auto dest!: Cons.IH simp: Let_def split: if_splits option.splits prod.splits)
qed simp

lemma sig_scan_rounds_total:
  "length pattern \<le> out_size + fuel \<Longrightarrow> 0 < out_size \<Longrightarrow> sig_scan_rounds (Suc fuel) out_size pattern h \<noteq> None"
proof (induction fuel arbitrary: out_size h)
  case (Suc fuel)
  then have "sig_scan_rounds (Suc fuel) (2 * out_size) pattern h' \<noteq> None" for h' by simp
  then show ?case by (auto split: prod.split sig_parse.split)
next
  case 0
  then have "sig_build_pattern_with_mask pattern out_size \<noteq> Sig_no_room"
    using no_room_long [of out_size pattern "[]" None] by (auto simp: sig_build_pattern_with_mask_def)
  then show ?case by (auto split: prod.split sig_parse.split)
qed

lemma sig_scan_returns: "sig_scan base pattern h \<noteq> None"
  using sig_scan_rounds_total [of pattern 64 "length pattern" h]
  by (auto simp: sig_scan_def split: option.split)

text \<open>A pattern is a list of bytes given by two hexadecimal digits or wildcards.\<close>

datatype sig_digit = Digit nat | Wild

definition digit_valid :: "sig_digit \<Rightarrow> bool" where
  "digit_valid d = (case d of Digit n \<Rightarrow> n < 16 | Wild \<Rightarrow> True)"

definition digit_matches :: "sig_digit \<Rightarrow> nat \<Rightarrow> bool" where
  "digit_matches d n = (case d of Digit m \<Rightarrow> n = m | Wild \<Rightarrow> True)"

definition digit_char :: "sig_digit \<Rightarrow> 8 word" where
  "digit_char d = (case d of Wild \<Rightarrow> 63 | Digit n \<Rightarrow> if n < 10 then 48 + of_nat n else 55 + of_nat n)"

fun sig_text :: "(sig_digit \<times> sig_digit) list \<Rightarrow> bytes" where
  "sig_text [] = []"
| "sig_text [(a, b)] = [digit_char a, digit_char b]"
| "sig_text ((a, b) # ts) = digit_char a # digit_char b # 32 # sig_text ts"

definition byte_matches :: "8 word \<Rightarrow> sig_digit \<times> sig_digit \<Rightarrow> bool" where
  "byte_matches x t = (case t of (a, b) \<Rightarrow> digit_matches a (unat x div 16) \<and> digit_matches b (unat x mod 16))"

definition digit_value :: "sig_digit \<Rightarrow> 8 word" where
  "digit_value d = (case d of Digit n \<Rightarrow> of_nat n | Wild \<Rightarrow> 0)"

definition digit_mask :: "sig_digit \<Rightarrow> 8 word" where
  "digit_mask d = (case d of Digit n \<Rightarrow> 0xF | Wild \<Rightarrow> 0)"

definition parsed :: "sig_digit \<times> sig_digit \<Rightarrow> 8 word \<times> 8 word" where
  "parsed t = (case t of (a, b) \<Rightarrow>
     (push_bit 4 (digit_value a) OR digit_value b, push_bit 4 (digit_mask a) OR digit_mask b))"

lemma digits: "n < 16 \<Longrightarrow> n \<in> {0,1,2,3,4,5,6,7,8,9,10,11,12,13,14,15}" for n :: nat
  by (simp only: insert_iff empty_iff) presburger

lemma digit_entry:
  assumes "digit_valid d"
  shows "unat (digit_char d) < length char_table \<and> char_table ! unat (digit_char d) = (case d of Digit n \<Rightarrow> int n | Wild \<Rightarrow> -3)"
proof (cases d)
  case Wild
  then show ?thesis by (simp add: digit_char_def char_table_def)
next
  case (Digit n)
  then have "n \<in> {0,1,2,3,4,5,6,7,8,9,10,11,12,13,14,15}" using assms digits by (simp add: digit_valid_def)
  then show ?thesis unfolding Digit by (elim insertE emptyE) (simp_all add: digit_char_def char_table_def)
qed

lemma space_entry: "char_table ! 32 = -2" "length char_table = 128"
  by (simp_all add: char_table_def)

lemma build_first:
  assumes "digit_valid a"
  shows "build_loop out_size (digit_char a # cs) acc None =
    (if out_size \<le> length acc then Sig_no_room else build_loop out_size cs acc (Some (digit_value a, digit_mask a)))"
  using digit_entry [OF assms] by (auto simp: digit_value_def digit_mask_def split: sig_digit.splits)

lemma build_second:
  assumes "digit_valid b"
  shows "build_loop out_size (digit_char b # cs) acc (Some (p, m)) =
    build_loop out_size cs (acc @ [(push_bit 4 p OR digit_value b, push_bit 4 m OR digit_mask b)]) None"
  using digit_entry [OF assms] by (auto simp: digit_value_def digit_mask_def split: sig_digit.splits)

lemma build_space: "build_loop out_size (32 # cs) acc None = build_loop out_size cs acc None"
  by (simp add: space_entry)

lemma build_text:
  assumes "\<forall>(a, b) \<in> set ts. digit_valid a \<and> digit_valid b" and "length acc \<le> out_size"
  shows "build_loop out_size (sig_text ts) acc None =
    (if length acc + length ts \<le> out_size then Sig_pattern (acc @ map parsed ts) else Sig_no_room)"
  using assms
proof (induction ts arbitrary: acc rule: sig_text.induct)
  case 1
  then show ?case by simp
next
  case (2 a b)
  then show ?case by (simp add: build_first build_second parsed_def del: build_loop.simps(2))
next
  case (3 a b t ts)
  then show ?case
    by (simp add: build_first build_second build_space parsed_def del: build_loop.simps(2))
qed

subsection \<open>Signatures\<close>

lemma nibbles: "b = b' \<longleftrightarrow> drop_bit 4 b = drop_bit 4 b' \<and> take_bit 4 b = take_bit 4 b'" for b b' :: "8 word"
  by (metis bits_ident)

lemma small_word: "x < 16 \<Longrightarrow> take_bit 4 x = x" for x :: "8 word"
  by (simp add: word_unat_eq_iff unsigned_take_bit_eq take_bit_nat_eq_self word_less_nat_alt)

lemma low_nibble: "x < 16 \<Longrightarrow> take_bit 4 (push_bit 4 y OR x) = x \<and> drop_bit 4 (push_bit 4 y OR x) = take_bit 4 y" for x y :: "8 word"
proof -
  assume "x < 16"
  then have x: "take_bit 4 x = x" by (rule small_word)
  have "bit x n \<Longrightarrow> n < 4" for n using x by (metis bit_take_bit_iff)
  then show ?thesis using x by (auto simp: bit_eq_iff bit_simps)
qed

lemma digit_small: "digit_valid d \<Longrightarrow> digit_value d < 16 \<and> digit_mask d < 16"
proof (cases d)
  case (Digit n)
  assume "digit_valid d"
  with Digit have "n < 16" by (simp add: digit_valid_def)
  then have "unat (of_nat n :: 8 word) < 16" by (simp add: unat_of_nat take_bit_nat_eq_self)
  then show ?thesis using Digit by (simp add: digit_value_def digit_mask_def word_less_nat_alt)
qed (simp add: digit_value_def digit_mask_def)

lemma digit_matches_word:
  assumes "digit_valid d" and "x < 16"
  shows "x AND digit_mask d = digit_value d \<longleftrightarrow> digit_matches d (unat x)"
proof (cases d)
  case Wild
  then show ?thesis by (simp add: digit_mask_def digit_value_def digit_matches_def)
next
  case (Digit n)
  have "x AND 0xF = take_bit 4 x" by (simp add: take_bit_eq_mask mask_eq_exp_minus_1)
  also have "\<dots> = x" by (rule small_word [OF assms(2)])
  finally have "x AND 0xF = x" .
  moreover have "unat (of_nat n :: 8 word) = n"
    using assms(1) Digit by (simp add: digit_valid_def unat_of_nat take_bit_nat_eq_self)
  then have "x = of_nat n \<longleftrightarrow> unat x = n" by (metis word_unat_eq_iff)
  ultimately show ?thesis using Digit by (simp add: digit_mask_def digit_value_def digit_matches_def)
qed

lemma parsed_matches:
  assumes "digit_valid a" and "digit_valid b"
  shows "byte_match x (parsed (a, b)) \<longleftrightarrow> byte_matches x (a, b)"
proof -
  note small = digit_small [OF assms(1)] digit_small [OF assms(2)]
  have t: "take_bit 4 (digit_mask a) = digit_mask a" "take_bit 4 (digit_value a) = digit_value a"
    using small by (simp_all add: small_word)
  have "x AND (push_bit 4 (digit_mask a) OR digit_mask b) = push_bit 4 (digit_value a) OR digit_value b
      \<longleftrightarrow> drop_bit 4 x AND digit_mask a = digit_value a \<and> take_bit 4 x AND digit_mask b = digit_value b"
    (is "?l \<longleftrightarrow> ?r")
  proof -
    have "take_bit 4 (x AND (push_bit 4 (digit_mask a) OR digit_mask b)) = take_bit 4 x AND digit_mask b"
      using low_nibble small by (simp add: take_bit_and)
    moreover have "drop_bit 4 (x AND (push_bit 4 (digit_mask a) OR digit_mask b)) = drop_bit 4 x AND digit_mask a"
      using low_nibble [of "digit_mask b" "digit_mask a"] small t by (simp add: drop_bit_and)
    ultimately show ?thesis
      unfolding nibbles [of "x AND (push_bit 4 (digit_mask a) OR digit_mask b)"]
      using low_nibble [of "digit_value b" "digit_value a"] small t by auto
  qed
  also have "\<dots> \<longleftrightarrow> digit_matches a (unat (drop_bit 4 x)) \<and> digit_matches b (unat (take_bit 4 x))"
  proof -
    have "unat x < 256" using unsigned_less [of x] by simp
    then have "unat (drop_bit 4 x) < 16" "unat (take_bit 4 x) < 16"
      by (simp_all add: unsigned_drop_bit_eq unsigned_take_bit_eq drop_bit_nat_def take_bit_nat_def less_mult_imp_div_less)
    then have "drop_bit 4 x < 16" "take_bit 4 x < 16" by (simp_all add: word_less_nat_alt)
    then show ?thesis using digit_matches_word assms by simp
  qed
  also have "unat (drop_bit 4 x) = unat x div 16"
    using byte_256 [of x] by (simp add: unsigned_drop_bit_eq drop_bit_nat_def take_bit_nat_eq_self BM_DATA_MAX_LEN_def)
  also have "unat (take_bit 4 x) = unat x mod 16" by (simp add: unsigned_take_bit_eq take_bit_nat_def)
  finally show ?thesis by (simp add: byte_match_def byte_matches_def parsed_def)
qed

lemma parsed_wildcards:
  assumes "\<forall>(a, b) \<in> set ts. digit_valid a \<and> digit_valid b"
  shows "wildcards_zero (map parsed ts)"
proof -
  have zero: "digit_value d AND digit_mask d = digit_value d" if "digit_valid d" for d
    using digit_matches_word [OF that, of "digit_value d"] digit_small [OF that] that
    by (auto simp: digit_matches_def digit_value_def digit_valid_def unat_of_nat take_bit_nat_eq_self split: sig_digit.splits)
  have "fst (parsed (a, b)) AND snd (parsed (a, b)) = fst (parsed (a, b))" if "digit_valid a" "digit_valid b" for a b
  proof -
    note small = digit_small [OF that(1)] digit_small [OF that(2)]
    have "take_bit 4 (digit_mask a) = digit_mask a" "take_bit 4 (digit_value a) = digit_value a"
      using small by (simp_all add: small_word)
    then show ?thesis
      using low_nibble small zero that
      by (simp add: parsed_def nibbles [of "(_ OR _) AND _"] take_bit_and drop_bit_and)
  qed
  then show ?thesis using assms by (fastforce simp: wildcards_zero_def)
qed

text \<open>Where a signature occurs.\<close>

definition occurs :: "bytes \<Rightarrow> (sig_digit \<times> sig_digit) list \<Rightarrow> nat \<Rightarrow> bool" where
  "occurs data ts s \<longleftrightarrow> s + length ts \<le> length data \<and> (\<forall>i < length ts. byte_matches (data ! (s + i)) (ts ! i))"

lemma occurs_matches:
  assumes "\<forall>(a, b) \<in> set ts. digit_valid a \<and> digit_valid b"
  shows "matches data (map parsed ts) s \<longleftrightarrow> occurs data ts s"
proof -
  have "byte_match x (parsed (ts ! i)) \<longleftrightarrow> byte_matches x (ts ! i)" if "i < length ts" for x i
    using assms that parsed_matches by (cases "ts ! i") (metis (mono_tags, lifting) case_prodD nth_mem)
  then show ?thesis by (auto simp: matches_def occurs_def masked_equal_def)
qed

lemma sig_text_length: "length ts \<le> length (sig_text ts)"
  by (induction ts rule: sig_text.induct) auto

lemma sig_scan_rounds_text:
  assumes "\<forall>(a, b) \<in> set ts. digit_valid a \<and> digit_valid b" and "length ts \<le> out_size + fuel" and "0 < out_size"
  shows "\<exists>h'. sig_scan_rounds (Suc fuel) out_size (sig_text ts) h = Some (Some (map parsed ts), h') \<or>
    sig_scan_rounds (Suc fuel) out_size (sig_text ts) h = Some (None, h') \<and> (\<exists>i. \<not> h i)"
  using assms(2,3)
proof (induction fuel arbitrary: out_size h)
  case 0
  then show ?case
    using build_text [OF assms(1), of "[]" out_size]
    by (auto simp: sig_build_pattern_with_mask_def ml_mem_alloc_def)
next
  case (Suc fuel)
  have "length ts \<le> 2 * out_size + fuel" "0 < 2 * out_size" using Suc.prems by auto
  from Suc.IH [OF this] obtain h' where
    "sig_scan_rounds (Suc fuel) (2 * out_size) (sig_text ts) (\<lambda>i. h (Suc (Suc i))) = Some (Some (map parsed ts), h') \<or>
     sig_scan_rounds (Suc fuel) (2 * out_size) (sig_text ts) (\<lambda>i. h (Suc (Suc i))) = Some (None, h') \<and> (\<exists>i. \<not> h (Suc (Suc i)))"
    by blast
  then show ?case
    using build_text [OF assms(1), of "[]" out_size]
    by (subst sig_scan_rounds.simps, subst (2) sig_scan_rounds.simps)
      (auto simp: sig_build_pattern_with_mask_def ml_mem_alloc_def)
qed

text \<open>
  C11: scanning for a signature returns, and it returns the first offset where every byte of the
  region agrees with the signature, or nothing when there is none; only a failed allocation can
  hide a match. The bad character shifts, the choice of the fixed run that drives them, the
  shortened range for trailing wildcards and the parser of the pattern are all part of this.
\<close>

theorem sig_scan_finds_first:
  assumes "ts \<noteq> []" and "\<forall>(a, b) \<in> set ts. digit_valid a \<and> digit_valid b"
  shows "\<exists>r h'. sig_scan (Some data) (sig_text ts) h = Some (r, h') \<and>
    (case r of
       Some s \<Rightarrow> occurs data ts s \<and> (\<forall>s' < s. \<not> occurs data ts s')
     | None \<Rightarrow> (\<exists>i. \<not> h i) \<or> (\<forall>s. \<not> occurs data ts s))"
proof -
  have "length ts \<le> 64 + length (sig_text ts)" using sig_text_length [of ts] by simp
  from sig_scan_rounds_text [OF assms(2) this, of h] obtain h' where
    rounds: "sig_scan_rounds (length (sig_text ts) + 1) 64 (sig_text ts) h = Some (Some (map parsed ts), h') \<or>
      sig_scan_rounds (length (sig_text ts) + 1) 64 (sig_text ts) h = Some (None, h') \<and> (\<exists>i. \<not> h i)" by auto
  have "first_match data (map parsed ts) (sig_scan_pattern (Some data) (map parsed ts))"
    by (rule sig_scan_pattern_first [OF parsed_wildcards [OF assms(2)]]) (use assms(1) in simp)
  with rounds show ?thesis
    unfolding sig_scan_def first_match_def occurs_matches [OF assms(2)]
    by (auto split: option.splits)
qed

theorem sig_scan_finds_first_witness:
  "fst (the (sig_scan (Some [0x48, 0x48, 0x8B, 0x05, 0x4C, 0x8B, 0x1D, 0x90])
      (B ''4? 8B ?D'') (\<lambda>_. True))) = Some 4 \<and>
   occurs [0x48, 0x48, 0x8B, 0x05, 0x4C, 0x8B, 0x1D, 0x90]
     [(Digit 4, Wild), (Digit 8, Digit 11), (Wild, Digit 13)] 4"
proof -
  let ?data = "[0x48, 0x48, 0x8B, 0x05, 0x4C, 0x8B, 0x1D, 0x90] :: bytes"
    and ?ts = "[(Digit 4, Wild), (Digit 8, Digit 11), (Wild, Digit 13)]"
  have "sig_text ?ts = B ''4? 8B ?D''" by (simp add: digit_char_def)
  moreover have "fst (the (sig_scan (Some ?data) (B ''4? 8B ?D'') (\<lambda>_. True))) = Some 4" by code_simp
  ultimately show ?thesis
    using sig_scan_finds_first [of ?ts ?data "\<lambda>_. True"] by (auto simp: digit_valid_def)
qed

end
