(* ===== verification/RipScan.thy ===== *)
theory RipScan
  imports Prelude
begin

unbundle bit_operations_syntax

text \<open>
  Two searches in a section of the game (\<open>src/process/rip_scan.c\<close>): for the bytes of a wide string
  literal, and for the instruction that refers to an address relative to \<open>rip\<close>. Both are proved
  to find the first place there is; the second one computes addresses without wrapping.
\<close>

subsection \<open>Wide string literals\<close>

definition utf16_bytes :: "wstr \<Rightarrow> bytes" where
  "utf16_bytes s = concat (map (\<lambda>c. [ucast c, ucast (drop_bit 8 c)]) s)"

text \<open>
  From a cursor on, with the terminated value; \<open>last\<close> is the last offset where it fits. The search
  for the first byte is \<open>memchr\<close>.
\<close>

function utf16_loop :: "bytes \<Rightarrow> bytes \<Rightarrow> nat \<Rightarrow> nat \<Rightarrow> nat option" where
  "utf16_loop data v final cursor =
     (if cursor \<le> final then
        (case find_index (\<lambda>b. b = v ! 0) (take (final - cursor + 1) (drop cursor data)) of
           None \<Rightarrow> None
         | Some k \<Rightarrow>
             if take (length v) (drop (cursor + k) data) = v then Some (cursor + k)
             else utf16_loop data v final (cursor + k + 1))
      else None)"
  by pat_completeness auto
termination
  by (relation "measure (\<lambda>(data, v, final, cursor). Suc final - cursor)") auto

declare utf16_loop.simps [simp del]

lemma utf16_loop_step:
  "cursor \<le> final \<Longrightarrow> utf16_loop data v final cursor =
     (case find_index (\<lambda>b. b = v ! 0) (take (final - cursor + 1) (drop cursor data)) of
        None \<Rightarrow> None
      | Some k \<Rightarrow>
          if take (length v) (drop (cursor + k) data) = v then Some (cursor + k)
          else utf16_loop data v final (cursor + k + 1))"
  by (subst utf16_loop.simps) (rule if_P)

definition ml_find_utf16_string :: "bytes option \<Rightarrow> wstr option \<Rightarrow> nat option" where
  "ml_find_utf16_string data v =
     (case (data, v) of
        (Some data, Some v) \<Rightarrow>
          if length v > (2 ^ 64 - 1) div 2 - 1 then None
          else
            let value_size = (length v + 1) * 2 in
            if value_size > length data then None
            else utf16_loop data (utf16_bytes (v @ [0])) (length data - value_size) 0
      | _ \<Rightarrow> None)"

lemma length_utf16_bytes [simp]: "length (utf16_bytes s) = 2 * length s"
  by (induction s) (auto simp: utf16_bytes_def)

definition here :: "bytes \<Rightarrow> bytes \<Rightarrow> nat \<Rightarrow> bool" where
  "here data v i \<longleftrightarrow> take (length v) (drop i data) = v"

lemma here_first_byte: "here data v i \<Longrightarrow> v \<noteq> [] \<Longrightarrow> i < length data \<and> data ! i = v ! 0"
proof -
  assume h: "here data v i" and v: "v \<noteq> []"
  then have "length (drop i data) \<ge> length v" unfolding here_def by (metis length_take min.absorb_iff2 min.commute)
  then have "i < length data" using v by (cases "i < length data") auto
  moreover have "(take (length v) (drop i data)) ! 0 = v ! 0" using h by (simp add: here_def)
  ultimately show ?thesis using v by simp
qed

lemma here_range: "here data v i \<Longrightarrow> v \<noteq> [] \<Longrightarrow> i + length v \<le> length data"
proof -
  assume h: "here data v i" and v: "v \<noteq> []"
  have "length (take (length v) (drop i data)) = length v" using h by (simp add: here_def)
  then show ?thesis using here_first_byte [OF h v] by (auto simp: min_def split: if_splits)
qed

lemma utf16_loop_first:
  assumes "v \<noteq> []" and "length v \<le> length data" and "final = length data - length v" and "\<forall>i < cursor. \<not> here data v i"
  shows "case utf16_loop data v final cursor of
      Some i \<Rightarrow> here data v i \<and> (\<forall>j < i. \<not> here data v j) | None \<Rightarrow> \<forall>i. \<not> here data v i"
  using assms
proof (induction data v final cursor rule: utf16_loop.induct)
  case (1 data v final cursor)
  have past: "\<not> here data v i" if "final < i" for i
  proof
    assume "here data v i"
    from here_range [OF this "1.prems"(1)] that "1.prems"(3) show False by simp
  qed
  show ?case
  proof (cases "cursor \<le> final")
    case False
    have "\<not> here data v i" for i using past [of i] "1.prems"(4) False by (cases "i < cursor") auto
    with False show ?thesis by (subst utf16_loop.simps) simp
  next
    case True
    let ?part = "take (final - cursor + 1) (drop cursor data)"
    have "0 < length v" using "1.prems"(1) by simp
    then have "final < length data" using "1.prems"(2,3) by linarith
    then have len: "length ?part = final - cursor + 1" using True by simp
    have at: "i < length ?part \<Longrightarrow> ?part ! i = data ! (cursor + i)" for i using True \<open>final < length data\<close> by simp
    show ?thesis
    proof (cases "find_index (\<lambda>b. b = v ! 0) ?part")
      case None
      have "\<not> here data v i" for i
      proof
        assume h: "here data v i"
        then have "cursor \<le> i" "i \<le> final" using "1.prems"(4) past [of i] by (auto simp: not_less [symmetric])
        then have "i - cursor < length ?part" using len by simp
        moreover have "?part ! (i - cursor) = v ! 0"
          using at [OF calculation] here_first_byte [OF h "1.prems"(1)] \<open>cursor \<le> i\<close> by simp
        moreover have "?part ! (i - cursor) \<in> set ?part" by (rule nth_mem) fact
        ultimately show False using None unfolding find_index_None by blast
      qed
      then show ?thesis unfolding utf16_loop_step [OF True] None option.case by simp
    next
      case (Some k)
      then have k: "k < length ?part" "\<forall>j < k. ?part ! j \<noteq> v ! 0" by (auto simp: find_index_Some)
      have before: "\<not> here data v i" if "i < cursor + k" for i
      proof (cases "i < cursor")
        case True
        with "1.prems"(4) show ?thesis by blast
      next
        case False
        then have "i - cursor < k" using that by simp
        with k have "?part ! (i - cursor) \<noteq> v ! 0" by blast
        moreover have "?part ! (i - cursor) = data ! i"
          using at [of "i - cursor"] k(1) \<open>i - cursor < k\<close> False by simp
        ultimately show ?thesis using here_first_byte [of data v i] "1.prems"(1) by auto
      qed
      show ?thesis
      proof (cases "here data v (cursor + k)")
        case h: True
        have "utf16_loop data v final cursor = Some (cursor + k)"
          unfolding utf16_loop_step [OF True] Some option.case using h by (simp add: here_def)
        with h before show ?thesis by simp
      next
        case False
        have none: "\<forall>i < cursor + k + 1. \<not> here data v i" using before False by (simp add: less_Suc_eq)
        have differ: "take (length v) (drop (cursor + k) data) \<noteq> v" using False by (simp add: here_def)
        from "1.IH" [OF True Some differ "1.prems"(1-3) none]
        show ?thesis unfolding utf16_loop_step [OF True] Some option.case if_not_P [OF differ] .
      qed
    qed
  qed
qed

subsection \<open>Instructions relative to the instruction pointer\<close>

definition lea_at :: "bytes \<Rightarrow> nat \<Rightarrow> bool" where
  "lea_at txt i \<longleftrightarrow> txt ! i AND 0xFB = 0x48 \<and> (txt ! (i + 1) = 0x8D \<or> txt ! (i + 1) = 0x8B) \<and> txt ! (i + 2) AND 0xC7 = 0x05"

definition displacement_at :: "bytes \<Rightarrow> nat \<Rightarrow> 32 word" where
  "displacement_at txt i =
     ucast (txt ! (i + 3)) OR push_bit 8 (ucast (txt ! (i + 4))) OR push_bit 16 (ucast (txt ! (i + 5)))
     OR push_bit 24 (ucast (txt ! (i + 6)))"

text \<open>The address an instruction refers to; \<open>None\<close> where the sum would wrap.\<close>

definition resolve :: "64 word \<Rightarrow> 32 word \<Rightarrow> 64 word option" where
  "resolve instruction_end displacement =
     (if 0 \<le> sint displacement then
        (if instruction_end > -1 - scast displacement then None else Some (instruction_end + scast displacement))
      else
        (if instruction_end < - scast displacement then None else Some (instruction_end - (- scast displacement))))"

fun lea_loop :: "64 word \<Rightarrow> bytes \<Rightarrow> 64 word \<Rightarrow> nat list \<Rightarrow> nat option" where
  "lea_loop address txt target [] = None"
| "lea_loop address txt target (i # is) =
     (if lea_at txt i \<and> resolve (address + of_nat i + 7) (displacement_at txt i) = Some target then Some i
      else lea_loop address txt target is)"

text \<open>The section is its address and its bytes; a null pointer is address 0.\<close>

definition ml_find_rip_relative_lea :: "64 word \<Rightarrow> bytes \<Rightarrow> 64 word \<Rightarrow> nat option" where
  "ml_find_rip_relative_lea address txt target =
     (if address = 0 \<or> target = 0 \<or> length txt < 7 then None
      else lea_loop address txt target [0..<length txt - 7 + 1])"

lemma resolve_exact: "resolve e d = Some t \<longleftrightarrow> uint e + sint d = uint t"
proof -
  have sd: "- (2 ^ 31) \<le> sint d" "sint d < 2 ^ 31"
    using sint_greater_eq [of d] sint_lt [of d] by simp_all
  have e: "0 \<le> uint e" "uint e < 2 ^ 64" and t: "0 \<le> uint t" "uint t < 2 ^ 64"
    using uint_lt2p [of e] uint_lt2p [of t] by simp_all
  have same: "w = t \<longleftrightarrow> uint w = uint t" for w by (rule word_uint_eq_iff)
  have all: "uint (-1 :: 64 word) = 2 ^ 64 - 1" by (simp add: unsigned_minus_1_eq_mask mask_eq_exp_minus_1)
  show ?thesis
  proof (cases "0 \<le> sint d")
    case True
    have x: "uint (scast d :: 64 word) = sint d" using True sd
      unfolding scast_eq uint_word_of_int_eq by (simp add: take_bit_int_eq_self)
    have "uint (scast d :: 64 word) \<le> uint (-1 :: 64 word)" unfolding x all using sd by simp
    then have room: "uint (-1 - scast d :: 64 word) = 2 ^ 64 - 1 - sint d" using uint_sub_lem x all by metis
    show ?thesis
    proof (cases "e > -1 - scast d")
      case True
      then have "uint e > 2 ^ 64 - 1 - sint d" unfolding word_less_def room .
      then have "uint e + sint d \<noteq> uint t" using t by linarith
      with True \<open>0 \<le> sint d\<close> show ?thesis by (simp add: resolve_def)
    next
      case False
      then have "uint e + sint d < 2 ^ 64" unfolding word_less_def room by linarith
      then have "uint (e + scast d) = uint e + sint d" using uint_add_lem [of e "scast d"] x by simp
      with False True show ?thesis unfolding resolve_def same option.inject if_P [OF True] if_not_P [OF False] by simp
    qed
  next
    case False
    have x: "uint (word_of_int (- sint d) :: 64 word) = - sint d" using False sd
      unfolding uint_word_of_int_eq by (simp add: take_bit_int_eq_self)
    have neg: "(- scast d :: 64 word) = word_of_int (- sint d)" unfolding scast_eq by simp
    show ?thesis
    proof (cases "e < - scast d")
      case True
      then have "uint e < - sint d" unfolding word_less_def neg x .
      then have "uint e + sint d \<noteq> uint t" using t by linarith
      with True False show ?thesis by (simp add: resolve_def)
    next
      case below: False
      then have "- sint d \<le> uint e" unfolding word_less_def neg x by simp
      then have "uint (e - word_of_int (- sint d)) = uint e + sint d" using uint_sub_lem [of "word_of_int (- sint d)" e] x by simp
      moreover have "resolve e d = Some (e - word_of_int (- sint d))"
        unfolding resolve_def if_not_P [OF False] if_not_P [OF below] unfolding neg ..
      ultimately show ?thesis by (metis option.inject same)
    qed
  qed
qed

text \<open>An instruction that loads or dereferences the address of \<open>target\<close>.\<close>

definition refers :: "64 word \<Rightarrow> bytes \<Rightarrow> 64 word \<Rightarrow> nat \<Rightarrow> bool" where
  "refers address txt target i \<longleftrightarrow> i + 7 \<le> length txt \<and> lea_at txt i \<and>
     uint address + int i + 7 + sint (displacement_at txt i) = uint target"

lemma lea_loop_find:
  "lea_loop address txt target is =
     find (\<lambda>i. lea_at txt i \<and> resolve (address + of_nat i + 7) (displacement_at txt i) = Some target) is"
  by (induction "is") auto

lemma find_upt_first:
  "case find P [0..<m] of Some i \<Rightarrow> i < m \<and> P i \<and> (\<forall>j < i. \<not> P j) | None \<Rightarrow> \<forall>i < m. \<not> P i"
  by (auto simp: find_None_iff find_Some_iff split: option.split)

text \<open>
  C31: in a section that does not wrap around the address space the search returns the first
  instruction of the form \<open>lea\<close> or \<open>mov reg, [rip + displacement]\<close> whose operand is exactly
  the target, as a sum of integers, and nothing only if there is none.
\<close>

theorem rip_relative_first:
  assumes "address \<noteq> 0" and "target \<noteq> 0" and "uint address + int (length txt) < 2 ^ 64"
  shows "case ml_find_rip_relative_lea address txt target of
      Some i \<Rightarrow> refers address txt target i \<and> (\<forall>j < i. \<not> refers address txt target j)
    | None \<Rightarrow> \<forall>i. \<not> refers address txt target i"
proof (cases "length txt < 7")
  case True
  then show ?thesis by (simp add: ml_find_rip_relative_lea_def refers_def)
next
  case False
  have "uint (address + of_nat i + 7) = uint address + int i + 7" if "i + 7 \<le> length txt" for i
  proof -
    have "0 \<le> uint address" by simp
    with that assms(3) have "int i < 2 ^ 64" by linarith
    then have "i < 2 ^ 64" by simp
    then have i: "uint (of_nat i :: 64 word) = int i"
      by (simp add: unsigned_of_nat take_bit_nat_eq_self)
    have "uint (address + of_nat i) = uint address + int i"
      using uint_add_lem [of address "of_nat i"] i that assms(3) by simp
    moreover have "uint (7 :: 64 word) = 7" by simp
    ultimately show ?thesis
      using uint_add_lem [of "address + of_nat i" 7] that assms(3) by simp
  qed
  then have "refers address txt target i \<longleftrightarrow>
      i + 7 \<le> length txt \<and> lea_at txt i \<and> resolve (address + of_nat i + 7) (displacement_at txt i) = Some target" for i
    unfolding refers_def resolve_exact by auto
  moreover have "i < length txt - 7 + 1 \<longleftrightarrow> i + 7 \<le> length txt" for i using False by auto
  ultimately have "refers address txt target i \<longleftrightarrow> i < length txt - 7 + 1 \<and>
      lea_at txt i \<and> resolve (address + of_nat i + 7) (displacement_at txt i) = Some target" for i by blast
  moreover have "ml_find_rip_relative_lea address txt target =
      find (\<lambda>i. lea_at txt i \<and> resolve (address + of_nat i + 7) (displacement_at txt i) = Some target) [0..<length txt - 7 + 1]"
    using assms(1,2) False by (simp only: ml_find_rip_relative_lea_def lea_loop_find simp_thms if_False)
  ultimately show ?thesis
    using find_upt_first [where P = "\<lambda>i. lea_at txt i \<and> resolve (address + of_nat i + 7) (displacement_at txt i) = Some target"
        and m = "length txt - 7 + 1"]
    by (fastforce split: option.splits)
qed

theorem rip_relative_first_witness:
  "ml_find_rip_relative_lea 0x1000 [0x90, 0x48, 0x8D, 0x0D, 0xF0, 0xFF, 0xFF, 0xFF, 0xC3] 0xFF8 = Some 1 \<and>
   refers 0x1000 [0x90, 0x48, 0x8D, 0x0D, 0xF0, 0xFF, 0xFF, 0xFF, 0xC3] 0xFF8 1"
proof -
  have "ml_find_rip_relative_lea 0x1000 [0x90, 0x48, 0x8D, 0x0D, 0xF0, 0xFF, 0xFF, 0xFF, 0xC3] 0xFF8 = Some 1"
    by code_simp
  then show ?thesis
    using rip_relative_first [of "0x1000" "0xFF8" "[0x90, 0x48, 0x8D, 0x0D, 0xF0, 0xFF, 0xFF, 0xFF, 0xC3]"] by simp
qed

text \<open>The search for a literal finds its first occurrence, terminator included.\<close>

lemma utf16_string_first:
  assumes "length v < 2 ^ 62"
  shows "case ml_find_utf16_string (Some data) (Some v) of
      Some i \<Rightarrow> here data (utf16_bytes (v @ [0])) i \<and> (\<forall>j < i. \<not> here data (utf16_bytes (v @ [0])) j)
    | None \<Rightarrow> \<forall>i. \<not> here data (utf16_bytes (v @ [0])) i"
proof -
  let ?v = "utf16_bytes (v @ [0])"
  have ne: "?v \<noteq> []" by (simp add: utf16_bytes_def)
  show ?thesis
  proof (cases "(length v + 1) * 2 > length data")
    case True
    then have "\<not> here data ?v i" for i using here_range [of data ?v i, OF _ ne] by auto
    with True show ?thesis by (simp add: ml_find_utf16_string_def)
  next
    case False
    then have "length ?v \<le> length data" by simp
    from utf16_loop_first [OF ne this refl, of 0] show ?thesis
      using assms False by (simp add: ml_find_utf16_string_def mult.commute)
  qed
qed

end
