(* ===== verification/ExtDll.thy ===== *)
theory ExtDll
  imports Vdf
begin

text \<open>
  The configured external DLLs (\<open>src/src/modloader/extdll.c\<close>): the table, the
  conditions of an entry, and \<open>extdlls_prepare\<close>, which orders the table by the dependencies and
  moves entries between stages. \<open>ExtOrder\<close> proves what the order guarantees, \<open>ExtLoad\<close>
  models loading, the deferred worker and unloading.

  The table is the list of its entries with \<open>extdll_count\<close> as its length; \<open>utf8\<close> stands for
  \<open>MultiByteToWideChar\<close> on a whole string. Log messages are left out.
\<close>

subsection \<open>Stages\<close>

datatype extdll_stage = EXTDLL_STAGE_EARLY | EXTDLL_STAGE_NORMAL | EXTDLL_STAGE_DATA_READY | EXTDLL_STAGE_DELAY

text \<open>Enumerator order is load order.\<close>

fun stage_number :: "extdll_stage \<Rightarrow> nat" where
  "stage_number EXTDLL_STAGE_EARLY = 0"
| "stage_number EXTDLL_STAGE_NORMAL = 1"
| "stage_number EXTDLL_STAGE_DATA_READY = 2"
| "stage_number EXTDLL_STAGE_DELAY = 3"

lemma stage_number_inject: "stage_number a = stage_number b \<longleftrightarrow> a = b"
  by (cases a; cases b) auto

instantiation extdll_stage :: linorder
begin

definition less_eq_extdll_stage :: "extdll_stage \<Rightarrow> extdll_stage \<Rightarrow> bool" where
  "a \<le> b \<longleftrightarrow> stage_number a \<le> stage_number b"

definition less_extdll_stage :: "extdll_stage \<Rightarrow> extdll_stage \<Rightarrow> bool" where
  "a < b \<longleftrightarrow> stage_number a < stage_number b"

instance
  by standard (auto simp: less_eq_extdll_stage_def less_extdll_stage_def stage_number_inject)

end

definition stage_is_deferred :: "extdll_stage \<Rightarrow> bool" where
  "stage_is_deferred stage \<longleftrightarrow> stage > EXTDLL_STAGE_NORMAL"

record extdll =
  ed_name :: bytes
  ed_base_path :: wstr
  ed_initializer :: "bytes option"
  ed_stage :: extdll_stage
  ed_delay_ms :: "32 word"
  ed_after :: "bytes list"
  ed_after_capacity :: nat
  ed_module :: "nat option"
  ed_load_order :: "32 word"
  ed_load_attempted :: bool
  ed_init_attempted :: bool

record extdlls =
  xs_dlls :: "extdll list"
  xs_capacity :: nat
  xs_load_counter :: "32 word"
  xs_heap :: heap

definition xs_alloc :: "extdlls \<Rightarrow> bool \<times> extdlls" where
  "xs_alloc xs = (case ml_mem_alloc (xs_heap xs) of (ok, h) \<Rightarrow> (ok, xs\<lparr>xs_heap := h\<rparr>))"

subsection \<open>Adding entries\<close>

definition extdlls_reserve :: "nat \<Rightarrow> extdlls \<Rightarrow> bool \<times> extdlls" where
  "extdlls_reserve capacity xs =
     (if capacity \<le> xs_capacity xs then (True, xs)
      else case xs_alloc xs of (False, xs) \<Rightarrow> (False, xs) | (True, xs) \<Rightarrow> (True, xs\<lparr>xs_capacity := capacity\<rparr>))"

definition make_room :: "extdlls \<Rightarrow> bool \<times> extdlls" where
  "make_room xs =
     (if length (xs_dlls xs) \<ge> xs_capacity xs
      then extdlls_reserve (if xs_capacity xs = 0 then 8 else xs_capacity xs * 2) xs else (True, xs))"

definition extdll_after_add :: "extdll \<Rightarrow> bytes \<Rightarrow> heap \<Rightarrow> extdll \<times> heap" where
  "extdll_after_add e name h =
     (let (room, e, h) =
        (if length (ed_after e) \<ge> ed_after_capacity e then
           (case ml_mem_alloc h of
              (False, h) \<Rightarrow> (False, e, h)
            | (True, h) \<Rightarrow> (True,
                e\<lparr>ed_after_capacity := (if ed_after_capacity e = 0 then 4 else ed_after_capacity e * 2)\<rparr>, h))
         else (True, e, h))
      in if \<not> room then (e, h)
         else case ml_mem_alloc h of
           (False, h) \<Rightarrow> (e, h) | (True, h) \<Rightarrow> (e\<lparr>ed_after := ed_after e @ [name]\<rparr>, h))"

text \<open>\<open>strtoul\<close> on a string that starts with a digit; \<open>unsigned long\<close> has 32 bits on Windows.\<close>

definition ULONG_MAX :: nat where "ULONG_MAX = 4294967295"

definition parse_delay :: "bytes \<Rightarrow> 32 word option" where
  "parse_delay value =
     (if bat value 0 < 48 \<or> bat value 0 > 57 then None
      else let digits = takeWhile is_digit value; parsed = digits_value digits in
        if parsed > ULONG_MAX \<or> drop (length digits) value \<noteq> [] then None
        else Some (of_nat parsed))"

definition new_extdll :: "bytes \<Rightarrow> wstr \<Rightarrow> bytes option \<Rightarrow> extdll" where
  "new_extdll name path initializer =
     \<lparr>ed_name = name, ed_base_path = path, ed_initializer = initializer, ed_stage = EXTDLL_STAGE_NORMAL,
      ed_delay_ms = 0, ed_after = [], ed_after_capacity = 0, ed_module = None, ed_load_order = 0,
      ed_load_attempted = False, ed_init_attempted = False\<rparr>"

definition extdlls_add :: "bytes option \<Rightarrow> wstr option \<Rightarrow> extdlls \<Rightarrow> extdlls" where
  "extdlls_add name path xs =
     (case (name, path) of
        (Some name, Some path) \<Rightarrow>
          (case make_room xs of
             (False, xs) \<Rightarrow> xs
           | (True, xs) \<Rightarrow>
               (case xs_alloc xs of
                  (name_ok, xs) \<Rightarrow>
                    (case xs_alloc xs of
                       (path_ok, xs) \<Rightarrow>
                         if name_ok \<and> path_ok then xs\<lparr>xs_dlls := xs_dlls xs @ [new_extdll name path None]\<rparr>
                         else xs)))
      | _ \<Rightarrow> xs)"

text \<open>One condition of an entry, and the conditions between the bars.\<close>

definition add_condition :: "bytes \<Rightarrow> extdll \<Rightarrow> heap \<Rightarrow> extdll \<times> heap" where
  "add_condition condition e h =
     (if condition = B ''early'' then
        (if ed_stage e \<noteq> EXTDLL_STAGE_NORMAL then (e, h) else (e\<lparr>ed_stage := EXTDLL_STAGE_EARLY\<rparr>, h))
      else if condition = B ''data_ready'' then
        (if ed_stage e \<noteq> EXTDLL_STAGE_NORMAL then (e, h) else (e\<lparr>ed_stage := EXTDLL_STAGE_DATA_READY\<rparr>, h))
      else if take 6 condition = B ''delay,'' then
        (case parse_delay (drop 6 condition) of
           None \<Rightarrow> (e, h)
         | Some delay_ms \<Rightarrow>
             if ed_stage e \<noteq> EXTDLL_STAGE_NORMAL then (e, h)
             else (e\<lparr>ed_stage := EXTDLL_STAGE_DELAY, ed_delay_ms := delay_ms\<rparr>, h))
      else if take 6 condition = B ''after,'' \<and> bat condition 6 \<noteq> 0 then extdll_after_add e (drop 6 condition) h
      else (e, h))"

definition split_bar :: "bytes \<Rightarrow> bytes \<times> bytes option" where
  "split_bar s = (takeWhile (\<lambda>c. c \<noteq> 124) s, if 124 \<in> set s then Some (tl (dropWhile (\<lambda>c. c \<noteq> 124) s)) else None)"

lemma split_bar_shorter: "split_bar s = (this, Some rest) \<Longrightarrow> length rest < length s"
proof -
  assume "split_bar s = (this, Some rest)"
  then have "124 \<in> set s" and rest: "rest = tl (dropWhile (\<lambda>c. c \<noteq> 124) s)"
    by (auto simp: split_bar_def split: if_splits)
  then have "dropWhile (\<lambda>c. c \<noteq> 124) s \<noteq> []" by auto
  moreover have "length (dropWhile (\<lambda>c. c \<noteq> 124) s) \<le> length s" by (rule length_dropWhile_le)
  ultimately show ?thesis using rest by (cases "dropWhile (\<lambda>c. c \<noteq> 124) s") auto
qed

function condition_loop :: "bytes option \<Rightarrow> extdll \<Rightarrow> heap \<Rightarrow> extdll \<times> heap" where
  "condition_loop None e h = (e, h)"
| "condition_loop (Some condition) e h =
     (if condition = [] then (e, h)
      else case split_bar condition of
        (this, next) \<Rightarrow> (case add_condition this e h of (e, h) \<Rightarrow> condition_loop next e h))"
  by pat_completeness auto

termination
  by (relation "measure (\<lambda>(c, _, _). case c of None \<Rightarrow> 0 | Some s \<Rightarrow> Suc (length s))")
    (auto split: option.split dest: split_bar_shorter [OF sym])

text \<open>The position after a drive colon, which may follow an extended or a device prefix.\<close>

definition path_start :: "bytes \<Rightarrow> nat" where
  "path_start spec =
     (let bar = (\<lambda>i. bat spec i = 92 \<or> bat spec i = 47);
          start = (if bar 0 \<and> bar 1 \<and> (bat spec 2 = 63 \<or> bat spec 2 = 46) \<and> bar 3 then 4 else 0)
      in if bat spec start \<noteq> 0 \<and> bat spec (start + 1) = 58 then start + 2 else start)"

definition split_initializer :: "bytes \<Rightarrow> bytes \<times> bytes option" where
  "split_initializer spec =
     (case find_index (\<lambda>c. c = 58) (drop (path_start spec) spec) of
        None \<Rightarrow> (spec, None)
      | Some i \<Rightarrow> (take (path_start spec + i) spec, Some (drop (path_start spec + i + 1) spec)))"

definition xs_alloc_if :: "bool \<Rightarrow> extdlls \<Rightarrow> bool \<times> extdlls" where
  "xs_alloc_if needed xs = (if needed then xs_alloc xs else (True, xs))"

definition extdlls_add_spec :: "(bytes \<Rightarrow> wstr option) \<Rightarrow> bytes option \<Rightarrow> bytes option \<Rightarrow> extdlls \<Rightarrow> extdlls" where
  "extdlls_add_spec utf8 name value xs =
     (case (name, value) of
        (Some name, Some value) \<Rightarrow>
          (case make_room xs of
             (False, xs) \<Rightarrow> xs
           | (True, xs) \<Rightarrow>
               (case xs_alloc xs of
                  (False, xs) \<Rightarrow> xs
                | (True, xs) \<Rightarrow>
                    (case split_bar value of
                       (spec, condition) \<Rightarrow>
                         (case split_initializer spec of
                            (spec, initializer) \<Rightarrow>
                              if initializer = Some [] then xs
                              else case utf8 spec of
                                None \<Rightarrow> xs
                              | Some path \<Rightarrow>
                                  if path = [] then xs
                                  else case xs_alloc xs of
                                    (False, xs) \<Rightarrow> xs
                                  | (True, xs) \<Rightarrow>
                                      (case xs_alloc xs of
                                         (name_ok, xs) \<Rightarrow>
                                           (case xs_alloc_if (initializer \<noteq> None) xs of
                                              (initializer_ok, xs) \<Rightarrow>
                                                if \<not> (name_ok \<and> initializer_ok) then xs
                                                else case condition_loop condition (new_extdll name path initializer)
                                                            (xs_heap xs) of
                                                  (e, h) \<Rightarrow>
                                                    xs\<lparr>xs_dlls := xs_dlls xs @ [e], xs_heap := h\<rparr>))))))
      | _ \<Rightarrow> xs)"

definition extdlls_count :: "extdlls \<Rightarrow> nat" where
  "extdlls_count xs = length (xs_dlls xs)"

subsection \<open>Order and stages\<close>

definition extdll_index_by_name :: "extdll list \<Rightarrow> bytes \<Rightarrow> nat option" where
  "extdll_index_by_name dlls name = find_index (\<lambda>e. ed_name e = name) dlls"

text \<open>The nearest later position of a dependency of the entry at position \<open>i\<close> of \<open>order\<close>.\<close>

fun nearest_loop :: "extdll list \<Rightarrow> nat list \<Rightarrow> nat \<Rightarrow> bytes list \<Rightarrow> nat option \<Rightarrow> nat option" where
  "nearest_loop dlls order i [] nearest = nearest"
| "nearest_loop dlls order i (name # names) nearest =
     (case extdll_index_by_name dlls name of
        None \<Rightarrow> nearest_loop dlls order i names nearest
      | Some dependency \<Rightarrow>
          (case find_index (\<lambda>x. x = dependency) order of
             None \<Rightarrow> nearest_loop dlls order i names nearest
           | Some k \<Rightarrow>
               nearest_loop dlls order i names
                 (if k > i \<and> (case nearest of None \<Rightarrow> True | Some n \<Rightarrow> k < n) then Some k else nearest)))"

definition nearest_position :: "extdll list \<Rightarrow> nat list \<Rightarrow> nat \<Rightarrow> nat option" where
  "nearest_position dlls order i = nearest_loop dlls order i (ed_after (dlls ! (order ! i))) None"

fun find_move :: "extdll list \<Rightarrow> nat list \<Rightarrow> nat list \<Rightarrow> (nat \<times> nat) option" where
  "find_move dlls order [] = None"
| "find_move dlls order (i # is) =
     (case nearest_position dlls order i of Some k \<Rightarrow> Some (i, k) | None \<Rightarrow> find_move dlls order is)"

text \<open>The \<open>memmove\<close>: the entry at \<open>k\<close> goes directly before the entry at \<open>i\<close>.\<close>

definition move_before :: "'a list \<Rightarrow> nat \<Rightarrow> nat \<Rightarrow> 'a list" where
  "move_before order i k = take i order @ order ! k # drop i (take k order) @ drop (Suc k) order"

text \<open>\<open>left\<close> is the square of the number of entries less \<open>move_count\<close>; the flag is \<open>cycle\<close>.\<close>

fun sort_loop :: "extdll list \<Rightarrow> nat \<Rightarrow> nat list \<Rightarrow> nat list \<times> bool" where
  "sort_loop dlls 0 order =
     (case find_move dlls order [0..<length order] of
        None \<Rightarrow> (order, False)
      | Some (i, k) \<Rightarrow> (move_before order i k, True))"
| "sort_loop dlls (Suc left) order =
     (case find_move dlls order [0..<length order] of
        None \<Rightarrow> (order, False)
      | Some (i, k) \<Rightarrow> sort_loop dlls left (move_before order i k))"

fun promote_after :: "bytes list \<Rightarrow> extdll list \<Rightarrow> bool \<Rightarrow> extdll list \<times> bool" where
  "promote_after [] dlls changed = (dlls, changed)"
| "promote_after (name # names) dlls changed =
     (case extdll_index_by_name dlls name of
        None \<Rightarrow> promote_after names dlls changed
      | Some d \<Rightarrow>
          (if ed_stage (dlls ! d) = EXTDLL_STAGE_NORMAL
           then promote_after names (dlls[d := (dlls ! d)\<lparr>ed_stage := EXTDLL_STAGE_EARLY\<rparr>]) True
           else promote_after names dlls changed))"

fun promote_pass :: "nat list \<Rightarrow> extdll list \<Rightarrow> bool \<Rightarrow> extdll list \<times> bool" where
  "promote_pass [] dlls changed = (dlls, changed)"
| "promote_pass (i # is) dlls changed =
     (if ed_stage (dlls ! i) \<noteq> EXTDLL_STAGE_EARLY then promote_pass is dlls changed
      else case promote_after (ed_after (dlls ! i)) dlls changed of (dlls, changed) \<Rightarrow> promote_pass is dlls changed)"

text \<open>The entries still in the normal stage, which every changing pass makes fewer.\<close>

definition normal_count :: "extdll list \<Rightarrow> nat" where
  "normal_count dlls = length (filter (\<lambda>e. ed_stage e = EXTDLL_STAGE_NORMAL) dlls)"

lemma normal_count_update:
  "i < length dlls \<Longrightarrow> ed_stage (dlls ! i) = EXTDLL_STAGE_NORMAL \<Longrightarrow> ed_stage e \<noteq> EXTDLL_STAGE_NORMAL
    \<Longrightarrow> Suc (normal_count (dlls[i := e])) = normal_count dlls"
  unfolding normal_count_def by (induction dlls arbitrary: i) (auto split: nat.split)

lemma index_by_name_lt: "extdll_index_by_name dlls name = Some d \<Longrightarrow> d < length dlls"
  by (simp add: extdll_index_by_name_def find_index_Some)

lemma promote_after_count:
  "promote_after names dlls changed = (dlls', changed') \<Longrightarrow>
     normal_count dlls' \<le> normal_count dlls \<and> (changed' \<longrightarrow> changed \<or> normal_count dlls' < normal_count dlls)"
proof (induction names arbitrary: dlls changed)
  case (Cons name names)
  show ?case
  proof (cases "extdll_index_by_name dlls name")
    case (Some d)
    show ?thesis
    proof (cases "ed_stage (dlls ! d) = EXTDLL_STAGE_NORMAL")
      case True
      let ?e = "(dlls ! d)\<lparr>ed_stage := EXTDLL_STAGE_EARLY\<rparr>"
      have "Suc (normal_count (dlls[d := ?e])) = normal_count dlls"
        using True index_by_name_lt [OF Some] by (intro normal_count_update) auto
      with Cons.IH [of "dlls[d := ?e]" True] Cons.prems Some True show ?thesis by simp
    qed (use Cons Some in auto)
  qed (use Cons in auto)
qed simp

lemma promote_pass_count:
  "promote_pass is dlls changed = (dlls', changed') \<Longrightarrow>
     normal_count dlls' \<le> normal_count dlls \<and> (changed' \<longrightarrow> changed \<or> normal_count dlls' < normal_count dlls)"
proof (induction "is" arbitrary: dlls changed)
  case (Cons i "is")
  show ?case
  proof (cases "ed_stage (dlls ! i) = EXTDLL_STAGE_EARLY")
    case True
    obtain dlls1 changed1 where one: "promote_after (ed_after (dlls ! i)) dlls changed = (dlls1, changed1)"
      by (cases "promote_after (ed_after (dlls ! i)) dlls changed")
    with Cons.prems True have "promote_pass is dlls1 changed1 = (dlls', changed')" by simp
    from Cons.IH [OF this] promote_after_count [OF one] show ?thesis by auto
  qed (use Cons in auto)
qed simp

function promote_loop :: "extdll list \<Rightarrow> extdll list" where
  "promote_loop dlls =
     (case promote_pass [0..<length dlls] dlls False of
        (dlls', changed) \<Rightarrow> if changed then promote_loop dlls' else dlls')"
  by pat_completeness auto
termination
  by (relation "measure normal_count") (auto dest!: promote_pass_count [OF sym])

declare promote_loop.simps [simp del]

text \<open>
  The last loop: an entry of the main thread joins the latest deferred stage of its dependencies.
  \<open>defer_scan\<close> gives \<open>latest\<close> and whether there is a \<open>trigger\<close>.
\<close>

fun defer_scan :: "extdll list \<Rightarrow> bytes list \<Rightarrow> extdll_stage \<Rightarrow> nat option \<Rightarrow> extdll_stage \<times> nat option" where
  "defer_scan dlls [] latest trigger = (latest, trigger)"
| "defer_scan dlls (name # names) latest trigger =
     (case extdll_index_by_name dlls name of
        None \<Rightarrow> defer_scan dlls names latest trigger
      | Some d \<Rightarrow>
          (if ed_stage (dlls ! d) \<le> latest then defer_scan dlls names latest trigger
           else defer_scan dlls names (ed_stage (dlls ! d)) (Some d)))"

definition defer_one :: "nat \<Rightarrow> extdll list \<Rightarrow> extdll list" where
  "defer_one i dlls =
     (if ed_stage (dlls ! i) > EXTDLL_STAGE_NORMAL then dlls
      else case defer_scan dlls (ed_after (dlls ! i)) EXTDLL_STAGE_NORMAL None of
        (latest, None) \<Rightarrow> dlls
      | (latest, Some trigger) \<Rightarrow> dlls[i := (dlls ! i)\<lparr>ed_stage := latest, ed_delay_ms := 0\<rparr>])"

definition defer_loop :: "extdll list \<Rightarrow> extdll list" where
  "defer_loop dlls = fold defer_one [0..<length dlls] dlls"

definition extdlls_prepare :: "extdlls \<Rightarrow> extdlls" where
  "extdlls_prepare xs =
     (let n = length (xs_dlls xs) in
      if n < 2 then xs
      else case xs_alloc xs of
        (False, xs) \<Rightarrow> xs
      | (True, xs) \<Rightarrow>
          (case sort_loop (xs_dlls xs) (n * n) [0..<n] of
             (order, cycle) \<Rightarrow>
               (case xs_alloc_if (\<not> cycle) xs of
                  (room, xs) \<Rightarrow>
                    xs\<lparr>xs_dlls := defer_loop (promote_loop
                      (if \<not> cycle \<and> room then map (\<lambda>i. xs_dlls xs ! i) order else xs_dlls xs))\<rparr>)))"

end
