(* ===== verification/ExtOrder.thy ===== *)
theory ExtOrder
  imports ExtDll "HOL-Library.Multiset"
begin

text \<open>
  What \<open>extdlls_prepare\<close> guarantees. The sort is shown to end with every entry after its
  dependencies exactly when the dependencies have no cycle, within the move budget the code gives
  itself: the entries before the first violation stay, and each move at one position replaces its
  entry by one that has fewer entries to wait for.
\<close>

subsection \<open>Dependencies\<close>

text \<open>Entry \<open>x\<close> names entry \<open>d\<close> in an \<open>after\<close> condition; a name of its own is without effect.\<close>

definition dep_rel :: "extdll list \<Rightarrow> (nat \<times> nat) set" where
  "dep_rel dlls = {(x, d). x < length dlls \<and> d \<noteq> x \<and>
     (\<exists>name\<in>set (ed_after (dlls ! x)). extdll_index_by_name dlls name = Some d)}"

definition ordered_at :: "extdll list \<Rightarrow> nat list \<Rightarrow> nat \<Rightarrow> bool" where
  "ordered_at dlls order i \<longleftrightarrow> (\<forall>k<length order. (order ! i, order ! k) \<in> dep_rel dlls \<longrightarrow> k < i)"

lemma dep_rel_lt: "(x, d) \<in> dep_rel dlls \<Longrightarrow> x < length dlls \<and> d < length dlls \<and> d \<noteq> x"
  by (auto simp: dep_rel_def dest: index_by_name_lt)

lemma find_index_nth:
  assumes "distinct order" and "k < length order"
  shows "find_index (\<lambda>x. x = order ! k) order = Some k"
  using assms by (auto simp: find_index_Some nth_eq_iff_index_eq)

lemma nearest_loop_Some:
  "nearest_loop dlls order i names nearest = Some k \<Longrightarrow> nearest = Some k \<or>
     (\<exists>name\<in>set names. \<exists>d. extdll_index_by_name dlls name = Some d \<and> find_index (\<lambda>x. x = d) order = Some k \<and> i < k)"
  by (induction names arbitrary: nearest) (fastforce split: option.splits if_splits)+

lemma nearest_loop_None:
  "nearest_loop dlls order i names nearest = None \<Longrightarrow> nearest = None \<and>
     (\<forall>name\<in>set names. \<forall>d k. extdll_index_by_name dlls name = Some d \<longrightarrow> find_index (\<lambda>x. x = d) order = Some k \<longrightarrow> k \<le> i)"
proof (induction names arbitrary: nearest)
  case (Cons name names)
  show ?case
  proof (cases "extdll_index_by_name dlls name")
    case d: (Some d)
    show ?thesis
    proof (cases "find_index (\<lambda>x. x = d) order")
      case None
      with Cons.prems d have "nearest_loop dlls order i names nearest = None" by (simp del: find_index_None)
      from Cons.IH [OF this] None d show ?thesis by (auto simp del: find_index_None)
    next
      case (Some k)
      with Cons.prems d have
        "nearest_loop dlls order i names
           (if k > i \<and> (case nearest of None \<Rightarrow> True | Some n \<Rightarrow> k < n) then Some k else nearest) = None"
        by simp
      from Cons.IH [OF this] Some d show ?thesis by (auto split: if_splits option.splits)
    qed
  qed (use Cons in auto)
qed simp

lemma nearest_position_Some:
  assumes "nearest_position dlls order i = Some k" and "distinct order" and "set order = {..<length dlls}"
    and "i < length order"
  shows "i < k \<and> k < length order \<and> (order ! i, order ! k) \<in> dep_rel dlls"
proof -
  obtain name d where *: "name \<in> set (ed_after (dlls ! (order ! i)))" "extdll_index_by_name dlls name = Some d"
    "find_index (\<lambda>x. x = d) order = Some k" "i < k"
    using nearest_loop_Some [OF assms(1) [unfolded nearest_position_def]] by auto
  then have k: "k < length order" "order ! k = d" by (auto simp: find_index_Some)
  moreover have "order ! i < length dlls" using assms(3,4) nth_mem [of i order] by auto
  moreover have "d \<noteq> order ! i" using k *(4) assms(2,4) by (auto simp: nth_eq_iff_index_eq)
  ultimately show ?thesis using * by (auto simp: dep_rel_def)
qed

lemma nearest_position_None:
  assumes "nearest_position dlls order i = None" and "distinct order" and "i < length order"
  shows "ordered_at dlls order i"
  unfolding ordered_at_def
proof (intro allI impI)
  fix k assume k: "k < length order" and "(order ! i, order ! k) \<in> dep_rel dlls"
  then obtain name where "name \<in> set (ed_after (dlls ! (order ! i)))"
    "extdll_index_by_name dlls name = Some (order ! k)" and ne: "order ! k \<noteq> order ! i"
    by (auto simp: dep_rel_def)
  with nearest_loop_None [OF assms(1) [unfolded nearest_position_def]] find_index_nth [OF assms(2) k]
  have "k \<le> i" by blast
  with ne show "k < i" by (cases "k = i") auto
qed

lemma find_move_None: "find_move dlls order is = None \<Longrightarrow> \<forall>i\<in>set is. nearest_position dlls order i = None"
  by (induction "is") (auto split: option.splits)

lemma find_move_Some:
  "find_move dlls order [m..<n] = Some (i, k) \<Longrightarrow> m \<le> i \<and> i < n
     \<and> (\<forall>a. m \<le> a \<longrightarrow> a < i \<longrightarrow> nearest_position dlls order a = None) \<and> nearest_position dlls order i = Some k"
proof (induction "n - m" arbitrary: m)
  case (Suc d)
  then have "m < n" by simp
  then have upt: "[m..<n] = m # [Suc m..<n]" by (rule upt_conv_Cons)
  show ?case
  proof (cases "nearest_position dlls order m")
    case None
    with Suc.prems upt have "find_move dlls order [Suc m..<n] = Some (i, k)" by simp
    with Suc.hyps(1) [of "Suc m"] Suc.hyps(2) have IH: "Suc m \<le> i" "i < n" "nearest_position dlls order i = Some k"
      "\<And>a. Suc m \<le> a \<Longrightarrow> a < i \<Longrightarrow> nearest_position dlls order a = None" by auto
    have "nearest_position dlls order a = None" if "m \<le> a" "a < i" for a
      using that None IH(4) [of a] by (cases "a = m") auto
    with IH show ?thesis by simp
  qed (use Suc.prems upt \<open>m < n\<close> in auto)
qed simp

lemma find_move_violation:
  assumes "find_move dlls order [0..<length order] = Some (i, k)" and "distinct order"
    and "set order = {..<length dlls}"
  shows "i < k \<and> k < length order \<and> (order ! i, order ! k) \<in> dep_rel dlls \<and> (\<forall>p<i. ordered_at dlls order p)"
proof -
  note * = find_move_Some [OF assms(1)]
  have "ordered_at dlls order p" if "p < i" for p
    using that * by (intro nearest_position_None assms(2)) auto
  then show ?thesis using nearest_position_Some [OF _ assms(2,3)] * by auto
qed

subsection \<open>Moves\<close>

lemma move_before_facts:
  assumes "i < k" and "k < length order"
  shows "mset (move_before order i k) = mset order" "length (move_before order i k) = length order"
    "move_before order i k ! i = order ! k" "p < i \<Longrightarrow> move_before order i k ! p = order ! p"
proof -
  have "take i order @ drop i (take k order) = take k order"
    using append_take_drop_id [of i "take k order"] assms(1) by (simp add: min_def)
  then have split: "order = (take i order @ drop i (take k order)) @ order ! k # drop (Suc k) order"
    using id_take_nth_drop [OF assms(2)] by simp
  have "mset order = mset ((take i order @ drop i (take k order)) @ order ! k # drop (Suc k) order)"
    using split by (rule arg_cong)
  then show m: "mset (move_before order i k) = mset order" by (simp add: move_before_def)
  show "length (move_before order i k) = length order" using m by (metis size_mset)
  show "move_before order i k ! i = order ! k" using assms by (simp add: move_before_def nth_append)
  show "move_before order i k ! p = order ! p" if "p < i" using that assms by (simp add: move_before_def nth_append)
qed

lemma perm_facts:
  assumes "mset order' = mset order"
  shows "distinct order \<Longrightarrow> distinct order'" "set order' = set order" "length order' = length order"
  using assms mset_eq_imp_distinct_iff [OF assms] mset_eq_setD [OF assms] mset_eq_length [OF assms] by auto

text \<open>A move keeps the entries before it, which have all their dependencies before them.\<close>

lemma ordered_prefix_kept:
  assumes "\<forall>p<i. ordered_at dlls order p" and "i < k" and "k < length order" and "distinct order" and "p < i"
  shows "ordered_at dlls (move_before order i k) p"
  unfolding ordered_at_def
proof (intro allI impI)
  let ?new = "move_before order i k"
  note facts = move_before_facts [OF assms(2,3)]
  fix q assume q: "q < length ?new" and dep: "(?new ! p, ?new ! q) \<in> dep_rel dlls"
  have "?new ! q \<in> set order" using q nth_mem [OF q] perm_facts(2) [OF facts(1)] by simp
  then obtain r where r: "r < length order" "order ! r = ?new ! q" by (auto simp: in_set_conv_nth)
  have "r < p" using assms(1,5) dep r facts(4) [OF assms(5)] by (auto simp: ordered_at_def)
  then have "?new ! r = ?new ! q" using r facts(4) [of r] assms(5) by simp
  moreover have "distinct ?new" using perm_facts(1) [OF facts(1) assms(4)] .
  ultimately have "r = q" using q r \<open>r < p\<close> facts(2) by (simp add: nth_eq_iff_index_eq)
  with \<open>r < p\<close> show "q < p" by simp
qed

subsection \<open>The sort\<close>

text \<open>The entries that an entry waits for, directly or not.\<close>

definition waits :: "extdll list \<Rightarrow> nat \<Rightarrow> nat set" where
  "waits dlls x = {d. (x, d) \<in> (dep_rel dlls)\<^sup>+}"

lemma waits_subset: "acyclic (dep_rel dlls) \<Longrightarrow> waits dlls x \<subseteq> {..<length dlls} - {x}"
proof -
  have "d < length dlls" if "(x, d) \<in> (dep_rel dlls)\<^sup>+" for d
    using that by (induction rule: trancl.induct) (auto dest: dep_rel_lt)
  then show "acyclic (dep_rel dlls) \<Longrightarrow> waits dlls x \<subseteq> {..<length dlls} - {x}"
    by (auto simp: waits_def acyclic_def)
qed

lemma waits_less:
  assumes "acyclic (dep_rel dlls)" and "(x, d) \<in> dep_rel dlls"
  shows "card (waits dlls d) < card (waits dlls x)"
proof (rule psubset_card_mono)
  show "finite (waits dlls x)" using waits_subset [OF assms(1)] by (rule finite_subset) simp
  have "d \<in> waits dlls x" using assms(2) by (auto simp: waits_def)
  moreover have "waits dlls d \<subseteq> waits dlls x" using assms(2) by (auto simp: waits_def intro: trancl_into_trancl2)
  moreover have "d \<notin> waits dlls d" using waits_subset [OF assms(1), of d] by auto
  ultimately show "waits dlls d \<subset> waits dlls x" by auto
qed

lemma waits_bound:
  assumes "acyclic (dep_rel dlls)" and "x < length dlls"
  shows "card (waits dlls x) \<le> length dlls - 1"
proof -
  have "card (waits dlls x) \<le> card ({..<length dlls} - {x})"
    using waits_subset [OF assms(1)] by (rule card_mono [rotated]) simp
  then show ?thesis using assms(2) by simp
qed

text \<open>The bound on the moves still to come when the first \<open>i\<close> positions are done.\<close>

definition moves_left :: "extdll list \<Rightarrow> nat list \<Rightarrow> nat \<Rightarrow> nat" where
  "moves_left dlls order i = (length dlls - 1 - i) * length dlls + card (waits dlls (order ! i))"

lemma moves_left_later:
  assumes "acyclic (dep_rel dlls)" and "set order = {..<length dlls}" and "i \<le> j" "j < length order" "length order = length dlls"
  shows "moves_left dlls order j \<le> moves_left dlls order i"
proof (cases "i = j")
  case False
  define m where "m = length dlls - 2 - i"
  have m: "length dlls - 1 - i = Suc m" "length dlls - 1 - j \<le> m" using assms(3-5) False by (simp_all add: m_def)
  have "order ! j < length dlls" using assms(2,4) nth_mem [of j order] by auto
  then have "card (waits dlls (order ! j)) \<le> length dlls" using waits_bound [OF assms(1)] by fastforce
  moreover have "(length dlls - 1 - j) * length dlls \<le> m * length dlls" using m(2) by simp
  ultimately show ?thesis unfolding moves_left_def m(1) mult_Suc by linarith
qed simp

lemma perm_upt:
  assumes "mset order = mset [0..<n]"
  shows "distinct order" "set order = {..<n}" "length order = n"
proof -
  show "distinct order" by (rule perm_facts(1) [OF assms distinct_upt])
  show "set order = {..<n}" unfolding perm_facts(2) [OF assms] by (rule atLeast_upt [symmetric])
  show "length order = n" unfolding perm_facts(3) [OF assms] by simp
qed

lemma all_ordered:
  assumes "find_move dlls order [0..<length order] = None" and "mset order = mset [0..<length dlls]"
    and "p < length dlls"
  shows "ordered_at dlls order p"
proof -
  note perm = perm_upt [OF assms(2)]
  have "p \<in> set [0..<length order]" using assms(3) perm(3) by simp
  then have "nearest_position dlls order p = None" using find_move_None [OF assms(1)] by blast
  then show ?thesis using perm(1) assms(3) perm(3) by (intro nearest_position_None) auto
qed

lemma first_violation:
  assumes "acyclic (dep_rel dlls)" and "mset order = mset [0..<length dlls]"
    and "find_move dlls order [0..<length order] = Some (j, k)" and "\<forall>p<i. ordered_at dlls order p"
  shows "i \<le> j" "j < k" "k < length dlls" "moves_left dlls order j \<le> moves_left dlls order i"
    "moves_left dlls (move_before order j k) j < moves_left dlls order j"
    "\<forall>p<j. ordered_at dlls (move_before order j k) p" "mset (move_before order j k) = mset [0..<length dlls]"
proof -
  note perm = perm_upt [OF assms(2)]
  note v = find_move_violation [OF assms(3) perm(1,2)]
  show jk: "j < k" "k < length dlls" using v perm(3) by auto
  have dep: "(order ! j, order ! k) \<in> dep_rel dlls" using v by blast
  have "\<not> ordered_at dlls order j" using dep jk perm(3) unfolding ordered_at_def by fastforce
  then show ij: "i \<le> j" using assms(4) leI by blast
  show "moves_left dlls order j \<le> moves_left dlls order i"
    using moves_left_later [OF assms(1) perm(2) ij] jk perm(3) by simp
  have k: "k < length order" using jk perm(3) by simp
  note new = move_before_facts [OF jk(1) k]
  show "moves_left dlls (move_before order j k) j < moves_left dlls order j"
    using waits_less [OF assms(1) dep] unfolding moves_left_def new(3) by simp
  show "\<forall>p<j. ordered_at dlls (move_before order j k) p"
    using ordered_prefix_kept [OF _ jk(1) k perm(1)] v by blast
  show "mset (move_before order j k) = mset [0..<length dlls]" unfolding new(1) by (rule assms(2))
qed

lemma sort_loop_ordered:
  assumes "acyclic (dep_rel dlls)" and "mset order = mset [0..<length dlls]"
    and "\<forall>p<i. ordered_at dlls order p" and "moves_left dlls order i \<le> left"
  shows "\<exists>order'. sort_loop dlls left order = (order', False) \<and> mset order' = mset [0..<length dlls]
     \<and> (\<forall>p<length dlls. ordered_at dlls order' p)"
  using assms(2-)
proof (induction left arbitrary: order i)
  case (0 order i)
  show ?case
  proof (cases "find_move dlls order [0..<length order]")
    case None
    with all_ordered [OF None "0.prems"(1)] "0.prems"(1) show ?thesis by simp
  next
    case (Some move)
    then obtain j k where "find_move dlls order [0..<length order] = Some (j, k)" by (cases move) auto
    from first_violation [OF assms(1) "0.prems"(1) this "0.prems"(2)] "0.prems"(3) show ?thesis by linarith
  qed
next
  case (Suc left order i)
  show ?case
  proof (cases "find_move dlls order [0..<length order]")
    case None
    with all_ordered [OF None Suc.prems(1)] Suc.prems(1) show ?thesis by simp
  next
    case (Some move)
    then obtain j k where move: "find_move dlls order [0..<length order] = Some (j, k)" by (cases move) auto
    note v = first_violation [OF assms(1) Suc.prems(1) move Suc.prems(2)]
    have "moves_left dlls (move_before order j k) j \<le> left" using v(4,5) Suc.prems(3) by linarith
    from Suc.IH [OF v(7) v(6) this] move show ?thesis by simp
  qed
qed

text \<open>Conversely an order without a violation rules a cycle out, so a cycle uses the budget up.\<close>

lemma ordered_acyclic:
  assumes "mset order = mset [0..<length dlls]" and "\<forall>p<length dlls. ordered_at dlls order p"
  shows "acyclic (dep_rel dlls)"
proof -
  note perm = perm_upt [OF assms(1)]
  define pos where "pos x = (THE p. p < length order \<and> order ! p = x)" for x
  have pos: "pos (order ! p) = p" if "p < length order" for p
    using that perm(1) unfolding pos_def by (intro the_equality) (auto simp: nth_eq_iff_index_eq)
  have "(dep_rel dlls)\<inverse> \<subseteq> measure pos"
  proof
    fix e assume "e \<in> (dep_rel dlls)\<inverse>"
    then obtain x d where e: "e = (d, x)" and dep: "(x, d) \<in> dep_rel dlls" by auto
    then have "x \<in> set order" "d \<in> set order" using dep_rel_lt [OF dep] perm(2) by auto
    then obtain p q where pq: "p < length order" "order ! p = x" "q < length order" "order ! q = d"
      by (auto simp: in_set_conv_nth)
    then have "q < p" using assms(2) dep perm(3) by (auto simp: ordered_at_def)
    then show "e \<in> measure pos" using pq pos e by auto
  qed
  then have "acyclic ((dep_rel dlls)\<inverse>)" by (rule acyclic_subset [OF wf_acyclic [OF wf_measure]])
  then show ?thesis by simp
qed

lemma sort_loop_cycle:
  assumes "\<not> acyclic (dep_rel dlls)" and "mset order = mset [0..<length dlls]"
  shows "snd (sort_loop dlls left order)"
  using assms(2)
proof (induction left arbitrary: order)
  have move: "\<exists>j k. find_move dlls order [0..<length order] = Some (j, k) \<and> mset (move_before order j k) = mset [0..<length dlls]"
    if "mset order = mset [0..<length dlls]" for order
  proof (cases "find_move dlls order [0..<length order]")
    case None
    with all_ordered [OF None that] ordered_acyclic [OF that] assms(1) show ?thesis by blast
  next
    case (Some move)
    then obtain j k where jk: "find_move dlls order [0..<length order] = Some (j, k)" by (cases move) auto
    note perm = perm_upt [OF that]
    have "j < k" "k < length order" using find_move_violation [OF jk perm(1,2)] by auto
    with jk move_before_facts(1) that show ?thesis by metis
  qed
  {
    case (0 order)
    with move [of order] show ?case by auto
  next
    case (Suc left order)
    with move [of order] show ?case by auto
  }
qed

lemma sort_loop_spec:
  assumes "0 < length dlls"
  shows "snd (sort_loop dlls (length dlls * length dlls) [0..<length dlls]) \<longleftrightarrow> \<not> acyclic (dep_rel dlls)"
    and "acyclic (dep_rel dlls) \<Longrightarrow> \<exists>order. sort_loop dlls (length dlls * length dlls) [0..<length dlls] = (order, False)
       \<and> mset order = mset [0..<length dlls] \<and> (\<forall>p<length dlls. ordered_at dlls order p)"
proof -
  show *: "\<exists>order. sort_loop dlls (length dlls * length dlls) [0..<length dlls] = (order, False)
       \<and> mset order = mset [0..<length dlls] \<and> (\<forall>p<length dlls. ordered_at dlls order p)" if "acyclic (dep_rel dlls)"
  proof (rule sort_loop_ordered [OF that])
    have "card (waits dlls ([0..<length dlls] ! 0)) \<le> length dlls" using waits_bound [OF that, of 0] assms by simp
    moreover obtain n where "length dlls = Suc n" using assms by (cases "length dlls") auto
    ultimately show "moves_left dlls [0..<length dlls] 0 \<le> length dlls * length dlls"
      by (simp add: moves_left_def del: upt_Suc)
  qed auto
  show "snd (sort_loop dlls (length dlls * length dlls) [0..<length dlls]) \<longleftrightarrow> \<not> acyclic (dep_rel dlls)"
    using * sort_loop_cycle [of dlls "[0..<length dlls]"] by (cases "acyclic (dep_rel dlls)") auto
qed

subsection \<open>Stages\<close>

text \<open>Moving entries between stages changes neither names nor conditions, so the dependencies stay.\<close>

definition shape :: "extdll list \<Rightarrow> (bytes \<times> bytes list) list" where
  "shape dlls = map (\<lambda>e. (ed_name e, ed_after e)) dlls"

lemma shape_length: "shape dlls' = shape dlls \<Longrightarrow> length dlls' = length dlls"
  unfolding shape_def by (rule map_eq_imp_length_eq)

lemma shape_nth:
  assumes "shape dlls' = shape dlls" and "i < length dlls"
  shows "ed_name (dlls' ! i) = ed_name (dlls ! i)" "ed_after (dlls' ! i) = ed_after (dlls ! i)"
proof -
  have "shape dlls' ! i = shape dlls ! i" by (simp add: assms(1))
  then show "ed_name (dlls' ! i) = ed_name (dlls ! i)" "ed_after (dlls' ! i) = ed_after (dlls ! i)"
    using assms(2) shape_length [OF assms(1)] by (simp_all add: shape_def)
qed

lemma shape_index:
  assumes "shape dlls' = shape dlls"
  shows "extdll_index_by_name dlls' name = extdll_index_by_name dlls name"
proof -
  have "find_index (\<lambda>e. ed_name e = name) l = find_index (\<lambda>s. fst s = name) (shape l)" for l
    by (induction l) (simp_all add: shape_def)
  then show ?thesis by (simp add: extdll_index_by_name_def assms)
qed

lemma shape_dep:
  assumes "shape dlls' = shape dlls"
  shows "dep_rel dlls' = dep_rel dlls"
  using shape_length [OF assms] shape_nth(2) [OF assms] shape_index [OF assms] by (auto simp: dep_rel_def)

lemma shape_update: "ed_name e = ed_name (dlls ! i) \<Longrightarrow> ed_after e = ed_after (dlls ! i) \<Longrightarrow> shape (dlls[i := e]) = shape dlls"
  unfolding shape_def by (cases "i < length dlls") (auto simp: map_update list_update_same_conv list_update_beyond)

lemma promote_after_True: "promote_after names dlls True = (dlls', changed) \<Longrightarrow> changed"
  by (induction names arbitrary: dlls) (auto split: option.splits if_splits)

lemma promote_after_shape: "promote_after names dlls changed = (dlls', changed') \<Longrightarrow> shape dlls' = shape dlls"
  by (induction names arbitrary: dlls changed) (fastforce simp: shape_update split: option.splits if_splits)+

lemma promote_after_fixed:
  "promote_after names dlls False = (dlls', False) \<Longrightarrow> dlls' = dlls \<and>
     (\<forall>name\<in>set names. \<forall>d. extdll_index_by_name dlls name = Some d \<longrightarrow> ed_stage (dlls ! d) \<noteq> EXTDLL_STAGE_NORMAL)"
  by (induction names) (auto split: option.splits if_splits dest: promote_after_True)

lemma promote_pass_True: "promote_pass is dlls True = (dlls', changed) \<Longrightarrow> changed"
  by (induction "is" arbitrary: dlls) (auto split: if_splits prod.splits dest!: promote_after_True)

lemma promote_pass_shape: "promote_pass is dlls changed = (dlls', changed') \<Longrightarrow> shape dlls' = shape dlls"
  by (induction "is" arbitrary: dlls changed) (fastforce dest: promote_after_shape split: if_splits prod.splits)+

lemma promote_pass_fixed:
  "promote_pass is dlls False = (dlls', False) \<Longrightarrow> dlls' = dlls \<and>
     (\<forall>i\<in>set is. ed_stage (dlls ! i) = EXTDLL_STAGE_EARLY \<longrightarrow>
        (\<forall>d. (i, d) \<in> dep_rel dlls \<longrightarrow> ed_stage (dlls ! d) \<noteq> EXTDLL_STAGE_NORMAL))"
proof (induction "is")
  case (Cons i "is")
  show ?case
  proof (cases "ed_stage (dlls ! i) = EXTDLL_STAGE_EARLY")
    case True
    obtain dlls1 changed where one: "promote_after (ed_after (dlls ! i)) dlls False = (dlls1, changed)"
      by (cases "promote_after (ed_after (dlls ! i)) dlls False")
    with True Cons.prems have pass: "promote_pass is dlls1 changed = (dlls', False)" by simp
    then have "\<not> changed" by (cases changed) (auto dest: promote_pass_True)
    with one promote_after_fixed [of "ed_after (dlls ! i)" dlls dlls1] have "dlls1 = dlls"
      "\<forall>name\<in>set (ed_after (dlls ! i)). \<forall>d. extdll_index_by_name dlls name = Some d \<longrightarrow>
         ed_stage (dlls ! d) \<noteq> EXTDLL_STAGE_NORMAL" by auto
    with Cons.IH pass \<open>\<not> changed\<close> show ?thesis by (auto simp: dep_rel_def)
  qed (use Cons in auto)
qed simp

text \<open>After the promotion no early entry depends on a normal one.\<close>

definition early_closed :: "extdll list \<Rightarrow> bool" where
  "early_closed dlls \<longleftrightarrow> (\<forall>(i, d)\<in>dep_rel dlls. ed_stage (dlls ! i) = EXTDLL_STAGE_EARLY \<longrightarrow>
     ed_stage (dlls ! d) \<noteq> EXTDLL_STAGE_NORMAL)"

lemma promote_loop_spec: "shape (promote_loop dlls) = shape dlls \<and> early_closed (promote_loop dlls)"
proof (induction dlls rule: promote_loop.induct)
  case (1 dlls)
  obtain dlls1 changed where pass: "promote_pass [0..<length dlls] dlls False = (dlls1, changed)"
    by (cases "promote_pass [0..<length dlls] dlls False")
  show ?case
  proof (cases changed)
    case True
    with pass have "promote_loop dlls = promote_loop dlls1" by (simp add: promote_loop.simps [of dlls])
    moreover have "shape (promote_loop dlls1) = shape dlls1 \<and> early_closed (promote_loop dlls1)"
      using 1 pass True by simp
    ultimately show ?thesis using promote_pass_shape [OF pass] by simp
  next
    case False
    with pass have "promote_loop dlls = dlls1" by (simp add: promote_loop.simps [of dlls])
    moreover from pass False have "promote_pass [0..<length dlls] dlls False = (dlls1, False)" by simp
    note promote_pass_fixed [OF this]
    ultimately show ?thesis by (fastforce simp: early_closed_def dest: dep_rel_lt)
  qed
qed

lemma defer_scan_spec:
  "defer_scan dlls names latest trigger = (latest', trigger') \<Longrightarrow> latest \<le> latest'
   \<and> (\<forall>name\<in>set names. \<forall>d. extdll_index_by_name dlls name = Some d \<longrightarrow> ed_stage (dlls ! d) \<le> latest')
   \<and> (trigger' = None \<longrightarrow> trigger = None \<and> latest' = latest) \<and> (trigger = None \<longrightarrow> trigger' \<noteq> None \<longrightarrow> latest < latest')"
proof (induction names arbitrary: latest trigger)
  case (Cons name names)
  show ?case
  proof (cases "extdll_index_by_name dlls name")
    case (Some d)
    show ?thesis
    proof (cases "ed_stage (dlls ! d) \<le> latest")
      case True
      with Cons.prems Some Cons.IH [of latest trigger] show ?thesis by auto
    next
      case False
      with Cons.prems Some Cons.IH [of "ed_stage (dlls ! d)" "Some d"] show ?thesis by auto
    qed
  qed (use Cons in auto)
qed simp

lemma defer_one_spec:
  assumes "i < length dlls"
  shows "shape (defer_one i dlls) = shape dlls" "j \<noteq> i \<Longrightarrow> defer_one i dlls ! j = dlls ! j"
    "ed_stage (defer_one i dlls ! i) = ed_stage (dlls ! i) \<or> stage_is_deferred (ed_stage (defer_one i dlls ! i))"
    "(i, d) \<in> dep_rel dlls \<Longrightarrow> stage_is_deferred (ed_stage (dlls ! d)) \<Longrightarrow> stage_is_deferred (ed_stage (defer_one i dlls ! i))"
proof -
  let ?scan = "defer_scan dlls (ed_after (dlls ! i)) EXTDLL_STAGE_NORMAL None"
  obtain latest trigger where scan: "?scan = (latest, trigger)" by (cases ?scan)
  note spec = defer_scan_spec [OF scan]
  show "shape (defer_one i dlls) = shape dlls"
    by (simp add: defer_one_def scan shape_update split: option.split)
  show "defer_one i dlls ! j = dlls ! j" if "j \<noteq> i"
    using that by (simp add: defer_one_def scan split: option.split)
  show "ed_stage (defer_one i dlls ! i) = ed_stage (dlls ! i) \<or> stage_is_deferred (ed_stage (defer_one i dlls ! i))"
    using spec assms by (auto simp: defer_one_def scan stage_is_deferred_def split: option.split)
  show "stage_is_deferred (ed_stage (defer_one i dlls ! i))"
    if "(i, d) \<in> dep_rel dlls" "stage_is_deferred (ed_stage (dlls ! d))"
  proof (cases trigger)
    case None
    then have "ed_stage (dlls ! d) \<le> EXTDLL_STAGE_NORMAL" using spec that(1) by (auto simp: dep_rel_def)
    with that(2) show ?thesis by (simp add: stage_is_deferred_def)
  qed (use spec assms in \<open>auto simp: defer_one_def scan stage_is_deferred_def\<close>)
qed

text \<open>No entry is in an earlier phase than one it depends on.\<close>

definition phase_ok :: "extdll list \<Rightarrow> nat \<Rightarrow> bool" where
  "phase_ok dlls i \<longleftrightarrow> (\<forall>d. (i, d) \<in> dep_rel dlls \<longrightarrow>
     (stage_is_deferred (ed_stage (dlls ! d)) \<longrightarrow> stage_is_deferred (ed_stage (dlls ! i)))
   \<and> (ed_stage (dlls ! i) = EXTDLL_STAGE_EARLY \<longrightarrow> ed_stage (dlls ! d) = EXTDLL_STAGE_EARLY))"

lemma defer_prefix:
  assumes "early_closed dlls" and "\<forall>i d. (i, d) \<in> dep_rel dlls \<longrightarrow> d < i" and "m \<le> length dlls"
  shows "shape (fold defer_one [0..<m] dlls) = shape dlls
   \<and> (\<forall>j<length dlls. ed_stage (fold defer_one [0..<m] dlls ! j) = ed_stage (dlls ! j)
         \<or> stage_is_deferred (ed_stage (fold defer_one [0..<m] dlls ! j)))
   \<and> (\<forall>j. m \<le> j \<longrightarrow> fold defer_one [0..<m] dlls ! j = dlls ! j)
   \<and> (\<forall>i<m. phase_ok (fold defer_one [0..<m] dlls) i)"
  using assms(3)
proof (induction m)
  case (Suc m)
  define now where "now = fold defer_one [0..<m] dlls"
  define after where "after = defer_one m now"
  have IH: "shape now = shape dlls" "\<forall>j. m \<le> j \<longrightarrow> now ! j = dlls ! j" "\<forall>i<m. phase_ok now i"
    "\<forall>j<length dlls. ed_stage (now ! j) = ed_stage (dlls ! j) \<or> stage_is_deferred (ed_stage (now ! j))"
    using Suc by (simp_all add: now_def)
  have fold: "fold defer_one [0..<Suc m] dlls = after" by (simp add: now_def after_def)
  have m: "m < length now" "m < length dlls" using Suc.prems shape_length [OF IH(1)] by auto
  note one = defer_one_spec [OF m(1), folded after_def]
  have shape: "shape after = shape dlls" using one(1) IH(1) by simp
  have dep: "dep_rel after = dep_rel dlls" "dep_rel now = dep_rel dlls" using shape_dep shape IH(1) by blast+
  have later: "\<forall>j<length dlls. ed_stage (after ! j) = ed_stage (dlls ! j) \<or> stage_is_deferred (ed_stage (after ! j))"
    using IH(2,4) one(2,3) m by (metis order_refl)
  have "phase_ok after i" if i: "i < Suc m" for i
    unfolding phase_ok_def dep
  proof (intro allI impI)
    fix d assume d: "(i, d) \<in> dep_rel dlls"
    then have di: "d < i" "d < length dlls" using assms(2) dep_rel_lt [OF d] by auto
    then have d_now: "after ! d = now ! d" using i one(2) [of d] by auto
    show "(stage_is_deferred (ed_stage (after ! d)) \<longrightarrow> stage_is_deferred (ed_stage (after ! i)))
      \<and> (ed_stage (after ! i) = EXTDLL_STAGE_EARLY \<longrightarrow> ed_stage (after ! d) = EXTDLL_STAGE_EARLY)"
    proof (cases "i = m")
      case True
      have "ed_stage (after ! d) = EXTDLL_STAGE_EARLY" if "ed_stage (after ! m) = EXTDLL_STAGE_EARLY"
      proof -
        have "\<not> stage_is_deferred (ed_stage (after ! m))"
          using that by (simp add: stage_is_deferred_def less_extdll_stage_def)
        then have "ed_stage (now ! m) = EXTDLL_STAGE_EARLY" "\<not> stage_is_deferred (ed_stage (now ! d))"
          using one(3) one(4) [of d] d that True dep by auto
        moreover have "now ! m = dlls ! m" using IH(2) by simp
        ultimately have "ed_stage (dlls ! d) \<noteq> EXTDLL_STAGE_NORMAL" "ed_stage (now ! d) = ed_stage (dlls ! d)"
          using assms(1) d True IH(4) di(2) unfolding early_closed_def by auto
        with \<open>\<not> stage_is_deferred (ed_stage (now ! d))\<close> d_now show ?thesis
          by (cases "ed_stage (dlls ! d)") (auto simp: stage_is_deferred_def less_extdll_stage_def)
      qed
      with one(4) [of d] d True dep d_now show ?thesis by auto
    next
      case False
      then have "after ! i = now ! i" using one(2) by simp
      moreover have "phase_ok now i" using IH(3) i False by simp
      ultimately show ?thesis using d d_now dep unfolding phase_ok_def by simp
    qed
  qed
  moreover have "\<forall>j. Suc m \<le> j \<longrightarrow> after ! j = dlls ! j" using IH(2) one(2) by auto
  ultimately show ?case unfolding fold using shape later by blast
qed auto

lemma defer_loop_shape: "shape (defer_loop dlls) = shape dlls"
proof -
  have "shape (fold defer_one is dlls) = shape dlls" if "\<forall>i\<in>set is. i < length dlls" for "is" and dlls :: "extdll list"
    using that
  proof (induction "is" arbitrary: dlls)
    case (Cons i "is")
    then have shape: "shape (defer_one i dlls) = shape dlls" by (intro defer_one_spec(1)) simp
    with Cons.prems have "\<forall>j\<in>set is. j < length (defer_one i dlls)" using shape_length [OF shape] by simp
    from Cons.IH [OF this] shape show ?case by simp
  qed simp
  then show ?thesis by (simp add: defer_loop_def)
qed

subsection \<open>The prepared table\<close>

lemma alloc_ok: "heap_ok (xs_heap xs) \<Longrightarrow> xs_alloc xs = (True, xs)"
  by (simp add: xs_alloc_def)

lemma prepare_steps:
  assumes "heap_ok (xs_heap xs)" and "2 \<le> length (xs_dlls xs)"
    and "sort_loop (xs_dlls xs) (length (xs_dlls xs) * length (xs_dlls xs)) [0..<length (xs_dlls xs)] = (order, cycle)"
  shows "xs_dlls (extdlls_prepare xs)
     = defer_loop (promote_loop (if cycle then xs_dlls xs else map (\<lambda>i. xs_dlls xs ! i) order))"
  using assms by (simp add: extdlls_prepare_def Let_def alloc_ok xs_alloc_if_def)

lemma index_distinct:
  assumes "distinct (map ed_name dlls)" and "i < length dlls"
  shows "extdll_index_by_name dlls (ed_name (dlls ! i)) = Some i"
  using assms by (auto simp: extdll_index_by_name_def find_index_Some distinct_conv_nth)

text \<open>The dependencies of the sorted table, read back in the original one.\<close>

lemma dep_sorted:
  assumes "distinct (map ed_name dlls)" and "mset order = mset [0..<length dlls]"
    and "(i, d) \<in> dep_rel (map (\<lambda>i. dlls ! i) order)"
  shows "(order ! i, order ! d) \<in> dep_rel dlls"
proof -
  let ?new = "map (\<lambda>i. dlls ! i) order"
  note perm = perm_upt [OF assms(2)]
  obtain name where name: "name \<in> set (ed_after (?new ! i))" "extdll_index_by_name ?new name = Some d"
    using assms(3) by (auto simp: dep_rel_def)
  have lt: "i < length order" "d < length order" "d \<noteq> i" using dep_rel_lt [OF assms(3)] by auto
  then have in_range: "order ! i < length dlls" "order ! d < length dlls"
    using perm(2) nth_mem [of i order] nth_mem [of d order] by auto
  have "name = ed_name (dlls ! (order ! d))"
    using name(2) lt(2) by (auto simp: extdll_index_by_name_def find_index_Some)
  then have "extdll_index_by_name dlls name = Some (order ! d)" using index_distinct [OF assms(1) in_range(2)] by simp
  moreover have "order ! d \<noteq> order ! i" using lt perm(1) by (simp add: nth_eq_iff_index_eq)
  ultimately show ?thesis using name(1) lt(1) in_range by (auto simp: dep_rel_def)
qed

lemma dep_small: "length dlls < 2 \<Longrightarrow> dep_rel dlls = {}"
  by (auto dest: dep_rel_lt)

lemma shape_names:
  assumes "shape dlls' = shape dlls"
  shows "map ed_name dlls' = map ed_name dlls"
proof -
  have "map fst (shape dlls') = map fst (shape dlls)" by (simp only: assms)
  then show ?thesis by (simp add: shape_def comp_def)
qed

lemma prepared:
  assumes "distinct (map ed_name (xs_dlls xs))" and "heap_ok (xs_heap xs)" and "acyclic (dep_rel (xs_dlls xs))"
  shows "mset (map ed_name (xs_dlls (extdlls_prepare xs))) = mset (map ed_name (xs_dlls xs))
     \<and> (\<forall>i d. (i, d) \<in> dep_rel (xs_dlls (extdlls_prepare xs)) \<longrightarrow> d < i)
     \<and> (\<forall>i<length (xs_dlls xs). phase_ok (xs_dlls (extdlls_prepare xs)) i)"
proof (cases "length (xs_dlls xs) < 2")
  case True
  then show ?thesis using dep_small [OF True] by (simp add: extdlls_prepare_def phase_ok_def)
next
  case False
  then have two: "2 \<le> length (xs_dlls xs)" by simp
  then have "0 < length (xs_dlls xs)" by linarith
  from sort_loop_spec(2) [OF this assms(3)] obtain order where
    sort: "sort_loop (xs_dlls xs) (length (xs_dlls xs) * length (xs_dlls xs)) [0..<length (xs_dlls xs)] = (order, False)"
    and perm: "mset order = mset [0..<length (xs_dlls xs)]" and ord: "\<forall>p<length (xs_dlls xs). ordered_at (xs_dlls xs) order p"
    by blast
  define new where "new = map (\<lambda>i. xs_dlls xs ! i) order"
  define mid where "mid = promote_loop new"
  have result: "xs_dlls (extdlls_prepare xs) = defer_loop mid"
    using prepare_steps [OF assms(2) two sort] by (simp add: new_def mid_def)
  note p = perm_upt [OF perm]
  have "mset new = mset (xs_dlls xs)"
  proof -
    have "mset new = mset (map (\<lambda>i. xs_dlls xs ! i) [0..<length (xs_dlls xs)])" by (simp add: new_def perm)
    then show ?thesis by (simp add: map_nth)
  qed
  then have names: "mset (map ed_name new) = mset (map ed_name (xs_dlls xs))" by simp
  have "d < i" if "(i, d) \<in> dep_rel new" for i d
  proof -
    have "(order ! i, order ! d) \<in> dep_rel (xs_dlls xs)" using dep_sorted [OF assms(1) perm] that by (simp add: new_def)
    moreover have "i < length order" "d < length order" using dep_rel_lt [OF that] by (auto simp: new_def)
    ultimately show ?thesis using ord p(3) by (auto simp: ordered_at_def)
  qed
  moreover have mid: "shape mid = shape new" "early_closed mid" using promote_loop_spec by (auto simp: mid_def)
  ultimately have order: "\<forall>i d. (i, d) \<in> dep_rel mid \<longrightarrow> d < i" using shape_dep by blast
  have final: "shape (defer_loop mid) = shape new" using defer_loop_shape [of mid] mid(1) by simp
  have len: "length mid = length (xs_dlls xs)" using shape_length [OF mid(1)] p(3) by (simp add: new_def)
  have "\<forall>i<length mid. phase_ok (defer_loop mid) i"
    using defer_prefix [OF mid(2) order, of "length mid"] unfolding defer_loop_def by blast
  then show ?thesis
    using order names len unfolding result shape_dep [OF defer_loop_shape] shape_names [OF final] by simp
qed

text \<open>
  C35: the sort detects cycles exactly and never runs out of its budget otherwise: it reports a
  cycle when the dependencies have one, and then the configured order stays.
\<close>

theorem extdlls_sort_exact:
  assumes "heap_ok (xs_heap xs)" and "2 \<le> length (xs_dlls xs)"
  shows "(snd (sort_loop (xs_dlls xs) (length (xs_dlls xs) * length (xs_dlls xs)) [0..<length (xs_dlls xs)])
       \<longleftrightarrow> \<not> acyclic (dep_rel (xs_dlls xs)))
     \<and> (\<not> acyclic (dep_rel (xs_dlls xs)) \<longrightarrow>
          map ed_name (xs_dlls (extdlls_prepare xs)) = map ed_name (xs_dlls xs))"
proof -
  have pos: "0 < length (xs_dlls xs)" using assms(2) by linarith
  note exact = sort_loop_spec(1) [OF pos]
  obtain order cycle where sort: "sort_loop (xs_dlls xs) (length (xs_dlls xs) * length (xs_dlls xs)) [0..<length (xs_dlls xs)]
    = (order, cycle)" by fastforce
  have "map ed_name (xs_dlls (extdlls_prepare xs)) = map ed_name (xs_dlls xs)" if "\<not> acyclic (dep_rel (xs_dlls xs))"
  proof -
    have cycle using exact that sort by simp
    then have "xs_dlls (extdlls_prepare xs) = defer_loop (promote_loop (xs_dlls xs))"
      using prepare_steps [OF assms sort] by simp
    then show ?thesis using shape_names defer_loop_shape promote_loop_spec by metis
  qed
  with exact show ?thesis by blast
qed

text \<open>Two entries, the first early and after the second; and two that wait for each other.\<close>

definition example_dll :: "string \<Rightarrow> string list \<Rightarrow> extdll_stage \<Rightarrow> extdll" where
  "example_dll name after stage = (new_extdll (B name) [] None)\<lparr>ed_after := map B after, ed_stage := stage\<rparr>"

definition example_table :: "extdll list \<Rightarrow> extdlls" where
  "example_table dlls = \<lparr>xs_dlls = dlls, xs_capacity = 8, xs_load_counter = 0, xs_heap = \<lambda>_. True\<rparr>"

abbreviation example_after :: extdlls where
  "example_after \<equiv> example_table [example_dll ''a'' [''b''] EXTDLL_STAGE_EARLY, example_dll ''b'' [] EXTDLL_STAGE_NORMAL]"

abbreviation example_cycle :: extdlls where
  "example_cycle \<equiv> example_table [example_dll ''a'' [''b''] EXTDLL_STAGE_EARLY, example_dll ''b'' [''a''] EXTDLL_STAGE_NORMAL]"

lemmas example_simps = example_table_def example_dll_def new_extdll_def extdll_index_by_name_def

lemma example_deps: "dep_rel (xs_dlls example_after) = {(0, 1)}" "dep_rel (xs_dlls example_cycle) = {(0, 1), (1, 0)}"
  by (auto simp: dep_rel_def example_simps less_Suc_eq)

lemma example_facts:
  "heap_ok (xs_heap (example_table dlls))" "distinct (map ed_name (xs_dlls example_after))"
  "acyclic (dep_rel (xs_dlls example_after))" "\<not> acyclic (dep_rel (xs_dlls example_cycle))"
proof -
  have "(0, 0) \<in> {(0, 1), (1, 0 :: nat)}\<^sup>+" by (rule trancl_into_trancl2 [of 0 1]) auto
  then show "\<not> acyclic (dep_rel (xs_dlls example_cycle))" unfolding example_deps acyclic_def by blast
  show "acyclic (dep_rel (xs_dlls example_after))" unfolding example_deps by (simp add: acyclic_insert wf_acyclic)
qed (simp_all add: example_simps)

theorem extdlls_sort_exact_witness:
  "snd (sort_loop (xs_dlls example_cycle) (length (xs_dlls example_cycle) * length (xs_dlls example_cycle))
        [0..<length (xs_dlls example_cycle)])
   \<and> map ed_name (xs_dlls (extdlls_prepare example_cycle)) = map ed_name (xs_dlls example_cycle)"
proof -
  have "2 \<le> length (xs_dlls example_cycle)" by (simp add: example_table_def)
  from extdlls_sort_exact [OF example_facts(1) this] example_facts(4) show ?thesis by blast
qed

text \<open>
  For entries with different names and without a cycle, the prepared table has the same
  entries, every dependency is before its dependents, and no entry is in an earlier phase than one
  of its dependencies: the dependencies of an early entry are early, and what depends on a
  deferred entry is deferred. A DLL is thus never loaded before a dependency of it.
\<close>

theorem extdlls_prepare_order:
  assumes "distinct (map ed_name (xs_dlls xs))" and "heap_ok (xs_heap xs)" and "acyclic (dep_rel (xs_dlls xs))"
  shows "mset (map ed_name (xs_dlls (extdlls_prepare xs))) = mset (map ed_name (xs_dlls xs))
     \<and> (\<forall>i d. (i, d) \<in> dep_rel (xs_dlls (extdlls_prepare xs)) \<longrightarrow> d < i)
     \<and> (\<forall>i<length (xs_dlls xs). phase_ok (xs_dlls (extdlls_prepare xs)) i)"
  using assms by (rule prepared)

theorem extdlls_prepare_order_witness:
  "\<forall>i d. (i, d) \<in> dep_rel (xs_dlls (extdlls_prepare example_after)) \<longrightarrow> d < i"
  using extdlls_prepare_order [OF example_facts(2) example_facts(1) example_facts(3)] by blast

end
