(* ===== verification/ExtSpec.thy ===== *)
theory ExtSpec
  imports ExtDll
begin

text \<open>
  The text of an entry, \<open>path[:initializer][|condition]...\<close>, is read back by
  \<open>extdlls_add_spec\<close>: the fields of an entry, written out, give that entry.
\<close>

definition stage_text :: "extdll_stage \<Rightarrow> 32 word \<Rightarrow> bytes list" where
  "stage_text stage delay = (case stage of
     EXTDLL_STAGE_EARLY \<Rightarrow> [B ''early''] | EXTDLL_STAGE_NORMAL \<Rightarrow> []
   | EXTDLL_STAGE_DATA_READY \<Rightarrow> [B ''data_ready''] | EXTDLL_STAGE_DELAY \<Rightarrow> [B ''delay,'' @ dec_digits (unat delay)])"

definition spec_conditions :: "extdll_stage \<Rightarrow> 32 word \<Rightarrow> bytes list \<Rightarrow> bytes list" where
  "spec_conditions stage delay after = stage_text stage delay @ map (\<lambda>name. B ''after,'' @ name) after"

definition spec_path :: "bytes \<Rightarrow> bytes option \<Rightarrow> bytes" where
  "spec_path p initializer = p @ (case initializer of None \<Rightarrow> [] | Some f \<Rightarrow> 58 # f)"

definition spec_text :: "bytes \<Rightarrow> bytes option \<Rightarrow> bytes list \<Rightarrow> bytes" where
  "spec_text p initializer conditions = spec_path p initializer @ concat (map (\<lambda>c. 124 # c) conditions)"

subsection \<open>Splitting\<close>

lemma split_bar_append:
  assumes "124 \<notin> set s"
  shows "split_bar (s @ 124 # rest) = (s, Some rest)" "split_bar s = (s, None)"
proof -
  have keep: "\<forall>c\<in>set s. c \<noteq> 124" using assms by auto
  have "takeWhile (\<lambda>c. c \<noteq> 124) (s @ 124 # rest) = s" "dropWhile (\<lambda>c. c \<noteq> 124) (s @ 124 # rest) = 124 # rest"
    using keep by (simp_all add: takeWhile_append2 dropWhile_append2)
  then show "split_bar (s @ 124 # rest) = (s, Some rest)" by (simp add: split_bar_def)
  have "takeWhile (\<lambda>c. c \<noteq> 124) s = s" using keep by (simp add: takeWhile_eq_all_conv)
  then show "split_bar s = (s, None)" using assms by (simp add: split_bar_def)
qed

lemma split_bar_conditions:
  assumes "124 \<notin> set s"
  shows "split_bar (s @ concat (map (\<lambda>c. 124 # c) cs))
     = (s, case cs of [] \<Rightarrow> None | c # cs \<Rightarrow> Some (c @ concat (map (\<lambda>c. 124 # c) cs)))"
  using split_bar_append [OF assms] by (cases cs) simp_all

fun add_conditions :: "bytes list \<Rightarrow> extdll \<Rightarrow> heap \<Rightarrow> extdll \<times> heap" where
  "add_conditions [] e h = (e, h)"
| "add_conditions (c # cs) e h = (case add_condition c e h of (e, h) \<Rightarrow> add_conditions cs e h)"

lemma condition_loop_conditions:
  assumes "\<forall>c\<in>set (c # cs). c \<noteq> [] \<and> 124 \<notin> set c"
  shows "condition_loop (Some (c @ concat (map (\<lambda>c. 124 # c) cs))) e h = add_conditions (c # cs) e h"
  using assms
proof (induction cs arbitrary: c e h)
  case Nil
  then show ?case using split_bar_conditions [of c "[]"] by (simp split: prod.split)
next
  case (Cons d cs)
  then show ?case using split_bar_conditions [of c "d # cs"] by (simp split: prod.split)
qed

lemma path_start_le: "path_start p \<le> length p"
proof -
  have lt: "i < length p" if "bat p i \<noteq> 0" for i using that by (auto simp: bat_def split: if_splits)
  have "start + 2 \<le> length p" if "bat p (start + 1) = 58" for start using lt [of "start + 1"] that by simp
  note drive = this [of 0, simplified] this [of 4, simplified]
  have "4 \<le> length p" if "bat p 3 = 92 \<or> bat p 3 = 47" using lt [of 3] that by auto
  with drive show ?thesis by (auto simp: path_start_def Let_def)
qed

lemma find_index_append: "\<forall>x\<in>set xs. \<not> P x \<Longrightarrow> P y \<Longrightarrow> find_index P (xs @ y # ys) = Some (length xs)"
  by (induction xs) auto

lemma split_initializer_path:
  assumes "58 \<notin> set (drop (path_start p) p)" and "path_start (spec_path p initializer) = path_start p"
  shows "split_initializer (spec_path p initializer) = (p, initializer)"
proof (cases initializer)
  case None
  then show ?thesis using assms(1) by (auto simp: split_initializer_def spec_path_def split: option.split)
next
  case (Some f)
  have "find_index (\<lambda>c. c = 58) (drop (path_start p) p @ 58 # f) = Some (length p - path_start p)"
    using assms(1) by (subst find_index_append) auto
  then show ?thesis using Some assms(2) path_start_le [of p]
    by (simp add: split_initializer_def spec_path_def)
qed

subsection \<open>Conditions\<close>

lemma digit_char:
  assumes "n < 10"
  shows "is_digit (of_nat (48 + n))" "unat (of_nat (48 + n) :: 8 word) - 48 = n"
proof -
  have "unat (of_nat (48 + n) :: 8 word) = 48 + n" using assms by (simp only: unat_of_nat) simp
  then show "is_digit (of_nat (48 + n))" "unat (of_nat (48 + n) :: 8 word) - 48 = n"
    using assms by (simp_all only: is_digit_def word_le_nat_alt) simp_all
qed

lemma dec_digits_value: "(\<forall>c\<in>set (dec_digits n). is_digit c) \<and> digits_value (dec_digits n) = n \<and> dec_digits n \<noteq> []"
proof (induction n rule: dec_digits.induct)
  case (1 n)
  show ?case
  proof (cases "n < 10")
    case True
    then have "dec_digits n = [of_nat (48 + n)]" by (subst dec_digits.simps) simp
    then show ?thesis using digit_char [OF True] by (simp add: digits_value_def del: of_nat_add)
  next
    case False
    have m: "n mod 10 < 10" by simp
    have "dec_digits n = dec_digits (n div 10) @ [of_nat (48 + n mod 10)]" using False by (subst dec_digits.simps) simp
    then show ?thesis using 1 [OF False] digit_char [OF m] by (simp add: digits_value_def del: of_nat_add)
  qed
qed

lemma parse_delay_digits: "parse_delay (dec_digits (unat d)) = Some d"
proof -
  let ?s = "dec_digits (unat d)"
  note v = dec_digits_value [of "unat d"]
  obtain c r where s: "?s = c # r" using v by (cases ?s) auto
  have "is_digit c" using v s by simp
  then have first: "\<not> (bat ?s 0 < 48 \<or> bat ?s 0 > 57)" by (simp add: s bat_def is_digit_def not_less)
  have tw: "takeWhile is_digit ?s = ?s" using v by (simp add: takeWhile_eq_all_conv)
  have le: "unat d \<le> ULONG_MAX"
  proof -
    have "unat d < 2 ^ LENGTH(32)" by (rule unsigned_less)
    then show ?thesis by (simp add: ULONG_MAX_def)
  qed
  show ?thesis using first le v by (simp add: parse_delay_def Let_def tw)
qed

lemma add_stage:
  assumes "ed_stage e = EXTDLL_STAGE_NORMAL" and "ed_delay_ms e = 0" and "stage = EXTDLL_STAGE_DELAY \<or> delay = 0"
  shows "add_conditions (stage_text stage delay) e h = (e\<lparr>ed_stage := stage, ed_delay_ms := delay\<rparr>, h)"
  using assms parse_delay_digits [of delay]
  by (cases stage) (auto simp: stage_text_def add_condition_def)

definition with_after :: "extdll \<Rightarrow> bytes list \<Rightarrow> extdll \<Rightarrow> bool" where
  "with_after e names e' \<longleftrightarrow> (\<exists>capacity. e' = e\<lparr>ed_after := ed_after e @ names, ed_after_capacity := capacity\<rparr>)"

lemma after_add_ok:
  assumes "heap_ok h"
  shows "\<exists>capacity. extdll_after_add e name h = (e\<lparr>ed_after_capacity := capacity, ed_after := ed_after e @ [name]\<rparr>, h)"
proof (cases "length (ed_after e) \<ge> ed_after_capacity e")
  case True
  then have "extdll_after_add e name h = (e\<lparr>ed_after_capacity := if ed_after_capacity e = 0 then 4 else ed_after_capacity e * 2,
      ed_after := ed_after e @ [name]\<rparr>, h)"
    using assms by (simp add: extdll_after_add_def)
  then show ?thesis by blast
next
  case False
  then have "extdll_after_add e name h = (e\<lparr>ed_after_capacity := ed_after_capacity e, ed_after := ed_after e @ [name]\<rparr>, h)"
    using assms by (simp add: extdll_after_add_def)
  then show ?thesis by blast
qed

lemma add_after:
  assumes "heap_ok h" and "\<forall>name\<in>set names. bat name 0 \<noteq> 0"
  shows "\<exists>e'. add_conditions (map (\<lambda>name. B ''after,'' @ name) names) e h = (e', h) \<and> with_after e names e'"
  using assms(2)
proof (induction names arbitrary: e)
  case Nil
  show ?case unfolding with_after_def by (intro exI [of _ e] conjI exI [of _ "ed_after_capacity e"]) simp_all
next
  case (Cons name names)
  have "add_condition (B ''after,'' @ name) e h = extdll_after_add e name h"
    using Cons.prems by (cases name) (auto simp: add_condition_def bat_def)
  moreover obtain capacity where
    "extdll_after_add e name h = (e\<lparr>ed_after_capacity := capacity, ed_after := ed_after e @ [name]\<rparr>, h)"
    using after_add_ok [OF assms(1)] by blast
  moreover obtain e' where "add_conditions (map (\<lambda>name. B ''after,'' @ name) names)
      (e\<lparr>ed_after_capacity := capacity, ed_after := ed_after e @ [name]\<rparr>) h = (e', h)"
    "with_after (e\<lparr>ed_after_capacity := capacity, ed_after := ed_after e @ [name]\<rparr>) names e'"
    using Cons by (metis list.set_intros(2))
  ultimately show ?case by (auto simp: with_after_def)
qed

lemma add_conditions_append:
  "add_conditions (cs @ ds) e h = (case add_conditions cs e h of (e, h) \<Rightarrow> add_conditions ds e h)"
  by (induction cs arbitrary: e h) (auto split: prod.split)

text \<open>What the fields of an entry must satisfy so that its text can be told apart again.\<close>

definition spec_ok :: "bytes \<Rightarrow> bytes option \<Rightarrow> extdll_stage \<Rightarrow> 32 word \<Rightarrow> bytes list \<Rightarrow> bool" where
  "spec_ok p initializer stage delay after \<longleftrightarrow>
     124 \<notin> set p \<and> 58 \<notin> set (drop (path_start p) p) \<and> path_start (spec_path p initializer) = path_start p
   \<and> (case initializer of None \<Rightarrow> True | Some f \<Rightarrow> f \<noteq> [] \<and> 124 \<notin> set f)
   \<and> (stage = EXTDLL_STAGE_DELAY \<or> delay = 0)
   \<and> (\<forall>name\<in>set after. bat name 0 \<noteq> 0 \<and> 124 \<notin> set name)"

lemma spec_conditions_ok:
  assumes "spec_ok p initializer stage delay after"
  shows "\<forall>c\<in>set (spec_conditions stage delay after). c \<noteq> [] \<and> 124 \<notin> set c"
proof -
  have "124 \<notin> set (dec_digits (unat delay))" using dec_digits_value [of "unat delay"] by (auto simp: is_digit_def)
  then have "\<forall>c\<in>set (stage_text stage delay). c \<noteq> [] \<and> 124 \<notin> set c"
    by (cases stage) (auto simp: stage_text_def)
  then show ?thesis using assms by (auto simp: spec_conditions_def spec_ok_def)
qed

lemma spec_conditions_loop:
  assumes ok: "spec_ok p initializer stage delay after" and "heap_ok h"
  shows "\<exists>capacity. condition_loop (snd (split_bar (spec_text p initializer (spec_conditions stage delay after))))
       (new_extdll name path initializer) h
     = ((new_extdll name path initializer)\<lparr>ed_stage := stage, ed_delay_ms := delay, ed_after := after,
          ed_after_capacity := capacity\<rparr>, h)"
proof -
  let ?e = "new_extdll name path initializer" and ?cs = "spec_conditions stage delay after"
  have no_bar: "124 \<notin> set (spec_path p initializer)"
    using ok by (auto simp: spec_ok_def spec_path_def split: option.splits)
  have loop: "condition_loop (snd (split_bar (spec_text p initializer ?cs))) ?e h = add_conditions ?cs ?e h"
    unfolding spec_text_def split_bar_conditions [OF no_bar]
    using condition_loop_conditions spec_conditions_ok [OF ok] by (cases ?cs) auto
  have stage: "add_conditions (stage_text stage delay) ?e h = (?e\<lparr>ed_stage := stage, ed_delay_ms := delay\<rparr>, h)"
    using ok by (intro add_stage) (auto simp: new_extdll_def spec_ok_def)
  have "\<forall>name\<in>set after. bat name 0 \<noteq> 0" using ok by (auto simp: spec_ok_def)
  from add_after [OF assms(2) this] obtain e' where
    add: "add_conditions (map (\<lambda>name. B ''after,'' @ name) after) (?e\<lparr>ed_stage := stage, ed_delay_ms := delay\<rparr>) h = (e', h)"
    and e': "with_after (?e\<lparr>ed_stage := stage, ed_delay_ms := delay\<rparr>) after e'" by blast
  from e' show ?thesis unfolding loop unfolding spec_conditions_def add_conditions_append stage prod.case add
    by (auto simp: with_after_def new_extdll_def)
qed

lemma make_room_ok:
  assumes "heap_ok (xs_heap xs)"
  shows "\<exists>xs1. make_room xs = (True, xs1) \<and> xs_dlls xs1 = xs_dlls xs \<and> heap_ok (xs_heap xs1)"
proof (cases "length (xs_dlls xs) \<ge> xs_capacity xs")
  case True
  then show ?thesis using assms by (simp add: make_room_def extdlls_reserve_def xs_alloc_def)
qed (use assms in \<open>simp add: make_room_def\<close>)

text \<open>
  C36: an entry written as text, its path, its initializer and its conditions, is added with
  exactly these fields, and nothing else of the table changes; the conditions keep their order.
\<close>

theorem extdlls_add_spec_roundtrip:
  assumes "spec_ok p initializer stage delay after" and "utf8 p = Some path" and "path \<noteq> []" and "heap_ok (xs_heap xs)"
  shows "\<exists>after_capacity. xs_dlls (extdlls_add_spec utf8 (Some name) (Some (spec_text p initializer (spec_conditions stage delay after))) xs)
     = xs_dlls xs @ [(new_extdll name path initializer)\<lparr>ed_stage := stage, ed_delay_ms := delay, ed_after := after,
          ed_after_capacity := after_capacity\<rparr>]"
proof -
  let ?spec = "spec_text p initializer (spec_conditions stage delay after)"
  obtain xs1 where room: "make_room xs = (True, xs1)" "xs_dlls xs1 = xs_dlls xs" "heap_ok (xs_heap xs1)"
    using make_room_ok [OF assms(4)] by blast
  have alloc: "xs_alloc xs1 = (True, xs1)" using room(3) by (simp add: xs_alloc_def)
  have "124 \<notin> set (spec_path p initializer)"
    using assms(1) by (auto simp: spec_ok_def spec_path_def split: option.splits)
  then obtain condition where split: "split_bar ?spec = (spec_path p initializer, condition)"
    unfolding spec_text_def by (simp add: split_bar_conditions)
  then have condition: "snd (split_bar ?spec) = condition" by simp
  have parts: "split_initializer (spec_path p initializer) = (p, initializer)" and "initializer \<noteq> Some []"
    using assms(1) by (auto intro: split_initializer_path simp: spec_ok_def)
  moreover obtain capacity where "condition_loop condition (new_extdll name path initializer) (xs_heap xs1)
     = ((new_extdll name path initializer)\<lparr>ed_stage := stage, ed_delay_ms := delay, ed_after := after,
          ed_after_capacity := capacity\<rparr>, xs_heap xs1)"
    using spec_conditions_loop [OF assms(1) room(3), of name path] unfolding condition by blast
  ultimately have "xs_dlls (extdlls_add_spec utf8 (Some name) (Some ?spec) xs)
     = xs_dlls xs @ [(new_extdll name path initializer)\<lparr>ed_stage := stage, ed_delay_ms := delay, ed_after := after,
          ed_after_capacity := capacity\<rparr>]"
    using assms(2,3) room alloc split
    by (cases initializer) (simp_all add: extdlls_add_spec_def xs_alloc_if_def)
  then show ?thesis by blast
qed

text \<open>\<open>m.dll:init|delay,70|after,x\<close>\<close>

theorem extdlls_add_spec_roundtrip_witness:
  "\<exists>capacity. xs_dlls (extdlls_add_spec (\<lambda>s. Some (map ucast s)) (Some (B ''m''))
       (Some (spec_text (B ''m.dll'') (Some (B ''init'')) (spec_conditions EXTDLL_STAGE_DELAY 70 [B ''x''])))
       \<lparr>xs_dlls = [], xs_capacity = 0, xs_load_counter = 0, xs_heap = \<lambda>_. True\<rparr>)
     = [(new_extdll (B ''m'') (L ''m.dll'') (Some (B ''init'')))\<lparr>ed_stage := EXTDLL_STAGE_DELAY, ed_delay_ms := 70,
          ed_after := [B ''x''], ed_after_capacity := capacity\<rparr>]"
  using extdlls_add_spec_roundtrip [of "B ''m.dll''" "Some (B ''init'')" EXTDLL_STAGE_DELAY 70 "[B ''x'']"
      "\<lambda>s. Some (map ucast s)" "L ''m.dll''"
      "\<lparr>xs_dlls = [], xs_capacity = 0, xs_load_counter = 0, xs_heap = \<lambda>_. True\<rparr>" "B ''m''"]
  by (simp add: spec_ok_def path_start_def spec_path_def bat_def)

end
