(* ===== verification/ExtLoad.thy ===== *)
theory ExtLoad
  imports ExtOrder
begin

text \<open>
  Loading the external DLLs and unloading them (\<open>src/src/modloader/extdll.c\<close>), with the three
  observers of \<open>src/src/modloader/modloader.c\<close> that call it.

  The system is the record \<open>dll_api\<close>; what it answers may depend on everything that happened
  before, the history \<open>es_log\<close>. The main thread's operations and one iteration of the deferred
  worker are the steps of the machine: the worker runs beside the main thread, and
  \<open>extdlls_unload_all\<close> is cut where it waits for the worker.
\<close>

datatype ext_event =
    Load nat             \<comment> \<open>the entry's load is attempted\<close>
  | Loaded nat nat       \<comment> \<open>\<open>LoadLibraryW\<close> gave this module\<close>
  | Init nat bytes       \<comment> \<open>the exported function is called\<close>
  | Free nat             \<comment> \<open>\<open>FreeLibrary\<close>\<close>

record ext_state =
  es_table :: extdlls
  es_log :: "ext_event list"

record dll_api =
  da_full_path :: "wstr \<Rightarrow> wstr option"
  da_load :: "ext_event list \<Rightarrow> wstr \<Rightarrow> nat option"
  da_proc :: "nat \<Rightarrow> bytes \<Rightarrow> bool"

abbreviation es_dlls :: "ext_state \<Rightarrow> extdll list" where
  "es_dlls st \<equiv> xs_dlls (es_table st)"

definition es_event :: "ext_event \<Rightarrow> ext_state \<Rightarrow> ext_state" where
  "es_event e st = st\<lparr>es_log := es_log st @ [e]\<rparr>"

definition es_set :: "nat \<Rightarrow> extdll \<Rightarrow> ext_state \<Rightarrow> ext_state" where
  "es_set i e st = st\<lparr>es_table := (es_table st)\<lparr>xs_dlls := (es_dlls st)[i := e]\<rparr>\<rparr>"

definition preload_extdll_one :: "dll_api \<Rightarrow> nat \<Rightarrow> ext_state \<Rightarrow> bool \<times> ext_state" where
  "preload_extdll_one api i st =
     (let e = es_dlls st ! i in
      if ed_load_attempted e then (ed_module e \<noteq> None, st)
      else let st = es_event (Load i) (es_set i (e\<lparr>ed_load_attempted := True\<rparr>) st) in
        case da_full_path api (ed_base_path e) of
          None \<Rightarrow> (False, st)
        | Some full_path \<Rightarrow>
            (case da_load api (es_log st) full_path of
               None \<Rightarrow> (False, st)
             | Some m \<Rightarrow>
                 let counter = xs_load_counter (es_table st) + 1;
                     st = es_set i ((es_dlls st ! i)\<lparr>ed_module := Some m, ed_load_order := counter\<rparr>) st
                 in (True, es_event (Loaded i m) (st\<lparr>es_table := (es_table st)\<lparr>xs_load_counter := counter\<rparr>\<rparr>))))"

definition modengine_ext_init :: bytes where "modengine_ext_init = B ''modengine_ext_init''"

text \<open>What the called function answers is only logged, so it is not part of the model.\<close>

definition load_extdll_one :: "dll_api \<Rightarrow> nat \<Rightarrow> ext_state \<Rightarrow> bool \<times> ext_state" where
  "load_extdll_one api i st =
     (case preload_extdll_one api i st of
        (False, st) \<Rightarrow> (False, st)
      | (True, st) \<Rightarrow>
          let e = es_dlls st ! i in
          if ed_init_attempted e then (True, st)
          else let st = es_set i (e\<lparr>ed_init_attempted := True\<rparr>) st; m = the (ed_module e) in
            case ed_initializer e of
              Some f \<Rightarrow> if da_proc api m f then (True, es_event (Init i f) st) else (False, st)
            | None \<Rightarrow>
                if da_proc api m modengine_ext_init then (True, es_event (Init i modengine_ext_init) st)
                else (True, st))"

fun load_stage_loop :: "dll_api \<Rightarrow> extdll_stage \<Rightarrow> nat list \<Rightarrow> ext_state \<Rightarrow> bool \<times> ext_state" where
  "load_stage_loop api stage [] st = (True, st)"
| "load_stage_loop api stage (i # is) st =
     (if ed_stage (es_dlls st ! i) \<noteq> stage then load_stage_loop api stage is st
      else case load_extdll_one api i st of
        (loaded, st) \<Rightarrow> (case load_stage_loop api stage is st of (rest, st) \<Rightarrow> (loaded \<and> rest, st)))"

definition extdlls_load_stage :: "dll_api \<Rightarrow> extdll_stage \<Rightarrow> ext_state \<Rightarrow> bool \<times> ext_state" where
  "extdlls_load_stage api stage st = load_stage_loop api stage [0..<length (es_dlls st)] st"

definition extdlls_has_deferred :: "ext_state \<Rightarrow> bool" where
  "extdlls_has_deferred st \<longleftrightarrow> (\<exists>e\<in>set (es_dlls st). stage_is_deferred (ed_stage e))"

subsection \<open>The machine\<close>

datatype worker = No_worker | Worker_at nat | Worker_done

text \<open>
  The table and its history, the handles (an event is \<open>None\<close> when closed and otherwise whether it
  is signalled), \<open>before_main_result\<close>, and whether \<open>extdlls_unload_all\<close> waits for the worker.
\<close>

record ext_machine =
  em_state :: ext_state
  em_worker :: worker
  em_cancel :: "bool option"
  em_data_ready :: "bool option"
  em_before_main :: int
  em_unloading :: bool

text \<open>\<open>events_ok\<close> are the outcomes of \<open>CreateEventW\<close>, \<open>thread_ok\<close> of \<open>CreateThread\<close>.\<close>

definition extdlls_ensure_events :: "bool \<times> bool \<Rightarrow> ext_machine \<Rightarrow> bool \<times> ext_machine" where
  "extdlls_ensure_events events_ok m =
     (if em_cancel m = None \<and> \<not> fst events_ok then (False, m)
      else let m = (if em_cancel m = None then m\<lparr>em_cancel := Some False\<rparr> else m) in
        if em_data_ready m = None \<and> \<not> snd events_ok then (False, m)
        else (True, if em_data_ready m = None then m\<lparr>em_data_ready := Some False\<rparr> else m))"

definition extdlls_load ::
  "dll_api \<Rightarrow> bool \<Rightarrow> bool \<times> bool \<Rightarrow> bool \<Rightarrow> bool \<Rightarrow> ext_machine \<Rightarrow> bool \<times> ext_machine" where
  "extdlls_load api game events_ok thread_ok early m =
     (if \<not> game then (False, m)
      else case extdlls_load_stage api (if early then EXTDLL_STAGE_EARLY else EXTDLL_STAGE_NORMAL) (em_state m) of
        (loaded, st) \<Rightarrow>
          let m = m\<lparr>em_state := st\<rparr> in
          if early then (loaded, m)
          else if \<not> extdlls_has_deferred st \<or> em_worker m \<noteq> No_worker then (loaded, m)
          else case extdlls_ensure_events events_ok m of
            (False, m) \<Rightarrow> (False, m)
          | (True, m) \<Rightarrow> (loaded, if thread_ok then m\<lparr>em_worker := Worker_at 0\<rparr> else m))"

definition before_game_main :: "dll_api \<Rightarrow> bool \<Rightarrow> ext_machine \<Rightarrow> ext_machine" where
  "before_game_main api game m =
     (case extdlls_load api game (True, True) True True m of
        (loaded, m) \<Rightarrow> m\<lparr>em_before_main := (if loaded then 1 else - 1)\<rparr>)"

definition load_extdlls_after_runtime ::
  "dll_api \<Rightarrow> bool \<Rightarrow> bool \<times> bool \<Rightarrow> bool \<Rightarrow> ext_machine \<Rightarrow> ext_machine" where
  "load_extdlls_after_runtime api game events_ok thread_ok m =
     (if em_before_main m = 1 then snd (extdlls_load api game events_ok thread_ok False m) else m)"

definition extdlls_load_data_ready :: "ext_machine \<Rightarrow> ext_machine" where
  "extdlls_load_data_ready m = (if em_data_ready m = None then m else m\<lparr>em_data_ready := Some True\<rparr>)"

definition load_extdlls_after_data_ready :: "ext_machine \<Rightarrow> ext_machine" where
  "load_extdlls_after_data_ready m = (if em_before_main m = 1 then extdlls_load_data_ready m else m)"

definition extdlls_cancelled :: "ext_machine \<Rightarrow> bool" where
  "extdlls_cancelled m \<longleftrightarrow> em_cancel m = Some True"

text \<open>The wait of one iteration: \<open>Some go\<close> when it returns, \<open>None\<close> while it blocks.\<close>

definition wait_for_data_ready :: "ext_machine \<Rightarrow> bool option" where
  "wait_for_data_ready m =
     (if em_cancel m = None \<or> em_data_ready m = None then Some False
      else if em_cancel m = Some True then Some False
      else if em_data_ready m = Some True then Some True else None)"

definition worker_wait :: "bool \<Rightarrow> extdll \<Rightarrow> ext_machine \<Rightarrow> bool option" where
  "worker_wait elapsed e m =
     (if ed_stage e = EXTDLL_STAGE_DATA_READY then wait_for_data_ready m
      else if ed_delay_ms e \<noteq> 0 then
        (if em_cancel m \<noteq> Some False then Some False else if elapsed then Some True else None)
      else Some True)"

text \<open>One iteration of \<open>extdlls_load_deferred\<close>; \<open>elapsed\<close> tells whether the delay is over.\<close>

definition worker_iteration :: "dll_api \<Rightarrow> bool \<Rightarrow> nat \<Rightarrow> ext_machine \<Rightarrow> ext_machine option" where
  "worker_iteration api elapsed i m =
     (if i \<ge> length (es_dlls (em_state m)) then Some (m\<lparr>em_worker := Worker_done\<rparr>)
      else let e = es_dlls (em_state m) ! i in
        if \<not> stage_is_deferred (ed_stage e) then Some (m\<lparr>em_worker := Worker_at (Suc i)\<rparr>)
        else case worker_wait elapsed e m of
          None \<Rightarrow> None
        | Some go \<Rightarrow>
            if \<not> go \<or> extdlls_cancelled m then Some (m\<lparr>em_worker := Worker_done\<rparr>)
            else Some (m\<lparr>em_state := snd (load_extdll_one api i (em_state m)), em_worker := Worker_at (Suc i)\<rparr>))"

subsection \<open>Unloading\<close>

fun latest_loop :: "extdll list \<Rightarrow> nat list \<Rightarrow> nat option \<Rightarrow> nat option" where
  "latest_loop dlls [] best = best"
| "latest_loop dlls (i # is) best =
     latest_loop dlls is
       (if ed_module (dlls ! i) \<noteq> None
           \<and> (case best of None \<Rightarrow> True | Some b \<Rightarrow> ed_load_order (dlls ! i) > ed_load_order (dlls ! b))
        then Some i else best)"

definition loaded_count :: "extdll list \<Rightarrow> nat" where
  "loaded_count dlls = length (filter (\<lambda>e. ed_module e \<noteq> None) dlls)"

lemma loaded_count_less:
  "i < length dlls \<Longrightarrow> ed_module (dlls ! i) \<noteq> None
    \<Longrightarrow> loaded_count (dlls[i := (dlls ! i)\<lparr>ed_module := None, ed_load_order := 0\<rparr>]) < loaded_count dlls"
  unfolding loaded_count_def by (induction dlls arbitrary: i) (auto split: nat.split)

lemma latest_loop_Some:
  "latest_loop dlls is best = Some i \<Longrightarrow> best = Some i \<or> i \<in> set is \<and> ed_module (dlls ! i) \<noteq> None"
  by (induction "is" arbitrary: best) (fastforce split: if_splits)+

function unload_loop :: "extdll list \<Rightarrow> ext_event list \<Rightarrow> extdll list \<times> ext_event list" where
  "unload_loop dlls log =
     (case latest_loop dlls [0..<length dlls] None of
        None \<Rightarrow> (dlls, log)
      | Some i \<Rightarrow> unload_loop (dlls[i := (dlls ! i)\<lparr>ed_module := None, ed_load_order := 0\<rparr>])
          (log @ [Free (the (ed_module (dlls ! i)))]))"
  by pat_completeness auto
termination
  by (relation "measure (loaded_count \<circ> fst)")
    (auto dest!: latest_loop_Some simp del: not_None_eq intro!: loaded_count_less)

declare unload_loop.simps [simp del]

text \<open>Until the wait for the worker, and from there.\<close>

definition unload_begin :: "ext_machine \<Rightarrow> ext_machine" where
  "unload_begin m = m\<lparr>em_cancel := map_option (\<lambda>_. True) (em_cancel m), em_unloading := True\<rparr>"

definition unload_finish :: "ext_machine \<Rightarrow> ext_machine" where
  "unload_finish m =
     (let st = em_state m in
      m\<lparr>em_state := st\<lparr>es_log := snd (unload_loop (es_dlls st) (es_log st)),
          es_table := (es_table st)\<lparr>xs_dlls := [], xs_capacity := 0, xs_load_counter := 0\<rparr>\<rparr>,
        em_worker := No_worker, em_cancel := None, em_data_ready := None, em_unloading := False\<rparr>)"

definition ext_start :: "extdlls \<Rightarrow> ext_machine" where
  "ext_start xs = \<lparr>em_state = \<lparr>es_table = xs, es_log = []\<rparr>, em_worker = No_worker, em_cancel = None,
     em_data_ready = None, em_before_main = 0, em_unloading = False\<rparr>"

inductive ext_step :: "dll_api \<Rightarrow> ext_machine \<Rightarrow> ext_machine \<Rightarrow> bool" for api :: dll_api where
  ext_before_main: "\<not> em_unloading m \<Longrightarrow> ext_step api m (before_game_main api game m)"
| ext_runtime: "\<not> em_unloading m \<Longrightarrow> ext_step api m (load_extdlls_after_runtime api game events_ok thread_ok m)"
| ext_data_ready: "\<not> em_unloading m \<Longrightarrow> ext_step api m (load_extdlls_after_data_ready m)"
| ext_worker: "em_worker m = Worker_at i \<Longrightarrow> worker_iteration api elapsed i m = Some m' \<Longrightarrow> ext_step api m m'"
| ext_unload: "\<not> em_unloading m \<Longrightarrow> ext_step api m (unload_begin m)"
| ext_unloaded: "em_unloading m \<Longrightarrow> \<forall>i. em_worker m \<noteq> Worker_at i \<Longrightarrow> ext_step api m (unload_finish m)"

inductive ext_reach :: "dll_api \<Rightarrow> extdlls \<Rightarrow> ext_machine \<Rightarrow> bool" for api :: dll_api and xs :: extdlls where
  ext_reach_start: "ext_reach api xs (ext_start xs)"
| ext_reach_step: "ext_reach api xs m \<Longrightarrow> ext_step api m m' \<Longrightarrow> ext_reach api xs m'"

subsection \<open>What has happened\<close>

definition loads :: "ext_event list \<Rightarrow> nat list" where
  "loads log = List.map_filter (\<lambda>e. case e of Load i \<Rightarrow> Some i | _ \<Rightarrow> None) log"

definition loaded :: "ext_event list \<Rightarrow> (nat \<times> nat) list" where
  "loaded log = List.map_filter (\<lambda>e. case e of Loaded i m \<Rightarrow> Some (i, m) | _ \<Rightarrow> None) log"

definition freed :: "ext_event list \<Rightarrow> nat list" where
  "freed log = List.map_filter (\<lambda>e. case e of Free m \<Rightarrow> Some m | _ \<Rightarrow> None) log"

lemma history_simps [simp]:
  "loads [] = []" "loads (xs @ ys) = loads xs @ loads ys" "loads [e] = (case e of Load i \<Rightarrow> [i] | _ \<Rightarrow> [])"
  "loaded [] = []" "loaded (xs @ ys) = loaded xs @ loaded ys" "loaded [e] = (case e of Loaded i m \<Rightarrow> [(i, m)] | _ \<Rightarrow> [])"
  "freed [] = []" "freed (xs @ ys) = freed xs @ freed ys" "freed [e] = (case e of Free m \<Rightarrow> [m] | _ \<Rightarrow> [])"
  by (simp_all add: loads_def loaded_def freed_def List.map_filter_def split: ext_event.split)

text \<open>The fields that loading does not change.\<close>

definition static :: "extdll \<Rightarrow> extdll" where
  "static e = e\<lparr>ed_module := None, ed_load_order := 0, ed_load_attempted := False, ed_init_attempted := False\<rparr>"

definition deps_first :: "extdll list \<Rightarrow> nat list \<Rightarrow> bool" where
  "deps_first dlls l \<longleftrightarrow> distinct l \<and> (\<forall>k<length l. \<forall>d. (l ! k, d) \<in> dep_rel dlls \<longrightarrow> d \<in> set (take k l))"

lemma deps_first_Nil [simp]: "deps_first dlls []"
  by (simp add: deps_first_def)

lemma deps_first_snoc:
  "deps_first dlls l \<Longrightarrow> i \<notin> set l \<Longrightarrow> \<forall>d. (i, d) \<in> dep_rel dlls \<longrightarrow> d \<in> set l \<Longrightarrow> deps_first dlls (l @ [i])"
  by (auto simp: deps_first_def nth_append less_Suc_eq)

text \<open>
  The table agrees with the history: the entries tried and their order, and the modules with the
  numbers \<open>InterlockedIncrement\<close> gave them.
\<close>

definition es_inv :: "extdll list \<Rightarrow> ext_state \<Rightarrow> bool" where
  "es_inv dlls st \<longleftrightarrow> map static (es_dlls st) = map static dlls
   \<and> (\<forall>i<length dlls. ed_load_attempted (es_dlls st ! i) \<longleftrightarrow> i \<in> set (loads (es_log st)))
   \<and> deps_first dlls (loads (es_log st))
   \<and> set (loads (es_log st)) \<subseteq> {..<length dlls}
   \<and> (\<forall>i<length dlls. \<forall>m. ed_module (es_dlls st ! i) = Some m \<longleftrightarrow> (i, m) \<in> set (loaded (es_log st)))
   \<and> (\<forall>k<length (loaded (es_log st)). ed_load_order (es_dlls st ! fst (loaded (es_log st) ! k)) = of_nat (Suc k))
   \<and> xs_load_counter (es_table st) = of_nat (length (loaded (es_log st)))
   \<and> distinct (map fst (loaded (es_log st))) \<and> fst ` set (loaded (es_log st)) \<subseteq> set (loads (es_log st))
   \<and> freed (es_log st) = []"

lemma static_length: "map static as = map static bs \<Longrightarrow> length as = length bs"
  by (rule map_eq_imp_length_eq)

lemma static_sel:
  "ed_stage (static e) = ed_stage e" "ed_name (static e) = ed_name e" "ed_after (static e) = ed_after e"
  by (simp_all add: static_def)

lemma static_nth:
  assumes "map static as = map static bs" and "i < length bs"
  shows "ed_stage (as ! i) = ed_stage (bs ! i)"
proof -
  have "static (as ! i) = static (bs ! i)"
    using arg_cong [OF assms(1), of "\<lambda>l. l ! i"] assms(2) static_length [OF assms(1)] by simp
  then show ?thesis by (metis static_sel(1))
qed

lemma static_update: "static e = static (as ! i) \<Longrightarrow> map static (as[i := e]) = map static as"
  by (cases "i < length as") (auto simp: map_update list_update_same_conv list_update_beyond)

lemma es_inv_set:
  assumes "es_inv dlls st" and "static e = static (es_dlls st ! i)"
    and "ed_load_attempted e = ed_load_attempted (es_dlls st ! i)" "ed_module e = ed_module (es_dlls st ! i)"
      "ed_load_order e = ed_load_order (es_dlls st ! i)"
  shows "es_inv dlls (es_set i e st)"
proof -
  have nth: "ed_load_attempted ((es_dlls st)[i := e] ! j) = ed_load_attempted (es_dlls st ! j)"
    "ed_module ((es_dlls st)[i := e] ! j) = ed_module (es_dlls st ! j)"
    "ed_load_order ((es_dlls st)[i := e] ! j) = ed_load_order (es_dlls st ! j)" for j
    using assms(3-5) by (cases "i < length (es_dlls st)"; cases "j = i"; simp add: list_update_beyond)+
  show ?thesis using assms(1) unfolding es_inv_def es_set_def
    by (simp add: nth static_update [OF assms(2)])
qed

lemma es_inv_event:
  assumes "es_inv dlls st" and "\<forall>j. e \<noteq> Load j \<and> e \<noteq> Free j" "\<forall>j m. e \<noteq> Loaded j m"
  shows "es_inv dlls (es_event e st)"
proof -
  have e: "loads [e] = []" "loaded [e] = []" "freed [e] = []" using assms(2,3) by (auto split: ext_event.split)
  then show ?thesis using assms(1) unfolding es_inv_def es_event_def
    by (simp add: e del: history_simps(3,6,9))
qed

text \<open>An entry is tried, and a module is loaded for it.\<close>

lemma es_inv_try:
  assumes inv: "es_inv dlls st" and i: "i < length dlls" and fresh: "\<not> ed_load_attempted (es_dlls st ! i)"
    and deps: "\<forall>d. (i, d) \<in> dep_rel dlls \<longrightarrow> d \<in> set (loads (es_log st))"
  defines "st' \<equiv> es_event (Load i) (es_set i ((es_dlls st ! i)\<lparr>ed_load_attempted := True\<rparr>) st)"
  shows "es_inv dlls st'" "loads (es_log st') = loads (es_log st) @ [i]" "loaded (es_log st') = loaded (es_log st)"
    "i \<notin> fst ` set (loaded (es_log st'))"
proof -
  let ?e = "(es_dlls st ! i)\<lparr>ed_load_attempted := True\<rparr>"
  have len: "length (es_dlls st) = length dlls" using inv by (auto simp: es_inv_def intro: static_length)
  have nth: "ed_load_attempted ((es_dlls st)[i := ?e] ! j) = (j = i \<or> ed_load_attempted (es_dlls st ! j))"
    "ed_module ((es_dlls st)[i := ?e] ! j) = ed_module (es_dlls st ! j)"
    "ed_load_order ((es_dlls st)[i := ?e] ! j) = ed_load_order (es_dlls st ! j)" for j
    using i len by (cases "j = i"; simp)+
  have new: "i \<notin> set (loads (es_log st))" using inv i fresh by (simp add: es_inv_def)
  have static: "map static ((es_dlls st)[i := ?e]) = map static (es_dlls st)"
    by (intro static_update) (simp add: static_def)
  have first: "deps_first dlls (loads (es_log st) @ [i])"
    using inv deps new by (intro deps_first_snoc) (auto simp: es_inv_def)
  show "loads (es_log st') = loads (es_log st) @ [i]" "loaded (es_log st') = loaded (es_log st)"
    by (simp_all add: st'_def es_event_def es_set_def)
  show "es_inv dlls st'"
    using inv i first unfolding es_inv_def st'_def es_event_def es_set_def
    by (simp add: nth static) blast
  show "i \<notin> fst ` set (loaded (es_log st'))"
    using new inv by (auto simp: st'_def es_event_def es_set_def es_inv_def)
qed

lemma es_inv_loaded:
  fixes m :: nat
  assumes inv: "es_inv dlls st" and i: "i < length dlls" and tried: "i \<in> set (loads (es_log st))"
    and new: "i \<notin> fst ` set (loaded (es_log st))"
  defines "counter \<equiv> xs_load_counter (es_table st) + 1"
  defines "st1 \<equiv> es_set i ((es_dlls st ! i)\<lparr>ed_module := Some m, ed_load_order := counter\<rparr>) st"
  defines "st' \<equiv> es_event (Loaded i m) (st1\<lparr>es_table := (es_table st1)\<lparr>xs_load_counter := counter\<rparr>\<rparr>)"
  shows "es_inv dlls st'" "loads (es_log st') = loads (es_log st)"
proof -
  let ?e = "(es_dlls st ! i)\<lparr>ed_module := Some m, ed_load_order := counter\<rparr>"
  let ?l = "loaded (es_log st)"
  have len: "length (es_dlls st) = length dlls" using inv by (auto simp: es_inv_def intro: static_length)
  have nth: "ed_load_attempted ((es_dlls st)[i := ?e] ! j) = ed_load_attempted (es_dlls st ! j)"
    "ed_module ((es_dlls st)[i := ?e] ! j) = (if j = i then Some m else ed_module (es_dlls st ! j))"
    "ed_load_order ((es_dlls st)[i := ?e] ! j) = (if j = i then counter else ed_load_order (es_dlls st ! j))" for j
    using i len by (cases "j = i"; simp)+
  have static: "map static ((es_dlls st)[i := ?e]) = map static (es_dlls st)"
    by (intro static_update) (simp add: static_def)
  have counter: "counter = of_nat (Suc (length ?l))" using inv by (simp add: es_inv_def counter_def)
  have other: "fst (?l ! k) \<noteq> i" if "k < length ?l" for k using new that by (metis image_eqI nth_mem)
  have order: "\<forall>k<length (?l @ [(i, m)]). ed_load_order ((es_dlls st)[i := ?e] ! fst ((?l @ [(i, m)]) ! k)) = of_nat (Suc k)"
  proof (intro allI impI)
    fix k assume k: "k < length (?l @ [(i, m)])"
    show "ed_load_order ((es_dlls st)[i := ?e] ! fst ((?l @ [(i, m)]) ! k)) = of_nat (Suc k)"
    proof (cases "k < length ?l")
      case True
      then have at: "(?l @ [(i, m)]) ! k = ?l ! k" by (simp add: nth_append)
      have "ed_load_order (es_dlls st ! fst (?l ! k)) = of_nat (Suc k)" using inv True unfolding es_inv_def by blast
      then show ?thesis unfolding at nth(3) using other [OF True] by (simp only: if_False)
    next
      case False
      with k have "k = length ?l" by simp
      then have at: "(?l @ [(i, m)]) ! k = (i, m)" by simp
      show ?thesis unfolding at fst_conv nth(3) by (simp only: refl if_True counter \<open>k = length ?l\<close>)
    qed
  qed
  have modules: "\<forall>j<length dlls. \<forall>m'. ed_module ((es_dlls st)[i := ?e] ! j) = Some m' \<longleftrightarrow> (j, m') \<in> set (?l @ [(i, m)])"
    using inv new by (auto simp: nth es_inv_def image_iff)
  have st': "es_dlls st' = (es_dlls st)[i := ?e]" "xs_load_counter (es_table st') = counter"
    "loaded (es_log st') = ?l @ [(i, m)]" "freed (es_log st') = freed (es_log st)"
    by (simp_all add: st'_def st1_def es_event_def es_set_def)
  show loads: "loads (es_log st') = loads (es_log st)"
    by (simp add: st'_def st1_def es_event_def es_set_def)
  have length: "counter = of_nat (length (?l @ [(i, m)]))" unfolding counter by simp
  show "es_inv dlls st'"
    unfolding es_inv_def st' loads
  proof (intro conjI)
    show "counter = of_nat (length (?l @ [(i, m)]))" by (rule length)
    show "\<forall>j<length dlls. \<forall>m'. ed_module ((es_dlls st)[i := ?e] ! j) = Some m' \<longleftrightarrow> (j, m') \<in> set (?l @ [(i, m)])"
      by (rule modules)
    show "\<forall>k<length (?l @ [(i, m)]). ed_load_order ((es_dlls st)[i := ?e] ! fst ((?l @ [(i, m)]) ! k)) = of_nat (Suc k)"
      by (rule order)
    show "map static ((es_dlls st)[i := ?e]) = map static dlls" unfolding static using inv unfolding es_inv_def by blast
    show "\<forall>j<length dlls. ed_load_attempted ((es_dlls st)[i := ?e] ! j) \<longleftrightarrow> j \<in> set (loads (es_log st))"
      unfolding nth(1) using inv unfolding es_inv_def by blast
  qed (use inv new tried in \<open>auto simp: es_inv_def\<close>)
qed

lemma preload_spec:
  assumes inv: "es_inv dlls st" and i: "i < length dlls"
    and deps: "\<forall>d. (i, d) \<in> dep_rel dlls \<longrightarrow> d \<in> set (loads (es_log st))"
    and run: "preload_extdll_one api i st = (ok, st')"
  shows "es_inv dlls st' \<and> set (loads (es_log st')) = insert i (set (loads (es_log st)))"
proof (cases "ed_load_attempted (es_dlls st ! i)")
  case True
  then have "i \<in> set (loads (es_log st))" using inv i by (simp add: es_inv_def)
  with True run inv show ?thesis by (auto simp: preload_extdll_one_def)
next
  case False
  let ?st1 = "es_event (Load i) (es_set i ((es_dlls st ! i)\<lparr>ed_load_attempted := True\<rparr>) st)"
  note attempt = es_inv_try [OF inv i False deps]
  have tried: "i \<in> set (loads (es_log ?st1))" using attempt(2) by simp
  note complete = es_inv_loaded [OF attempt(1) i tried attempt(4)]
  from run False have "st' = ?st1 \<or> (\<exists>m. st' = (let counter = xs_load_counter (es_table ?st1) + 1;
        st2 = es_set i ((es_dlls ?st1 ! i)\<lparr>ed_module := Some m, ed_load_order := counter\<rparr>) ?st1
      in es_event (Loaded i m) (st2\<lparr>es_table := (es_table st2)\<lparr>xs_load_counter := counter\<rparr>\<rparr>)))"
    by (auto simp: preload_extdll_one_def Let_def split: option.splits)
  then show ?thesis using attempt(1,2) complete by (auto simp: Let_def)
qed

lemma load_one_spec:
  assumes "es_inv dlls st" and "i < length dlls"
    and "\<forall>d. (i, d) \<in> dep_rel dlls \<longrightarrow> d \<in> set (loads (es_log st))"
    and run: "load_extdll_one api i st = (ok, st')"
  shows "es_inv dlls st' \<and> set (loads (es_log st')) = insert i (set (loads (es_log st)))"
proof -
  obtain pre st1 where preload: "preload_extdll_one api i st = (pre, st1)" by fastforce
  note one = preload_spec [OF assms(1-3) preload]
  let ?st2 = "es_set i ((es_dlls st1 ! i)\<lparr>ed_init_attempted := True\<rparr>) st1"
  have two: "es_inv dlls ?st2" using one by (intro es_inv_set) (auto simp: static_def)
  have log: "es_log ?st2 = es_log st1" by (simp add: es_set_def)
  have three: "es_inv dlls (es_event (Init i f) ?st2)" for f using two by (rule es_inv_event) simp_all
  have "st' = st1 \<or> st' = ?st2 \<or> (\<exists>f. st' = es_event (Init i f) ?st2)"
    using run preload by (auto simp: load_extdll_one_def Let_def split: bool.splits if_splits option.splits)
  then show ?thesis using one two three log by (auto simp: es_event_def)
qed

text \<open>A whole stage: its entries are tried in order, and nothing else.\<close>

lemma load_stage_spec:
  assumes "es_inv dlls st" and "\<forall>i\<in>set is. i < length dlls" and "sorted is" "distinct is"
    and "\<forall>i\<in>set is. ed_stage (dlls ! i) = stage \<longrightarrow> (\<forall>d. (i, d) \<in> dep_rel dlls \<longrightarrow>
          d \<in> set (loads (es_log st)) \<or> d \<in> set is \<and> d < i \<and> ed_stage (dlls ! d) = stage)"
    and "load_stage_loop api stage is st = (ok, st')"
  shows "es_inv dlls st' \<and>
     set (loads (es_log st')) = set (loads (es_log st)) \<union> {i\<in>set is. ed_stage (dlls ! i) = stage}"
  using assms
proof (induction "is" arbitrary: st ok)
  case (Cons i "is" st ok)
  have i: "i < length dlls" using Cons.prems(2) by simp
  have stage: "ed_stage (es_dlls st ! i) = ed_stage (dlls ! i)"
    using Cons.prems(1) i by (intro static_nth) (simp add: es_inv_def)
  have below: "d \<notin> set is" if "d < i" for d using Cons.prems(3,4) that by auto
  show ?case
  proof (cases "ed_stage (dlls ! i) = stage")
    case False
    have "es_inv dlls st' \<and> set (loads (es_log st')) = set (loads (es_log st)) \<union> {i\<in>set is. ed_stage (dlls ! i) = stage}"
      by (rule Cons.IH [OF Cons.prems(1)]) (use Cons.prems False stage in auto)
    with False show ?thesis by auto
  next
    case True
    obtain one st1 where load: "load_extdll_one api i st = (one, st1)" by fastforce
    have "\<forall>d. (i, d) \<in> dep_rel dlls \<longrightarrow> d \<in> set (loads (es_log st))"
      using Cons.prems(5) True below by auto
    note first = load_one_spec [OF Cons.prems(1) i this load]
    obtain rest where "load_stage_loop api stage is st1 = (rest, st')"
      using Cons.prems(6) True stage load by (auto split: prod.splits)
    then have "es_inv dlls st' \<and> set (loads (es_log st')) = set (loads (es_log st1)) \<union> {i\<in>set is. ed_stage (dlls ! i) = stage}"
      by (rule Cons.IH [rotated -1]) (use Cons.prems first in auto)
    with True first show ?thesis by auto
  qed
qed simp

subsection \<open>No DLL before its dependencies\<close>

text \<open>What the machine's variables say of the entries tried; after \<open>extdlls_unload_all\<close> the table is empty.\<close>

definition em_inv :: "extdll list \<Rightarrow> ext_machine \<Rightarrow> bool" where
  "em_inv dlls m \<longleftrightarrow>
     (es_dlls (em_state m) = [] \<and> deps_first dlls (loads (es_log (em_state m))))
   \<or> (es_inv dlls (em_state m)
      \<and> (em_before_main m = 1 \<longrightarrow>
           (\<forall>i<length dlls. ed_stage (dlls ! i) = EXTDLL_STAGE_EARLY \<longrightarrow> i \<in> set (loads (es_log (em_state m)))))
      \<and> (em_worker m \<noteq> No_worker \<longrightarrow>
           (\<forall>i<length dlls. \<not> stage_is_deferred (ed_stage (dlls ! i)) \<longrightarrow> i \<in> set (loads (es_log (em_state m)))))
      \<and> (\<forall>j. em_worker m = Worker_at j \<longrightarrow> (\<forall>i<length dlls. i < j \<longrightarrow> i \<in> set (loads (es_log (em_state m))))))"

definition well_ordered :: "extdll list \<Rightarrow> bool" where
  "well_ordered dlls \<longleftrightarrow> (\<forall>i d. (i, d) \<in> dep_rel dlls \<longrightarrow> d < i) \<and> (\<forall>i<length dlls. phase_ok dlls i)"

lemma not_deferred: "\<not> stage_is_deferred s \<longleftrightarrow> s = EXTDLL_STAGE_EARLY \<or> s = EXTDLL_STAGE_NORMAL"
  by (cases s) (auto simp: stage_is_deferred_def less_extdll_stage_def)

lemma load_stage_ordered:
  assumes "es_inv dlls st" and "well_ordered dlls" and "\<not> stage_is_deferred stage"
    and "\<forall>d<length dlls. ed_stage (dlls ! d) < stage \<longrightarrow> d \<in> set (loads (es_log st))"
    and "extdlls_load_stage api stage st = (ok, st')"
  shows "es_inv dlls st' \<and>
     set (loads (es_log st')) = set (loads (es_log st)) \<union> {i. i < length dlls \<and> ed_stage (dlls ! i) = stage}"
proof -
  have len: "length (es_dlls st) = length dlls" using assms(1) by (auto simp: es_inv_def intro: static_length)
  have deps: "d \<in> set (loads (es_log st)) \<or> d \<in> set [0..<length dlls] \<and> d < i \<and> ed_stage (dlls ! d) = stage"
    if "i < length dlls" "ed_stage (dlls ! i) = stage" "(i, d) \<in> dep_rel dlls" for i d
  proof -
    have d: "d < i" "d < length dlls" using assms(2) that(3) dep_rel_lt [OF that(3)] by (auto simp: well_ordered_def)
    have "phase_ok dlls i" using assms(2) that(1) by (simp add: well_ordered_def)
    then have "\<not> stage_is_deferred (ed_stage (dlls ! d))"
      "stage = EXTDLL_STAGE_EARLY \<longrightarrow> ed_stage (dlls ! d) = EXTDLL_STAGE_EARLY"
      using that assms(3) by (auto simp: phase_ok_def)
    then have "ed_stage (dlls ! d) = stage \<or> ed_stage (dlls ! d) < stage"
      using assms(3) by (auto simp: not_deferred less_extdll_stage_def)
    then show ?thesis using assms(4) d by auto
  qed
  show ?thesis
    using load_stage_spec [OF assms(1), of "[0..<length dlls]" stage api ok st'] deps assms(5)
    by (auto simp: extdlls_load_stage_def len)
qed

lemma load_empty: "es_dlls st = [] \<Longrightarrow> extdlls_load_stage api stage st = (True, st)"
  by (simp add: extdlls_load_stage_def)

lemma ensure_events_frame:
  "extdlls_ensure_events ok m = (made, m') \<Longrightarrow> em_state m' = em_state m \<and> em_worker m' = em_worker m
     \<and> em_before_main m' = em_before_main m \<and> em_unloading m' = em_unloading m"
  by (auto simp: extdlls_ensure_events_def Let_def split: if_splits)

lemma em_inv_frame:
  "em_inv dlls m \<Longrightarrow> em_state m' = em_state m \<Longrightarrow> em_worker m' = em_worker m \<Longrightarrow> em_before_main m' = em_before_main m
    \<Longrightarrow> em_inv dlls m'"
  by (simp add: em_inv_def)

lemma em_inv_first: "em_inv dlls m \<Longrightarrow> deps_first dlls (loads (es_log (em_state m)))"
  by (auto simp: em_inv_def es_inv_def)

lemma before_main_inv:
  assumes inv: "em_inv dlls m" and "well_ordered dlls"
  shows "em_inv dlls (before_game_main api game m)"
proof (cases game)
  case False
  then show ?thesis using inv by (auto simp: before_game_main_def extdlls_load_def em_inv_def)
next
  case True
  obtain ok st where load: "extdlls_load_stage api EXTDLL_STAGE_EARLY (em_state m) = (ok, st)" by fastforce
  then have m': "before_game_main api game m = m\<lparr>em_state := st, em_before_main := (if ok then 1 else - 1)\<rparr>"
    using True by (simp add: before_game_main_def extdlls_load_def)
  show ?thesis
  proof (cases "es_dlls (em_state m) = []")
    case True
    then show ?thesis using em_inv_first [OF inv] load m' load_empty [OF True] by (simp add: em_inv_def)
  next
    case False
    then have es: "es_inv dlls (em_state m)" using inv by (simp add: em_inv_def)
    have "es_inv dlls st \<and> set (loads (es_log st)) = set (loads (es_log (em_state m)))
        \<union> {i. i < length dlls \<and> ed_stage (dlls ! i) = EXTDLL_STAGE_EARLY}"
      by (rule load_stage_ordered [OF es assms(2) _ _ load]) (auto simp: not_deferred less_extdll_stage_def)
    then show ?thesis using inv False unfolding m' by (auto simp: em_inv_def)
  qed
qed

lemma after_runtime_eq:
  assumes "extdlls_load_stage api EXTDLL_STAGE_NORMAL (em_state m) = (ok, st)"
    and "extdlls_ensure_events events_ok (m\<lparr>em_state := st\<rparr>) = (made, me)" and "game" "em_before_main m = 1"
  shows "load_extdlls_after_runtime api game events_ok thread_ok m =
     (if \<not> extdlls_has_deferred st \<or> em_worker m \<noteq> No_worker then m\<lparr>em_state := st\<rparr>
      else if made \<and> thread_ok then me\<lparr>em_worker := Worker_at 0\<rparr> else me)"
  using assms by (cases made) (simp_all add: load_extdlls_after_runtime_def extdlls_load_def Let_def)

lemma after_runtime_inv:
  assumes inv: "em_inv dlls m" and "well_ordered dlls"
  shows "em_inv dlls (load_extdlls_after_runtime api game events_ok thread_ok m)"
proof (cases "game \<and> em_before_main m = 1")
  case False
  then show ?thesis using inv by (auto simp: load_extdlls_after_runtime_def extdlls_load_def)
next
  case True
  obtain ok st where load: "extdlls_load_stage api EXTDLL_STAGE_NORMAL (em_state m) = (ok, st)" by fastforce
  obtain made me where events: "extdlls_ensure_events events_ok (m\<lparr>em_state := st\<rparr>) = (made, me)" by fastforce
  note frame = ensure_events_frame [OF events, simplified]
  let ?m' = "load_extdlls_after_runtime api game events_ok thread_ok m"
  have game "em_before_main m = 1" using True by simp_all
  note eq = after_runtime_eq [OF load events this, of thread_ok]
  have m': "em_state ?m' = st" "em_before_main ?m' = em_before_main m"
    "em_worker ?m' = em_worker m \<or> em_worker ?m' = Worker_at 0"
    unfolding eq using frame by simp_all
  show ?thesis
  proof (cases "es_dlls (em_state m) = []")
    case True
    then have "st = em_state m" using load load_empty [OF True] by simp
    with True em_inv_first [OF inv] m'(1) show ?thesis by (simp add: em_inv_def)
  next
    case False
    then have es: "es_inv dlls (em_state m)" and
      early: "\<forall>i<length dlls. ed_stage (dlls ! i) = EXTDLL_STAGE_EARLY \<longrightarrow> i \<in> set (loads (es_log (em_state m)))"
      using inv True by (simp_all add: em_inv_def)
    have st: "es_inv dlls st \<and> set (loads (es_log st)) = set (loads (es_log (em_state m)))
        \<union> {i. i < length dlls \<and> ed_stage (dlls ! i) = EXTDLL_STAGE_NORMAL}"
      by (rule load_stage_ordered [OF es assms(2) _ _ load])
        (use early in \<open>auto simp: not_deferred less_extdll_stage_def elim: stage_number.elims\<close>)
    have normal: "\<forall>i<length dlls. \<not> stage_is_deferred (ed_stage (dlls ! i)) \<longrightarrow> i \<in> set (loads (es_log st))"
      using st early by (auto simp: not_deferred)
    have "\<forall>j. em_worker ?m' = Worker_at j \<longrightarrow> (\<forall>i<length dlls. i < j \<longrightarrow> i \<in> set (loads (es_log st)))"
      using m'(3) st inv False by (auto simp: em_inv_def)
    then show ?thesis using st normal early m' by (auto simp: em_inv_def)
  qed
qed

lemma worker_inv:
  assumes inv: "em_inv dlls m" and "well_ordered dlls" and at: "em_worker m = Worker_at i"
    and step: "worker_iteration api elapsed i m = Some m'"
  shows "em_inv dlls m'"
proof (cases "es_dlls (em_state m) = []")
  case True
  then have "em_state m' = em_state m" using step by (auto simp: worker_iteration_def)
  with True em_inv_first [OF inv] show ?thesis by (simp add: em_inv_def)
next
  case False
  then have es: "es_inv dlls (em_state m)" and
    main: "\<forall>j<length dlls. \<not> stage_is_deferred (ed_stage (dlls ! j)) \<longrightarrow> j \<in> set (loads (es_log (em_state m)))" and
    early: "em_before_main m = 1 \<longrightarrow>
       (\<forall>j<length dlls. ed_stage (dlls ! j) = EXTDLL_STAGE_EARLY \<longrightarrow> j \<in> set (loads (es_log (em_state m))))" and
    before: "\<forall>j<length dlls. j < i \<longrightarrow> j \<in> set (loads (es_log (em_state m)))"
    using inv at by (simp_all add: em_inv_def)
  have len: "length (es_dlls (em_state m)) = length dlls" using es by (auto simp: es_inv_def intro: static_length)
  show ?thesis
  proof (cases "i < length dlls \<and> stage_is_deferred (ed_stage (dlls ! i)) \<and> em_state m' \<noteq> em_state m")
    case True
    obtain ok st where load: "load_extdll_one api i (em_state m) = (ok, st)" by fastforce
    have m': "em_state m' = st" "em_worker m' = Worker_at (Suc i)" "em_before_main m' = em_before_main m"
      using step True load by (auto simp: worker_iteration_def Let_def split: if_splits option.splits)
    have "\<forall>d. (i, d) \<in> dep_rel dlls \<longrightarrow> d \<in> set (loads (es_log (em_state m)))"
      using before assms(2) by (auto simp: well_ordered_def dest: dep_rel_lt)
    with load_one_spec [OF es _ _ load] True have
      st: "es_inv dlls st" "set (loads (es_log st)) = insert i (set (loads (es_log (em_state m))))" by blast+
    then show ?thesis unfolding em_inv_def m' using main early before by (auto simp: less_Suc_eq)
  next
    case False
    have stage: "ed_stage (es_dlls (em_state m) ! i) = ed_stage (dlls ! i)" if "i < length dlls"
      using es that by (intro static_nth) (simp add: es_inv_def)
    have m': "em_before_main m' = em_before_main m"
      "em_state m' = em_state m" "em_worker m' = Worker_done \<or>
        em_worker m' = Worker_at (Suc i) \<and> (i < length dlls \<longrightarrow> i \<in> set (loads (es_log (em_state m))))"
    proof -
      show "em_before_main m' = em_before_main m"
        using step by (auto simp: worker_iteration_def Let_def split: if_splits option.splits)
      show state: "em_state m' = em_state m"
        using step False len stage by (auto simp: worker_iteration_def Let_def split: if_splits option.splits)
      show "em_worker m' = Worker_done \<or>
        em_worker m' = Worker_at (Suc i) \<and> (i < length dlls \<longrightarrow> i \<in> set (loads (es_log (em_state m))))"
      proof (cases "i < length dlls \<and> stage_is_deferred (ed_stage (dlls ! i))")
        case False
        then show ?thesis using step main stage len
          by (auto simp: worker_iteration_def Let_def split: if_splits)
      next
        case True
        obtain ok st where load: "load_extdll_one api i (em_state m) = (ok, st)" by fastforce
        have deps: "\<forall>d. (i, d) \<in> dep_rel dlls \<longrightarrow> d \<in> set (loads (es_log (em_state m)))"
          using before assms(2) by (auto simp: well_ordered_def dest: dep_rel_lt)
        have "i \<in> set (loads (es_log st))" using load_one_spec [OF es _ deps load] True by blast
        moreover have "em_worker m' = Worker_done \<or> em_worker m' = Worker_at (Suc i) \<and> em_state m' = st"
          using step True load stage len by (auto simp: worker_iteration_def Let_def split: if_splits option.splits)
        ultimately show ?thesis using state by auto
      qed
    qed
    show ?thesis unfolding em_inv_def m'(1,2) using m'(3) es main early before by (auto simp: less_Suc_eq)
  qed
qed

lemma unload_loop_loads: "loads (snd (unload_loop dlls log)) = loads log"
proof (induction dlls log rule: unload_loop.induct)
  case (1 dlls log)
  then show ?case by (subst unload_loop.simps) (auto split: option.split)
qed

lemma ext_step_inv:
  assumes "ext_step api m m'" and "em_inv dlls m" and "well_ordered dlls"
  shows "em_inv dlls m'"
  using assms(1)
proof (cases rule: ext_step.cases)
  case (ext_before_main game)
  then show ?thesis using before_main_inv assms(2,3) by simp
next
  case (ext_runtime game events_ok thread_ok)
  then show ?thesis using after_runtime_inv assms(2,3) by simp
next
  case ext_data_ready
  then show ?thesis
    by (intro em_inv_frame [OF assms(2)]) (simp_all add: load_extdlls_after_data_ready_def extdlls_load_data_ready_def)
next
  case (ext_worker i elapsed)
  then show ?thesis using worker_inv [OF assms(2,3)] by simp
next
  case ext_unload
  then show ?thesis by (intro em_inv_frame [OF assms(2)]) (simp_all add: unload_begin_def)
next
  case ext_unloaded
  then show ?thesis using em_inv_first [OF assms(2)]
    by (simp add: unload_finish_def em_inv_def Let_def unload_loop_loads)
qed

text \<open>A table whose entries were only configured.\<close>

definition fresh_table :: "extdlls \<Rightarrow> bool" where
  "fresh_table xs \<longleftrightarrow> (\<forall>e\<in>set (xs_dlls xs). \<not> ed_load_attempted e \<and> ed_module e = None) \<and> xs_load_counter xs = 0"

lemma start_es_inv: "fresh_table xs \<Longrightarrow> es_inv (xs_dlls xs) \<lparr>es_table = xs, es_log = []\<rparr>"
  by (auto simp: es_inv_def fresh_table_def)

lemma reach_inv:
  assumes "ext_reach api xs m" and "fresh_table xs" and "well_ordered (xs_dlls xs)"
  shows "em_inv (xs_dlls xs) m"
  using assms(1)
proof (induction rule: ext_reach.induct)
  case ext_reach_start
  then show ?case using start_es_inv [OF assms(2)] by (simp add: em_inv_def ext_start_def)
next
  case (ext_reach_step m m')
  then show ?case using ext_step_inv assms(3) by blast
qed

text \<open>Preparing keeps a table fresh.\<close>

lemma promote_after_keeps:
  "promote_after names dlls changed = (dlls', changed') \<Longrightarrow> \<forall>e\<in>set dlls. P e \<Longrightarrow>
     (\<And>e s. P e \<Longrightarrow> P (e\<lparr>ed_stage := s\<rparr>)) \<Longrightarrow> \<forall>e\<in>set dlls'. P e"
proof (induction names arbitrary: dlls changed)
  case (Cons name names)
  show ?case
  proof (cases "extdll_index_by_name dlls name")
    case (Some d)
    have "P (dlls ! d)" using Cons.prems(2) index_by_name_lt [OF Some] by simp
    then have "\<forall>e\<in>set (dlls[d := (dlls ! d)\<lparr>ed_stage := EXTDLL_STAGE_EARLY\<rparr>]). P e"
      using Cons.prems(2,3) set_update_subset_insert [of dlls d] by blast
    with Some Cons.IH Cons.prems show ?thesis by (auto split: if_splits)
  qed (use Cons in auto)
qed simp

lemma promote_pass_keeps:
  "promote_pass is dlls changed = (dlls', changed') \<Longrightarrow> \<forall>e\<in>set dlls. P e \<Longrightarrow>
     (\<And>e s. P e \<Longrightarrow> P (e\<lparr>ed_stage := s\<rparr>)) \<Longrightarrow> \<forall>e\<in>set dlls'. P e"
proof (induction "is" arbitrary: dlls changed)
  case (Cons i "is")
  show ?case
  proof (cases "ed_stage (dlls ! i) = EXTDLL_STAGE_EARLY")
    case True
    obtain dlls1 changed1 where one: "promote_after (ed_after (dlls ! i)) dlls changed = (dlls1, changed1)" by fastforce
    have "\<forall>e\<in>set dlls1. P e" by (rule promote_after_keeps [OF one Cons.prems(2,3)])
    with Cons.IH [of dlls1 changed1] Cons.prems(1,3) True one show ?thesis by simp
  qed (use Cons in auto)
qed simp

lemma promote_loop_keeps:
  "\<forall>e\<in>set dlls. P e \<Longrightarrow> (\<And>e s. P e \<Longrightarrow> P (e\<lparr>ed_stage := s\<rparr>)) \<Longrightarrow> \<forall>e\<in>set (promote_loop dlls). P e"
proof (induction dlls rule: promote_loop.induct)
  case (1 dlls)
  obtain dlls1 changed where pass: "promote_pass [0..<length dlls] dlls False = (dlls1, changed)" by fastforce
  have keep: "\<forall>e\<in>set dlls1. P e" by (rule promote_pass_keeps [OF pass "1.prems"])
  show ?case
  proof (cases changed)
    case True
    with pass have eq: "promote_loop dlls = promote_loop dlls1" by (simp add: promote_loop.simps [of dlls])
    have "\<forall>e\<in>set (promote_loop dlls1). P e"
      using "1.IH" pass True keep "1.prems"(2) by simp
    then show ?thesis by (simp only: eq)
  qed (use pass keep in \<open>simp add: promote_loop.simps [of dlls]\<close>)
qed

lemma defer_loop_keeps:
  assumes "\<forall>e\<in>set dlls. P e" and "\<And>e s. P e \<Longrightarrow> P (e\<lparr>ed_stage := s, ed_delay_ms := 0\<rparr>)"
  shows "\<forall>e\<in>set (defer_loop dlls). P e"
proof -
  have one: "\<forall>e\<in>set (defer_one i l). P e" if "\<forall>e\<in>set l. P e" "i < length l" for i l
  proof -
    have "P (l ! i)" using that by simp
    then have "\<forall>e\<in>set (l[i := (l ! i)\<lparr>ed_stage := s, ed_delay_ms := 0\<rparr>]). P e" for s
      using that(1) assms(2) set_update_subset_insert [of l i] by blast
    then show ?thesis using that(1) by (auto simp: defer_one_def split: option.split prod.split)
  qed
  have "\<forall>e\<in>set (fold defer_one is l). P e" if "\<forall>e\<in>set l. P e" "\<forall>i\<in>set is. i < length l" for "is" l
    using that
  proof (induction "is" arbitrary: l)
    case (Cons i "is")
    then have "length (defer_one i l) = length l" using shape_length [OF defer_one_spec(1)] by simp
    with Cons one [of l i] show ?case by simp
  qed simp
  from this [of dlls "[0..<length dlls]"] assms(1) show ?thesis by (simp add: defer_loop_def)
qed

lemma prepare_fresh:
  assumes "fresh_table xs" and "heap_ok (xs_heap xs)" and "acyclic (dep_rel (xs_dlls xs))"
  shows "fresh_table (extdlls_prepare xs)"
proof (cases "length (xs_dlls xs) < 2")
  case True
  then show ?thesis using assms(1) by (simp add: extdlls_prepare_def)
next
  case False
  then have two: "2 \<le> length (xs_dlls xs)" by simp
  then have "0 < length (xs_dlls xs)" by linarith
  from sort_loop_spec(2) [OF this assms(3)] obtain order where
    sort: "sort_loop (xs_dlls xs) (length (xs_dlls xs) * length (xs_dlls xs)) [0..<length (xs_dlls xs)] = (order, False)"
    and perm: "mset order = mset [0..<length (xs_dlls xs)]" by blast
  let ?P = "\<lambda>e. \<not> ed_load_attempted e \<and> ed_module e = None"
  have "\<forall>e\<in>set (map (\<lambda>i. xs_dlls xs ! i) order). ?P e"
    using assms(1) perm_upt(2) [OF perm] by (auto simp: fresh_table_def)
  then have "\<forall>e\<in>set (promote_loop (map (\<lambda>i. xs_dlls xs ! i) order)). ?P e"
    by (rule promote_loop_keeps) simp
  then have "\<forall>e\<in>set (defer_loop (promote_loop (map (\<lambda>i. xs_dlls xs ! i) order))). ?P e"
    by (rule defer_loop_keeps) simp
  then show ?thesis
    using assms(1,2) prepare_steps [OF assms(2) two sort] two sort
    by (simp add: fresh_table_def extdlls_prepare_def alloc_ok xs_alloc_if_def Let_def)
qed

text \<open>
  C34: in every interleaving of the main thread and the deferred worker, whatever the system and
  the DLLs answer, a prepared entry is tried at most once, and only after every entry it depends
  on has been tried.
\<close>

theorem extdlls_dependencies_first:
  assumes "ext_reach api (extdlls_prepare xs) m" and "fresh_table xs" and "distinct (map ed_name (xs_dlls xs))"
    and "heap_ok (xs_heap xs)" and "acyclic (dep_rel (xs_dlls xs))"
  shows "distinct (loads (es_log (em_state m)))
     \<and> (\<forall>k<length (loads (es_log (em_state m))). \<forall>d.
          (loads (es_log (em_state m)) ! k, d) \<in> dep_rel (xs_dlls (extdlls_prepare xs)) \<longrightarrow>
          d \<in> set (take k (loads (es_log (em_state m)))))"
proof -
  note p = prepared [OF assms(3-5)]
  have "length (map ed_name (xs_dlls (extdlls_prepare xs))) = length (map ed_name (xs_dlls xs))"
    using p by (intro mset_eq_length) blast
  then have "well_ordered (xs_dlls (extdlls_prepare xs))" using p unfolding well_ordered_def by simp
  from em_inv_first [OF reach_inv [OF assms(1) prepare_fresh [OF assms(2,4,5)] this]]
  show ?thesis unfolding deps_first_def by blast
qed

text \<open>The two entries of \<open>example_after\<close>, loaded by the main thread.\<close>

lemma example_fresh: "fresh_table example_after"
  by (simp add: fresh_table_def example_simps)

abbreviation example_api :: dll_api where
  "example_api \<equiv> \<lparr>da_full_path = Some, da_load = \<lambda>_ _. Some 1, da_proc = \<lambda>_ _. False\<rparr>"

theorem extdlls_dependencies_first_witness:
  "distinct (loads (es_log (em_state (before_game_main example_api True (ext_start (extdlls_prepare example_after))))))"
proof -
  let ?api = example_api
  have "ext_reach ?api (extdlls_prepare example_after) (before_game_main ?api True (ext_start (extdlls_prepare example_after)))"
    by (rule ext_reach_step [OF ext_reach_start ext_before_main]) (simp add: ext_start_def)
  from extdlls_dependencies_first [OF this example_fresh example_facts(2) example_facts(1) example_facts(3)]
  show ?thesis by blast
qed

subsection \<open>Unloading in the reverse order\<close>

lemma latest_loop_spec:
  "latest_loop dlls is best = r \<Longrightarrow>
     (r = None \<longrightarrow> best = None \<and> (\<forall>i\<in>set is. ed_module (dlls ! i) = None))
   \<and> (\<forall>b. r = Some b \<longrightarrow>
        (\<forall>i\<in>set is. ed_module (dlls ! i) \<noteq> None \<longrightarrow> ed_load_order (dlls ! i) \<le> ed_load_order (dlls ! b))
      \<and> (\<forall>b0. best = Some b0 \<longrightarrow> ed_load_order (dlls ! b0) \<le> ed_load_order (dlls ! b)))"
proof (induction "is" arbitrary: best)
  case (Cons i "is")
  let ?take = "ed_module (dlls ! i) \<noteq> None
    \<and> (case best of None \<Rightarrow> True | Some b \<Rightarrow> ed_load_order (dlls ! i) > ed_load_order (dlls ! b))"
  show ?case
  proof (cases ?take)
    case True
    have "latest_loop dlls is (Some i) = r" using Cons.prems by (simp only: latest_loop.simps if_P [OF True])
    from Cons.IH [OF this] True show ?thesis by (fastforce split: option.splits)
  next
    case False
    have "latest_loop dlls is best = r" using Cons.prems by (simp only: latest_loop.simps if_not_P [OF False])
    from Cons.IH [OF this] False show ?thesis by (fastforce split: option.splits)
  qed
qed simp

definition numbered :: "extdll list \<Rightarrow> (nat \<times> nat) list \<Rightarrow> bool" where
  "numbered dlls ls \<longleftrightarrow>
     (\<forall>i<length dlls. \<forall>m. ed_module (dlls ! i) = Some m \<longleftrightarrow> (i, m) \<in> set ls)
   \<and> (\<forall>k<length ls. ed_load_order (dlls ! fst (ls ! k)) = of_nat (Suc k))
   \<and> distinct (map fst ls) \<and> fst ` set ls \<subseteq> {..<length dlls} \<and> length ls < 2 ^ 32"

lemma unat_order: "Suc k < 2 ^ 32 \<Longrightarrow> unat (of_nat (Suc k) :: 32 word) = Suc k"
  by (simp only: unat_of_nat) simp

lemma numbered_latest:
  assumes "numbered dlls (ls @ [(i, m)])"
  shows "latest_loop dlls [0..<length dlls] None = Some i"
proof -
  let ?ls = "ls @ [(i, m)]"
  have i: "i < length dlls" "ed_module (dlls ! i) = Some m" using assms by (auto simp: numbered_def)
  obtain b where b: "latest_loop dlls [0..<length dlls] None = Some b"
    using latest_loop_spec [of dlls "[0..<length dlls]" None None] i by fastforce
  have "b < length dlls" "ed_module (dlls ! b) \<noteq> None" using latest_loop_Some [OF b] by auto
  then obtain m' where "(b, m') \<in> set ?ls" using assms unfolding numbered_def by blast
  then obtain k where k: "k < length ?ls" "?ls ! k = (b, m')" unfolding in_set_conv_nth by blast
  have small: "length ?ls < 2 ^ 32" using assms unfolding numbered_def by blast
  have order: "ed_load_order (dlls ! fst (?ls ! k)) = of_nat (Suc k)" if "k < length ?ls" for k
    using assms that unfolding numbered_def by blast
  have "ed_load_order (dlls ! b) = of_nat (Suc k)" using order [OF k(1)] k(2) by simp
  moreover have "ed_load_order (dlls ! i) = of_nat (Suc (length ls))" using order [of "length ls"] by simp
  moreover have "ed_load_order (dlls ! i) \<le> ed_load_order (dlls ! b)"
    using latest_loop_spec [OF b] i by auto
  ultimately have "unat (of_nat (Suc (length ls)) :: 32 word) \<le> unat (of_nat (Suc k) :: 32 word)"
    by (simp only: word_le_nat_alt)
  then have "length ls \<le> k" using unat_order [of k] unat_order [of "length ls"] k(1) small by simp
  then have "k = length ls" using k(1) by simp
  with k(2) b show ?thesis by simp
qed

lemma numbered_unload:
  assumes "numbered dlls (ls @ [(i, m)])"
  shows "numbered (dlls[i := (dlls ! i)\<lparr>ed_module := None, ed_load_order := 0\<rparr>]) ls"
proof -
  let ?e = "(dlls ! i)\<lparr>ed_module := None, ed_load_order := 0\<rparr>"
  have i: "i < length dlls" "i \<notin> fst ` set ls" using assms by (auto simp: numbered_def)
  have order: "ed_load_order (dlls ! fst (ls ! k)) = of_nat (Suc k)" if "k < length ls" for k
  proof -
    have "ed_load_order (dlls ! fst ((ls @ [(i, m)]) ! k)) = of_nat (Suc k)"
      using assms that unfolding numbered_def by simp
    then show ?thesis using that by (simp add: nth_append)
  qed
  have other: "fst (ls ! k) \<noteq> i" if "k < length ls" for k using i(2) that by (metis image_eqI nth_mem)
  have modules: "\<forall>j<length dlls. \<forall>m'. ed_module (dlls[i := ?e] ! j) = Some m' \<longleftrightarrow> (j, m') \<in> set ls"
    using assms i by (auto simp: numbered_def nth_list_update image_iff)
  show ?thesis
    unfolding numbered_def length_list_update
  proof (intro conjI)
    show "\<forall>k<length ls. ed_load_order (dlls[i := ?e] ! fst (ls ! k)) = of_nat (Suc k)"
      using order other by (metis nth_list_update_neq)
    show "\<forall>j<length dlls. \<forall>m'. ed_module (dlls[i := ?e] ! j) = Some m' \<longleftrightarrow> (j, m') \<in> set ls" by (rule modules)
  qed (use assms in \<open>auto simp: numbered_def\<close>)
qed

lemma unload_numbered:
  "numbered dlls ls \<Longrightarrow> freed (snd (unload_loop dlls log)) = freed log @ rev (map snd ls)"
proof (induction ls arbitrary: dlls log rule: rev_induct)
  case Nil
  then have "\<forall>i<length dlls. ed_module (dlls ! i) = None" by (auto simp: numbered_def)
  then have "latest_loop dlls [0..<length dlls] None = None"
    using latest_loop_Some [of dlls "[0..<length dlls]" None] by (cases "latest_loop dlls [0..<length dlls] None") auto
  then show ?case by (simp add: unload_loop.simps [of dlls])
next
  case (snoc x ls)
  obtain i m where x: "x = (i, m)" by (cases x)
  note n = snoc.prems [unfolded x]
  have m: "ed_module (dlls ! i) = Some m" using n by (auto simp: numbered_def)
  have "unload_loop dlls log = unload_loop (dlls[i := (dlls ! i)\<lparr>ed_module := None, ed_load_order := 0\<rparr>]) (log @ [Free m])"
    using numbered_latest [OF n] m by (subst unload_loop.simps) simp
  then show ?case using snoc.IH [OF numbered_unload [OF n]] by (simp add: x)
qed

text \<open>
  C37: \<open>extdlls_unload_all\<close> gives every loaded module back exactly once, in the reverse order of
  loading, from every state the machine reaches before it.
\<close>

theorem extdlls_unload_reverse:
  assumes "ext_reach api (extdlls_prepare xs) m" and "fresh_table xs" and "distinct (map ed_name (xs_dlls xs))"
    and "heap_ok (xs_heap xs)" and "acyclic (dep_rel (xs_dlls xs))"
    and "length (xs_dlls xs) < 2 ^ 32" and "es_dlls (em_state m) \<noteq> []"
  shows "freed (es_log (em_state (unload_finish m))) = rev (map snd (loaded (es_log (em_state m))))"
proof -
  note p = prepared [OF assms(3-5)]
  have "length (map ed_name (xs_dlls (extdlls_prepare xs))) = length (map ed_name (xs_dlls xs))"
    using p by (intro mset_eq_length) blast
  then have len: "length (xs_dlls (extdlls_prepare xs)) = length (xs_dlls xs)" by simp
  then have "well_ordered (xs_dlls (extdlls_prepare xs))" using p unfolding well_ordered_def by simp
  from reach_inv [OF assms(1) prepare_fresh [OF assms(2,4,5)] this] assms(7)
  have inv: "es_inv (xs_dlls (extdlls_prepare xs)) (em_state m)" by (simp add: em_inv_def)
  let ?l = "loaded (es_log (em_state m))"
  have table: "length (es_dlls (em_state m)) = length (xs_dlls xs)"
    using inv len by (auto simp: es_inv_def dest: static_length)
  have range: "fst ` set ?l \<subseteq> {..<length (xs_dlls xs)}" and diff: "distinct (map fst ?l)"
    using inv len unfolding es_inv_def by auto
  have "length ?l = card (fst ` set ?l)" using distinct_card [OF diff] by simp
  also have "\<dots> \<le> card {..<length (xs_dlls xs)}" by (rule card_mono [OF finite_lessThan range])
  finally have "numbered (es_dlls (em_state m)) ?l"
    using inv range diff table len assms(6) unfolding numbered_def es_inv_def by simp
  moreover have "freed (es_log (em_state m)) = []" using inv unfolding es_inv_def by blast
  ultimately show ?thesis by (simp add: unload_finish_def Let_def unload_numbered)
qed

theorem extdlls_unload_reverse_witness:
  "freed (es_log (em_state (unload_finish (before_game_main example_api True (ext_start (extdlls_prepare example_after))))))
     = rev (map snd (loaded (es_log (em_state (before_game_main example_api True (ext_start (extdlls_prepare example_after)))))))"
proof -
  let ?api = example_api
  let ?m = "before_game_main ?api True (ext_start (extdlls_prepare example_after))"
  have reach: "ext_reach ?api (extdlls_prepare example_after) ?m"
    by (rule ext_reach_step [OF ext_reach_start ext_before_main]) (simp add: ext_start_def)
  have "mset (map ed_name (xs_dlls (extdlls_prepare example_after))) = mset (map ed_name (xs_dlls example_after))"
    using prepared [OF example_facts(2) example_facts(1) example_facts(3)] by blast
  then have two: "length (xs_dlls (extdlls_prepare example_after)) = 2"
    using mset_eq_length by (fastforce simp: example_table_def)
  have "length (es_dlls st') = length (es_dlls st)" if "extdlls_load_stage ?api EXTDLL_STAGE_EARLY st = (ok, st')" for ok st st'
  proof -
    have one: "length (es_dlls (snd (load_extdll_one ?api i st))) = length (es_dlls st)" for i st
      by (simp add: load_extdll_one_def preload_extdll_one_def es_event_def es_set_def Let_def
          split: option.split prod.split bool.split)
    have "length (es_dlls st') = length (es_dlls st)" if "load_stage_loop ?api stage is st = (ok, st')" for "is" stage ok st st'
      using that
    proof (induction "is" arbitrary: st ok)
      case (Cons i "is")
      then show ?case using one [of i st] by (auto split: if_splits prod.splits)
    qed simp
    then show ?thesis using that unfolding extdlls_load_stage_def by blast
  qed
  then have "length (es_dlls (em_state ?m)) = 2"
    using two by (simp add: before_game_main_def extdlls_load_def ext_start_def split: prod.split)
  then have "es_dlls (em_state ?m) \<noteq> []" by auto
  moreover have "length (xs_dlls example_after) < 2 ^ 32" by (simp add: example_table_def)
  ultimately show ?thesis
    by (intro extdlls_unload_reverse [OF reach example_fresh example_facts(2) example_facts(1) example_facts(3)])
qed

subsection \<open>A cancelled worker ends\<close>

lemma events_inv:
  assumes "ext_reach api xs m"
  shows "(em_worker m \<noteq> No_worker \<longrightarrow> em_cancel m \<noteq> None) \<and> (em_unloading m \<longrightarrow> em_cancel m \<noteq> Some False)"
  using assms
proof (induction rule: ext_reach.induct)
  case ext_reach_start
  then show ?case by (simp add: ext_start_def)
next
  case (ext_reach_step m m')
  from ext_reach_step.hyps(2) ext_reach_step.IH show ?case
  proof (cases rule: ext_step.cases)
    case (ext_before_main game)
    with ext_reach_step.IH show ?thesis
      by (auto simp: before_game_main_def extdlls_load_def split: prod.splits)
  next
    case (ext_runtime game events_ok thread_ok)
    show ?thesis
    proof (cases "game \<and> em_before_main m = 1")
      case False
      with ext_runtime ext_reach_step.IH show ?thesis
        by (auto simp: load_extdlls_after_runtime_def extdlls_load_def)
    next
      case True
      obtain ok st where load: "extdlls_load_stage api EXTDLL_STAGE_NORMAL (em_state m) = (ok, st)" by fastforce
      obtain made me where events: "extdlls_ensure_events events_ok (m\<lparr>em_state := st\<rparr>) = (made, me)" by fastforce
      have "made \<longrightarrow> em_cancel me \<noteq> None" "em_cancel m \<noteq> None \<longrightarrow> em_cancel me \<noteq> None" "\<not> em_unloading me"
        "em_worker me = em_worker m"
        using events ext_runtime(2) by (auto simp: extdlls_ensure_events_def Let_def split: if_splits)
      moreover have game "em_before_main m = 1" using True by simp_all
      ultimately show ?thesis
        using ext_reach_step.IH ext_runtime after_runtime_eq [OF load events] by auto
    qed
  next
    case ext_data_ready
    with ext_reach_step.IH show ?thesis
      by (auto simp: load_extdlls_after_data_ready_def extdlls_load_data_ready_def)
  next
    case (ext_worker i elapsed)
    with ext_reach_step.IH show ?thesis
      by (auto simp: worker_iteration_def Let_def split: if_splits option.splits)
  qed (auto simp: unload_begin_def unload_finish_def Let_def)
qed

lemma cancelled_iteration:
  assumes "em_cancel m = Some True"
  shows "worker_iteration api elapsed i m = Some (m\<lparr>em_worker :=
     (if i < length (es_dlls (em_state m)) \<and> \<not> stage_is_deferred (ed_stage (es_dlls (em_state m) ! i))
      then Worker_at (Suc i) else Worker_done)\<rparr>)"
  using assms by (auto simp: worker_iteration_def worker_wait_def wait_for_data_ready_def extdlls_cancelled_def Let_def)

lemma cancelled_run:
  assumes "em_cancel m = Some True" and "em_worker m = Worker_at i"
  shows "(ext_step api)\<^sup>*\<^sup>* m (m\<lparr>em_worker := Worker_done\<rparr>)"
  using assms
proof (induction "Suc (length (es_dlls (em_state m))) - i" arbitrary: m i rule: less_induct)
  case less
  let ?go = "i < length (es_dlls (em_state m)) \<and> \<not> stage_is_deferred (ed_stage (es_dlls (em_state m) ! i))"
  let ?m = "m\<lparr>em_worker := (if ?go then Worker_at (Suc i) else Worker_done)\<rparr>"
  have step: "ext_step api m ?m"
    by (rule ext_worker [OF less.prems(2)]) (rule cancelled_iteration [OF less.prems(1), of api False i])
  show ?case
  proof (cases ?go)
    case True
    have "(ext_step api)\<^sup>*\<^sup>* ?m (?m\<lparr>em_worker := Worker_done\<rparr>)"
    proof (rule less.hyps)
      show "Suc (length (es_dlls (em_state ?m))) - Suc i < Suc (length (es_dlls (em_state m))) - i"
      proof -
        have same: "em_state ?m = em_state m" by simp
        show ?thesis unfolding same using True by linarith
      qed
    qed (use True less.prems in simp_all)
    then show ?thesis using step by (simp add: converse_rtranclp_into_rtranclp)
  next
    case False
    with step show ?thesis by (simp add: if_not_P [OF False])
  qed
qed

text \<open>
  C38: the wait of \<open>extdlls_unload_all\<close> for the worker ends: once it has signalled the cancel
  event, no iteration of the worker blocks, whatever delay it was in, and the worker reaches its
  end without loading another DLL.
\<close>

theorem extdlls_worker_stops:
  assumes "ext_reach api xs m" and "em_unloading m" and "em_worker m = Worker_at i"
  shows "(\<forall>elapsed. worker_iteration api elapsed i m \<noteq> None)
     \<and> (\<exists>m'. (ext_step api)\<^sup>*\<^sup>* m m' \<and> em_worker m' = Worker_done \<and> es_log (em_state m') = es_log (em_state m))"
proof -
  have cancel: "em_cancel m = Some True" using events_inv [OF assms(1)] assms(2,3) by auto
  have "\<forall>elapsed. worker_iteration api elapsed i m \<noteq> None" using cancelled_iteration [OF cancel] by simp
  moreover have "(ext_step api)\<^sup>*\<^sup>* m (m\<lparr>em_worker := Worker_done\<rparr>)" by (rule cancelled_run [OF cancel assms(3)])
  ultimately show ?thesis by (intro conjI exI [of _ "m\<lparr>em_worker := Worker_done\<rparr>"]) simp_all
qed

text \<open>A worker that waits for the delay of its only entry when the loader is unloaded.\<close>

abbreviation example_delayed :: extdlls where
  "example_delayed \<equiv> example_table [example_dll ''a'' [] EXTDLL_STAGE_DELAY]"

abbreviation example_unloading :: "dll_api \<Rightarrow> ext_machine" where
  "example_unloading api \<equiv> unload_begin
     (load_extdlls_after_runtime api True (True, True) True (before_game_main api True (ext_start example_delayed)))"

lemma example_unloading:
  "ext_reach api example_delayed (example_unloading api)" "em_unloading (example_unloading api)"
  "em_worker (example_unloading api) = Worker_at 0"
proof -
  have stage: "ed_stage (example_dll ''a'' [] EXTDLL_STAGE_DELAY) = EXTDLL_STAGE_DELAY" by (simp add: example_dll_def)
  let ?m1 = "before_game_main api True (ext_start example_delayed)"
  have m1: "?m1 = (ext_start example_delayed)\<lparr>em_before_main := 1\<rparr>"
    by (simp add: before_game_main_def extdlls_load_def extdlls_load_stage_def ext_start_def example_table_def stage)
  let ?m2 = "load_extdlls_after_runtime api True (True, True) True ?m1"
  have deferred: "extdlls_has_deferred (em_state (ext_start example_delayed))"
    by (simp add: extdlls_has_deferred_def ext_start_def example_table_def stage stage_is_deferred_def less_extdll_stage_def)
  then have m2: "em_worker ?m2 = Worker_at 0" "\<not> em_unloading ?m2"
    unfolding m1 load_extdlls_after_runtime_def extdlls_load_def extdlls_load_stage_def
    by (simp_all add: ext_start_def example_table_def stage extdlls_ensure_events_def)
  show "em_unloading (example_unloading api)" "em_worker (example_unloading api) = Worker_at 0"
    using m2 by (simp_all add: unload_begin_def)
  have "ext_reach api example_delayed ?m1"
    by (rule ext_reach_step [OF ext_reach_start ext_before_main]) (simp add: ext_start_def)
  moreover have "\<not> em_unloading ?m1" unfolding m1 by (simp add: ext_start_def)
  ultimately have "ext_reach api example_delayed ?m2"
    by (rule ext_reach_step [OF _ ext_runtime])
  then show "ext_reach api example_delayed (example_unloading api)"
    by (rule ext_reach_step [OF _ ext_unload]) (rule m2(2))
qed

theorem extdlls_worker_stops_witness:
  "\<exists>m'. (ext_step example_api)\<^sup>*\<^sup>* (example_unloading example_api) m' \<and> em_worker m' = Worker_done"
  using extdlls_worker_stops [OF example_unloading] by blast

end
