(* ===== verification/Encryption.thy ===== *)
theory Encryption
  imports Prelude "HOL-Library.Code_Target_Nat"
begin

unbundle bit_operations_syntax

text \<open>
  The ciphers and the region lists of the Arxan stubs (\<open>src/dearxan/encryption.c\<close>): the three
  block ciphers, the variable-length integers, and the parser of the list of encrypted regions. The
  encryption side is the specification: Arxan's, which the repository does not have.

  Words of 32 bits wrap as in the code; offsets into a stream are \<open>size_t\<close>, natural numbers with
  their bound written out.
\<close>

subsection \<open>The ciphers\<close>

text \<open>A block and a key of the Tiny Encryption Algorithm.\<close>

type_synonym tea_block = "32 word \<times> 32 word"
type_synonym tea_key = "32 word \<times> 32 word \<times> 32 word \<times> 32 word"

definition tea_mix :: "32 word \<Rightarrow> 32 word \<Rightarrow> 32 word \<Rightarrow> 32 word \<Rightarrow> 32 word" where
  "tea_mix v s a b = (push_bit 4 v + a) XOR (v + s) XOR (drop_bit 5 v + b)"

fun tea_loop :: "nat \<Rightarrow> tea_key \<Rightarrow> tea_block \<Rightarrow> 32 word \<Rightarrow> tea_block" where
  "tea_loop 0 key block s = block"
| "tea_loop (Suc n) (k0, k1, k2, k3) (v0, v1) s =
     (let v1 = v1 - tea_mix v0 s k2 k3; v0 = v0 - tea_mix v1 s k0 k1
      in tea_loop n (k0, k1, k2, k3) (v0, v1) (s - 0x9E3779B9))"

definition dearxan_tea_decrypt :: "tea_block \<Rightarrow> tea_key \<Rightarrow> tea_block" where
  "dearxan_tea_decrypt block key = tea_loop 32 key block 0xC6EF3720"

definition rotate_left32 :: "32 word \<Rightarrow> 32 word \<Rightarrow> 32 word" where
  "rotate_left32 v count =
     (let count = unat (count AND 31) in if count = 0 then v else push_bit count v OR drop_bit (32 - count) v)"

text \<open>The plain block, and the key and rotation for the next one.\<close>

definition dearxan_rmx_decrypt :: "32 word \<Rightarrow> 32 word \<Rightarrow> 32 word \<Rightarrow> 32 word \<times> 32 word \<times> 32 word" where
  "dearxan_rmx_decrypt block key key_rotation =
     (let key = rotate_left32 key key_rotation; block = block - key * key_rotation
      in (block, key, key_rotation XOR NOT block))"

definition dearxan_sub_decrypt :: "32 word \<Rightarrow> 32 word \<Rightarrow> 32 word" where
  "dearxan_sub_decrypt block key = key - block"

subsection \<open>Region lists\<close>

text \<open>A variable-length integer: how many bytes it has, and its value.\<close>

fun varint_loop :: "bytes \<Rightarrow> nat \<Rightarrow> nat \<Rightarrow> 32 word \<Rightarrow> (nat \<times> 32 word) option" where
  "varint_loop [] i shift result = None"
| "varint_loop (b # bs) i shift result =
     (let payload = (ucast b :: 32 word) AND 0x7F in
      if shift \<ge> 32 \<or> (payload \<noteq> 0 \<and> payload > drop_bit shift (-1)) then None
      else
        let payload = push_bit shift payload in
        if result > -1 - payload then None
        else
          let result = result + payload in
          if b < 0x80 then Some (i + 1, result) else varint_loop bs (i + 1) (shift + 7) result)"

definition dearxan_read_varint :: "bytes option \<Rightarrow> (nat \<times> 32 word) option" where
  "dearxan_read_varint bs = (case bs of None \<Rightarrow> None | Some bs \<Rightarrow> varint_loop bs 0 0 0)"

record encrypted_region =
  er_stream_offset :: nat
  er_size :: nat
  er_rva :: "32 word"

text \<open>
  \<open>dearxan_reserve_array\<close>: the capacity grows by doubling; the outcome of \<open>realloc\<close> is the next of
  the allocator's.
\<close>

function reserve_capacity :: "nat \<Rightarrow> nat \<Rightarrow> nat option" where
  "reserve_capacity next count =
     (if 0 < next \<and> next < count then (if next > (2 ^ 64 - 1) div 2 then None else reserve_capacity (next * 2) count)
      else Some next)"
  by pat_completeness auto
termination
  by (relation "measure (\<lambda>(next, count). count - next)") auto

declare reserve_capacity.simps [simp del]

definition dearxan_reserve_array :: "nat \<Rightarrow> nat \<Rightarrow> nat \<Rightarrow> heap \<Rightarrow> (nat option) \<times> heap" where
  "dearxan_reserve_array capacity count item_size h =
     (if count \<le> capacity then (Some capacity, h)
      else case reserve_capacity (if capacity = 0 then 8 else capacity) count of
        None \<Rightarrow> (None, h)
      | Some n \<Rightarrow>
          if n > (2 ^ 64 - 1) div item_size then (None, h)
          else case ml_mem_alloc h of (ok, h) \<Rightarrow> (if ok then Some n else None, h))"

lemma varint_consumes: "varint_loop bs i shift result = Some (n, v) \<Longrightarrow> i < n \<and> n \<le> i + length bs"
proof (induction bs arbitrary: i shift result)
  case (Cons b bs)
  from Cons.prems show ?case by (fastforce dest: Cons.IH simp: Let_def split: if_splits)
qed simp

text \<open>The regions so far, the capacity of their array, the unread bytes, the stream offset and the address.\<close>

function regions_loop ::
  "encrypted_region list \<Rightarrow> nat \<Rightarrow> bytes \<Rightarrow> nat \<Rightarrow> 32 word \<Rightarrow> heap \<Rightarrow> (encrypted_region list \<times> nat) option" where
  "regions_loop items capacity bs stream_offset rva h =
     (case (if bs = [] then None else varint_loop bs 0 0 0) of
        None \<Rightarrow> None
      | Some (consumed, delta) \<Rightarrow>
          if delta = 0 \<or> rva > -1 - delta then None
          else
            let bs1 = drop consumed bs; rva = rva + delta in
            if rva = -1 then Some (items, stream_offset)
            else case varint_loop bs1 0 0 0 of
              None \<Rightarrow> None
            | Some (consumed1, sz) \<Rightarrow>
                if sz = 0 \<or> rva > -1 - sz \<or> stream_offset > (2 ^ 64 - 1) - unat sz then None
                else case dearxan_reserve_array capacity (length items + 1) 24 h of
                  (None, h) \<Rightarrow> None
                | (Some capacity, h) \<Rightarrow>
                    regions_loop (items @ [\<lparr>er_stream_offset = stream_offset, er_size = unat sz, er_rva = rva\<rparr>])
                      capacity (drop consumed1 bs1) (stream_offset + unat sz) (rva + sz) h)"
  by pat_completeness auto

termination
  by (relation "measure (\<lambda>(items, capacity, bs, stream_offset, rva, h). length bs)")
    (auto dest!: varint_consumes split: if_splits)

declare regions_loop.simps [simp del]

text \<open>\<open>None\<close> as bytes is a null pointer.\<close>

definition dearxan_parse_encrypted_regions :: "bytes option \<Rightarrow> heap \<Rightarrow> (encrypted_region list \<times> nat) option" where
  "dearxan_parse_encrypted_regions bs h =
     (case bs of None \<Rightarrow> None | Some bs \<Rightarrow> regions_loop [] 0 bs 0 0 h)"

subsection \<open>Decryption undoes encryption\<close>

text \<open>The algorithm's encryption, one round for each of decryption, in the opposite order.\<close>

fun tea_rounds :: "nat \<Rightarrow> tea_key \<Rightarrow> tea_block \<Rightarrow> 32 word \<Rightarrow> tea_block" where
  "tea_rounds 0 key block s = block"
| "tea_rounds (Suc n) (k0, k1, k2, k3) (v0, v1) s =
     (let s = s + 0x9E3779B9; v0 = v0 + tea_mix v1 s k0 k1; v1 = v1 + tea_mix v0 s k2 k3
      in tea_rounds n (k0, k1, k2, k3) (v0, v1) s)"

definition tea_encrypt :: "tea_block \<Rightarrow> tea_key \<Rightarrow> tea_block" where
  "tea_encrypt block key = tea_rounds 32 key block 0"

lemma tea_loop_rounds:
  "tea_loop (n + m) key (tea_rounds n key block s) (s + of_nat n * 0x9E3779B9) = tea_loop m key block s"
proof (induction n arbitrary: block s m)
  case 0
  then show ?case by simp
next
  case (Suc n)
  obtain k0 k1 k2 k3 where key: "key = (k0, k1, k2, k3)" by (cases key)
  obtain v0 v1 where block: "block = (v0, v1)" by (cases block)
  let ?s = "s + 0x9E3779B9"
  let ?v0 = "v0 + tea_mix v1 ?s k0 k1"
  let ?v1 = "v1 + tea_mix ?v0 ?s k2 k3"
  have "tea_loop (Suc n + m) key (tea_rounds (Suc n) key block s) (s + of_nat (Suc n) * 0x9E3779B9)
      = tea_loop (n + Suc m) key (tea_rounds n key (?v0, ?v1) ?s) (?s + of_nat n * 0x9E3779B9)"
    by (simp add: key block Let_def algebra_simps)
  also have "\<dots> = tea_loop (Suc m) key (?v0, ?v1) ?s" by (rule Suc.IH)
  also have "\<dots> = tea_loop m key block s" by (simp add: key block Let_def)
  finally show ?case .
qed

lemma tea_decrypt_encrypt: "dearxan_tea_decrypt (tea_encrypt block key) key = block"
proof -
  have "(0 + of_nat 32 * 0x9E3779B9 :: 32 word) = 0xC6EF3720" by simp
  with tea_loop_rounds [of 32 0 key block 0] show ?thesis
    by (simp only: dearxan_tea_decrypt_def tea_encrypt_def add_0_right tea_loop.simps)
qed

text \<open>A stream of blocks: the key and the rotation go on from block to block.\<close>

fun rmx_decrypt_all :: "32 word list \<Rightarrow> 32 word \<Rightarrow> 32 word \<Rightarrow> 32 word list" where
  "rmx_decrypt_all [] key rotation = []"
| "rmx_decrypt_all (b # bs) key rotation =
     (case dearxan_rmx_decrypt b key rotation of (v, key, rotation) \<Rightarrow> v # rmx_decrypt_all bs key rotation)"

fun rmx_encrypt_all :: "32 word list \<Rightarrow> 32 word \<Rightarrow> 32 word \<Rightarrow> 32 word list" where
  "rmx_encrypt_all [] key rotation = []"
| "rmx_encrypt_all (v # vs) key rotation =
     (let key = rotate_left32 key rotation in (v + key * rotation) # rmx_encrypt_all vs key (rotation XOR NOT v))"

lemma rmx_decrypt_encrypt: "rmx_decrypt_all (rmx_encrypt_all vs key rotation) key rotation = vs"
  by (induction vs key rotation rule: rmx_encrypt_all.induct) (simp_all add: dearxan_rmx_decrypt_def Let_def)

text \<open>
  Decryption is the inverse of encryption, for every key: the code's 32 rounds undo those of
  the Tiny Encryption Algorithm, the chained cipher is undone block by block with its running key
  and rotation, and the subtraction cipher is its own inverse.
\<close>

theorem arxan_ciphers_inverse:
  "dearxan_tea_decrypt (tea_encrypt block key) key = block \<and>
   rmx_decrypt_all (rmx_encrypt_all vs k rotation) k rotation = vs \<and>
   dearxan_sub_decrypt (dearxan_sub_decrypt b k) k = b"
  by (simp add: tea_decrypt_encrypt rmx_decrypt_encrypt dearxan_sub_decrypt_def)

subsection \<open>Region lists are well formed\<close>

text \<open>\<open>contiguous rs a b\<close>: the regions take the stream from \<open>a\<close> to \<open>b\<close> without a hole.\<close>

fun contiguous :: "encrypted_region list \<Rightarrow> nat \<Rightarrow> nat \<Rightarrow> bool" where
  "contiguous [] a b = (a = b)"
| "contiguous (r # rs) a b = (er_stream_offset r = a \<and> contiguous rs (a + er_size r) b)"

lemma contiguous_append: "contiguous (rs @ [r]) a (b + er_size r) \<longleftrightarrow> contiguous rs a b \<and> er_stream_offset r = b"
  by (induction rs arbitrary: a) auto

definition region_end :: "encrypted_region \<Rightarrow> nat" where
  "region_end r = unat (er_rva r) + er_size r"

definition regions_ok :: "encrypted_region list \<Rightarrow> nat \<Rightarrow> nat \<Rightarrow> bool" where
  "regions_ok rs used limit \<longleftrightarrow> contiguous rs 0 used \<and> used < 2 ^ 64 \<and>
     sorted_wrt (\<lambda>a b. region_end a < unat (er_rva b)) rs \<and> (\<forall>r \<in> set rs. 0 < er_size r \<and> region_end r \<le> limit)"

lemma word_room:
  fixes a b :: "32 word"
  assumes "\<not> a > -1 - b"
  shows "unat (a + b) = unat a + unat b"
proof -
  have all: "uint (-1 :: 32 word) = 2 ^ 32 - 1" by (simp add: unsigned_minus_1_eq_mask mask_eq_exp_minus_1)
  have "uint b < 2 ^ 32" using uint_lt2p [of b] by simp
  then have "uint b \<le> uint (-1 :: 32 word)" unfolding all by simp
  then have "uint (-1 - b) = uint (-1 :: 32 word) - uint b" by (simp only: uint_sub_lem [symmetric])
  then have "uint a + uint b < 2 ^ LENGTH(32)" using assms unfolding word_less_def all by simp
  then have "uint (a + b) = uint a + uint b" by (simp only: uint_add_lem [symmetric])
  then show ?thesis by (simp only: unat_eq_nat_uint nat_add_distrib uint_ge_0)
qed

lemma regions_loop_ok:
  assumes "regions_loop items capacity bs stream_offset rva h = Some (rs, used)"
    and "regions_ok items stream_offset (unat rva)"
  shows "regions_ok rs used (2 ^ 32 - 1)"
  using assms
proof (induction items capacity bs stream_offset rva h rule: regions_loop.induct)
  case (1 items capacity bs stream_offset rva h)
  note step = "1.prems"(1) [unfolded regions_loop.simps [of items capacity bs stream_offset rva h]]
  obtain consumed delta where v1: "(if bs = [] then None else varint_loop bs 0 0 0) = Some (consumed, delta)"
    and d: "\<not> (delta = 0 \<or> rva > -1 - delta)"
    using step by (auto split: option.splits if_splits)
  let ?rva = "rva + delta"
  have rva1: "unat ?rva = unat rva + unat delta" by (rule word_room) (use d in simp)
  have pos: "0 < unat delta" using d by (simp add: unat_gt_0)
  have grown: "regions_ok items stream_offset (unat ?rva - 1)"
    using "1.prems"(2) rva1 pos by (auto simp: regions_ok_def)
  show ?case
  proof (cases "?rva = -1")
    case True
    then have "rs = items" "used = stream_offset"
      using step v1 d by simp_all
    moreover have "unat ?rva \<le> 2 ^ 32 - 1" using unsigned_less [of ?rva, where 'a = nat] by simp
    ultimately show ?thesis using grown by (fastforce simp: regions_ok_def)
  next
    case False
    obtain consumed1 sz where v2: "varint_loop (drop consumed bs) 0 0 0 = Some (consumed1, sz)"
      and s: "\<not> (sz = 0 \<or> ?rva > -1 - sz \<or> stream_offset > (2 ^ 64 - 1) - unat sz)"
      using step v1 d False by (auto simp: Let_def split: option.splits if_splits)
    obtain c h1 where res: "dearxan_reserve_array capacity (length items + 1) 24 h = (Some c, h1)"
      using step v1 d False v2 s by (auto simp: Let_def split: option.splits prod.splits)
    let ?r = "\<lparr>er_stream_offset = stream_offset, er_size = unat sz, er_rva = ?rva\<rparr>"
    have rest: "regions_loop (items @ [?r]) c (drop consumed1 (drop consumed bs)) (stream_offset + unat sz) (?rva + sz) h1
        = Some (rs, used)"
      using step v1 d False v2 s res by (simp add: Let_def)
    have rva2: "unat (?rva + sz) = unat ?rva + unat sz" by (rule word_room) (use s in simp)
    have "0 < unat sz" using s by (simp add: unat_gt_0)
    moreover have "region_end ?r = unat (?rva + sz)" using rva2 by (simp add: region_end_def)
    moreover have "\<forall>r \<in> set items. region_end r < unat ?rva" using grown pos rva1 by (fastforce simp: regions_ok_def)
    moreover have "stream_offset + unat sz < 2 ^ 64" using s unsigned_less [of sz, where 'a = nat] by auto
    ultimately have "regions_ok (items @ [?r]) (stream_offset + unat sz) (unat (?rva + sz))"
      using grown contiguous_append [of items ?r 0 stream_offset] rva2
      by (fastforce simp: regions_ok_def sorted_wrt_append)
    from "1.IH" [OF v1 refl d refl refl False v2 refl s res [symmetric] refl rest this] show ?thesis .
  qed
qed

subsection \<open>Variable-length integers\<close>

text \<open>Seven bits to a byte, the low ones first, and the high bit on all but the last.\<close>

fun varint_bytes :: "nat \<Rightarrow> bytes" where
  "varint_bytes n = (if n < 128 then [of_nat n] else of_nat (128 + n mod 128) # varint_bytes (n div 128))"

declare varint_bytes.simps [simp del]

lemma unat_byte: "n < 256 \<Longrightarrow> unat (of_nat n :: 8 word) = n"
  by (simp add: unat_of_nat take_bit_nat_eq_self)

lemma unat_small: "n < 2 ^ 32 \<Longrightarrow> unat (of_nat n :: 32 word) = n"
  by (simp add: unat_of_nat take_bit_nat_eq_self)

lemma varint_payload:
  assumes "n < 256"
  shows "(ucast (of_nat n :: 8 word) :: 32 word) AND 0x7F = of_nat (n mod 128)"
proof -
  have "(0x7F :: 32 word) = mask 7" by (simp add: mask_eq_exp_minus_1)
  then have "(ucast (of_nat n :: 8 word) :: 32 word) AND 0x7F = take_bit 7 (ucast (of_nat n :: 8 word))"
    by (simp only: take_bit_eq_mask)
  moreover have "unat (ucast (of_nat n :: 8 word) :: 32 word) = n"
    using assms by (simp add: unsigned_ucast_eq unat_byte take_bit_nat_eq_self)
  then have "unat (take_bit 7 (ucast (of_nat n :: 8 word) :: 32 word)) = n mod 128"
    by (simp add: unsigned_take_bit_eq take_bit_nat_def)
  ultimately show ?thesis by (simp add: word_unat_eq_iff unat_of_nat take_bit_nat_eq_self)
qed

lemma varint_step:
  assumes "n < 256" and "shift < 32" and "unat result + n mod 128 * 2 ^ shift < 2 ^ 32"
  shows "varint_loop (of_nat n # bs) i shift result =
    (let result = of_nat (unat result + n mod 128 * 2 ^ shift) in
     if n < 128 then Some (i + 1, result) else varint_loop bs (i + 1) (shift + 7) result)"
proof -
  let ?p = "of_nat (n mod 128) :: 32 word"
  have p: "unat ?p = n mod 128" by (simp add: unat_of_nat take_bit_nat_eq_self)
  have small: "n mod 128 * 2 ^ shift < 2 ^ 32" using assms(3) by simp
  have all: "unat (-1 :: 32 word) = 2 ^ 32 - 1" by (simp add: unsigned_minus_1_eq_mask mask_eq_exp_minus_1)
  have "unat (drop_bit shift (-1 :: 32 word)) = (2 ^ 32 - 1) div 2 ^ shift"
    unfolding unsigned_drop_bit_eq all by (simp add: drop_bit_nat_def take_bit_nat_eq_self)
  moreover have "n mod 128 \<le> (2 ^ 32 - 1) div 2 ^ shift"
    using small by (simp add: less_eq_div_iff_mult_less_eq)
  ultimately have first: "\<not> ?p > drop_bit shift (-1)" using p by (simp add: word_less_nat_alt)
  have push: "unat (push_bit shift ?p) = n mod 128 * 2 ^ shift"
    using small p by (simp add: unsigned_push_bit_eq push_bit_nat_def take_bit_nat_eq_self)
  have "unat (-1 - push_bit shift ?p) = 2 ^ 32 - 1 - n mod 128 * 2 ^ shift"
    using push small by (simp add: unat_sub_if' unsigned_minus_1_eq_mask mask_eq_exp_minus_1)
  then have second: "\<not> result > -1 - push_bit shift ?p" using assms(3) by (simp add: word_less_nat_alt)
  have sum: "result + push_bit shift ?p = of_nat (unat result + n mod 128 * 2 ^ shift)"
    unfolding word_unat_eq_iff unat_small [OF assms(3)]
    using push assms(3) unat_add_lem [of result "push_bit shift ?p"] by simp
  have last: "(of_nat n :: 8 word) < 0x80 \<longleftrightarrow> n < 128"
    using unat_byte [OF assms(1)] by (simp add: word_less_nat_alt)
  show ?thesis
    using assms(2) first second sum last by (simp add: varint_payload [OF assms(1)] Let_def)
qed

lemma varint_loop_bytes:
  assumes "unat result + n * 2 ^ shift < 2 ^ 32" and "shift < 32"
  shows "varint_loop (varint_bytes n @ bs) i shift result =
    Some (i + length (varint_bytes n), of_nat (unat result + n * 2 ^ shift))"
  using assms
proof (induction n arbitrary: i shift result rule: less_induct)
  case (less n)
  show ?case
  proof (cases "n < 128")
    case True
    then have "varint_bytes n = [of_nat n]" by (simp add: varint_bytes.simps)
    with varint_step [of n shift result bs i] less.prems True show ?thesis by simp
  next
    case False
    let ?b = "128 + n mod 128"
    have split: "n mod 128 * 2 ^ shift + n div 128 * 2 ^ (shift + 7) = n * 2 ^ shift"
    proof -
      have "n * 2 ^ shift = (n div 128 * 128 + n mod 128) * 2 ^ shift" by simp
      then show ?thesis by (simp only: add_mult_distrib power_add) simp
    qed
    have low: "unat result + ?b mod 128 * 2 ^ shift < 2 ^ 32" using less.prems(1) split by simp
    let ?result = "of_nat (unat result + n mod 128 * 2 ^ shift) :: 32 word"
    have res: "unat ?result = unat result + n mod 128 * 2 ^ shift"
      by (rule unat_small) (use low in simp)
    have sum: "unat ?result + n div 128 * 2 ^ (shift + 7) = unat result + n * 2 ^ shift"
      using split unfolding res by simp
    have "1 \<le> n div 128" using False by simp
    then have "2 ^ (shift + 7) \<le> n div 128 * 2 ^ (shift + 7)" by simp
    then have "(2 :: nat) ^ (shift + 7) < 2 ^ 32" using sum less.prems(1) by linarith
    then have room: "shift + 7 < 32" by (rule power_less_imp_less_exp [rotated]) simp
    have smaller: "n div 128 < n" using False by simp
    have ih: "varint_loop (varint_bytes (n div 128) @ bs) (i + 1) (shift + 7) ?result =
        Some (i + 1 + length (varint_bytes (n div 128)), of_nat (unat ?result + n div 128 * 2 ^ (shift + 7)))"
      by (rule less.IH [OF smaller _ room]) (use sum less.prems(1) in simp)
    have bytes: "varint_bytes n = of_nat ?b # varint_bytes (n div 128)"
      using False by (subst varint_bytes.simps) simp
    have b: "?b < 256" "?b mod 128 = n mod 128" "\<not> ?b < 128" by simp_all
    have "varint_loop (varint_bytes n @ bs) i shift result = varint_loop (varint_bytes (n div 128) @ bs) (i + 1) (shift + 7) ?result"
      using varint_step [OF b(1) less.prems(2) low, of "varint_bytes (n div 128) @ bs" i] b(3)
      unfolding bytes b(2) Let_def append_Cons by (simp only: if_False)
    also have "\<dots> = Some (i + 1 + length (varint_bytes (n div 128)), of_nat (unat result + n * 2 ^ shift))"
      by (rule ih [unfolded sum])
    finally show ?thesis by (simp add: bytes)
  qed
qed

text \<open>
  What the writer of variable-length integers writes is read back, whatever follows it: the
  value of every 32-bit integer, and how many bytes it had.
\<close>

theorem varint_roundtrip:
  assumes "n < 2 ^ 32"
  shows "dearxan_read_varint (Some (varint_bytes n @ bs)) = Some (length (varint_bytes n), of_nat n)"
  using varint_loop_bytes [of 0 n 0 bs 0] assms by (simp add: dearxan_read_varint_def)

theorem varint_roundtrip_witness:
  "varint_bytes 300 = [0xAC, 0x02] \<and> dearxan_read_varint (Some [0xAC, 0x02, 0xFF]) = Some (2, 300)"
proof -
  have bytes: "varint_bytes 300 = [0xAC, 0x02]" by (simp add: varint_bytes.simps)
  with varint_roundtrip [of 300 "[0xFF]"] show ?thesis by simp
qed

text \<open>
  C30: a region list that is accepted, whatever the bytes and the allocations, is well formed: the
  regions are not empty, in ascending order without touching each other, no end wraps around the
  address space, and their parts of the stream follow each other from its start to the size that
  is reported.
\<close>

theorem encrypted_regions_ok:
  assumes "dearxan_parse_encrypted_regions bs h = Some (rs, used)"
  shows "contiguous rs 0 used \<and> used < 2 ^ 64 \<and>
    sorted_wrt (\<lambda>a b. unat (er_rva a) + er_size a < unat (er_rva b)) rs \<and>
    (\<forall>r \<in> set rs. 0 < er_size r \<and> unat (er_rva r) + er_size r < 2 ^ 32)"
proof -
  have "regions_ok rs used (2 ^ 32 - 1)"
    using assms regions_loop_ok [of "[]" 0 _ 0 0 h rs used]
    by (auto simp: dearxan_parse_encrypted_regions_def regions_ok_def split: option.splits)
  then show ?thesis by (auto simp: regions_ok_def region_end_def)
qed

theorem encrypted_regions_ok_witness:
  "dearxan_parse_encrypted_regions (Some [0x10, 0x20, 0x05, 0x08, 0xC2, 0xFF, 0xFF, 0xFF, 0x0F]) (\<lambda>_. True) =
     Some ([\<lparr>er_stream_offset = 0, er_size = 32, er_rva = 0x10\<rparr>, \<lparr>er_stream_offset = 32, er_size = 8, er_rva = 0x35\<rparr>], 40) \<and>
   unat (0x10 :: 32 word) + 32 < unat (0x35 :: 32 word)"
proof -
  have "dearxan_parse_encrypted_regions (Some [0x10, 0x20, 0x05, 0x08, 0xC2, 0xFF, 0xFF, 0xFF, 0x0F]) (\<lambda>_. True) =
     Some ([\<lparr>er_stream_offset = 0, er_size = 32, er_rva = 0x10\<rparr>, \<lparr>er_stream_offset = 32, er_size = 8, er_rva = 0x35\<rparr>], 40)"
    by code_simp
  from encrypted_regions_ok [OF this] this show ?thesis by simp
qed

end
