(* ===== verification/SaveMapping.thy ===== *)
theory SaveMapping
  imports VfsRoutes "HOL-Library.Code_Target_Nat"
begin

text \<open>
  Renamed saves (\<open>src/modloader/patches/save_mapping.c\<close>): files below the save folder of the game
  with a configured extension are opened under another name, or not at all. The routes are those of
  the index (\<open>Vfs\<close>), whose heap is the allocator of this component too.

  What Windows answers is the record \<open>save_api\<close>: full paths, the environment, the path helpers of
  \<open>shlwapi\<close>, the comparison \<open>lstrcmpiW\<close>, and the disk, a state of any type. Full paths and
  the environment are taken as stable while one call reads them. Every function is one atomic step,
  as if it held \<open>mapping_lock\<close>; the log lines are left out.
\<close>

record 'd save_api =
  sa_up :: "wchar \<Rightarrow> wchar"
  sa_full_path :: "wstr \<Rightarrow> wstr option"
  sa_environment :: "wstr \<Rightarrow> wstr option"
  sa_extension :: "wstr \<Rightarrow> nat"                \<comment> \<open>\<open>PathFindExtensionW(p) - p\<close>\<close>
  sa_file_name :: "wstr \<Rightarrow> nat"                \<comment> \<open>\<open>PathFindFileNameW(p) - p\<close>\<close>
  sa_compare :: "wstr \<Rightarrow> wstr \<Rightarrow> bool"         \<comment> \<open>\<open>lstrcmpiW(a, b) == 0\<close>\<close>
  sa_reparse :: "'d \<Rightarrow> wstr \<Rightarrow> bool"           \<comment> \<open>there, with \<open>FILE_ATTRIBUTE_REPARSE_POINT\<close>\<close>
  sa_surrogate :: "'d \<Rightarrow> wstr \<Rightarrow> bool option"  \<comment> \<open>\<open>FindFirstFileW\<close>: found with a name surrogate tag\<close>
  sa_exists :: "'d \<Rightarrow> wstr \<Rightarrow> bool"
  sa_copy :: "wstr \<Rightarrow> wstr \<Rightarrow> 'd \<Rightarrow> nat option \<times> 'd"  \<comment> \<open>\<open>CopyFileW\<close> with its error, if any\<close>

record 'd save_mapping =
  sm_root :: "wstr option"
  sm_mappings :: "(wstr \<times> wstr) list"
  sm_failed :: "wstr list"
  sm_active :: bool
  sm_link_warned :: bool
  sm_vfs :: vfs
  sm_disk :: 'd

definition SAVE_MAPPING_MAX :: nat where "SAVE_MAPPING_MAX = 8"
definition ERROR_FILE_EXISTS :: nat where "ERROR_FILE_EXISTS = 80"

definition sm_alloc :: "'d save_mapping \<Rightarrow> bool \<times> 'd save_mapping" where
  "sm_alloc st = (case v_alloc (sm_vfs st) of (ok, v) \<Rightarrow> (ok, st\<lparr>sm_vfs := v\<rparr>))"

text \<open>\<open>ml_mem_strdup_w\<close>\<close>

definition sm_strdup :: "wstr \<Rightarrow> 'd save_mapping \<Rightarrow> wstr option \<times> 'd save_mapping" where
  "sm_strdup s st = (case sm_alloc st of (ok, st) \<Rightarrow> (if ok then Some s else None, st))"

definition update_mapping_active_locked :: "'d save_mapping \<Rightarrow> 'd save_mapping" where
  "update_mapping_active_locked st = st\<lparr>sm_active := (sm_mappings st \<noteq> [] \<or> sm_failed st \<noteq> [])\<rparr>"

definition remember_failed_extension :: "'d save_api \<Rightarrow> wstr option \<Rightarrow> 'd save_mapping \<Rightarrow> 'd save_mapping" where
  "remember_failed_extension api extension st =
     (case extension of None \<Rightarrow> st
      | Some extension \<Rightarrow>
          if wat extension 0 \<noteq> DOT \<or> length extension \<ge> 16 then st
          else if \<exists>e \<in> set (sm_failed st). sa_compare api e extension then st
          else update_mapping_active_locked
                 (if length (sm_failed st) < SAVE_MAPPING_MAX
                  then st\<lparr>sm_failed := sm_failed st @ [take 15 extension]\<rparr> else st))"

definition join_path :: "wstr \<Rightarrow> wstr \<Rightarrow> 'd save_mapping \<Rightarrow> wstr option \<times> 'd save_mapping" where
  "join_path left right st =
     (let separator = (left \<noteq> [] \<and> \<not> ml_path_separator (last left))
      in if length left + length right + (if separator then 2 else 1) > SIZE_MAX then (None, st)
         else case sm_alloc st of
           (ok, st) \<Rightarrow> (if ok then Some (left @ (if separator then [BSLASH] else []) @ right) else None, st))"

text \<open>
  The two-call protocol of Windows: asked for the size first, then with a buffer until it is large
  enough.
\<close>

function buffer_loop :: "wstr \<Rightarrow> nat \<Rightarrow> 'd save_mapping \<Rightarrow> wstr option \<times> 'd save_mapping" where
  "buffer_loop answer capacity st =
     (if capacity = 0 then (None, st)
      else case sm_alloc st of
        (False, st) \<Rightarrow> (None, st)
      | (True, st) \<Rightarrow>
          if answer = [] then (None, st)
          else if length answer < capacity then (Some answer, st)
          else buffer_loop answer (length answer + 2) st)"
  by pat_completeness auto
termination
  by (relation "measure (\<lambda>(answer, capacity, st). if length answer < capacity then 0 else 1)") auto

declare buffer_loop.simps [simp del]

definition canonicalize_path :: "'d save_api \<Rightarrow> wstr \<Rightarrow> 'd save_mapping \<Rightarrow> wstr option \<times> 'd save_mapping" where
  "canonicalize_path api path st =
     (case sa_full_path api path of None \<Rightarrow> (None, st)
      | Some full \<Rightarrow>
          (case buffer_loop full (length full + 1) st of
             (None, st) \<Rightarrow> (None, st) | (Some p, st) \<Rightarrow> (Some (take (trim_back ml_path_separator p 1 (length p)) p), st)))"

definition environment_value :: "'d save_api \<Rightarrow> wstr \<Rightarrow> 'd save_mapping \<Rightarrow> wstr option \<times> 'd save_mapping" where
  "environment_value api name st =
     (case sa_environment api name of None \<Rightarrow> (None, st) | Some v \<Rightarrow> buffer_loop v (length v + 1) st)"

definition path_is_under_root :: "wstr \<Rightarrow> wstr \<Rightarrow> bool" where
  "path_is_under_root canonical root \<longleftrightarrow>
     root \<noteq> [] \<and> length canonical > length root \<and> wcsnicmp_eq canonical root (length root)
     \<and> ml_path_separator (wat canonical (length root))"

definition is_name_surrogate :: "'d save_api \<Rightarrow> 'd \<Rightarrow> wstr \<Rightarrow> bool" where
  "is_name_surrogate api disk path = (case sa_surrogate api disk path of None \<Rightarrow> True | Some b \<Rightarrow> b)"

text \<open>The end of the component at or after a position.\<close>

definition component_end :: "wstr \<Rightarrow> nat \<Rightarrow> nat" where
  "component_end canonical cursor =
     (let start = cursor + length (takeWhile ml_path_separator (drop cursor canonical))
      in start + length (takeWhile not_separator (drop start canonical)))"

lemma component_end_less:
  assumes "cursor < length canonical"
  shows "cursor < component_end canonical cursor"
proof -
  have "drop cursor canonical = canonical ! cursor # drop (Suc cursor) canonical"
    using assms by (simp add: Cons_nth_drop_Suc)
  then show ?thesis
    by (cases "ml_path_separator (canonical ! cursor)") (auto simp: component_end_def Let_def)
qed

lemma component_end_ge: "cursor \<le> component_end canonical cursor"
  by (simp add: component_end_def Let_def)

function link_loop :: "'d save_api \<Rightarrow> 'd \<Rightarrow> wstr \<Rightarrow> nat \<Rightarrow> bool" where
  "link_loop api disk canonical cursor =
     (let cursor = component_end canonical cursor; prefix = take cursor canonical
      in if sa_reparse api disk prefix \<and> is_name_surrogate api disk prefix then True
         else if cursor \<ge> length canonical then False
         else link_loop api disk canonical cursor)"
  by pat_completeness auto
termination
proof (relation "measure (\<lambda>(api, disk, canonical, cursor). length canonical - cursor)", simp, goal_cases)
  case (1 api disk canonical cursor c prefix)
  then have c: "c = component_end canonical cursor" "c < length canonical" by simp_all
  with component_end_ge [of cursor canonical] component_end_less [of cursor canonical]
  show ?case by simp
qed

declare link_loop.simps [simp del]

text \<open>The answer, with the allocation of the copy the loop works on.\<close>

definition path_contains_link :: "'d save_api \<Rightarrow> wstr \<Rightarrow> wstr \<Rightarrow> 'd save_mapping \<Rightarrow> bool \<times> 'd save_mapping" where
  "path_contains_link api canonical root st =
     (if length canonical \<le> length root then (False, st)
      else case sm_strdup canonical st of
        (None, st) \<Rightarrow> (True, st)
      | (Some p, st) \<Rightarrow> (link_loop api (sm_disk st) p (length root), st))"

definition build_override_name :: "'d save_api \<Rightarrow> wstr \<Rightarrow> wstr \<Rightarrow> 'd save_mapping \<Rightarrow> wstr option \<times> 'd save_mapping" where
  "build_override_name api source_name override_name st =
     (if wat override_name 0 \<noteq> DOT then sm_strdup override_name st
      else if length source_name > length override_name
              \<and> wcsicmp_eq (drop (length source_name - length override_name) source_name) override_name
      then sm_strdup source_name st
      else
        let stem_length = sa_extension api source_name
        in if stem_length > SIZE_MAX - length override_name - 1 then (None, st)
           else case sm_alloc st of
             (ok, st) \<Rightarrow> (if ok then Some (take stem_length source_name @ override_name) else None, st))"

definition reserved_names :: "wstr list" where
  "reserved_names = [L ''con'', L ''prn'', L ''aux'', L ''nul'']"

definition forbidden_char :: "wchar \<Rightarrow> bool" where
  "forbidden_char c \<longleftrightarrow> c < 32 \<or> c \<in> set [60, 62, 58, 34, 47, 92, 124, 63, 42]"

definition valid_override_name :: "wstr \<Rightarrow> bool" where
  "valid_override_name name =
     (if name = [] \<or> length name \<ge> 64 \<or> last name = 32 \<or> last name = DOT then False
      else if \<exists>c \<in> set name. forbidden_char c then False
      else if wat name 0 = DOT then length name > 1
      else
        let stem = takeWhile (\<lambda>c. c \<noteq> DOT) name
        in if \<exists>r \<in> set reserved_names. length r = length stem \<and> wcsnicmp_eq name r (length stem) then False
           else \<not> (length stem = 4 \<and> (wcsnicmp_eq name (L ''com'') 3 \<or> wcsnicmp_eq name (L ''lpt'') 3)
                   \<and> 49 \<le> wat name 3 \<and> wat name 3 \<le> 57))"

subsection \<open>The table\<close>

text \<open>A game is a null pointer, or has a save folder name or none.\<close>

definition ml_save_mapping_init_root :: "'d save_api \<Rightarrow> wstr option option \<Rightarrow> 'd save_mapping \<Rightarrow> bool \<times> 'd save_mapping" where
  "ml_save_mapping_init_root api game st =
     (let (canonical, st) =
        (case game of
           Some (Some save_root_name) \<Rightarrow>
             (case environment_value api (L ''APPDATA'') st of
                (None, st) \<Rightarrow> (None, st)
              | (Some appdata, st) \<Rightarrow>
                  (case join_path appdata save_root_name st of
                     (None, st) \<Rightarrow> (None, st) | (Some joined, st) \<Rightarrow> canonicalize_path api joined st))
         | _ \<Rightarrow> (None, st))
      in (canonical \<noteq> None,
          update_mapping_active_locked (st\<lparr>sm_root := canonical, sm_mappings := [], sm_failed := []\<rparr>)))"

definition ml_save_mapping_add_extension ::
  "'d save_api \<Rightarrow> wstr option \<Rightarrow> wstr option \<Rightarrow> 'd save_mapping \<Rightarrow> bool \<times> 'd save_mapping" where
  "ml_save_mapping_add_extension api extension override_name st =
     (case (extension, override_name) of
        (Some e, Some name) \<Rightarrow>
          if wat e 0 = DOT \<and> length e < 16 \<and> name \<noteq> [] \<and> valid_override_name name
             \<and> sm_root st \<noteq> None \<and> length (sm_mappings st) < SAVE_MAPPING_MAX
          then (True, update_mapping_active_locked (st\<lparr>sm_mappings := sm_mappings st @ [(take 15 e, take 63 name)]\<rparr>))
          else (False, remember_failed_extension api extension st)
      | _ \<Rightarrow> (False, remember_failed_extension api extension st))"

definition ml_save_mapping_init ::
  "'d save_api \<Rightarrow> wstr option option \<Rightarrow> wstr option \<Rightarrow> 'd save_mapping \<Rightarrow> bool \<times> 'd save_mapping" where
  "ml_save_mapping_init api game override_name st =
     (case override_name of None \<Rightarrow> (False, st)
      | Some name \<Rightarrow>
          if game = None \<or> name = [] \<or> \<not> valid_override_name name then (False, st)
          else case ml_save_mapping_init_root api game st of
            (False, st) \<Rightarrow> (False, st)
          | (True, st) \<Rightarrow> ml_save_mapping_add_extension api (Some (L ''.sl2'')) override_name st)"

definition ml_save_mapping_uninit :: "'d save_mapping \<Rightarrow> 'd save_mapping" where
  "ml_save_mapping_uninit st =
     (update_mapping_active_locked (st\<lparr>sm_root := None, sm_mappings := [], sm_failed := []\<rparr>))\<lparr>sm_link_warned := False\<rparr>"

subsection \<open>Routing\<close>

definition extension_in :: "'d save_api \<Rightarrow> wstr \<Rightarrow> wstr list \<Rightarrow> bool" where
  "extension_in api extension xs \<longleftrightarrow> (\<exists>e \<in> set xs. sa_compare api extension e)"

definition path_extension :: "'d save_api \<Rightarrow> wstr \<Rightarrow> wstr" where
  "path_extension api path = drop (sa_extension api path) path"

definition sm_route :: "'d save_api \<Rightarrow> wstr \<Rightarrow> 'd save_mapping \<Rightarrow> wstr option \<times> 'd save_mapping" where
  "sm_route api path st =
     (case vfs_route_writable_path (sa_up api) (Some path) (sm_vfs st) of (r, v) \<Rightarrow> (r, st\<lparr>sm_vfs := v\<rparr>))"

text \<open>Cheap enough for every \<open>CreateFile\<close>: extensions that cannot be routed.\<close>

definition interesting :: "'d save_api \<Rightarrow> wstr \<Rightarrow> 'd save_mapping \<Rightarrow> bool" where
  "interesting api path st \<longleftrightarrow>
     (let raw_ext = path_extension api path
      in sa_compare api raw_ext (L ''.bak'') \<or> extension_in api raw_ext (sm_failed st)
         \<or> extension_in api raw_ext (map fst (sm_mappings st)))"

text \<open>The directory of \<open>logical\<close> with the new name, and \<open>.bak\<close> for a backup; \<open>Inl\<close> keeps whether the target failed.\<close>

definition target_path :: "'d save_api \<Rightarrow> wstr \<Rightarrow> wstr \<Rightarrow> 'd save_mapping \<Rightarrow> wstr option \<times> 'd save_mapping" where
  "target_path api logical override_name st =
     (let n = sa_file_name api logical
      in case build_override_name api (drop n logical) override_name st of
           (None, st) \<Rightarrow> (None, st)
         | (Some target_name, st) \<Rightarrow>
             (case sm_alloc st of
                (False, st) \<Rightarrow> (None, st) | (True, st) \<Rightarrow> join_path (take n logical) target_name st))"

text \<open>The part under the exclusive lock: the seed copy and the registration.\<close>

definition seed_save :: "'d save_api \<Rightarrow> wstr \<Rightarrow> wstr \<Rightarrow> 'd save_mapping \<Rightarrow> bool \<times> 'd save_mapping" where
  "seed_save api source target st =
     (if \<not> sa_exists api (sm_disk st) target \<and> sa_exists api (sm_disk st) source then
        let st = st\<lparr>sm_vfs := vfs_recursion_guard_enter (sm_vfs st)\<rparr>
        in case sa_copy api source target (sm_disk st) of
             (error, d) \<Rightarrow>
               (error = None \<or> error = Some ERROR_FILE_EXISTS,
                st\<lparr>sm_disk := d, sm_vfs := vfs_recursion_guard_leave (sm_vfs st)\<rparr>)
      else (True, st))"

definition register_save ::
  "'d save_api \<Rightarrow> wstr \<Rightarrow> wstr \<Rightarrow> wstr \<Rightarrow> wstr \<Rightarrow> 'd save_mapping \<Rightarrow> bool \<times> wstr option \<times> 'd save_mapping" where
  "register_save api path source logical_ext target st =
     (case sm_route api path st of
        (Some registered, st) \<Rightarrow> (True, Some registered, st)
      | (None, st) \<Rightarrow>
          (case seed_save api source target st of
             (False, st) \<Rightarrow> (True, None, remember_failed_extension api (Some logical_ext) st)
           | (True, st) \<Rightarrow>
               (case vfs_register_writable_path (sa_up api) (Some path) (Some target) (sm_vfs st) of
                  (ok, v) \<Rightarrow>
                    let st = st\<lparr>sm_vfs := v\<rparr>;
                        (registered, st) = (if ok then sm_route api path st else (None, st))
                    in (True, registered,
                        if registered = None then remember_failed_extension api (Some logical_ext) st else st))))"

text \<open>From the canonical path on, when no route is registered.\<close>

definition map_save ::
  "'d save_api \<Rightarrow> wstr \<Rightarrow> wstr \<Rightarrow> wstr option \<Rightarrow> (wstr \<times> wstr) list \<Rightarrow> wstr list \<Rightarrow> 'd save_mapping
     \<Rightarrow> bool \<times> wstr option \<times> 'd save_mapping" where
  "map_save api path source root mappings failed st =
     (let backup = sa_compare api (path_extension api source) (L ''.bak'')
      in case sm_strdup source st of
           (None, st) \<Rightarrow> (True, None, st)
         | (Some logical, st) \<Rightarrow>
             let logical = (if backup then take (sa_extension api logical) logical else logical);
                 logical_ext = path_extension api logical
             in if extension_in api logical_ext failed then (True, None, st)
                else case (if root = None then None else find (\<lambda>e. sa_compare api logical_ext (fst e)) mappings) of
                  None \<Rightarrow> (False, None, st)
                | Some (_, override_name) \<Rightarrow>
                    (case target_path api logical override_name st of
                       (None, st) \<Rightarrow> (True, None, remember_failed_extension api (Some logical_ext) st)
                     | (Some target, st) \<Rightarrow>
                         if \<not> backup then register_save api path source logical_ext target st
                         else (case sm_alloc st of
                             (False, st) \<Rightarrow> (True, None, st)
                           | (True, st) \<Rightarrow> register_save api path source logical_ext (target @ L ''.bak'') st)))"

text \<open>
  Whether the save mapping answers for the path, and the path to use: \<open>(True, None)\<close> denies the
  access, \<open>(False, None)\<close> leaves the original path.
\<close>

definition ml_save_mapping_route :: "'d save_api \<Rightarrow> wstr option \<Rightarrow> 'd save_mapping \<Rightarrow> bool \<times> wstr option \<times> 'd save_mapping" where
  "ml_save_mapping_route api path st =
     (case path of None \<Rightarrow> (False, None, st)
      | Some path \<Rightarrow>
          if \<not> sm_active st \<or> \<not> interesting api path st then (False, None, st)
          else
            let (root, st) = (case sm_root st of None \<Rightarrow> (None, st) | Some root \<Rightarrow> sm_strdup root st);
                mappings = sm_mappings st; failed = sm_failed st
            in case canonicalize_path api path st of
                 (None, st) \<Rightarrow> (False, None, st)
               | (Some source, st) \<Rightarrow>
                   (case root of
                      None \<Rightarrow> map_save api path source root mappings failed st
                    | Some r \<Rightarrow>
                        if \<not> path_is_under_root source r then (False, None, st)
                        else case path_contains_link api source r st of
                          (True, st) \<Rightarrow> (True, None, st\<lparr>sm_link_warned := True\<rparr>)
                        | (False, st) \<Rightarrow>
                            (case sm_route api path st of
                               (Some registered, st) \<Rightarrow> (True, Some registered, st)
                             | (None, st) \<Rightarrow> map_save api path source root mappings failed st)))"

subsection \<open>What the helpers leave alone\<close>

text \<open>Only allocations were consumed.\<close>

definition heap_only :: "'d save_mapping \<Rightarrow> 'd save_mapping \<Rightarrow> bool" where
  "heap_only st st' \<longleftrightarrow> (\<exists>h. st' = st\<lparr>sm_vfs := with_heap h (sm_vfs st)\<rparr>)"

lemma heap_only_refl [simp]: "heap_only st st"
proof -
  have "with_heap (v_heap (sm_vfs st)) (sm_vfs st) = sm_vfs st" by (simp add: with_heap_def v_heap_def)
  then have "st = st\<lparr>sm_vfs := with_heap (v_heap (sm_vfs st)) (sm_vfs st)\<rparr>" by simp
  then show ?thesis unfolding heap_only_def by blast
qed

lemma heap_only_trans: "heap_only st st1 \<Longrightarrow> heap_only st1 st2 \<Longrightarrow> heap_only st st2"
  by (auto simp: heap_only_def)

lemma heap_only_alloc: "sm_alloc st = (ok, st') \<Longrightarrow> heap_only st st'"
  by (auto simp: sm_alloc_def v_alloc_def heap_only_def split: prod.splits)

lemma heap_only_strdup: "sm_strdup s st = (r, st') \<Longrightarrow> heap_only st st'"
  by (auto simp: sm_strdup_def dest!: heap_only_alloc split: prod.splits)

lemma heap_only_join: "join_path a b st = (r, st') \<Longrightarrow> heap_only st st'"
  by (auto simp: join_path_def Let_def dest!: heap_only_alloc split: prod.splits if_splits)

lemma heap_only_buffer: "buffer_loop a n st = (r, st') \<Longrightarrow> heap_only st st'"
proof (induction a n st rule: buffer_loop.induct)
  case (1 answer capacity st)
  obtain ok st1 where al: "sm_alloc st = (ok, st1)" by fastforce
  note h1 = heap_only_alloc [OF al]
  show ?case
  proof (cases "capacity \<noteq> 0 \<and> ok \<and> answer \<noteq> [] \<and> \<not> length answer < capacity")
    case True
    then have "buffer_loop answer (length answer + 2) st1 = (r, st')"
      using "1.prems" al by (subst (asm) buffer_loop.simps) simp
    from "1.IH" [OF _ al [symmetric] _ _ _ this] True have "heap_only st1 st'" by simp
    with h1 show ?thesis by (rule heap_only_trans)
  next
    case False
    with "1.prems" al h1 show ?thesis
      by (subst (asm) buffer_loop.simps) (auto split: if_splits bool.splits)
  qed
qed

lemma heap_only_canonicalize: "canonicalize_path api p st = (r, st') \<Longrightarrow> heap_only st st'"
  by (auto simp: canonicalize_path_def dest!: heap_only_buffer split: prod.splits option.splits)

lemma heap_only_environment: "environment_value api p st = (r, st') \<Longrightarrow> heap_only st st'"
  by (auto simp: environment_value_def dest!: heap_only_buffer split: option.splits)

lemma heap_only_link: "path_contains_link api c r st = (b, st') \<Longrightarrow> heap_only st st'"
  by (auto simp: path_contains_link_def dest!: heap_only_strdup split: prod.splits option.splits if_splits)

lemma heap_only_override: "build_override_name api a b st = (r, st') \<Longrightarrow> heap_only st st'"
  by (auto simp: build_override_name_def Let_def dest!: heap_only_alloc heap_only_strdup split: prod.splits if_splits)

lemma heap_only_target: "target_path api a b st = (r, st') \<Longrightarrow> heap_only st st'"
  by (auto simp: target_path_def Let_def dest!: heap_only_override heap_only_alloc heap_only_join
      intro: heap_only_trans split: prod.splits option.splits bool.splits)

lemma heap_only_fields:
  assumes "heap_only st st'"
  shows "sm_root st' = sm_root st \<and> sm_mappings st' = sm_mappings st \<and> sm_failed st' = sm_failed st
    \<and> sm_active st' = sm_active st \<and> writable_ok (sm_vfs st') = writable_ok (sm_vfs st)
    \<and> (\<forall>p. writable_spec p (sm_vfs st') = writable_spec p (sm_vfs st))"
  using assms by (auto simp: heap_only_def)

subsection \<open>A save that is mapped never opens the original\<close>

lemma register_save_handled: "register_save api path source ext target st = (handled, mapped, st') \<Longrightarrow> handled"
  by (auto simp: register_save_def Let_def split: prod.splits option.splits bool.splits)

lemma remember_fields [simp]:
  "sm_vfs (remember_failed_extension api e st) = sm_vfs st"
  "sm_root (remember_failed_extension api e st) = sm_root st"
  "sm_mappings (remember_failed_extension api e st) = sm_mappings st"
  by (auto simp: remember_failed_extension_def update_mapping_active_locked_def split: option.split)

lemma sm_route_mapped:
  assumes "sm_route api path st = (r, st')" and "writable_ok (sm_vfs st)" and "folds_case (sa_up api)"
  shows "writable_ok (sm_vfs st') \<and> (\<forall>t. r = Some t \<longrightarrow> writable_spec path (sm_vfs st') = Some t)"
proof -
  obtain v where v: "vfs_route_writable_path (sa_up api) (Some path) (sm_vfs st) = (r, v)" "sm_vfs st' = v"
    using assms(1) by (auto simp: sm_route_def split: prod.splits)
  note spec = route_spec [OF assms(2,3) v(1)]
  have depth: "r = None" if "v_recursion_depth (sm_vfs st) \<noteq> 0"
    using v(1) that by (auto simp: vfs_route_writable_path_def split: option.splits)
  have "writable_spec path v = writable_spec path (sm_vfs st)"
    using spec by (simp add: writable_spec_def split: option.split)
  with spec depth v(2) show ?thesis by (cases "v_recursion_depth (sm_vfs st) = 0") auto
qed

lemma seed_save_vfs:
  assumes "seed_save api source target st = (ok, st')"
  shows "sm_vfs st' = sm_vfs st \<and> sm_root st' = sm_root st \<and> sm_mappings st' = sm_mappings st
    \<and> sm_failed st' = sm_failed st \<and> sm_active st' = sm_active st"
  using assms
  by (auto simp: seed_save_def Let_def vfs_recursion_guard_enter_def vfs_recursion_guard_leave_def split: prod.splits if_splits)

lemma register_save_mapped:
  assumes "register_save api path source ext target st = (handled, mapped, st')"
    and "writable_ok (sm_vfs st)" and "folds_case (sa_up api)"
  shows "writable_ok (sm_vfs st') \<and> (\<forall>t. mapped = Some t \<longrightarrow> writable_spec path (sm_vfs st') = Some t)"
proof -
  obtain r1 st1 where r1: "sm_route api path st = (r1, st1)" by fastforce
  note route1 = sm_route_mapped [OF r1 assms(2,3)]
  show ?thesis
  proof (cases r1)
    case (Some t)
    with assms(1) r1 route1 show ?thesis by (auto simp: register_save_def)
  next
    case None
    obtain ok st2 where seed: "seed_save api source target st1 = (ok, st2)" by fastforce
    have w2: "writable_ok (sm_vfs st2)" using seed_save_vfs [OF seed] route1 by simp
    obtain ok2 v where reg: "vfs_register_writable_path (sa_up api) (Some path) (Some target) (sm_vfs st2) = (ok2, v)"
      by fastforce
    have w3: "writable_ok v"
      using register_spec [OF reg] w2 by (auto simp: writable_ok_def kh_simps)
    obtain r4 st4 where r4: "sm_route api path (st2\<lparr>sm_vfs := v\<rparr>) = (r4, st4)" by fastforce
    note route4 = sm_route_mapped [OF r4, simplified, OF w3 assms(3)]
    show ?thesis
      using assms(1) r1 None seed reg r4 route4 w2 w3
      by (auto simp: register_save_def Let_def split: bool.splits if_splits)
  qed
qed

lemma sm_alloc_ok: "heap_ok (v_heap (sm_vfs st)) \<Longrightarrow>
    \<exists>st'. sm_alloc st = (True, st') \<and> heap_only st st' \<and> heap_ok (v_heap (sm_vfs st'))"
  using heap_only_alloc [of st True "snd (sm_alloc st)"]
  by (auto simp: sm_alloc_def v_alloc_ok split: prod.splits)

lemma canonicalize_ok:
  assumes "heap_ok (v_heap (sm_vfs st))" and "sa_full_path api path = Some full" and "full \<noteq> []"
  shows "\<exists>st'. canonicalize_path api path st = (Some (take (trim_back ml_path_separator full 1 (length full)) full), st')"
proof -
  obtain st' where "sm_alloc st = (True, st')" using sm_alloc_ok [OF assms(1)] by blast
  then have "buffer_loop full (length full + 1) st = (Some full, st')"
    using assms(3) by (subst buffer_loop.simps) simp
  with assms(2) show ?thesis by (simp add: canonicalize_path_def)
qed

text \<open>The extension that decides: that of the path, or of its stem for a backup.\<close>

definition logical_extension :: "'d save_api \<Rightarrow> wstr \<Rightarrow> wstr" where
  "logical_extension api source =
     path_extension api
       (if sa_compare api (path_extension api source) (L ''.bak'') then take (sa_extension api source) source else source)"

definition known_extension :: "'d save_api \<Rightarrow> wstr \<Rightarrow> (wstr \<times> wstr) list \<Rightarrow> wstr list \<Rightarrow> bool" where
  "known_extension api ext mappings failed \<longleftrightarrow> extension_in api ext failed \<or> extension_in api ext (map fst mappings)"

lemma map_save_handled:
  assumes "map_save api path source root mappings failed st = (handled, mapped, st')"
    and "root \<noteq> None" and "known_extension api (logical_extension api source) mappings failed"
  shows handled
proof (rule ccontr)
  assume no: "\<not> handled"
  let ?logical = "if sa_compare api (path_extension api source) (L ''.bak'') then take (sa_extension api source) source else source"
  let ?ext = "path_extension api ?logical"
  have "\<not> extension_in api ?ext failed \<and> find (\<lambda>e. sa_compare api ?ext (fst e)) mappings = None"
    using assms(1,2) no
    by (auto simp: map_save_def Let_def sm_strdup_def dest: register_save_handled
        split: prod.splits option.splits bool.splits if_splits)
  then have "\<not> known_extension api ?ext mappings failed"
    by (auto simp: known_extension_def extension_in_def find_None_iff)
  with assms(3) show False by (simp add: logical_extension_def)
qed

lemma map_save_mapped:
  assumes "map_save api path source root mappings failed st = (handled, mapped, st')"
    and "writable_ok (sm_vfs st)" and "folds_case (sa_up api)"
  shows "writable_ok (sm_vfs st') \<and> (\<forall>t. mapped = Some t \<longrightarrow> handled \<and> writable_spec path (sm_vfs st') = Some t)"
proof -
  obtain r1 st1 where dup: "sm_strdup source st = (r1, st1)" by fastforce
  have w1: "writable_ok (sm_vfs st1)" using heap_only_fields [OF heap_only_strdup [OF dup]] assms(2) by simp
  let ?logical = "if sa_compare api (path_extension api source) (L ''.bak'') then take (sa_extension api source) source else source"
  let ?ext = "path_extension api ?logical"
  show ?thesis
  proof (cases "r1 = None \<or> extension_in api ?ext failed \<or>
      (if root = None then None else find (\<lambda>e. sa_compare api ?ext (fst e)) mappings) = None")
    case True
    then have "mapped = None \<and> st' = st1"
      using assms(1) dup
      by (auto simp: map_save_def Let_def sm_strdup_def split: prod.splits option.splits if_splits)
    with w1 show ?thesis by simp
  next
    case False
    then obtain e name where found: "root \<noteq> None" "find (\<lambda>e. sa_compare api ?ext (fst e)) mappings = Some (e, name)"
        and r1: "r1 = Some source" and ext: "\<not> extension_in api ?ext failed"
      using dup by (auto simp: sm_strdup_def split: prod.splits if_splits)
    obtain r2 st2 where t: "target_path api ?logical name st1 = (r2, st2)" by fastforce
    have w2: "writable_ok (sm_vfs st2)" using heap_only_fields [OF heap_only_target [OF t]] w1 by simp
    obtain ok st3 where al: "sm_alloc st2 = (ok, st3)" by fastforce
    have w3: "writable_ok (sm_vfs st3)" using heap_only_fields [OF heap_only_alloc [OF al]] w2 by simp
    note whole = assms(1) [unfolded map_save_def Let_def dup r1 prod.case option.case t]
    consider "mapped = None" "sm_vfs st' = sm_vfs st2" | "mapped = None" "sm_vfs st' = sm_vfs st3"
      | target where "register_save api path source ?ext target st2 = (handled, mapped, st')"
      | target where "register_save api path source ?ext target st3 = (handled, mapped, st')"
      using whole found ext t al
      by (auto split: option.splits if_splits bool.splits)
    then show ?thesis
    proof cases
      case 3
      from register_save_mapped [OF 3 w2 assms(3)] register_save_handled [OF 3] show ?thesis by simp
    next
      case 4
      from register_save_mapped [OF 4 w3 assms(3)] register_save_handled [OF 4] show ?thesis by simp
    qed (use w2 w3 in simp_all)
  qed
qed

text \<open>A path that the table protects.\<close>

definition protected_save :: "'d save_api \<Rightarrow> wstr \<Rightarrow> 'd save_mapping \<Rightarrow> bool" where
  "protected_save api path st \<longleftrightarrow>
     sm_active st \<and> interesting api path st \<and>
     (\<exists>root full source. sm_root st = Some root \<and> sa_full_path api path = Some full \<and> full \<noteq> [] \<and>
        source = take (trim_back ml_path_separator full 1 (length full)) full \<and> path_is_under_root source root \<and>
        known_extension api (logical_extension api source) (sm_mappings st) (sm_failed st))"

lemma route_protected:
  assumes "protected_save api path st" and "heap_ok (v_heap (sm_vfs st))"
    and "ml_save_mapping_route api (Some path) st = (handled, mapped, st')"
  shows handled
proof (rule ccontr)
  assume no: "\<not> handled"
  obtain root full source where p: "sm_active st" "interesting api path st" "sm_root st = Some root"
      "sa_full_path api path = Some full" "full \<noteq> []" "source = take (trim_back ml_path_separator full 1 (length full)) full"
      "path_is_under_root source root" "known_extension api (logical_extension api source) (sm_mappings st) (sm_failed st)"
    using assms(1) unfolding protected_save_def by blast
  obtain st1 where dup: "sm_strdup root st = (Some root, st1)" and h1: "heap_only st st1" "heap_ok (v_heap (sm_vfs st1))"
    using sm_alloc_ok [OF assms(2)] by (auto simp: sm_strdup_def)
  obtain st2 where can: "canonicalize_path api path st1 = (Some source, st2)"
    using canonicalize_ok [OF h1(2) p(4,5)] p(6) by auto
  obtain link st3 where link: "path_contains_link api source root st2 = (link, st3)" by fastforce
  obtain r st4 where r: "sm_route api path st3 = (r, st4)" by fastforce
  have f1: "sm_mappings st1 = sm_mappings st" "sm_failed st1 = sm_failed st"
    using heap_only_fields [OF h1(1)] by simp_all
  have "map_save api path source (Some root) (sm_mappings st) (sm_failed st) st4 = (handled, mapped, st')"
    using assms(3) p dup can link r f1 no
    by (auto simp: ml_save_mapping_route_def split: bool.splits option.splits)
  from map_save_handled [OF this] p(8) no show False by simp
qed

lemma route_mapped:
  assumes "ml_save_mapping_route api path st = (handled, mapped, st')"
    and "writable_ok (sm_vfs st)" and "folds_case (sa_up api)"
  shows "writable_ok (sm_vfs st') \<and>
    (\<forall>t. mapped = Some t \<longrightarrow> handled \<and> (\<exists>p. path = Some p \<and> writable_spec p (sm_vfs st') = Some t))"
proof (cases "path = None \<or> \<not> sm_active st \<or> \<not> interesting api (the path) st")
  case True
  with assms(1,2) show ?thesis by (auto simp: ml_save_mapping_route_def split: option.splits)
next
  case False
  then obtain p where path: "path = Some p" and go: "sm_active st" "interesting api p st" by auto
  obtain root st1 where root: "(case sm_root st of None \<Rightarrow> (None, st) | Some root \<Rightarrow> sm_strdup root st) = (root, st1)"
    by fastforce
  have h1: "heap_only st st1"
    using root heap_only_strdup by (fastforce split: option.splits)
  obtain c st2 where can: "canonicalize_path api p st1 = (c, st2)" by fastforce
  have h2: "heap_only st st2" by (rule heap_only_trans [OF h1 heap_only_canonicalize [OF can]])
  have w2: "writable_ok (sm_vfs st2)" using heap_only_fields [OF h2] assms(2) by simp
  have f: "sm_mappings st1 = sm_mappings st" "sm_failed st1 = sm_failed st" using heap_only_fields [OF h1] by simp_all
  note whole = assms(1) [unfolded ml_save_mapping_route_def path option.case root prod.case Let_def can]
  show ?thesis
  proof (cases c)
    case None
    then have "mapped = None \<and> st' = st2" using whole go by simp
    with w2 show ?thesis by simp
  next
    case (Some source)
    show ?thesis
    proof (cases root)
      case None
      then have "map_save api p source None (sm_mappings st) (sm_failed st) st2 = (handled, mapped, st')"
        using whole go Some f by simp
      from map_save_mapped [OF this w2 assms(3)] path show ?thesis by auto
    next
      case r: (Some r)
      obtain link st3 where link: "path_contains_link api source r st2 = (link, st3)" by fastforce
      have w3: "writable_ok (sm_vfs st3)" using heap_only_fields [OF heap_only_link [OF link]] w2 by simp
      obtain t st4 where rt: "sm_route api p st3 = (t, st4)" by fastforce
      note route = sm_route_mapped [OF rt w3 assms(3)]
      consider "mapped = None" "sm_vfs st' = sm_vfs st2 \<or> sm_vfs st' = sm_vfs st3"
        | u where "handled" "mapped = Some u" "t = Some u" "st' = st4"
        | "map_save api p source (Some r) (sm_mappings st) (sm_failed st) st4 = (handled, mapped, st')"
        using whole go Some r link rt f by (auto split: if_splits bool.splits option.splits)
      then show ?thesis
      proof cases
        case 3
        from map_save_mapped [OF this _ assms(3)] route path show ?thesis by auto
      qed (use w2 w3 route path in auto)
    qed
  qed
qed

subsection \<open>Reachable tables\<close>

inductive sm_reach :: "'d save_api \<Rightarrow> 'd save_mapping \<Rightarrow> bool" for api where
  sm_start: "writable_ok v \<Longrightarrow> sm_reach api
     \<lparr>sm_root = None, sm_mappings = [], sm_failed = [], sm_active = False, sm_link_warned = False, sm_vfs = v, sm_disk = d\<rparr>"
| sm_init_root: "sm_reach api st \<Longrightarrow> ml_save_mapping_init_root api game st = (ok, st') \<Longrightarrow> sm_reach api st'"
| sm_add: "sm_reach api st \<Longrightarrow> ml_save_mapping_add_extension api extension name st = (ok, st') \<Longrightarrow> sm_reach api st'"
| sm_init: "sm_reach api st \<Longrightarrow> ml_save_mapping_init api game name st = (ok, st') \<Longrightarrow> sm_reach api st'"
| sm_uninit: "sm_reach api st \<Longrightarrow> sm_reach api (ml_save_mapping_uninit st)"
| sm_routed: "sm_reach api st \<Longrightarrow> ml_save_mapping_route api path st = (handled, mapped, st') \<Longrightarrow> sm_reach api st'"
| sm_others: "sm_reach api st \<Longrightarrow> writable_ok v \<Longrightarrow> sm_reach api (st\<lparr>sm_vfs := v, sm_disk := d\<rparr>)"

definition sm_ok :: "'d save_mapping \<Rightarrow> bool" where
  "sm_ok st \<longleftrightarrow>
     length (sm_mappings st) \<le> SAVE_MAPPING_MAX \<and> length (sm_failed st) \<le> SAVE_MAPPING_MAX \<and>
     (\<forall>(e, name) \<in> set (sm_mappings st). wat e 0 = DOT \<and> length e < 16 \<and> length name < 64 \<and> valid_override_name name) \<and>
     (\<forall>e \<in> set (sm_failed st). wat e 0 = DOT \<and> length e < 16) \<and>
     (sm_active st \<longleftrightarrow> sm_mappings st \<noteq> [] \<or> sm_failed st \<noteq> []) \<and>
     (sm_mappings st \<noteq> [] \<longrightarrow> sm_root st \<noteq> None)"

lemma sm_ok_cong:
  "sm_mappings st' = sm_mappings st \<Longrightarrow> sm_failed st' = sm_failed st \<Longrightarrow> sm_active st' = sm_active st \<Longrightarrow>
   sm_root st' = sm_root st \<Longrightarrow> sm_ok st' = sm_ok st"
  by (simp add: sm_ok_def)

lemma sm_ok_heap: "heap_only st st' \<Longrightarrow> sm_ok st' = sm_ok st"
  by (rule sm_ok_cong) (auto dest: heap_only_fields)

lemma sm_ok_remember: "sm_ok st \<Longrightarrow> sm_ok (remember_failed_extension api e st)"
  by (auto simp: remember_failed_extension_def update_mapping_active_locked_def sm_ok_def split: option.split)

lemma sm_ok_empty: "sm_ok (update_mapping_active_locked (st\<lparr>sm_root := r, sm_mappings := [], sm_failed := []\<rparr>))"
  by (simp add: update_mapping_active_locked_def sm_ok_def)

lemma sm_ok_register:
  assumes "register_save api path source ext target st = (handled, mapped, st')" and "sm_ok st"
  shows "sm_ok st'"
proof -
  have route: "sm_ok st2 = sm_ok st1" if "sm_route api path st1 = (r, st2)" for r st1 st2
    using that by (intro sm_ok_cong) (auto simp: sm_route_def split: prod.splits)
  have seed: "sm_ok st2 = sm_ok st1" if "seed_save api source target st1 = (r, st2)" for r st1 st2
    using seed_save_vfs [OF that] by (intro sm_ok_cong) simp_all
  have vfs: "sm_ok (st1\<lparr>sm_vfs := v\<rparr>) = sm_ok st1" for st1 v by (rule sm_ok_cong) simp_all
  show ?thesis
    using assms by (auto simp: register_save_def Let_def vfs dest!: route seed intro!: sm_ok_remember
        split: prod.splits option.splits bool.splits if_splits)
qed

lemma sm_ok_map:
  assumes "map_save api path source root mappings failed st = (handled, mapped, st')" and "sm_ok st"
  shows "sm_ok st'"
  using assms
  by (auto simp: map_save_def Let_def intro!: sm_ok_remember
      dest!: heap_only_strdup heap_only_target heap_only_alloc sm_ok_heap dest: sm_ok_register
      split: prod.splits option.splits bool.splits if_splits)

lemma sm_ok_route:
  assumes "ml_save_mapping_route api path st = (handled, mapped, st')" and "sm_ok st"
  shows "sm_ok st'"
proof -
  have route: "sm_ok st2 = sm_ok st1" if "sm_route api path st1 = (r, st2)" for r path and st1 st2 :: "'a save_mapping"
    using that by (intro sm_ok_cong) (auto simp: sm_route_def split: prod.splits)
  have warned: "sm_ok (st1\<lparr>sm_link_warned := b\<rparr>) = sm_ok st1" for st1 :: "'a save_mapping" and b
    by (rule sm_ok_cong) simp_all
  show ?thesis
    using assms
    by (auto simp: ml_save_mapping_route_def Let_def warned
        dest!: heap_only_strdup heap_only_canonicalize heap_only_link sm_ok_heap route dest: sm_ok_map
        split: prod.splits option.splits bool.splits if_splits)
qed

lemma wat_take_0: "wat (take (Suc n) s) 0 = wat s 0"
  by (cases s) auto

lemma sm_ok_add:
  assumes "ml_save_mapping_add_extension api extension name st = (ok, st')" and "sm_ok st"
  shows "sm_ok st'"
proof -
  consider "st' = remember_failed_extension api extension st"
    | e n where "extension = Some e" "name = Some n" "wat e 0 = DOT" "length e < 16" "valid_override_name n"
        "sm_root st \<noteq> None" "length (sm_mappings st) < SAVE_MAPPING_MAX"
        "st' = update_mapping_active_locked (st\<lparr>sm_mappings := sm_mappings st @ [(take 15 e, take 63 n)]\<rparr>)"
    using assms(1) by (auto simp: ml_save_mapping_add_extension_def split: option.splits if_splits)
  then show ?thesis
  proof cases
    case 1
    with sm_ok_remember [OF assms(2)] show ?thesis by simp
  next
    case (2 e n)
    have "length n < 64" using 2(5) by (simp add: valid_override_name_def split: if_splits)
    then have "take 63 n = n" "take 15 e = e" using 2(4) by simp_all
    with 2 assms(2) \<open>length n < 64\<close> show ?thesis
      by (simp add: sm_ok_def update_mapping_active_locked_def)
  qed
qed

lemma sm_ok_reach: "sm_reach api st \<Longrightarrow> sm_ok st"
proof (induction rule: sm_reach.induct)
  case (sm_start v d)
  show ?case by (simp add: sm_ok_def)
next
  case (sm_init_root st game ok st')
  then show ?case by (auto simp: ml_save_mapping_init_root_def Let_def sm_ok_empty split: prod.splits)
next
  case (sm_add st extension name ok st')
  then show ?case by (rule_tac sm_ok_add)
next
  case (sm_init st game name ok st')
  have root: "sm_ok st2" if "ml_save_mapping_init_root api g st1 = (r, st2)" for g r st1 st2
    using that by (auto simp: ml_save_mapping_init_root_def Let_def sm_ok_empty split: prod.splits)
  from sm_init show ?case
    by (auto simp: ml_save_mapping_init_def dest!: root dest: sm_ok_add split: option.splits if_splits prod.splits bool.splits)
next
  case (sm_uninit st)
  have "sm_ok (st\<lparr>sm_link_warned := b\<rparr>) = sm_ok st" for st :: "'a save_mapping" and b by (rule sm_ok_cong) simp_all
  then show ?case by (simp add: ml_save_mapping_uninit_def sm_ok_empty)
next
  case (sm_routed st path handled mapped st')
  then show ?case by (rule_tac sm_ok_route)
next
  case (sm_others st v d)
  have "sm_ok (st\<lparr>sm_vfs := v, sm_disk := d\<rparr>) = sm_ok st" by (rule sm_ok_cong) simp_all
  with sm_others show ?case by simp
qed

lemma init_root_vfs:
  assumes "ml_save_mapping_init_root api game st = (ok, st')"
  shows "writable_ok (sm_vfs st') = writable_ok (sm_vfs st)"
proof -
  obtain c st1 where root: "(case game of
           Some (Some save_root_name) \<Rightarrow>
             (case environment_value api (L ''APPDATA'') st of
                (None, st) \<Rightarrow> (None, st)
              | (Some appdata, st) \<Rightarrow>
                  (case join_path appdata save_root_name st of
                     (None, st) \<Rightarrow> (None, st) | (Some joined, st) \<Rightarrow> canonicalize_path api joined st))
         | _ \<Rightarrow> (None, st)) = (c, st1)" by fastforce
  then have "heap_only st st1"
    by (auto dest!: heap_only_environment heap_only_join heap_only_canonicalize intro: heap_only_trans
        split: option.splits prod.splits)
  then show ?thesis
    using assms root heap_only_fields
    by (fastforce simp: ml_save_mapping_init_root_def update_mapping_active_locked_def)
qed

lemma add_vfs: "ml_save_mapping_add_extension api extension name st = (ok, st') \<Longrightarrow> sm_vfs st' = sm_vfs st"
  by (auto simp: ml_save_mapping_add_extension_def update_mapping_active_locked_def split: option.splits if_splits)

lemma sm_writable_reach:
  assumes "folds_case (sa_up api)"
  shows "sm_reach api st \<Longrightarrow> writable_ok (sm_vfs st)"
proof (induction rule: sm_reach.induct)
  case (sm_init_root st game ok st')
  then show ?case by (simp add: init_root_vfs)
next
  case (sm_add st extension name ok st')
  then show ?case by (simp add: add_vfs)
next
  case (sm_init st game name ok st')
  then show ?case
    by (auto simp: ml_save_mapping_init_def dest!: add_vfs init_root_vfs split: option.splits if_splits prod.splits bool.splits)
next
  case (sm_routed st path handled mapped st')
  then show ?case using route_mapped [OF _ _ assms] by blast
qed (simp_all add: ml_save_mapping_uninit_def update_mapping_active_locked_def)

text \<open>
  C9: in every state of the save mapping the tables hold at most eight entries, every extension
  starts with a dot and fits its buffer, every new name is a valid file name, mappings exist only
  with a save root, and the flag that is read without the lock says exactly whether there is an
  entry.
\<close>

theorem save_mapping_tables:
  assumes "sm_reach api st"
  shows "length (sm_mappings st) \<le> 8 \<and> length (sm_failed st) \<le> 8 \<and>
     (\<forall>(e, name) \<in> set (sm_mappings st). wat e 0 = DOT \<and> length e < 16 \<and> length name < 64 \<and> valid_override_name name) \<and>
     (\<forall>e \<in> set (sm_failed st). wat e 0 = DOT \<and> length e < 16) \<and>
     (sm_active st \<longleftrightarrow> sm_mappings st \<noteq> [] \<or> sm_failed st \<noteq> []) \<and>
     (sm_mappings st \<noteq> [] \<longrightarrow> sm_root st \<noteq> None)"
  using sm_ok_reach [OF assms] unfolding sm_ok_def SAVE_MAPPING_MAX_def .

text \<open>
  C8: as long as memory lasts, a path below the save root whose extension is mapped, or whose
  mapping failed, is never left to the original file: the answer is a denial, or a path that the
  index has registered for exactly this path.
\<close>

theorem save_route_fails_closed:
  assumes "sm_reach api st" and "ordinal_ascii (sa_up api)"
    and "protected_save api path st" and "heap_ok (v_heap (sm_vfs st))"
    and "ml_save_mapping_route api (Some path) st = (handled, mapped, st')"
  shows "handled \<and> (\<forall>t. mapped = Some t \<longrightarrow>
    (\<exists>key. vfs_key path = Some key \<and> map_of (v_writable (sm_vfs st')) key = Some t))"
proof -
  note up = ordinal_folds_case [OF assms(2)]
  have handled by (rule route_protected [OF assms(3-5)])
  moreover have "mapped = Some t \<Longrightarrow> writable_spec path (sm_vfs st') = Some t" for t
    using route_mapped [OF assms(5) sm_writable_reach [OF up assms(1)] up] by auto
  ultimately show ?thesis by (auto simp: writable_spec_def split: option.splits)
qed

text \<open>A name that has been mapped is mapped to itself.\<close>

lemma override_name_idempotent:
  assumes "build_override_name api source_name name st = (Some r, st1)" and "source_name \<noteq> []"
    and "0 < sa_extension api source_name" and "build_override_name api r name st2 = (Some r', st3)"
  shows "r' = r"
proof (cases "wat name 0 = DOT")
  case False
  with assms(1,4) show ?thesis by (auto simp: build_override_name_def sm_strdup_def split: prod.splits if_splits)
next
  case True
  have "length r > length name \<and> wcsicmp_eq (drop (length r - length name) r) name"
    using assms(1-3) True
    by (auto simp: build_override_name_def sm_strdup_def Let_def split: prod.splits if_splits)
  with True assms(4) show ?thesis
    by (auto simp: build_override_name_def sm_strdup_def split: prod.splits if_splits)
qed

subsection \<open>Examples\<close>

definition example_extension :: "wstr \<Rightarrow> nat" where
  "example_extension p =
     (let suffix = takeWhile (\<lambda>c. c \<noteq> DOT \<and> c \<noteq> BSLASH) (rev p)
      in if length suffix < length p \<and> rev p ! length suffix = DOT then length p - length suffix - 1 else length p)"

text \<open>Windows drops dots at the end of a name.\<close>

definition example_save_api :: "wstr list save_api" where
  "example_save_api =
     \<lparr>sa_up = ascii_up, sa_full_path = (\<lambda>p. Some (rev (dropWhile (\<lambda>c. c = DOT) (rev p)))),
      sa_environment = (\<lambda>_. Some (L ''C:'' @ [BSLASH, 65])), sa_extension = example_extension,
      sa_file_name = (\<lambda>p. length p - length (takeWhile (\<lambda>c. c \<noteq> BSLASH) (rev p))),
      sa_compare = wcsicmp_eq, sa_reparse = (\<lambda>_ _. False), sa_surrogate = (\<lambda>_ _. None),
      sa_exists = (\<lambda>d p. p \<in> set d), sa_copy = (\<lambda>_ target d. (None, target # d))\<rparr>"

definition example_save_start :: "wstr list save_mapping" where
  "example_save_start =
     \<lparr>sm_root = None, sm_mappings = [], sm_failed = [], sm_active = False, sm_link_warned = False,
      sm_vfs = vfs_init (fs_initial (\<lambda>_. True)) 0, sm_disk = []\<rparr>"

definition example_save_added :: "wstr list save_mapping" where
  "example_save_added =
     snd (ml_save_mapping_add_extension example_save_api (Some (L ''.sl2'')) (Some (L ''.co2''))
       (snd (ml_save_mapping_init_root example_save_api (Some (Some (L ''ER''))) example_save_start)))"

definition example_save_path :: wstr where
  "example_save_path = L ''C:'' @ [BSLASH, 65, BSLASH] @ L ''ER'' @ [BSLASH] @ L ''x.sl2''"

definition example_save :: "wstr list save_mapping" where
  "example_save = example_save_added\<lparr>sm_vfs := vfs_init (fs_initial (\<lambda>_. True)) 0, sm_disk := [example_save_path]\<rparr>"

lemma fresh_writable_ok: "writable_ok (vfs_init files depth)"
  by (simp add: writable_ok_def vfs_init_def kh_simps)

lemma example_save_reach: "sm_reach example_save_api example_save"
proof -
  have "sm_reach example_save_api example_save_start"
    unfolding example_save_start_def by (rule sm_start [OF fresh_writable_ok])
  from sm_init_root [OF this, of "Some (Some (L ''ER''))" "fst (ml_save_mapping_init_root example_save_api (Some (Some (L ''ER''))) example_save_start)"]
  have "sm_reach example_save_api (snd (ml_save_mapping_init_root example_save_api (Some (Some (L ''ER''))) example_save_start))" by simp
  from sm_add [OF this, of "Some (L ''.sl2'')" "Some (L ''.co2'')"] have "sm_reach example_save_api example_save_added"
    unfolding example_save_added_def by (metis prod.collapse)
  then show ?thesis unfolding example_save_def by (rule sm_others [OF _ fresh_writable_ok])
qed

theorem save_mapping_tables_witness:
  "sm_mappings example_save = [(L ''.sl2'', L ''.co2'')] \<and> valid_override_name (L ''.co2'') \<and> sm_active example_save"
proof -
  have "sm_mappings example_save = [(L ''.sl2'', L ''.co2'')]" by code_simp
  with save_mapping_tables [OF example_save_reach] show ?thesis by simp
qed

lemma example_save_protected: "protected_save example_save_api example_save_path example_save"
proof -
  have "sm_root example_save = Some (L ''C:'' @ [BSLASH, 65, BSLASH] @ L ''ER'')" by code_simp
  moreover have "sa_full_path example_save_api example_save_path = Some example_save_path" by code_simp
  moreover have "take (trim_back ml_path_separator example_save_path 1 (length example_save_path)) example_save_path = example_save_path"
    by code_simp
  moreover have "path_is_under_root example_save_path (L ''C:'' @ [BSLASH, 65, BSLASH] @ L ''ER'')" by code_simp
  moreover have "known_extension example_save_api (logical_extension example_save_api example_save_path)
      (sm_mappings example_save) (sm_failed example_save)" by code_simp
  moreover have "sm_active example_save \<and> interesting example_save_api example_save_path example_save" by code_simp
  moreover have "example_save_path \<noteq> []" by code_simp
  ultimately show ?thesis unfolding protected_save_def by metis
qed

theorem save_route_fails_closed_witness:
  "\<exists>key. fst (snd (ml_save_mapping_route example_save_api (Some example_save_path) example_save))
       = Some (L ''C:'' @ [BSLASH, 65, BSLASH] @ L ''ER'' @ [BSLASH] @ L ''x.co2'') \<and>
     vfs_key example_save_path = Some key \<and>
     map_of (v_writable (sm_vfs (snd (snd (ml_save_mapping_route example_save_api (Some example_save_path) example_save))))) key
       = Some (L ''C:'' @ [BSLASH, 65, BSLASH] @ L ''ER'' @ [BSLASH] @ L ''x.co2'')"
proof -
  let ?r = "ml_save_mapping_route example_save_api (Some example_save_path) example_save"
  have mapped: "fst (snd ?r) = Some (L ''C:'' @ [BSLASH, 65, BSLASH] @ L ''ER'' @ [BSLASH] @ L ''x.co2'')" by code_simp
  have "ordinal_ascii (sa_up example_save_api)" by (simp add: example_save_api_def ordinal_ascii_up)
  moreover have "heap_ok (v_heap (sm_vfs example_save))" by (simp add: example_save_def vfs_init_def v_heap_def fs_initial_def)
  moreover have "?r = (fst ?r, fst (snd ?r), snd (snd ?r))" by simp
  ultimately have "\<forall>t. fst (snd ?r) = Some t \<longrightarrow>
      (\<exists>key. vfs_key example_save_path = Some key \<and> map_of (v_writable (sm_vfs (snd (snd ?r)))) key = Some t)"
    using save_route_fails_closed [OF example_save_reach _ example_save_protected] by blast
  with mapped show ?thesis by blast
qed

subsection \<open>Where it does not fail closed\<close>

text \<open>
  When the copy of the save root or of the path cannot be allocated, the path is left to the
  original file: a missing copy of the root is taken for a missing root.
\<close>

lemma save_route_without_memory:
  "fst (ml_save_mapping_route example_save_api (Some example_save_path)
     (example_save\<lparr>sm_vfs := vfs_init (fs_initial (\<lambda>n. n \<noteq> 0)) 0\<rparr>)) = False"
  by code_simp

text \<open>
  The filter reads the extension of the path as it was given, but Windows drops dots at the end of a
  name: \<open>x.sl2.\<close> opens \<open>x.sl2\<close>, and the filter leaves it to the original file, while the
  canonical path is protected.
\<close>

lemma save_route_trailing_dot:
  "sa_full_path example_save_api (example_save_path @ [DOT]) = Some example_save_path \<and>
   fst (ml_save_mapping_route example_save_api (Some example_save_path) example_save) = True \<and>
   fst (ml_save_mapping_route example_save_api (Some (example_save_path @ [DOT])) example_save) = False"
  by code_simp

end
