(* ===== verification/Ini.thy ===== *)
theory Ini
  imports VfsPath
begin

text \<open>
  The reader of INI files the loader ships (\<open>src/deps/inih/ini.c\<close>), as its \<open>CMakeLists.txt\<close> builds
  it: no values over several lines, a line buffer on the heap that grows without a limit, inline
  comments after white space, a byte order mark on the first line.

  A file is the list of the bytes it still has, after the translation of line ends that opening it
  as text asks for; the C runtime of Windows lets a failing read end a file like its end, and
  \<open>ferror\<close> tells the two apart afterwards. The buffer \<open>line\<close> is its string, up to the first NUL.
  \<open>malloc\<close> and \<open>realloc\<close> take their outcomes from a stream like the loader's own allocator. The
  handler is an argument with a state of any type.

  The reader is proved to hand every line to the handler whole, whatever its length.
\<close>

subsection \<open>Strings\<close>

definition isspace :: "8 word \<Rightarrow> bool" where
  "isspace c \<longleftrightarrow> c = 32 \<or> (9 \<le> c \<and> c \<le> 13)"

abbreviation LF :: "8 word" where "LF \<equiv> 10"

definition ini_rstrip :: "bytes \<Rightarrow> bytes" where
  "ini_rstrip s = rev (dropWhile isspace (rev s))"

definition ini_lskip :: "bytes \<Rightarrow> bytes" where
  "ini_lskip s = dropWhile isspace s"

text \<open>The offset at which the search stops; \<open>NULL\<close> for \<open>chars\<close> is \<open>None\<close>.\<close>

fun find_chars_loop :: "bytes option \<Rightarrow> bool \<Rightarrow> bytes \<Rightarrow> nat" where
  "find_chars_loop chars was_space [] = 0"
| "find_chars_loop chars was_space (c # s) =
     (if (chars = None \<or> c \<notin> set (the chars)) \<and> \<not> (was_space \<and> c = 59)
      then Suc (find_chars_loop chars (isspace c) s) else 0)"

definition ini_find_chars_or_comment :: "bytes \<Rightarrow> bytes option \<Rightarrow> nat" where
  "ini_find_chars_or_comment s chars = find_chars_loop chars False s"

definition MAX_SECTION :: nat where "MAX_SECTION = 50"

definition ini_strncpy0 :: "bytes \<Rightarrow> nat \<Rightarrow> bytes" where
  "ini_strncpy0 src n = take (n - 1) src"

subsection \<open>One line\<close>

type_synonym 'u ini_handler = "bytes \<Rightarrow> bytes \<Rightarrow> bytes \<Rightarrow> 'u \<Rightarrow> bool \<times> 'u"

record 'u ini_state =
  is_section :: bytes
  is_lineno :: int
  is_error :: int
  is_user :: 'u

definition ini_fail :: "'u ini_state \<Rightarrow> 'u ini_state" where
  "ini_fail st = (if is_error st = 0 then st\<lparr>is_error := is_lineno st\<rparr> else st)"

definition ini_call :: "'u ini_handler \<Rightarrow> bytes \<Rightarrow> bytes \<Rightarrow> 'u ini_state \<Rightarrow> 'u ini_state" where
  "ini_call handler name data st =
     (case handler (is_section st) name data (is_user st) of
        (ok, u) \<Rightarrow> (let st = st\<lparr>is_user := u\<rparr> in if ok then st else ini_fail st))"

definition skip_bom :: "int \<Rightarrow> bytes \<Rightarrow> bytes" where
  "skip_bom lineno line =
     (if lineno = 1 \<and> bat line 0 = 0xEF \<and> bat line 1 = 0xBB \<and> bat line 2 = 0xBF then drop 3 line else line)"

text \<open>A \<open>name[=:]value\<close> pair, whose \<open>start\<close> is stripped at both ends.\<close>

definition ini_pair :: "'u ini_handler \<Rightarrow> bytes \<Rightarrow> 'u ini_state \<Rightarrow> 'u ini_state" where
  "ini_pair handler start st =
     (let fin = ini_find_chars_or_comment start (Some (B ''=:''))
      in if bat start fin = 61 \<or> bat start fin = 58 then
           (let name = ini_rstrip (take fin start);
                data = drop (fin + 1) start;
                data = take (ini_find_chars_or_comment data None) data;
                data = ini_rstrip (ini_lskip data)
            in ini_call handler name data st)
         else ini_fail st)"

definition ini_line :: "'u ini_handler \<Rightarrow> bytes \<Rightarrow> 'u ini_state \<Rightarrow> 'u ini_state" where
  "ini_line handler line st =
     (let start = ini_rstrip (ini_lskip (skip_bom (is_lineno st) line))
      in if bat start 0 \<in> {0, 59, 35} then st
         else if bat start 0 = 91 then
           (let fin = ini_find_chars_or_comment (drop 1 start) (Some (B '']''))
            in if bat (drop 1 start) fin = 93
               then st\<lparr>is_section := ini_strncpy0 (take fin (drop 1 start)) MAX_SECTION\<rparr>
               else ini_fail st)
         else ini_pair handler start st)"

subsection \<open>Reading lines\<close>

definition INT_MAX :: nat where "INT_MAX = 2147483647"
definition INI_INITIAL_ALLOC :: nat where "INI_INITIAL_ALLOC = 200"

text \<open>The length of the first line of a text, with its line end.\<close>

definition line_length :: "bytes \<Rightarrow> nat" where
  "line_length s = (let n = length (takeWhile (\<lambda>c. c \<noteq> LF) s) in if n < length s then n + 1 else n)"

text \<open>
  The reader of a line: the bytes it reads, which may hold a NUL, and the rest. Over a file it is the
  \<open>fgets\<close> of the C library; \<open>ini_reader_string\<close> is the source's own, over a string.
\<close>

definition fgets :: "nat \<Rightarrow> bytes \<Rightarrow> (bytes \<times> bytes) option" where
  "fgets num s =
     (if num < 2 \<or> s = [] then None
      else let k = min (num - 1) (line_length s) in Some (take k s, drop k s))"

definition strz :: "bytes \<Rightarrow> bytes" where
  "strz s = takeWhile (\<lambda>c. c \<noteq> 0) s"

lemma line_length_le: "line_length s \<le> length s"
  by (simp add: line_length_def Let_def length_takeWhile_le)

lemma line_length_pos: "s \<noteq> [] \<Longrightarrow> 0 < line_length s"
  by (auto simp: line_length_def Let_def)

lemma fgets_shorter: "fgets num s = Some (chunk, rest) \<Longrightarrow> length rest < length s"
  using line_length_pos [of s] by (auto simp: fgets_def Let_def split: if_splits)

text \<open>Room for more of a line: the size of the buffer, doubled when one byte or none is free.\<close>

definition buffer_room :: "nat \<Rightarrow> nat \<Rightarrow> heap \<Rightarrow> nat option \<times> heap" where
  "buffer_room offset max_line h =
     (if max_line - offset < 2 then
        (if max_line > SIZE_MAX div 2 then (None, h)
         else case ml_mem_alloc h of (ok, h) \<Rightarrow> (if ok then Some (max_line * 2) else None, h))
      else (Some max_line, h))"

text \<open>
  The loop that reads the rest of a line and grows the buffer: \<open>None\<close> when memory runs out,
  otherwise the line, the size of the buffer and what is left of the file.
\<close>

function grow_line ::
  "bytes \<Rightarrow> nat \<Rightarrow> nat \<Rightarrow> nat \<Rightarrow> bytes \<Rightarrow> heap \<Rightarrow> (bytes \<times> nat \<times> bytes) option \<times> heap" where
  "grow_line line max_line reader_size read_length rest h =
     (if read_length = reader_size - 1 \<and> line \<noteq> [] \<and> last line \<noteq> LF then
        (case buffer_room (length line) max_line h of
           (None, h) \<Rightarrow> (None, h)
         | (Some max_line, h) \<Rightarrow>
             (let reader_size = min (max_line - length line) INT_MAX
              in case fgets reader_size rest of
                   None \<Rightarrow> (Some (line, max_line, rest), h)
                 | Some (chunk, rest) \<Rightarrow>
                     grow_line (line @ strz chunk) max_line reader_size (length (strz chunk)) rest h))
      else (Some (line, max_line, rest), h))"
  by pat_completeness auto
termination
  by (relation "measure (\<lambda>(_, _, _, _, rest, _). length rest)") (auto dest: fgets_shorter)

declare grow_line.simps [simp del]

lemma grow_line_shorter:
  "grow_line line max_line reader_size read_length rest h = (Some (line', max', rest'), h')
     \<Longrightarrow> length rest' \<le> length rest"
proof (induction line max_line reader_size read_length rest h rule: grow_line.induct)
  case (1 line max_line reader_size read_length rest h)
  show ?case
  proof (cases "read_length = reader_size - 1 \<and> line \<noteq> [] \<and> last line \<noteq> LF")
    case True
    obtain m h1 where r: "buffer_room (length line) max_line h = (m, h1)" by fastforce
    obtain n where m: "m = Some n" using 1(2) True r by (cases m) (simp_all add: grow_line.simps)
    let ?n = "min (n - length line) INT_MAX"
    show ?thesis
    proof (cases "fgets ?n rest")
      case None
      with 1(2) True r m show ?thesis by (simp add: grow_line.simps Let_def)
    next
      case (Some x)
      obtain chunk rest1 where x: "x = (chunk, rest1)" by fastforce
      have "grow_line (line @ strz chunk) n ?n (length (strz chunk)) rest1 h1 = (Some (line', max', rest'), h')"
        using 1(2) True r m Some x by (subst (asm) grow_line.simps) (simp add: Let_def)
      from 1(1) [OF True r [symmetric] m refl Some x [symmetric] this] fgets_shorter [OF Some [unfolded x]]
      show ?thesis by simp
    qed
  next
    case False
    with 1(2) show ?thesis by (subst (asm) grow_line.simps) (auto split: if_splits)
  qed
qed

text \<open>A line that did not fit is read to its end into \<open>abyss\<close>.\<close>

function abyss_loop :: "bytes \<Rightarrow> 'u ini_state \<Rightarrow> bytes \<times> 'u ini_state" where
  "abyss_loop rest st =
     (case fgets 16 rest of None \<Rightarrow> (rest, st)
      | Some (chunk, rest) \<Rightarrow>
          (let st = ini_fail st
           in if bat (strz chunk) (length (strz chunk) - 1) = LF then (rest, st) else abyss_loop rest st))"
  by pat_completeness auto
termination
  by (relation "measure (\<lambda>(rest, _). length rest)") (auto dest: fgets_shorter)

declare abyss_loop.simps [simp del]

lemma abyss_loop_shorter: "length (fst (abyss_loop rest st)) \<le> length rest"
proof (induction rest st rule: abyss_loop.induct)
  case (1 rest st)
  show ?case
    by (subst abyss_loop.simps)
      (use 1 in \<open>fastforce simp: Let_def split: option.splits dest: fgets_shorter\<close>)
qed

definition discard_rest :: "bytes \<Rightarrow> nat \<Rightarrow> bytes \<Rightarrow> 'u ini_state \<Rightarrow> bytes \<times> 'u ini_state" where
  "discard_rest line max_line rest st =
     (if length line = max_line - 1 \<and> line \<noteq> [] \<and> last line \<noteq> LF then abyss_loop rest st else (rest, st))"

lemma discard_rest_shorter: "length (fst (discard_rest line max_line rest st)) \<le> length rest"
  by (simp add: discard_rest_def abyss_loop_shorter)

lemma discard_rest_le:
  "(rest', st') = discard_rest line max_line rest st \<Longrightarrow> length rest' \<le> length rest"
  using discard_rest_shorter by (metis fst_conv)

function ini_stream_loop ::
  "'u ini_handler \<Rightarrow> nat \<Rightarrow> bytes \<Rightarrow> 'u ini_state \<Rightarrow> heap \<Rightarrow> (int \<times> 'u) \<times> heap" where
  "ini_stream_loop handler max_line rest st h =
     (let reader_size = min max_line INT_MAX
      in case fgets reader_size rest of
           None \<Rightarrow> ((is_error st, is_user st), h)
         | Some (chunk, rest1) \<Rightarrow>
             (case grow_line (strz chunk) max_line reader_size (length (strz chunk)) rest1 h of
                (None, h) \<Rightarrow> ((-2, is_user st), h)
              | (Some (line, max_line, rest2), h) \<Rightarrow>
                  (let (rest3, st) =
                     discard_rest line max_line rest2 (st\<lparr>is_lineno := is_lineno st + 1\<rparr>)
                   in ini_stream_loop handler max_line rest3 (ini_line handler line st) h)))"
  by pat_completeness auto
termination
proof (relation "measure (\<lambda>(_, _, rest, _, _). length rest)", goal_cases)
  case 2
  then show ?case
    by (auto dest!: fgets_shorter grow_line_shorter [OF sym] discard_rest_le)
qed simp

declare ini_stream_loop.simps [simp del]

definition ini_parse_stream :: "'u ini_handler \<Rightarrow> 'u \<Rightarrow> bytes \<Rightarrow> heap \<Rightarrow> (int \<times> 'u) \<times> heap" where
  "ini_parse_stream handler user rest h =
     (case ml_mem_alloc h of
        (False, h) \<Rightarrow> ((-2, user), h)
      | (True, h) \<Rightarrow>
          ini_stream_loop handler INI_INITIAL_ALLOC rest
            \<lparr>is_section = [], is_lineno = 0, is_error = 0, is_user = user\<rparr> h)"

text \<open>\<open>ferror\<close> after the last read is the argument.\<close>

definition ini_parse_file :: "'u ini_handler \<Rightarrow> 'u \<Rightarrow> bytes \<Rightarrow> bool \<Rightarrow> heap \<Rightarrow> (int \<times> 'u) \<times> heap" where
  "ini_parse_file handler user rest ferror h =
     (case ini_parse_stream handler user rest h of
        ((error, user), h) \<Rightarrow> ((if error = 0 \<and> ferror then -1 else error, user), h))"

text \<open>\<open>ini_reader_string\<close> reads from a string as \<open>fgets\<close> does from a file.\<close>

definition ini_parse_string :: "'u ini_handler \<Rightarrow> 'u \<Rightarrow> bytes \<Rightarrow> heap \<Rightarrow> (int \<times> 'u) \<times> heap" where
  "ini_parse_string handler user s h = ini_parse_stream handler user (strz s) h"

definition ini_parse ::
  "(bytes \<Rightarrow> (bytes \<times> bool) option) \<Rightarrow> 'u ini_handler \<Rightarrow> 'u \<Rightarrow> bytes \<Rightarrow> heap \<Rightarrow> (int \<times> 'u) \<times> heap" where
  "ini_parse open_file handler user filename h =
     (case open_file filename of None \<Rightarrow> ((-1, user), h)
      | Some (text, ferror) \<Rightarrow> ini_parse_file handler user text ferror h)"

subsection \<open>Every line is whole\<close>

text \<open>The reference: a text cut behind each line end.\<close>

function split_lines :: "bytes \<Rightarrow> bytes list" where
  "split_lines s =
     (if s = [] then [] else take (line_length s) s # split_lines (drop (line_length s) s))"
  by pat_completeness auto
termination
  by (relation "measure length") (auto simp: line_length_pos)

declare split_lines.simps [simp del]

lemma split_lines_Nil [simp]: "split_lines [] = []"
  by (simp add: split_lines.simps)

lemma line_length_append:
  assumes "LF \<notin> set (butlast line)" and "line \<noteq> []"
  shows "line_length (line @ rest) = (if last line = LF then length line else length line + line_length rest)"
proof -
  obtain xs x where l: "line = xs @ [x]" "LF \<notin> set xs" using assms by (cases line rule: rev_cases) auto
  have "takeWhile (\<lambda>c. c \<noteq> LF) (xs @ ys) = xs @ takeWhile (\<lambda>c. c \<noteq> LF) ys" for ys
    using l(2) by (intro takeWhile_append2) auto
  then show ?thesis using l by (auto simp: line_length_def Let_def)
qed

lemma strz_id: "0 \<notin> set s \<Longrightarrow> strz s = s"
  unfolding strz_def by (rule takeWhile_eq_all_conv [THEN iffD2]) auto

lemma take_line_inner: "LF \<notin> set (butlast (take (line_length s) s))"
proof -
  let ?t = "takeWhile (\<lambda>c. c \<noteq> LF) s"
  have "take (length ?t) s = ?t" by (metis takeWhile_eq_take)
  moreover have "LF \<notin> set ?t" by (auto dest: set_takeWhileD)
  ultimately have "LF \<notin> set (take (length ?t) s)" by simp
  then show ?thesis
    by (auto simp: line_length_def Let_def butlast_take dest: in_set_butlastD)
qed

lemma take_line_end:
  assumes "s \<noteq> []" and "line_length s < length s"
  shows "last (take (line_length s) s) = LF"
proof -
  let ?n = "length (takeWhile (\<lambda>c. c \<noteq> LF) s)"
  have n: "?n < length s" "line_length s = ?n + 1"
    using assms length_takeWhile_le [of "\<lambda>c. c \<noteq> LF" s] by (auto simp: line_length_def Let_def split: if_splits)
  then show ?thesis using nth_length_takeWhile [OF n(1)] by (simp add: take_Suc_conv_app_nth)
qed

lemma chunk_inner:
  assumes "k \<le> line_length s"
  shows "LF \<notin> set (butlast (take k s))"
proof -
  have le: "k \<le> length s" using assms line_length_le [of s] by simp
  have "butlast (take k s) = take (k - 1) s" "butlast (take (line_length s) s) = take (line_length s - 1) s"
    using le line_length_le [of s] by (simp_all add: butlast_take)
  moreover have "set (take (k - 1) s) \<subseteq> set (take (line_length s - 1) s)"
    using assms by (intro set_take_subset_set_take) simp
  ultimately show ?thesis using take_line_inner [of s] by auto
qed

lemma fgets_chunk:
  assumes "fgets m s = Some (chunk, rest)"
  shows "chunk @ rest = s" and "chunk \<noteq> []" and "length chunk < m" and "LF \<notin> set (butlast chunk)"
    and "length chunk < m - 1 \<Longrightarrow> last chunk = LF \<or> rest = []"
proof -
  obtain k where k: "k = min (m - 1) (line_length s)" by simp
  have s: "s \<noteq> []" "2 \<le> m" and chunk: "chunk = take k s" "rest = drop k s"
    using assms k by (auto simp: fgets_def Let_def split: if_splits)
  have le: "k \<le> length s" "0 < k" "k \<le> line_length s"
    using k s line_length_le [of s] line_length_pos [of s] by auto
  then have len: "length chunk = k" using chunk by simp
  show "chunk @ rest = s" "chunk \<noteq> []" "length chunk < m"
    using chunk le s k by auto
  show "LF \<notin> set (butlast chunk)" unfolding chunk(1) by (rule chunk_inner [OF le(3)])
  show "last chunk = LF \<or> rest = []" if "length chunk < m - 1"
  proof -
    have "k = line_length s" using that len k by linarith
    then show ?thesis using chunk take_line_end [OF s(1)] line_length_le [of s]
      by (cases "line_length s < length s") auto
  qed
qed

text \<open>The state of \<open>grow_line\<close>: the buffer holds a part of one line, and a short read was the last one.\<close>

definition growing :: "bytes \<Rightarrow> nat \<Rightarrow> nat \<Rightarrow> nat \<Rightarrow> bytes \<Rightarrow> bool" where
  "growing line max_line reader_size read_length rest \<longleftrightarrow>
     line \<noteq> [] \<and> LF \<notin> set (butlast line) \<and> 0 \<notin> set (line @ rest) \<and> 200 \<le> max_line
     \<and> length line + length rest < SIZE_MAX div 2
     \<and> length line < max_line \<and> read_length < reader_size
     \<and> reader_size \<le> max_line - (length line - read_length) \<and> read_length \<le> length line
     \<and> (read_length < reader_size - 1 \<longrightarrow> last line = LF \<or> rest = [])"

lemma growing_first:
  assumes "fgets m s = Some (chunk, rest)" and "m \<le> max_line" and "200 \<le> max_line"
    and "0 \<notin> set s" and "length s < SIZE_MAX div 2"
  shows "growing chunk max_line m (length chunk) rest"
proof -
  note c = fgets_chunk [OF assms(1)]
  have "length chunk + length rest = length s" using c(1) by (metis length_append)
  with c assms show ?thesis by (simp add: growing_def)
qed

lemma growing_more:
  assumes g: "growing line max_line reader_size read_length rest"
    and more: "last line \<noteq> LF" and room: "max_line \<le> n" and m: "m \<le> n - length line"
    and f: "fgets m rest = Some (chunk, rest')"
  shows "growing (line @ chunk) n m (length chunk) rest'"
proof -
  note c = fgets_chunk [OF f]
  have len: "length chunk + length rest' = length rest" using c(1) by (metis length_append)
  have g2: "line \<noteq> []" "LF \<notin> set (butlast line)" "0 \<notin> set (line @ rest)" "200 \<le> n" "length line < n"
    "length line + length rest < SIZE_MAX div 2" using g room by (simp_all add: growing_def)
  have "LF \<notin> set line"
    using g2(1,2) more by (cases line rule: rev_cases) auto
  then have "LF \<notin> set (butlast (line @ chunk))" using c(2,4) by (simp add: butlast_append)
  moreover have "0 \<notin> set ((line @ chunk) @ rest')" using g2(3) c(1) by auto
  moreover have "length (line @ chunk) < n" "m \<le> n - (length (line @ chunk) - length chunk)"
    using c(3) m by simp_all
  moreover have "length (line @ chunk) + length rest' < SIZE_MAX div 2" using g2(6) len by simp
  ultimately show ?thesis using c g2 unfolding growing_def by simp
qed

lemma buffer_room_ok:
  assumes "heap_ok h" and "offset < max_line" and "200 \<le> max_line" and "offset < SIZE_MAX div 2"
  obtains n where "buffer_room offset max_line h = (Some n, h)" "offset + 2 \<le> n" "max_line \<le> n"
proof (cases "max_line - offset < 2")
  case True
  then have "max_line \<le> SIZE_MAX div 2" using assms(2,4) by simp
  then show ?thesis using True assms by (intro that [of "max_line * 2"]) (auto simp: buffer_room_def)
next
  case False
  then show ?thesis using assms by (intro that [of max_line]) (auto simp: buffer_room_def)
qed

lemma grow_line_whole:
  assumes "heap_ok h" and "growing line max_line reader_size read_length rest"
  shows "\<exists>m. grow_line line max_line reader_size read_length rest h =
      (Some (take (line_length (line @ rest)) (line @ rest), m, drop (line_length (line @ rest)) (line @ rest)), h)
    \<and> 200 \<le> m \<and> (line_length (line @ rest) \<noteq> m - 1 \<or> last (take (line_length (line @ rest)) (line @ rest)) = LF)"
  using assms(2)
proof (induction "length rest" arbitrary: line max_line reader_size read_length rest rule: less_induct)
  case less
  note g = less.prems
  have ne: "line \<noteq> []" "LF \<notin> set (butlast line)" using g by (simp_all add: growing_def)
  note ll = line_length_append [OF ne(2,1), of rest]
  show ?case
  proof (cases "read_length = reader_size - 1 \<and> last line \<noteq> LF")
    case True
    obtain n where n: "buffer_room (length line) max_line h = (Some n, h)" "length line + 2 \<le> n" "max_line \<le> n"
      using buffer_room_ok [OF assms(1), of "length line" max_line] g by (auto simp: growing_def)
    let ?m = "min (n - length line) INT_MAX"
    have m2: "2 \<le> ?m" using n by (simp add: INT_MAX_def)
    show ?thesis
    proof (cases "fgets ?m rest")
      case None
      then have r: "rest = []" using m2 by (auto simp: fgets_def Let_def split: if_splits)
      have "grow_line line max_line reader_size read_length rest h = (Some (line, n, rest), h)"
        using True ne n None by (subst grow_line.simps) simp
      moreover have "line_length line = length line" using ll True r by (simp add: line_length_def)
      ultimately show ?thesis using r n g by (auto simp: growing_def)
    next
      case (Some x)
      then obtain chunk rest' where x: "fgets ?m rest = Some (chunk, rest')" by (cases x) auto
      have gc: "growing (line @ chunk) n ?m (length chunk) rest'"
        using growing_more [OF g _ n(3) _ x] True by simp
      note c = fgets_chunk [OF x]
      have "0 \<notin> set chunk" using gc by (simp add: growing_def)
      then have st: "strz chunk = chunk" by (rule strz_id)
      have "grow_line line max_line reader_size read_length rest h =
          grow_line (line @ chunk) n ?m (length chunk) rest' h"
        using True ne n x st by (subst grow_line.simps) simp
      with less.hyps [OF fgets_shorter [OF x] gc] c(1) show ?thesis by simp
    qed
  next
    case False
    have "grow_line line max_line reader_size read_length rest h = (Some (line, max_line, rest), h)"
      using False by (subst grow_line.simps) auto
    moreover have "last line = LF \<or> rest = []" using False g by (auto simp: growing_def)
    moreover have "line_length (line @ rest) = length line"
      using ll calculation(2) by (auto simp: line_length_def)
    moreover have "length line \<noteq> max_line - 1 \<or> last line = LF"
      using False g by (auto simp: growing_def)
    ultimately show ?thesis using g by (auto simp: growing_def)
  qed
qed

text \<open>What the reader does to its state with every line.\<close>

definition ini_step :: "'u ini_handler \<Rightarrow> 'u ini_state \<Rightarrow> bytes \<Rightarrow> 'u ini_state" where
  "ini_step handler st line = ini_line handler line (st\<lparr>is_lineno := is_lineno st + 1\<rparr>)"

lemma ini_stream_loop_lines:
  fixes handler :: "'u ini_handler"
  assumes "heap_ok h" and "0 \<notin> set rest" and "length rest < SIZE_MAX div 2" and "200 \<le> max_line"
  shows "ini_stream_loop handler max_line rest st h =
     (let st = foldl (ini_step handler) st (split_lines rest) in ((is_error st, is_user st), h))"
  using assms(2-4)
proof (induction "length rest" arbitrary: rest max_line st rule: less_induct)
  case less
  let ?m = "min max_line INT_MAX"
  have m2: "2 \<le> ?m" using less.prems by (simp add: INT_MAX_def)
  show ?case
  proof (cases "fgets ?m rest")
    case None
    then have "rest = []" using m2 by (auto simp: fgets_def Let_def split: if_splits)
    with None show ?thesis by (subst ini_stream_loop.simps) simp
  next
    case (Some x)
    then obtain chunk rest1 where x: "fgets ?m rest = Some (chunk, rest1)" by (cases x) auto
    have rest: "rest \<noteq> []" using x by (auto simp: fgets_def)
    note c = fgets_chunk [OF x]
    have g: "growing chunk max_line ?m (length chunk) rest1"
      using growing_first [OF x _ less.prems(3,1,2)] by simp
    have st: "strz chunk = chunk" using less.prems(1) c(1) by (intro strz_id) auto
    let ?l = "line_length rest"
    obtain n where gl: "grow_line chunk max_line ?m (length chunk) rest1 h = (Some (take ?l rest, n, drop ?l rest), h)"
      and n: "200 \<le> n" "?l \<noteq> n - 1 \<or> last (take ?l rest) = LF"
      using grow_line_whole [OF assms(1) g] c(1) by auto
    have dis: "discard_rest (take ?l rest) n (drop ?l rest) s = (drop ?l rest, s)" for s :: "'u ini_state"
      using n(2) line_length_le [of rest] by (auto simp: discard_rest_def)
    have "ini_stream_loop handler max_line rest st h =
        ini_stream_loop handler n (drop ?l rest) (ini_step handler st (take ?l rest)) h"
      using x st gl dis by (subst ini_stream_loop.simps) (simp add: ini_step_def)
    also have "\<dots> = (let st = foldl (ini_step handler) (ini_step handler st (take ?l rest)) (split_lines (drop ?l rest))
        in ((is_error st, is_user st), h))"
      using less.prems n(1) rest line_length_pos [OF rest]
      by (intro less.hyps) (auto dest: in_set_dropD)
    finally show ?thesis using rest by (subst split_lines.simps) simp
  qed
qed

lemma ini_parse_file_steps:
  assumes "heap_ok h" and "0 \<notin> set text" and "length text < SIZE_MAX div 2"
  shows "ini_parse_file handler user text ferror h =
     (let st = foldl (ini_step handler) \<lparr>is_section = [], is_lineno = 0, is_error = 0, is_user = user\<rparr>
                 (split_lines text)
      in ((if is_error st = 0 \<and> ferror then -1 else is_error st, is_user st), h))"
  using assms
  by (simp add: ini_parse_file_def ini_parse_stream_def ini_stream_loop_lines INI_INITIAL_ALLOC_def Let_def)

text \<open>
  The buffer never shows. As long as memory lasts, a file is read as the sequence of its lines,
  each of them whole whatever its length, and the handler sees nothing of how the buffer grew.
\<close>

theorem ini_parse_file_lines:
  assumes "heap_ok h" and "0 \<notin> set text" and "length text < SIZE_MAX div 2"
  shows "ini_parse_file handler user text ferror h =
     (let st = foldl (ini_step handler) \<lparr>is_section = [], is_lineno = 0, is_error = 0, is_user = user\<rparr>
                 (split_lines text)
      in ((if is_error st = 0 \<and> ferror then -1 else is_error st, is_user st), h))"
  using assms by (rule ini_parse_file_steps)

subsection \<open>Writing and reading\<close>

definition comment_free :: "bytes \<Rightarrow> bool" where
  "comment_free s \<longleftrightarrow> ini_find_chars_or_comment s None = length s"

definition stripped :: "bytes \<Rightarrow> bool" where
  "stripped s \<longleftrightarrow> s = [] \<or> \<not> isspace (hd s) \<and> \<not> isspace (last s)"

definition one_line :: "bytes \<Rightarrow> bool" where
  "one_line s \<longleftrightarrow> LF \<notin> set s \<and> 0 \<notin> set s"

text \<open>Sections with their pairs, as they can stand in a file.\<close>

type_synonym ini_sections = "(bytes \<times> (bytes \<times> bytes) list) list"

definition section_ok :: "bytes \<Rightarrow> bool" where
  "section_ok s \<longleftrightarrow> one_line s \<and> comment_free s \<and> 93 \<notin> set s \<and> length s < MAX_SECTION"

definition pair_ok :: "bytes \<times> bytes \<Rightarrow> bool" where
  "pair_ok p \<longleftrightarrow> one_line (fst p) \<and> comment_free (fst p) \<and> stripped (fst p) \<and> fst p \<noteq> []
     \<and> hd (fst p) \<notin> {91, 59, 35} \<and> 61 \<notin> set (fst p) \<and> 58 \<notin> set (fst p)
     \<and> one_line (snd p) \<and> comment_free (snd p) \<and> stripped (snd p)"

definition section_line :: "bytes \<Rightarrow> bytes" where
  "section_line s = 91 # s @ [93, LF]"

definition pair_line :: "bytes \<times> bytes \<Rightarrow> bytes" where
  "pair_line p = fst p @ 61 # snd p @ [LF]"

definition section_lines :: "bytes \<times> (bytes \<times> bytes) list \<Rightarrow> bytes list" where
  "section_lines s = section_line (fst s) # map pair_line (snd s)"

definition ini_print :: "ini_sections \<Rightarrow> bytes" where
  "ini_print ss = concat (concat (map section_lines ss))"

definition ini_entries :: "ini_sections \<Rightarrow> (bytes \<times> bytes \<times> bytes) list" where
  "ini_entries ss = concat (map (\<lambda>(s, ps). map (\<lambda>(n, d). (s, n, d)) ps) ss)"

definition ini_run :: "'u ini_handler \<Rightarrow> (bytes \<times> bytes \<times> bytes) list \<Rightarrow> 'u \<Rightarrow> 'u" where
  "ini_run handler es u = fold (\<lambda>(s, n, d) u. snd (handler s n d u)) es u"

lemma find_chars_stop:
  assumes "find_chars_loop None sp s = length s" and "\<forall>x\<in>set s. x \<notin> set cs" and "c \<in> set cs"
  shows "find_chars_loop (Some cs) sp (s @ c # t) = length s"
  using assms by (induction s arbitrary: sp) (auto split: if_splits)

lemma ini_rstrip_id: "s = [] \<or> \<not> isspace (last s) \<Longrightarrow> ini_rstrip s = s"
  by (cases s rule: rev_cases) (auto simp: ini_rstrip_def)

lemma ini_rstrip_LF: "s = [] \<or> \<not> isspace (last s) \<Longrightarrow> ini_rstrip (s @ [LF]) = s"
  using ini_rstrip_id [of s] by (simp add: ini_rstrip_def isspace_def)

lemma ini_lskip_id: "s = [] \<or> \<not> isspace (hd s) \<Longrightarrow> ini_lskip s = s"
  by (cases s) (auto simp: ini_lskip_def)

lemma isspace_simps [simp]: "\<not> isspace 91" "\<not> isspace 93" "\<not> isspace 61" "isspace LF"
  by (simp_all add: isspace_def)

lemma ini_step_section:
  assumes "section_ok s"
  shows "ini_step handler st (section_line s) = st\<lparr>is_lineno := is_lineno st + 1, is_section := s\<rparr>"
proof -
  let ?line = "91 # s @ [93]"
  have "skip_bom n (section_line s) = ?line @ [LF]" for n
    by (simp add: skip_bom_def section_line_def bat_def)
  then have start: "ini_rstrip (ini_lskip (skip_bom n (section_line s))) = ?line" for n
    using ini_rstrip_LF [of ?line] ini_lskip_id [of "?line @ [LF]"] by simp
  have take: "take (MAX_SECTION - Suc 0) s = s" using assms by (auto simp: section_ok_def)
  have fin: "ini_find_chars_or_comment (s @ [93]) (Some [93]) = length s"
    using find_chars_stop [of False s "[93]" 93 "[]"] assms
    by (auto simp: section_ok_def comment_free_def ini_find_chars_or_comment_def)
  show ?thesis
    using assms take
    by (simp add: ini_step_def ini_line_def Let_def start fin bat_def ini_strncpy0_def)
qed

lemma ini_call_true:
  "(\<And>s n d u. fst (handler s n d u)) \<Longrightarrow>
     ini_call handler n d st = st\<lparr>is_user := snd (handler (is_section st) n d (is_user st))\<rparr>"
  by (simp add: ini_call_def case_prod_unfold)

lemma ini_step_pair:
  assumes "pair_ok p" and "is_lineno st \<noteq> 0" and "\<And>s n d u. fst (handler s n d u)"
  shows "ini_step handler st (pair_line p) = st\<lparr>is_lineno := is_lineno st + 1,
           is_user := snd (handler (is_section st) (fst p) (snd p) (is_user st))\<rparr>"
proof -
  obtain n d where p: "p = (n, d)" by fastforce
  let ?line = "n @ 61 # d"
  have ok: "n \<noteq> []" "stripped n" "stripped d" "comment_free n" "comment_free d" "hd n \<notin> {91, 59, 35}"
      "61 \<notin> set n" "58 \<notin> set n" "one_line n"
    using assms(1) by (auto simp: pair_ok_def p)
  have "skip_bom (is_lineno st + 1) (pair_line p) = ?line @ [LF]"
    using assms(2) by (simp add: skip_bom_def pair_line_def p)
  moreover have "ini_lskip (?line @ [LF]) = ?line @ [LF]" using ok(1,2) by (intro ini_lskip_id) (auto simp: stripped_def)
  moreover have "ini_rstrip (?line @ [LF]) = ?line" using ok(3) by (intro ini_rstrip_LF) (auto simp: stripped_def)
  ultimately have start: "ini_rstrip (ini_lskip (skip_bom (is_lineno st + 1) (pair_line p))) = ?line" by metis
  have first: "bat ?line 0 = hd n" "hd n \<noteq> 0"
    using ok(1,9) by (cases n; auto simp: bat_def one_line_def)+
  have fin: "ini_find_chars_or_comment ?line (Some [61, 58]) = length n"
    using find_chars_stop [of False n "[61, 58]" 61 d] ok
    by (auto simp: comment_free_def ini_find_chars_or_comment_def)
  have strip: "ini_rstrip n = n" "ini_rstrip d = d" "ini_lskip d = d"
    using ok(1-3) by (auto simp: stripped_def intro!: ini_rstrip_id ini_lskip_id)
  have pair: "ini_pair handler ?line st' = ini_call handler n d st'" for st'
    using ok(5) by (simp add: ini_pair_def fin bat_def strip comment_free_def)
  have line: "ini_line handler (pair_line p) (st\<lparr>is_lineno := is_lineno st + 1\<rparr>) =
      ini_pair handler ?line (st\<lparr>is_lineno := is_lineno st + 1\<rparr>)"
    using first ok(6) by (simp add: ini_line_def Let_def start)
  have call: "ini_call handler n d (st\<lparr>is_lineno := is_lineno st + 1\<rparr>) = st\<lparr>is_lineno := is_lineno st + 1,
      is_user := snd (handler (is_section st) n d (is_user st))\<rparr>"
    by (simp add: ini_call_true assms(3))
  show ?thesis unfolding ini_step_def line pair call by (simp add: p)
qed

text \<open>A printed file, line by line.\<close>

lemma split_lines_concat:
  "(\<And>l. l \<in> set ls \<Longrightarrow> \<exists>s. l = s @ [LF] \<and> LF \<notin> set s) \<Longrightarrow> split_lines (concat ls) = ls"
proof (induction ls)
  case (Cons l ls)
  from Cons.prems [of l] obtain s where l: "l = s @ [LF]" "LF \<notin> set s" by auto
  have "line_length (l @ concat ls) = length l"
    using line_length_append [of l "concat ls"] l by simp
  then have "split_lines (l @ concat ls) = l # split_lines (concat ls)"
    using l by (subst split_lines.simps) simp
  then show ?case using Cons by simp
qed simp

lemma foldl_pairs:
  assumes "\<And>p. p \<in> set ps \<Longrightarrow> pair_ok p" and "0 < is_lineno st" and "\<And>s n d u. fst (handler s n d u)"
  shows "\<exists>k>0. foldl (ini_step handler) st (map pair_line ps) = st\<lparr>is_lineno := k,
           is_user := ini_run handler (map (\<lambda>(n, d). (is_section st, n, d)) ps) (is_user st)\<rparr>"
  using assms(1,2)
proof (induction ps arbitrary: st)
  case Nil
  then show ?case by (auto simp: ini_run_def)
next
  case (Cons p ps)
  obtain n d where p: "p = (n, d)" by fastforce
  have step: "ini_step handler st (pair_line p) = st\<lparr>is_lineno := is_lineno st + 1,
      is_user := snd (handler (is_section st) n d (is_user st))\<rparr>" (is "_ = ?st")
    using ini_step_pair [of p st handler] Cons.prems assms(3) p by simp
  show ?case
    using Cons.IH [of ?st] Cons.prems step by (auto simp: ini_run_def p)
qed

lemma foldl_sections:
  assumes "\<And>s ps. (s, ps) \<in> set ss \<Longrightarrow> section_ok s \<and> (\<forall>p\<in>set ps. pair_ok p)" and "0 \<le> is_lineno st"
    and "\<And>s n d u. fst (handler s n d u)"
  shows "\<exists>k sec. foldl (ini_step handler) st (concat (map section_lines ss)) = st\<lparr>is_lineno := k,
           is_section := sec, is_user := ini_run handler (ini_entries ss) (is_user st)\<rparr>"
  using assms(1,2)
proof (induction ss arbitrary: st)
  case Nil
  show ?case by (rule exI [of _ "is_lineno st"], rule exI [of _ "is_section st"]) (simp add: ini_run_def ini_entries_def)
next
  case (Cons x ss)
  obtain s ps where x: "x = (s, ps)" by fastforce
  have ok: "section_ok s" "\<And>p. p \<in> set ps \<Longrightarrow> pair_ok p" using Cons.prems(1) [of s ps] x by auto
  let ?st = "st\<lparr>is_lineno := is_lineno st + 1, is_section := s\<rparr>"
  obtain k where k: "k > 0" "foldl (ini_step handler) ?st (map pair_line ps) = ?st\<lparr>is_lineno := k,
      is_user := ini_run handler (map (\<lambda>(n, d). (s, n, d)) ps) (is_user st)\<rparr>" (is "_ = ?st2")
    using foldl_pairs [of ps ?st handler] ok(2) Cons.prems(2) assms(3) by auto
  have "foldl (ini_step handler) st (section_lines x) = ?st2"
    using k(2) by (simp add: section_lines_def x ini_step_section [OF ok(1)])
  moreover have "\<exists>k sec. foldl (ini_step handler) ?st2 (concat (map section_lines ss)) = ?st2\<lparr>is_lineno := k,
      is_section := sec, is_user := ini_run handler (ini_entries ss) (is_user ?st2)\<rparr>"
    using Cons.prems(1) k(1) by (intro Cons.IH) auto
  ultimately show ?case by (auto simp: ini_run_def ini_entries_def x)
qed

lemma printed_lines:
  assumes "\<And>s ps. (s, ps) \<in> set ss \<Longrightarrow> section_ok s \<and> (\<forall>p\<in>set ps. pair_ok p)"
  shows "split_lines (ini_print ss) = concat (map section_lines ss)" and "0 \<notin> set (ini_print ss)"
proof -
  have l: "\<exists>t. l = t @ [LF] \<and> LF \<notin> set t \<and> 0 \<notin> set t" if lm: "l \<in> set (concat (map section_lines ss))" for l
  proof -
    from lm obtain s ps where s: "(s, ps) \<in> set ss" "l = section_line s \<or> (\<exists>p\<in>set ps. l = pair_line p)"
      by (fastforce simp: section_lines_def)
    from s(2) show ?thesis
    proof
      assume "l = section_line s"
      then show ?thesis using assms [OF s(1)]
        by (intro exI [of _ "91 # s @ [93]"]) (auto simp: section_line_def section_ok_def one_line_def)
    next
      assume "\<exists>p\<in>set ps. l = pair_line p"
      then obtain p where "p \<in> set ps" "l = pair_line p" by blast
      then show ?thesis using assms [OF s(1)]
        by (intro exI [of _ "fst p @ 61 # snd p"]) (auto simp: pair_line_def pair_ok_def one_line_def)
    qed
  qed
  show "split_lines (ini_print ss) = concat (map section_lines ss)"
    unfolding ini_print_def using l by (intro split_lines_concat) blast
  show "0 \<notin> set (ini_print ss)"
    unfolding ini_print_def using l by fastforce
qed

lemma ini_print_run:
  assumes "heap_ok h" and "\<And>s ps. (s, ps) \<in> set ss \<Longrightarrow> section_ok s \<and> (\<forall>p\<in>set ps. pair_ok p)"
    and "length (ini_print ss) < SIZE_MAX div 2" and "\<And>s n d u. fst (handler s n d u)"
  shows "ini_parse_file handler user (ini_print ss) False h = ((0, ini_run handler (ini_entries ss) user), h)"
proof -
  let ?st = "\<lparr>is_section = [], is_lineno = 0, is_error = 0, is_user = user\<rparr>"
  note pr = printed_lines [OF assms(2)]
  obtain k sec where "foldl (ini_step handler) ?st (split_lines (ini_print ss)) = ?st\<lparr>is_lineno := k,
      is_section := sec, is_user := ini_run handler (ini_entries ss) user\<rparr>"
    using foldl_sections [of ss ?st handler] assms(2,4) pr(1) by auto
  then show ?thesis
    using ini_parse_file_steps [OF assms(1) pr(2) assms(3), of handler user False] by (simp add: Let_def)
qed

text \<open>
  C18: what is written as sections of \<open>name=value\<close> lines is read back: the handler gets exactly these
  entries, in their order, each under its section, and no line is reported as an error.
\<close>

theorem ini_print_parse:
  assumes "heap_ok h" and "\<And>s ps. (s, ps) \<in> set ss \<Longrightarrow> section_ok s \<and> (\<forall>p\<in>set ps. pair_ok p)"
    and "length (ini_print ss) < SIZE_MAX div 2" and "\<And>s n d u. fst (handler s n d u)"
  shows "ini_parse_file handler user (ini_print ss) False h = ((0, ini_run handler (ini_entries ss) user), h)"
  using assms by (rule ini_print_run)

text \<open>A handler that writes down what it gets.\<close>

definition example_handler :: "(bytes \<times> bytes \<times> bytes) list ini_handler" where
  "example_handler s n d u = (True, u @ [(s, n, d)])"

lemma example_sections_ok: "section_ok (B ''mod'')" "pair_ok (B ''a'', B ''C:'')"
  by (simp_all add: section_ok_def pair_ok_def one_line_def comment_free_def ini_find_chars_or_comment_def
      isspace_def stripped_def MAX_SECTION_def)

theorem ini_print_parse_witness:
  "ini_parse_file example_handler [] (ini_print [(B ''mod'', [(B ''a'', B ''C:'')])]) False (\<lambda>_. True)
   = ((0, [(B ''mod'', B ''a'', B ''C:'')]), \<lambda>_. True)"
proof -
  let ?ss = "[(B ''mod'', [(B ''a'', B ''C:'')])]"
  have "length (ini_print ?ss) < SIZE_MAX div 2"
    by (simp add: ini_print_def section_lines_def section_line_def pair_line_def SIZE_MAX_def)
  moreover have "\<And>s ps. (s, ps) \<in> set ?ss \<Longrightarrow> section_ok s \<and> (\<forall>p\<in>set ps. pair_ok p)"
    using example_sections_ok by auto
  ultimately have "ini_parse_file example_handler [] (ini_print ?ss) False (\<lambda>_. True)
      = ((0, ini_run example_handler (ini_entries ?ss) []), \<lambda>_. True)"
    by (intro ini_print_parse) (simp_all add: example_handler_def)
  then show ?thesis by (simp add: ini_run_def ini_entries_def example_handler_def)
qed

theorem ini_parse_file_lines_witness:
  "ini_parse_file example_handler [] (B ''a=b'') False (\<lambda>_. True) = ((0, [([], B ''a'', B ''b'')]), \<lambda>_. True)"
proof -
  have "split_lines (B ''a=b'') = [B ''a=b'']"
    by (simp add: split_lines.simps [of "[97, 61, 98]"] line_length_def)
  moreover have "ini_step example_handler \<lparr>is_section = [], is_lineno = 0, is_error = 0, is_user = []\<rparr> (B ''a=b'')
      = \<lparr>is_section = [], is_lineno = 1, is_error = 0, is_user = [([], B ''a'', B ''b'')]\<rparr>"
    by code_simp
  ultimately show ?thesis
    using ini_parse_file_lines [of "\<lambda>_. True" "B ''a=b''" example_handler "[]" False]
    by (simp add: SIZE_MAX_def Let_def)
qed

end
