(* ===== verification/Mods.thy ===== *)
theory Mods
  imports VfsUid VfsCache Memory "HOL-Library.Code_Target_Nat"
begin

text \<open>
  The configured mods (\<open>src/modloader/mod.c\<close>): resolving the path of a mod, adding it to the index,
  and the lookups that the hooks of the game call. The static variables are the record \<open>mods\<close>, which
  holds the virtual file system (\<open>Vfs\<close>) too; its heap serves the allocations of both.

  The directory of the loader's DLL, against which paths of mods are resolved, is the argument
  \<open>dir\<close> of \<open>config_full_path_alloc\<close> (\<open>src/modloader/config.c\<close>), \<open>None\<close> while it is unknown.
  Log messages are left out.
\<close>

subsection \<open>Model\<close>

record mods =
  m_game_folder :: "wstr option"
  m_count :: int
  m_vfs :: vfs

definition config_full_path_alloc ::
  "nat \<Rightarrow> full_path_api \<Rightarrow> wstr option \<Rightarrow> wstr option \<Rightarrow> heap \<Rightarrow> (win_error + wstr) option \<times> heap" where
  "config_full_path_alloc fuel fpn dir filename h =
     (if dir = None then (Some (Inl ERROR_PATH_NOT_FOUND), h)
      else ml_path_resolve_alloc fuel fpn dir filename h)"

text \<open>\<open>module\<close> is what \<open>GetModuleFileNameW(NULL, ...)\<close> gives.\<close>

definition mods_init :: "nat + wstr \<Rightarrow> mods \<Rightarrow> mods" where
  "mods_init module m =
     (case ml_path_module_filename_alloc module (v_heap (m_vfs m)) of
        (folder, h) \<Rightarrow>
          m\<lparr>m_game_folder := (case folder of Inl e \<Rightarrow> None | Inr f \<Rightarrow> Some (ml_path_remove_filename f)),
            m_vfs := vfs_init (v_files (with_heap h (m_vfs m))) (v_recursion_depth (m_vfs m))\<rparr>)"

definition mods_uninit :: "mods \<Rightarrow> mods" where
  "mods_uninit m = m\<lparr>m_count := 0, m_vfs := vfs_uninit (m_vfs m), m_game_folder := None\<rparr>"

text \<open>
  The path of the package: the resolved disk path and the suffix from the separator of the ZIP
  root on. The inner results are an error, which ends \<open>mods_add\<close>, or the path; \<open>None\<close> is a
  resolution that ran out of fuel.
\<close>

definition mod_disk_path :: "wstr \<Rightarrow> wstr" where
  "mod_disk_path path = (case zip_package_root_separator (Some path) of None \<Rightarrow> path | Some i \<Rightarrow> take i path)"

definition mod_suffix :: "wstr \<Rightarrow> wstr" where
  "mod_suffix path = (case zip_package_root_separator (Some path) of None \<Rightarrow> [] | Some i \<Rightarrow> drop i path)"

definition mod_package_path ::
  "nat \<Rightarrow> full_path_api \<Rightarrow> attributes_api \<Rightarrow> wstr option \<Rightarrow> wstr \<Rightarrow> heap \<Rightarrow> wstr option option \<times> heap" where
  "mod_package_path fuel fpn attrs dir path h =
     (let len = length (mod_disk_path path)
      in if len = 0 \<or> len \<ge> ML_PATH_MAX_CCH then (Some None, h)
         else case ml_path_buffer (len + 1) h of
           (Inl e, h) \<Rightarrow> (Some None, h)
         | (Inr _, h) \<Rightarrow>
             (case config_full_path_alloc fuel fpn dir (Some (mod_disk_path path)) h of
                (None, h) \<Rightarrow> (None, h)
              | (Some (Inl e), h) \<Rightarrow> (Some None, h)
              | (Some (Inr base_path), h) \<Rightarrow>
                  if attrs base_path = None then (Some None, h)
                  else if length (mod_suffix path) > SIZE_MAX div 2 - length base_path - 1 then (Some None, h)
                  else case ml_mem_alloc h of
                    (False, h) \<Rightarrow> (Some None, h)
                  | (True, h) \<Rightarrow> (Some (Some (base_path @ mod_suffix path)), h)))"

definition mods_add ::
  "nat \<Rightarrow> full_path_api \<Rightarrow> vfs_api \<Rightarrow> wstr option \<Rightarrow> wstr option \<Rightarrow> mods \<Rightarrow> mods option" where
  "mods_add fuel fpn api dir path m =
     (case path of None \<Rightarrow> Some m
      | Some path \<Rightarrow>
          if path = [] then Some m
          else case mod_package_path fuel fpn (va_attributes api) dir path (v_heap (m_vfs m)) of
            (None, h) \<Rightarrow> None
          | (Some None, h) \<Rightarrow> Some (m\<lparr>m_vfs := with_heap h (m_vfs m)\<rparr>)
          | (Some (Some package_path), h) \<Rightarrow>
              (case vfs_add_package fuel api (Some package_path) (with_heap h (m_vfs m)) of
                 (None, v) \<Rightarrow> None
               | (Some False, v) \<Rightarrow> Some (m\<lparr>m_vfs := v\<rparr>)
               | (Some True, v) \<Rightarrow> Some (m\<lparr>m_vfs := v, m_count := m_count m + 1\<rparr>)))"

definition with_vfs :: "mods \<Rightarrow> 'a \<times> vfs \<Rightarrow> 'a \<times> mods" where
  "with_vfs m r = (fst r, m\<lparr>m_vfs := snd r\<rparr>)"

definition mods_file_search :: "wstr option \<Rightarrow> mods \<Rightarrow> wstr option \<times> mods" where
  "mods_file_search path m =
     (if m_count m \<le> 0 then (None, m) else with_vfs m (vfs_lookup path (m_vfs m)))"

definition mods_file_search_prefixed_domain ::
  "(wchar \<Rightarrow> wchar) \<Rightarrow> wstr option \<Rightarrow> int \<Rightarrow> mods \<Rightarrow> wstr option \<times> mods" where
  "mods_file_search_prefixed_domain up path domain m =
     (if m_count m \<le> 0 then (None, m)
      else with_vfs m (vfs_lookup_prefixed_domain up path (m_game_folder m) domain (m_vfs m)))"

definition mods_file_virtual_to_uid_prefixed ::
  "(wchar \<Rightarrow> wchar) \<Rightarrow> wstr option \<Rightarrow> mods \<Rightarrow> wstr option \<times> mods" where
  "mods_file_virtual_to_uid_prefixed up path m =
     (if m_count m > 0 then with_vfs m (vfs_virtual_to_uid_prefixed up path (m_game_folder m) (m_vfs m))
      else (None, m))"

definition mods_file_route_read ::
  "(wchar \<Rightarrow> wchar) \<Rightarrow> wstr option \<Rightarrow> 32 word \<Rightarrow> nat \<Rightarrow> mods \<Rightarrow> wstr option \<times> mods" where
  "mods_file_route_read up path desired_access creation_disposition m =
     (if m_count m \<le> 0 \<or> path = None then (None, m)
      else case vfs_uid_to_path path (m_vfs m) of
        Some uid_path \<Rightarrow> (Some uid_path, m)
      | None \<Rightarrow>
          with_vfs m (vfs_route_read_path_prefixed up path (m_game_folder m)
                        desired_access creation_disposition (m_vfs m)))"

subsection \<open>What the mods give\<close>

text \<open>Adding mods in their order, until one runs out of fuel.\<close>

fun mods_load ::
  "nat \<Rightarrow> full_path_api \<Rightarrow> vfs_api \<Rightarrow> wstr option \<Rightarrow> wstr option list \<Rightarrow> mods \<Rightarrow> mods option" where
  "mods_load fuel fpn api dir [] m = Some m"
| "mods_load fuel fpn api dir (path # paths) m =
     (case mods_add fuel fpn api dir path m of None \<Rightarrow> None
      | Some m \<Rightarrow> mods_load fuel fpn api dir paths m)"

type_synonym mod_map = "wstr \<Rightarrow> file_source option"

text \<open>
  The package of a mod, with no regard to memory: the part of the path before the separator of the
  ZIP root resolves, against the module's directory, to a path that exists, and the rest, from the
  separator on, is appended to it as it stands.
\<close>

definition mod_package ::
  "nat \<Rightarrow> full_path_api \<Rightarrow> attributes_api \<Rightarrow> wstr option \<Rightarrow> wstr option \<Rightarrow> wstr option" where
  "mod_package fuel fpn attrs dir path =
     (case path of None \<Rightarrow> None
      | Some p \<Rightarrow>
          if mod_disk_path p = [] \<or> length (mod_disk_path p) \<ge> ML_PATH_MAX_CCH then None
          else (case fst (config_full_path_alloc fuel fpn dir (Some (mod_disk_path p)) (\<lambda>_. True)) of
                  Some (Inr base) \<Rightarrow>
                    if attrs base \<noteq> None \<and> length (mod_suffix p) \<le> SIZE_MAX div 2 - length base - 1
                    then Some (base @ mod_suffix p) else None
                | _ \<Rightarrow> None))"

text \<open>
  What one mod gives. Without a package nothing happens; with one the package is added, and exactly
  when that succeeds the mod counts and gives the package's files, as a map from keys to sources.
\<close>

definition mod_gives ::
  "nat \<Rightarrow> full_path_api \<Rightarrow> vfs_api \<Rightarrow> wstr option \<Rightarrow> mods \<Rightarrow> wstr option \<Rightarrow> mods \<Rightarrow> mod_map option \<Rightarrow> bool" where
  "mod_gives fuel fpn api dir m path m' given \<longleftrightarrow>
     (case mod_package fuel fpn (va_attributes api) dir path of
        None \<Rightarrow> given = None \<and> m' = m
      | Some pk \<Rightarrow> \<exists>ok v. vfs_add_package fuel api (Some pk) (m_vfs m) = (Some ok, v)
          \<and> m' = m\<lparr>m_vfs := v, m_count := m_count m + (if ok then 1 else 0)\<rparr>
          \<and> (if ok then \<exists>f. given = Some f \<and> adds fuel api (Some pk) (m_vfs m) f else given = None))"

inductive mods_loaded ::
  "nat \<Rightarrow> full_path_api \<Rightarrow> vfs_api \<Rightarrow> wstr option \<Rightarrow> mods \<Rightarrow> wstr option list \<Rightarrow> mod_map option list \<Rightarrow> mods \<Rightarrow> bool"
  for fuel fpn api dir where
  loaded_Nil: "mods_loaded fuel fpn api dir m [] [] m"
| loaded_Cons: "mod_gives fuel fpn api dir m path m1 given \<Longrightarrow> mods_loaded fuel fpn api dir m1 paths givens m2
     \<Longrightarrow> mods_loaded fuel fpn api dir m (path # paths) (given # givens) m2"

text \<open>The last mod that has a file.\<close>

fun last_given :: "wstr \<Rightarrow> mod_map option list \<Rightarrow> file_source option" where
  "last_given key [] = None"
| "last_given key (given # givens) =
     (case last_given key givens of Some s \<Rightarrow> Some s
      | None \<Rightarrow> (case given of None \<Rightarrow> None | Some f \<Rightarrow> f key))"

definition vfs_inv :: "vfs \<Rightarrow> bool" where
  "vfs_inv v \<longleftrightarrow> tables_alive v \<and> cache_inv v"

lemma vfs_inv_with_heap [simp]: "vfs_inv (with_heap h v) = vfs_inv v"
  by (simp add: vfs_inv_def)

lemma vfs_inv_init: "vfs_inv (vfs_init files depth)"
  using lookup_reach_inv [OF lookup_init] lookup_reach_alive [OF lookup_init]
  by (simp add: vfs_inv_def lookups_inv_def)

lemma vfs_inv_add:
  assumes "vfs_inv v" and "vfs_add_package fuel api path v = (res, v')"
  shows "vfs_inv v'"
proof -
  have step: "lookup_step fuel api (v, \<lambda>_. None) None (v', \<lambda>_. None)" using assms(2) by (intro configure) simp_all
  have "lookups_inv (v, \<lambda>_. None)" using assms(1) by (simp add: vfs_inv_def lookups_inv_def)
  with lookup_step_inv [OF _ step] tables_alive_step [OF _ step] assms(1) show ?thesis
    by (simp add: vfs_inv_def lookups_inv_def)
qed

lemma config_full_path_heap:
  assumes "heap_ok h"
  shows "config_full_path_alloc fuel fpn dir f h
    = (fst (config_full_path_alloc fuel fpn dir f (\<lambda>_. True)), (\<lambda>_. True))"
proof -
  have h: "h = (\<lambda>_. True)" using assms by (auto simp: heap_ok_def)
  have "snd (config_full_path_alloc fuel fpn dir f (\<lambda>_. True)) = (\<lambda>_. True)"
    by (simp add: config_full_path_alloc_def resolve_heap)
  then show ?thesis by (simp add: h prod_eq_iff)
qed

text \<open>While memory lasts the code finds the package of the mod, unless the resolution runs out of fuel.\<close>

lemma mod_package_path_spec:
  assumes "heap_ok h"
  shows "snd (mod_package_path fuel fpn attrs dir p h) = h"
    and "fst (mod_package_path fuel fpn attrs dir p h) \<in> {None, Some (mod_package fuel fpn attrs dir (Some p))}"
proof -
  have h: "h = (\<lambda>_. True)" using assms by (auto simp: heap_ok_def)
  obtain r where r: "config_full_path_alloc fuel fpn dir (Some (mod_disk_path p)) (\<lambda>_. True) = (r, \<lambda>_. True)"
    using config_full_path_heap [OF heap_ok_const] by blast
  show "snd (mod_package_path fuel fpn attrs dir p h) = h"
    by (simp add: mod_package_path_def Let_def ml_path_buffer_ok r h split: option.split sum.split)
  show "fst (mod_package_path fuel fpn attrs dir p h) \<in> {None, Some (mod_package fuel fpn attrs dir (Some p))}"
    by (auto simp: mod_package_path_def mod_package_def Let_def ml_path_buffer_ok r h split: option.split sum.split)
qed

lemma mods_add_spec:
  assumes inv: "vfs_inv (m_vfs m)" and heap: "heap_ok (v_heap (m_vfs m))"
    and add: "mods_add fuel fpn api dir path m = Some m'"
  shows "heap_ok (v_heap (m_vfs m')) \<and> (\<exists>given. mod_gives fuel fpn api dir m path m' given \<and> vfs_inv (m_vfs m')
     \<and> sources (m_vfs m') = (case given of None \<Rightarrow> sources (m_vfs m) | Some f \<Rightarrow> sources (m_vfs m) ++ f)
     \<and> m_count m' = m_count m + (if given = None then 0 else 1))"
proof (cases "mod_package fuel fpn (va_attributes api) dir path")
  case None
  have "m' = m"
  proof (cases "path = None \<or> path = Some []")
    case True
    then show ?thesis using add by (auto simp: mods_add_def)
  next
    case False
    then obtain p where p: "path = Some p" "p \<noteq> []" by auto
    obtain r h where r: "mod_package_path fuel fpn (va_attributes api) dir p (v_heap (m_vfs m)) = (r, h)" by fastforce
    then have "h = v_heap (m_vfs m)" "r \<in> {None, Some None}"
      using mod_package_path_spec [OF heap, of fuel fpn "va_attributes api" dir p] None p(1) by simp_all
    with add p r show ?thesis by (auto simp: mods_add_def)
  qed
  with None inv heap show ?thesis by (auto simp: mod_gives_def)
next
  case (Some pk)
  then obtain p where p: "path = Some p" by (auto simp: mod_package_def split: option.splits)
  then have "p \<noteq> []" using Some by (auto simp: mod_package_def mod_disk_path_def split: option.splits)
  obtain r h1 where r: "mod_package_path fuel fpn (va_attributes api) dir p (v_heap (m_vfs m)) = (r, h1)" by fastforce
  then have h1: "h1 = v_heap (m_vfs m)" "r \<in> {None, Some (Some pk)}"
    using mod_package_path_spec [OF heap, of fuel fpn "va_attributes api" dir p] Some p by simp_all
  have r: "mod_package_path fuel fpn (va_attributes api) dir p (v_heap (m_vfs m)) = (Some (Some pk), v_heap (m_vfs m))"
    using add r h1 p \<open>p \<noteq> []\<close> by (auto simp: mods_add_def)
  obtain res v where v: "vfs_add_package fuel api (Some pk) (m_vfs m) = (res, v)" by fastforce
  have v_inv: "vfs_inv v" using vfs_inv_add [OF inv v] .
  have "index_ok (m_vfs m)" using inv by (simp add: vfs_inv_def tables_alive_def)
  note spec = add_package_spec [OF this v]
  have h: "heap_ok (v_heap v)" using add_package_heap [OF heap v] heap by simp
  have m': "(case res of None \<Rightarrow> None | Some False \<Rightarrow> Some (m\<lparr>m_vfs := v\<rparr>)
      | Some True \<Rightarrow> Some (m\<lparr>m_vfs := v, m_count := m_count m + 1\<rparr>)) = Some m'"
    using add \<open>p \<noteq> []\<close> unfolding mods_add_def p r option.case prod.case
      with_own_heap v by (cases res) (simp_all split: bool.split_asm)
  then obtain ok where ok: "res = Some ok" by (cases res) simp_all
  show ?thesis
  proof (cases ok)
    case True
    then obtain f where f: "adds fuel api (Some pk) (m_vfs m) f" "sources v = sources (m_vfs m) ++ f"
      using spec ok by blast
    have "m' = m\<lparr>m_vfs := v, m_count := m_count m + 1\<rparr>" using m' ok True by simp
    with v ok True f(1) Some have "mod_gives fuel fpn api dir m path m' (Some f)"
      unfolding mod_gives_def by (simp, intro exI [of _ True]) simp
    with \<open>m' = _\<close> v_inv h f(2) show ?thesis by (intro conjI exI [of _ "Some f"]) simp_all
  next
    case False
    have "sources v = sources (m_vfs m)" using spec ok False sources_same by blast
    moreover have "m' = m\<lparr>m_vfs := v\<rparr>" using m' ok False by simp
    moreover from this v ok False Some have "mod_gives fuel fpn api dir m path m' None"
      unfolding mod_gives_def by (simp, intro exI [of _ False]) simp
    ultimately show ?thesis using v_inv h by (intro conjI exI [of _ None]) simp_all
  qed
qed

lemma mods_load_spec:
  assumes "vfs_inv (m_vfs m)" and "heap_ok (v_heap (m_vfs m))" and "mods_load fuel fpn api dir paths m = Some m'"
  shows "heap_ok (v_heap (m_vfs m')) \<and> (\<exists>givens. mods_loaded fuel fpn api dir m paths givens m' \<and> vfs_inv (m_vfs m')
     \<and> (\<forall>key. sources (m_vfs m') key = (case last_given key givens of Some s \<Rightarrow> Some s | None \<Rightarrow> sources (m_vfs m) key))
     \<and> m_count m' = m_count m + int (length (filter (\<lambda>g. g \<noteq> None) givens)))"
  using assms
proof (induction paths arbitrary: m)
  case Nil
  then show ?case by (intro conjI exI [of _ "[]"]) (simp_all add: loaded_Nil)
next
  case (Cons path paths)
  obtain m1 where m1: "mods_add fuel fpn api dir path m = Some m1" "mods_load fuel fpn api dir paths m1 = Some m'"
    using Cons.prems(3) by (auto split: option.splits)
  obtain given where h: "heap_ok (v_heap (m_vfs m1))" and g: "mod_gives fuel fpn api dir m path m1 given" "vfs_inv (m_vfs m1)"
    "sources (m_vfs m1) = (case given of None \<Rightarrow> sources (m_vfs m) | Some f \<Rightarrow> sources (m_vfs m) ++ f)"
    "m_count m1 = m_count m + (if given = None then 0 else 1)"
    using mods_add_spec [OF Cons.prems(1,2) m1(1)] by blast
  obtain givens where gs: "mods_loaded fuel fpn api dir m1 paths givens m'" "vfs_inv (m_vfs m')"
    "\<forall>key. sources (m_vfs m') key = (case last_given key givens of Some s \<Rightarrow> Some s | None \<Rightarrow> sources (m_vfs m1) key)"
    "m_count m' = m_count m1 + int (length (filter (\<lambda>g. g \<noteq> None) givens))"
    and h': "heap_ok (v_heap (m_vfs m'))"
    using Cons.IH [OF g(2) h m1(2)] by blast
  show ?case using loaded_Cons [OF g(1) gs(1)] gs g(3,4) h'
    by (intro conjI exI [of _ "given # givens"]) (auto simp: map_add_def split: option.splits)
qed

text \<open>
  A request is served from a source: a file of a directory by its path, a file of an archive by the
  UID of the entry that has this source.
\<close>

definition serves :: "vfs \<Rightarrow> wstr option \<Rightarrow> file_source \<Rightarrow> bool" where
  "serves v result s =
     (case s of (path, zs, n) \<Rightarrow>
        if zs = None then result = path
        else \<exists>i<length (v_entries v). result = Some (uid_prefix @ hex_string i) \<and> entry_source (v_entries v ! i) = s)"

lemma index_value_serves:
  assumes "index_ok v"
  shows "case sources v key of None \<Rightarrow> index_value (Domain d) key v = None
         | Some s \<Rightarrow> serves v (index_value (Domain d) key v) s"
proof (cases "lookup_index v key")
  case None
  then show ?thesis by (simp add: sources_def index_value_def lookup_index_def)
next
  case (Some i)
  then have i: "i < length (v_entries v)" "ve_uid (v_entries v ! i) = uid_buffer i" using assms by (auto simp: index_ok_def)
  then have "vfs_entry_uid (v_entries v ! i) = uid_prefix @ hex_string i" by (simp add: vfs_entry_uid_def uid_parts)
  then show ?thesis using Some i
    by (auto simp: sources_def index_value_def lookup_index_def entry_value_def vfs_entry_read_path_def serves_def
        entry_source_def)
qed

lemma lookup_domain_serves:
  assumes inv: "vfs_inv v" and heap: "heap_ok (v_heap v)" "length path < 2 ^ 60"
    and key: "vfs_key path = Some key" and no_uid: "vfs_uid_to_path (Some path) v = None"
    and d: "0 \<le> d" "d < int VFS_LOOKUP_DOMAIN_COUNT"
  shows "case sources v key of None \<Rightarrow> fst (vfs_lookup_domain (Some path) d v) = None
         | Some s \<Rightarrow> serves v (fst (vfs_lookup_domain (Some path) d v)) s"
proof -
  have alive: "cache_of (Domain (nat d)) v \<noteq> None" "v_index v \<noteq> None" "index_ok v"
    using inv d by (simp_all add: vfs_inv_def tables_alive_def index_ok_def nat_less_iff)
  then have "fst (vfs_lookup_domain (Some path) d v) = index_value (Domain (nat d)) key v"
    using lookup_through_uncached [OF _ alive(1) heap] inv no_uid d key
    by (auto simp: vfs_lookup_domain_def vfs_inv_def uncached_def)
  with index_value_serves [OF alive(3), where key = key and d = "nat d"] show ?thesis by (auto split: option.splits)
qed

lemma count_none:
  "length (filter (\<lambda>g. g \<noteq> None) givens) = 0 \<Longrightarrow> last_given key givens = None"
  by (induction givens) (auto split: if_splits)

lemma search_last_given:
  assumes "vfs_inv (m_vfs m)" and "sources (m_vfs m) key = last_given key givens"
    and "m_count m = int (length (filter (\<lambda>g. g \<noteq> None) givens))"
    and "heap_ok (v_heap (m_vfs m))" and "length path < 2 ^ 60" and "vfs_key path = Some key"
    and "vfs_uid_to_path (Some path) (m_vfs m) = None"
  shows "case last_given key givens of None \<Rightarrow> fst (mods_file_search (Some path) m) = None
     | Some s \<Rightarrow> serves (m_vfs m) (fst (mods_file_search (Some path) m)) s"
proof -
  have "last_given key givens = None" if "m_count m \<le> 0" using that assms(3) count_none by simp
  with lookup_domain_serves [OF assms(1,4-7), of "int VFS_LOOKUP_VIRTUAL"] assms(2) show ?thesis
    by (auto simp: mods_file_search_def with_vfs_def vfs_lookup_def VFS_LOOKUP_VIRTUAL_def
        VFS_LOOKUP_DOMAIN_COUNT_def split: option.splits)
qed

lemma mods_init_fresh:
  "vfs_inv (m_vfs (mods_init module m))" "sources (m_vfs (mods_init module m)) key = None"
  "m_count (mods_init module m) = m_count m"
proof -
  obtain folder h where "ml_path_module_filename_alloc module (v_heap (m_vfs m)) = (folder, h)" by fastforce
  then obtain files depth where v: "m_vfs (mods_init module m) = vfs_init files depth"
    "m_count (mods_init module m) = m_count m"
    by (auto simp: mods_init_def)
  show "vfs_inv (m_vfs (mods_init module m))" "m_count (mods_init module m) = m_count m"
    using v vfs_inv_init by simp_all
  show "sources (m_vfs (mods_init module m)) key = None"
    using v by (simp add: sources_def lookup_index_def vfs_init_def the_index_def kh_simps)
qed

lemma strip_path_prefix_length:
  "vfs_strip_path_prefix up (Some path) root = Some rest \<Longrightarrow> length rest \<le> length path"
  by (auto simp: vfs_strip_path_prefix_def strip_loop_iff split: option.splits prod.splits if_splits)
    (metis le_add2 length_append length_drop diff_le_self order_trans)+

text \<open>
  What the game reads: UIDs go to their own path, reads below the game folder to the mods; requests
  that write, that create a file, or that the loader makes itself go nowhere but to UIDs.
\<close>

lemma mods_file_route_read_spec:
  assumes "vfs_inv (m_vfs m)" and "heap_ok (v_heap (m_vfs m))" and "length path < 2 ^ 60"
  shows "fst (mods_file_route_read up (Some path) access disposition m) =
     (if m_count m \<le> 0 then None
      else case vfs_uid_to_path (Some path) (m_vfs m) of Some r \<Rightarrow> Some r
      | None \<Rightarrow>
          (case vfs_strip_path_prefix up (Some path) (m_game_folder m) of None \<Rightarrow> None
           | Some relative \<Rightarrow>
               if v_recursion_depth (m_vfs m) \<noteq> 0 \<or> and access (or GENERIC_WRITE DELETE) \<noteq> 0
                  \<or> disposition \<in> {CREATE_NEW, CREATE_ALWAYS, TRUNCATE_EXISTING} then None
               else case vfs_uid_to_path (Some relative) (m_vfs m) of Some r \<Rightarrow> Some r
                 | None \<Rightarrow> uncached (Domain VFS_LOOKUP_DISK_WIDE) relative (m_vfs m)))"
proof -
  have alive: "cache_of (Domain VFS_LOOKUP_DISK_WIDE) (m_vfs m) \<noteq> None" "v_index (m_vfs m) \<noteq> None"
    using assms(1) by (auto simp: vfs_inv_def tables_alive_def index_ok_def VFS_LOOKUP_DOMAIN_COUNT_def VFS_LOOKUP_DISK_WIDE_def)
  have "fst (vfs_lookup_domain (Some relative) (int VFS_LOOKUP_DISK_WIDE) (m_vfs m)) =
      (case vfs_uid_to_path (Some relative) (m_vfs m) of Some r \<Rightarrow> Some r
       | None \<Rightarrow> uncached (Domain VFS_LOOKUP_DISK_WIDE) relative (m_vfs m))" if "length relative < 2 ^ 60" for relative
    using lookup_through_uncached [OF _ alive(1) assms(2) that] assms(1) alive
    by (auto simp: vfs_lookup_domain_def vfs_inv_def VFS_LOOKUP_DOMAIN_COUNT_def VFS_LOOKUP_DISK_WIDE_def split: option.split)
  moreover have "length relative < 2 ^ 60" if "vfs_strip_path_prefix up (Some path) (m_game_folder m) = Some relative"
    for relative using strip_path_prefix_length [OF that] assms(3) by simp
  ultimately show ?thesis
    by (auto simp: mods_file_route_read_def with_vfs_def vfs_route_read_path_prefixed_def vfs_route_read_path_def
        Let_def split: option.split)
qed

text \<open>
  The last mod wins. After the mods of a configuration have been added in their order to a
  freshly initialised loader, a search for a path is served from the last mod that has a file with
  its normal form; mods that could not be added count for nothing, and what no mod has is not found.
  The number of mods is that of the added ones.
\<close>

theorem mods_last_wins:
  assumes "m_count m0 = 0" and load: "mods_load fuel fpn api dir paths (mods_init module m0) = Some m"
    and "heap_ok (v_heap (m_vfs (mods_init module m0)))" and "length path < 2 ^ 60" and "vfs_key path = Some key"
    and "vfs_uid_to_path (Some path) (m_vfs m) = None"
  shows "\<exists>givens. mods_loaded fuel fpn api dir (mods_init module m0) paths givens m
     \<and> m_count m = int (length (filter (\<lambda>g. g \<noteq> None) givens))
     \<and> (case last_given key givens of None \<Rightarrow> fst (mods_file_search (Some path) m) = None
        | Some s \<Rightarrow> serves (m_vfs m) (fst (mods_file_search (Some path) m)) s)"
proof -
  let ?m = "mods_init module m0"
  obtain givens where g: "mods_loaded fuel fpn api dir ?m paths givens m" "vfs_inv (m_vfs m)"
    "\<forall>key. sources (m_vfs m) key = (case last_given key givens of Some s \<Rightarrow> Some s
       | None \<Rightarrow> sources (m_vfs ?m) key)"
    "m_count m = m_count ?m + int (length (filter (\<lambda>g. g \<noteq> None) givens))"
    and heap: "heap_ok (v_heap (m_vfs m))"
    using mods_load_spec [OF mods_init_fresh(1) assms(3) load] by blast
  then have given: "sources (m_vfs m) key = last_given key givens"
    and count: "m_count m = int (length (filter (\<lambda>g. g \<noteq> None) givens))"
    using mods_init_fresh assms(1) by (simp_all split: option.splits)
  from search_last_given [OF g(2) given count heap assms(4-6)] g(1) count show ?thesis by blast
qed

text \<open>Directories with a file of one name.\<close>

definition example_dirs :: vfs_api where
  "example_dirs = \<lparr>va_attributes = (\<lambda>_. Some \<lparr>attr_directory = True, attr_reparse = False\<rparr>),
     va_find = (\<lambda>_. Some ([\<lparr>fd_name = [65], fd_directory = False, fd_reparse = False\<rparr>], True)),
     va_lstrcmpi = (\<lambda>a b. a = b), va_archives = (\<lambda>_. None), va_mbtwc = (\<lambda>_ _. None)\<rparr>"

definition example_mods :: mods where
  "example_mods = \<lparr>m_game_folder = None, m_count = 0, m_vfs = vfs_init (fs_initial (\<lambda>_. True)) 0\<rparr>"

abbreviation example_dir :: wstr where "example_dir \<equiv> [67, COLON, BSLASH, 100]"

lemma example_search:
  "map_option (\<lambda>m. fst (mods_file_search (Some [65]) m))
     (mods_load (Suc (Suc 0)) (\<lambda>_ s. Inr s) example_dirs (Some example_dir) [Some [109], None]
        (mods_init (Inl 5) example_mods)) = Some (Some (example_dir @ [BSLASH, 109, BSLASH, 65]))"
  by code_simp

lemma example_package:
  "mod_package_path (Suc (Suc 0)) (\<lambda>_ s. Inr s) (va_attributes example_dirs) (Some example_dir) [109] (\<lambda>_. True)
    = (Some (Some (example_dir @ [BSLASH, 109])), \<lambda>_. True)"
proof -
  have "ml_path_resolve_alloc (Suc (Suc 0)) (\<lambda>_ s. Inr s) (Some example_dir) (Some [109]) (\<lambda>_. True)
      = (Some (Inr (example_dir @ [BSLASH, 109])), \<lambda>_. True)"
    using ml_path_resolve_relative [of "\<lambda>_. True" example_dir "[109]" "\<lambda>_ s. Inr s" "example_dir @ [BSLASH, 109]" "Suc 0"]
    by (auto simp: drive_path_def ML_PATH_MAX_CCH_def ml_path_extend_str_def ml_path_extend_def MAX_PATH_def)
  moreover have "zip_package_root_separator (Some [109]) = None"
    by (simp add: zip_package_root_separator_def ml_path_separator_def wat_def)
  ultimately show ?thesis
    by (simp add: mod_package_path_def mod_disk_path_def mod_suffix_def config_full_path_alloc_def
        ml_path_buffer_ok ML_PATH_MAX_CCH_def example_dirs_def SIZE_MAX_def ml_mem_alloc_ok)
qed

lemma example_heap: "heap_ok (v_heap (m_vfs (mods_init (Inl 5) example_mods)))"
  by (simp add: mods_init_def example_mods_def ml_path_module_filename_alloc_def module_filename_loop.simps
      ML_PATH_MAX_CCH_def ml_path_buffer_ok v_heap_def vfs_init_def fs_initial_def with_heap_def)

theorem mods_last_wins_witness:
  "\<exists>m givens. mods_load (Suc (Suc 0)) (\<lambda>_ s. Inr s) example_dirs (Some example_dir) [Some [109], None]
       (mods_init (Inl 5) example_mods) = Some m
     \<and> m_count m = int (length (filter (\<lambda>g. g \<noteq> None) givens))
     \<and> last_given [97] givens \<noteq> None \<and> fst (mods_file_search (Some [65]) m) = Some (example_dir @ [BSLASH, 109, BSLASH, 65])"
proof -
  obtain m where m: "mods_load (Suc (Suc 0)) (\<lambda>_ s. Inr s) example_dirs (Some example_dir) [Some [109], None]
       (mods_init (Inl 5) example_mods) = Some m"
      "fst (mods_file_search (Some [65]) m) = Some (example_dir @ [BSLASH, 109, BSLASH, 65])"
    using example_search by auto
  have "vfs_uid_to_path (Some [65]) (m_vfs m) = None"
    by (simp add: vfs_uid_to_path_def vfs_uid_entry_def uid_prefix_def)
  moreover have "vfs_key [65] = Some [97]" by code_simp
  moreover have "m_count example_mods = 0" by (simp add: example_mods_def)
  ultimately obtain givens where g: "m_count m = int (length (filter (\<lambda>g. g \<noteq> None) givens))"
    "case last_given [97] givens of None \<Rightarrow> fst (mods_file_search (Some [65]) m) = None
        | Some s \<Rightarrow> serves (m_vfs m) (fst (mods_file_search (Some [65]) m)) s"
    using mods_last_wins [OF _ m(1) example_heap, of "[65]" "[97]"] by auto
  then have "last_given [97] givens \<noteq> None" using m(2) by (cases "last_given [97] givens") auto
  with g m show ?thesis by blast
qed

end
