(* ===== verification/Config.thy ===== *)
theory Config
  imports Ini Mods ExtDll
begin

text \<open>
  The configuration of the loader (\<open>src/modloader/config.c\<close>): finding the file, the settings of an INI
  file and of a ModEngine2 TOML file, and handing mods (\<open>Mods\<close>) and external DLLs (\<open>ExtDll\<close>) on.

  The INI reader is \<open>Ini\<close>. What the vendored TOML reader makes of a file is a parameter: the tree of
  its tables and arrays, in which the accessors the code calls look up a key or an index. Windows,
  the comparison \<open>lstrcmpA\<close> and the conversion from UTF-8 are the record \<open>config_api\<close>. The mods'
  heap serves the allocations of this component too; running out of fuel while a path is resolved
  is \<open>None\<close>. Of the log, the console, the file and the level are state; messages are left out.
\<close>

subsection \<open>State\<close>

record config_options =
  skip_intro :: bool
  prevent_regulation_save_write :: bool
  patch_mem :: bool
  patch_mem_dedicated_heap :: bool
  patch_mem_heap_size :: "32 word"
  boot_boost :: bool
  disable_arxan :: bool
  replaced_save_filename :: wstr
  replaced_seamless_coop_save_filename :: wstr
  enable_ime :: bool
  cpu_affinity_strategy :: int

definition config_default :: config_options where
  "config_default = \<lparr>skip_intro = True, prevent_regulation_save_write = True, patch_mem = True,
     patch_mem_dedicated_heap = True, patch_mem_heap_size = 0, boot_boost = True, disable_arxan = False,
     replaced_save_filename = [], replaced_seamless_coop_save_filename = [], enable_ime = False,
     cpu_affinity_strategy = 0\<rparr>"

record loader =
  ld_config :: config_options
  ld_module_path :: "wstr option"
  ld_env_path :: "wstr option"
  ld_mods :: mods
  ld_dlls :: extdlls
  ld_console :: bool
  ld_log_file :: "wstr option"
  ld_log_level :: nat

datatype toml =
    Toml_bool bool
  | Toml_string bytes
  | Toml_array "toml list"
  | Toml_table "(bytes \<times> toml) list"
  | Toml_other

record config_api =
  ca_fuel :: nat
  ca_vfs :: vfs_api
  ca_full_path :: full_path_api
  ca_lstrcmp :: "bytes \<Rightarrow> bytes \<Rightarrow> bool"  \<comment> \<open>\<open>lstrcmpA(a, b) == 0\<close>\<close>
  ca_utf8 :: "bytes \<Rightarrow> wstr option"  \<comment> \<open>\<open>None\<close> for invalid UTF-8\<close>
  ca_remove_extension :: "bytes \<Rightarrow> bytes"  \<comment> \<open>\<open>PathRemoveExtensionA\<close>\<close>
  ca_open :: "wstr \<Rightarrow> (bytes \<times> bool) option"  \<comment> \<open>what the file holds and whether reading it fails\<close>
  ca_toml :: "bytes \<Rightarrow> (bytes \<times> toml) list option"  \<comment> \<open>\<open>toml_parse_file\<close>\<close>

definition ld_heap :: "loader \<Rightarrow> heap" where
  "ld_heap ld = v_heap (m_vfs (ld_mods ld))"

definition with_ld_heap :: "heap \<Rightarrow> loader \<Rightarrow> loader" where
  "with_ld_heap h ld = ld\<lparr>ld_mods := (ld_mods ld)\<lparr>m_vfs := with_heap h (m_vfs (ld_mods ld))\<rparr>\<rparr>"

definition ld_alloc :: "loader \<Rightarrow> bool \<times> loader" where
  "ld_alloc ld = (case ml_mem_alloc (ld_heap ld) of (ok, h) \<Rightarrow> (ok, with_ld_heap h ld))"

definition set_config :: "(config_options \<Rightarrow> config_options) \<Rightarrow> loader \<Rightarrow> loader" where
  "set_config f ld = ld\<lparr>ld_config := f (ld_config ld)\<rparr>"

subsection \<open>Numbers\<close>

text \<open>The digits that \<open>strtol\<close> accepts in a base, their value, and what follows them.\<close>

definition digit_of :: "8 word \<Rightarrow> nat" where
  "digit_of c = (if 48 \<le> c \<and> c \<le> 57 then unat c - 48 else if 65 \<le> c \<and> c \<le> 90 then unat c - 55
     else if 97 \<le> c \<and> c \<le> 122 then unat c - 87 else 36)"

definition base_digits :: "nat \<Rightarrow> bytes \<Rightarrow> bytes" where
  "base_digits base s = takeWhile (\<lambda>c. digit_of c < base) s"

definition base_value :: "nat \<Rightarrow> bytes \<Rightarrow> nat" where
  "base_value base s = foldl (\<lambda>n c. n * base + digit_of c) 0 s"

definition sign_of :: "bytes \<Rightarrow> bool \<times> bytes" where
  "sign_of s = (if bat s 0 = 45 then (True, drop 1 s) else if bat s 0 = 43 then (False, drop 1 s) else (False, s))"

definition ULLONG_MAX :: nat where "ULLONG_MAX = 18446744073709551615"
definition UINT32_MAX :: nat where "UINT32_MAX = 4294967295"

text \<open>\<open>strtoull\<close> in base 10: the value, and the rest of the string when there was a number.\<close>

definition strtoull10 :: "bytes \<Rightarrow> nat \<times> bytes option" where
  "strtoull10 s =
     (let (negative, t) = sign_of (dropWhile isspace s);
          digits = base_digits 10 t; n = base_value 10 digits
      in if digits = [] then (0, None)
         else (if n > ULLONG_MAX then ULLONG_MAX
               else if negative then (ULLONG_MAX + 1 - n) mod (ULLONG_MAX + 1) else n,
               Some (drop (length digits) t)))"

text \<open>\<open>strtol\<close> in base 0; \<open>long\<close> has 32 bits on Windows.\<close>

definition strtol0 :: "bytes \<Rightarrow> int" where
  "strtol0 s =
     (let (negative, t) = sign_of (dropWhile isspace s);
          hex = (bat t 0 = 48 \<and> (bat t 1 = 120 \<or> bat t 1 = 88));
          base = (if hex then 16 else if bat t 0 = 48 then 8 else 10);
          n = int (base_value base (base_digits base (if hex then drop 2 t else t)));
          n = (if negative then - n else n)
      in max (- 2147483648) (min 2147483647 n))"

subsection \<open>Settings\<close>

definition value_to_bool :: "config_api \<Rightarrow> bytes \<Rightarrow> bool" where
  "value_to_bool api data \<longleftrightarrow> ca_lstrcmp api data (B ''true'') \<or> ca_lstrcmp api data (B ''yes'')
     \<or> ca_lstrcmp api data (B ''on'') \<or> ca_lstrcmp api data (B ''1'')"

definition utf8_to_wide_alloc :: "config_api \<Rightarrow> bytes option \<Rightarrow> loader \<Rightarrow> wstr option \<times> loader" where
  "utf8_to_wide_alloc api data ld =
     (case Option.bind data (ca_utf8 api) of None \<Rightarrow> (None, ld)
      | Some w \<Rightarrow> (case ld_alloc ld of (ok, ld) \<Rightarrow> (if ok then Some w else None, ld)))"

text \<open>The name and the log of a failure aside, a mod is its path.\<close>

definition ld_mods_add :: "config_api \<Rightarrow> wstr \<Rightarrow> loader \<Rightarrow> loader option" where
  "ld_mods_add api path ld =
     map_option (\<lambda>m. ld\<lparr>ld_mods := m\<rparr>)
       (mods_add (ca_fuel api) (ca_full_path api) (ca_vfs api) (ld_module_path ld) (Some path) (ld_mods ld))"

definition config_add_mod_path :: "config_api \<Rightarrow> bytes option \<Rightarrow> loader \<Rightarrow> loader option" where
  "config_add_mod_path api data ld =
     (case utf8_to_wide_alloc api data ld of
        (None, ld) \<Rightarrow> Some ld
      | (Some path, ld) \<Rightarrow> ld_mods_add api path ld)"

definition save_filename :: "config_api \<Rightarrow> bytes \<Rightarrow> wstr" where
  "save_filename api data =
     (case ca_utf8 api data of None \<Rightarrow> [QMARK]
      | Some w \<Rightarrow> if length w < 64 then w else [QMARK])"

definition stricmp_eq :: "bytes \<Rightarrow> bytes \<Rightarrow> bool" where
  "stricmp_eq a b \<longleftrightarrow> (let low = (\<lambda>c :: 8 word. if 65 \<le> c \<and> c \<le> 90 then c + 32 else c) in map low a = map low b)"

definition ml_log_level_parse :: "bytes \<Rightarrow> nat option" where
  "ml_log_level_parse data =
     find_index (stricmp_eq data) [B ''trace'', B ''debug'', B ''info'', B ''warn'', B ''error'', B ''off'']"

definition set_log_level :: "bytes \<Rightarrow> loader \<Rightarrow> loader" where
  "set_log_level data ld =
     (case ml_log_level_parse data of None \<Rightarrow> ld | Some level \<Rightarrow> ld\<lparr>ld_log_level := level\<rparr>)"

definition ld_full_path :: "config_api \<Rightarrow> wstr option \<Rightarrow> loader \<Rightarrow> (win_error + wstr) option \<times> loader" where
  "ld_full_path api filename ld =
     (case config_full_path_alloc (ca_fuel api) (ca_full_path api) (ld_module_path ld) filename (ld_heap ld) of
        (r, h) \<Rightarrow> (r, with_ld_heap h ld))"

definition set_log_file :: "config_api \<Rightarrow> loader \<Rightarrow> loader option" where
  "set_log_file api ld =
     (case ld_full_path api (Some (L ''log'' @ [BSLASH] @ L ''YAFSML.log'')) ld of
        (None, ld) \<Rightarrow> None
      | (Some (Inl e), ld) \<Rightarrow> Some ld
      | (Some (Inr file), ld) \<Rightarrow> (case ld_alloc ld of (ok, ld) \<Rightarrow> Some (ld\<lparr>ld_log_file := Some file\<rparr>)))"

definition patch_setting :: "config_api \<Rightarrow> bytes \<Rightarrow> bytes \<Rightarrow> config_options \<Rightarrow> config_options" where
  "patch_setting api name data c =
     (let is = (\<lambda>key. ca_lstrcmp api name (B key)); b = value_to_bool api data
      in if is ''skip_intro'' then c\<lparr>skip_intro := b\<rparr>
         else if is ''prevent_regulation_save_write'' then c\<lparr>prevent_regulation_save_write := b\<rparr>
         else if is ''patch_mem'' then c\<lparr>patch_mem := b\<rparr>
         else if is ''patch_mem_dedicated_heap'' then c\<lparr>patch_mem_dedicated_heap := b\<rparr>
         else if is ''patch_mem_heap_size'' then
           (case strtoull10 data of
              (n, rest) \<Rightarrow> if rest = Some [] \<and> n \<le> UINT32_MAX then c\<lparr>patch_mem_heap_size := of_nat n\<rparr> else c)
         else if is ''boot_boost'' then c\<lparr>boot_boost := b\<rparr>
         else if is ''disable_arxan'' then c\<lparr>disable_arxan := b\<rparr>
         else if is ''replace_save_filename'' then c\<lparr>replaced_save_filename := save_filename api data\<rparr>
         else if is ''replace_seamless_coop_save_filename''
           then c\<lparr>replaced_seamless_coop_save_filename := save_filename api data\<rparr>
         else if is ''enable_ime'' then c\<lparr>enable_ime := b\<rparr>
         else c)"

definition log_setting :: "config_api \<Rightarrow> bytes \<Rightarrow> bytes \<Rightarrow> loader \<Rightarrow> loader option" where
  "log_setting api name data ld =
     (if ca_lstrcmp api name (B ''console'')
      then Some (if value_to_bool api data then ld\<lparr>ld_console := True\<rparr> else ld)
      else if ca_lstrcmp api name (B ''log_file'')
      then (if value_to_bool api data then set_log_file api ld else Some ld)
      else if ca_lstrcmp api name (B ''log_level'') then Some (set_log_level data ld)
      else Some ld)"

definition ini_setting :: "config_api \<Rightarrow> bytes \<Rightarrow> bytes \<Rightarrow> bytes \<Rightarrow> loader \<Rightarrow> loader option" where
  "ini_setting api sec name data ld =
     (if ca_lstrcmp api sec (B ''patch'') then Some (set_config (patch_setting api name data) ld)
      else if ca_lstrcmp api sec (B ''log'') then log_setting api name data ld
      else if ca_lstrcmp api sec (B ''tweak'') then
        Some (if ca_lstrcmp api name (B ''cpu_affinity'')
              then set_config (\<lambda>c. c\<lparr>cpu_affinity_strategy := strtol0 data\<rparr>) ld else ld)
      else if ca_lstrcmp api sec (B ''dll'') then
        Some (ld\<lparr>ld_dlls := extdlls_add_spec (ca_utf8 api) (Some name) (Some data) (ld_dlls ld)\<rparr>)
      else if ca_lstrcmp api sec (B ''mod'') then config_add_mod_path api (Some data) ld
      else Some ld)"

definition ini_read_cb :: "config_api \<Rightarrow> loader option ini_handler" where
  "ini_read_cb api sec name data ld = (True, Option.bind ld (ini_setting api sec name data))"

text \<open>\<open>h\<close> are the outcomes of the C library's allocator, which the INI reader uses.\<close>

definition config_load_ini :: "config_api \<Rightarrow> bytes \<Rightarrow> bool \<Rightarrow> heap \<Rightarrow> loader \<Rightarrow> loader option" where
  "config_load_ini api text ferror h ld = snd (fst (ini_parse_file (ini_read_cb api) (Some ld) text ferror h))"

subsection \<open>ModEngine2 files\<close>

definition toml_table_bool :: "(bytes \<times> toml) list \<Rightarrow> bytes \<Rightarrow> bool option" where
  "toml_table_bool t key = (case map_of t key of Some (Toml_bool b) \<Rightarrow> Some b | _ \<Rightarrow> None)"

definition toml_table_string :: "(bytes \<times> toml) list \<Rightarrow> bytes \<Rightarrow> bytes option" where
  "toml_table_string t key = (case map_of t key of Some (Toml_string s) \<Rightarrow> Some s | _ \<Rightarrow> None)"

definition toml_table_array :: "(bytes \<times> toml) list \<Rightarrow> bytes \<Rightarrow> toml list option" where
  "toml_table_array t key = (case map_of t key of Some (Toml_array a) \<Rightarrow> Some a | _ \<Rightarrow> None)"

definition toml_table_table :: "(bytes \<times> toml) list \<Rightarrow> bytes \<Rightarrow> (bytes \<times> toml) list option" where
  "toml_table_table t key = (case map_of t key of Some (Toml_table u) \<Rightarrow> Some u | _ \<Rightarrow> None)"

fun toml_dlls :: "config_api \<Rightarrow> toml list \<Rightarrow> loader \<Rightarrow> loader" where
  "toml_dlls api [] ld = ld"
| "toml_dlls api (Toml_string s # arr) ld =
     (case utf8_to_wide_alloc api (Some s) ld of
        (None, ld) \<Rightarrow> toml_dlls api arr ld
      | (Some path, ld) \<Rightarrow>
          toml_dlls api arr (ld\<lparr>ld_dlls := extdlls_add (Some (ca_remove_extension api s)) (Some path) (ld_dlls ld)\<rparr>))"
| "toml_dlls api (_ # arr) ld = toml_dlls api arr ld"

fun toml_mods :: "config_api \<Rightarrow> toml list \<Rightarrow> loader \<Rightarrow> loader option" where
  "toml_mods api [] ld = Some ld"
| "toml_mods api (Toml_table sub # arr) ld =
     (if toml_table_bool sub (B ''enabled'') = Some False then toml_mods api arr ld
      else case toml_table_string sub (B ''path'') of
        None \<Rightarrow> toml_mods api arr ld
      | Some path \<Rightarrow> Option.bind (config_add_mod_path api (Some path) ld) (toml_mods api arr))"
| "toml_mods api (_ # arr) ld = toml_mods api arr ld"

definition toml_modengine :: "config_api \<Rightarrow> (bytes \<times> toml) list \<Rightarrow> loader \<Rightarrow> loader" where
  "toml_modengine api me ld =
     (let ld = (if toml_table_bool me (B ''debug'') = Some True then ld\<lparr>ld_console := True\<rparr> else ld);
          ld = (case toml_table_bool me (B ''disable_arxan'') of None \<Rightarrow> ld
                | Some b \<Rightarrow> set_config (\<lambda>c. c\<lparr>disable_arxan := b\<rparr>) ld);
          ld = (case toml_table_string me (B ''log_level'') of None \<Rightarrow> ld | Some s \<Rightarrow> set_log_level s ld)
      in case toml_table_array me (B ''external_dlls'') of None \<Rightarrow> ld | Some arr \<Rightarrow> toml_dlls api arr ld)"

text \<open>The mods of \<open>extension.mod_loader\<close>, when it is there and enabled.\<close>

definition toml_mod_list :: "(bytes \<times> toml) list \<Rightarrow> toml list" where
  "toml_mod_list root =
     (case Option.bind (toml_table_table root (B ''extension'')) (\<lambda>me. toml_table_table me (B ''mod_loader'')) of
        None \<Rightarrow> []
      | Some me \<Rightarrow>
          if toml_table_bool me (B ''enabled'') \<noteq> Some True then []
          else case toml_table_array me (B ''mods'') of None \<Rightarrow> [] | Some arr \<Rightarrow> arr)"

definition config_load_toml :: "config_api \<Rightarrow> bytes \<Rightarrow> loader \<Rightarrow> loader option" where
  "config_load_toml api text ld =
     (case ca_toml api text of None \<Rightarrow> Some ld
      | Some root \<Rightarrow>
          toml_mods api (toml_mod_list root)
            (case toml_table_table root (B ''modengine'') of None \<Rightarrow> ld | Some me \<Rightarrow> toml_modengine api me ld))"

subsection \<open>The file\<close>

definition config_uninit :: "loader \<Rightarrow> loader" where
  "config_uninit ld = ld\<lparr>ld_module_path := None, ld_env_path := None\<rparr>"

text \<open>\<open>module\<close> is the answer of \<open>GetModuleFileNameW\<close>, \<open>env\<close> the value of \<open>YAFSML_CONFIG\<close> at each call.\<close>

definition config_init :: "config_api \<Rightarrow> nat + wstr \<Rightarrow> (nat \<Rightarrow> nat + wstr) \<Rightarrow> loader \<Rightarrow> loader option" where
  "config_init api module env ld =
     (let ld = config_uninit ld
      in case ml_path_module_filename_alloc module (ld_heap ld) of
           (Inl e, h) \<Rightarrow> Some (with_ld_heap h ld)
         | (Inr filename, h) \<Rightarrow>
             (case ml_path_resolve_alloc (ca_fuel api) (ca_full_path api) None (Some filename) h of
                (None, h) \<Rightarrow> None
              | (Some (Inl e), h) \<Rightarrow> Some (with_ld_heap h ld)
              | (Some (Inr path), h) \<Rightarrow>
                  (case ml_path_environment_alloc (ca_fuel api) env h of
                     (None, h) \<Rightarrow> None
                   | (Some env_path, h) \<Rightarrow>
                       Some ((with_ld_heap h ld)\<lparr>ld_module_path := Some (ml_path_remove_filename path),
                                                 ld_env_path := env_path\<rparr>))))"

definition ld_resolve :: "config_api \<Rightarrow> wstr \<Rightarrow> wstr \<Rightarrow> loader \<Rightarrow> (win_error + wstr) option \<times> loader" where
  "ld_resolve api base name ld =
     (case ml_path_resolve_alloc (ca_fuel api) (ca_full_path api) (Some base) (Some name) (ld_heap ld) of
        (r, h) \<Rightarrow> (r, with_ld_heap h ld))"

definition resolve_config_path ::
  "config_api \<Rightarrow> wstr \<Rightarrow> loader \<Rightarrow> (win_error + wstr) option \<times> loader" where
  "resolve_config_path api modengine_config_name ld =
     (case ld_full_path api (ld_env_path ld) ld of
        (Some (Inr path), ld) \<Rightarrow>
          (if ml_path_is_directory (va_attributes (ca_vfs api)) path then
             (case ld_resolve api path (L ''YAFSML.ini'') ld of
                (Some (Inr file), ld) \<Rightarrow>
                  (if va_attributes (ca_vfs api) file = None \<or> ml_path_is_directory (va_attributes (ca_vfs api)) file
                   then ld_resolve api path modengine_config_name ld
                   else (Some (Inr file), ld))
              | r \<Rightarrow> r)
           else (Some (Inr path), ld))
      | r \<Rightarrow> r)"

text \<open>\<open>game\<close> is the ModEngine2 file name of the game that runs, when it is a known one.\<close>

definition config_load :: "config_api \<Rightarrow> wstr option \<Rightarrow> heap \<Rightarrow> loader \<Rightarrow> loader option" where
  "config_load api game h ld =
     (if ld_module_path ld = None then Some ld
      else case resolve_config_path api (case game of None \<Rightarrow> L ''config_eldenring.toml'' | Some n \<Rightarrow> n) ld of
        (None, ld) \<Rightarrow> None
      | (Some (Inl e), ld) \<Rightarrow> Some ld
      | (Some (Inr config_path), ld) \<Rightarrow>
          (case ca_open api config_path of
             None \<Rightarrow> Some ld
           | Some (text, ferror) \<Rightarrow>
               if va_lstrcmpi (ca_vfs api) (ml_path_extension config_path) (L ''.toml'')
               then config_load_toml api text ld
               else config_load_ini api text ferror h ld))"

subsection \<open>Paths of the game\<close>

text \<open>
  \<open>ml_path_from_ansi\<close> (\<open>src/modloader/path_convert.c\<close>); \<open>ansi\<close> is \<open>MultiByteToWideChar\<close> from the ANSI
  code page: the length it reports for a string and what it converts it to, which may fail.
\<close>

definition ml_path_from_ansi ::
  "(bytes \<Rightarrow> int) \<Rightarrow> (bytes \<Rightarrow> wstr option) \<Rightarrow> bytes option \<Rightarrow> heap \<Rightarrow> wstr option \<times> heap" where
  "ml_path_from_ansi ansi_length ansi path h =
     (case path of None \<Rightarrow> (None, h)
      | Some path \<Rightarrow>
          if ansi_length path \<le> 0 then (None, h)
          else case ml_mem_alloc h of
            (False, h) \<Rightarrow> (None, h)
          | (True, h) \<Rightarrow> (ansi path, h))"

subsection \<open>What an INI file configures\<close>

text \<open>
  The section that a line belongs to: the first of the names the code knows that \<open>lstrcmpA\<close> takes it
  for. \<open>ini_mods\<close> and \<open>ini_dlls\<close> are the lines of \<open>[mod]\<close> and \<open>[dll]\<close> in their order.
\<close>

definition section_of :: "config_api \<Rightarrow> bytes \<Rightarrow> string option" where
  "section_of api sec = find (\<lambda>k. ca_lstrcmp api sec (B k)) [''patch'', ''log'', ''tweak'', ''dll'', ''mod'']"

definition ini_mods :: "config_api \<Rightarrow> (bytes \<times> bytes \<times> bytes) list \<Rightarrow> bytes list" where
  "ini_mods api es = map (\<lambda>(s, n, d). d) (filter (\<lambda>(s, n, d). section_of api s = Some ''mod'') es)"

definition ini_dlls :: "config_api \<Rightarrow> (bytes \<times> bytes \<times> bytes) list \<Rightarrow> (bytes \<times> bytes) list" where
  "ini_dlls api es = map snd (filter (\<lambda>(s, n, d). section_of api s = Some ''dll'') es)"

text \<open>The mods that the paths in \<open>[mod]\<close> name; a path that is not UTF-8 names none.\<close>

abbreviation config_mods ::
  "config_api \<Rightarrow> wstr option \<Rightarrow> mods \<Rightarrow> bytes list \<Rightarrow> mod_map option list \<Rightarrow> mods \<Rightarrow> bool" where
  "config_mods api dir m datas \<equiv>
     mods_loaded (ca_fuel api) (ca_full_path api) (ca_vfs api) dir m (map (ca_utf8 api) datas)"

definition ld_ok :: "loader \<Rightarrow> bool" where
  "ld_ok ld \<longleftrightarrow> vfs_inv (m_vfs (ld_mods ld)) \<and> heap_ok (ld_heap ld)"

lemma with_own_ld_heap [simp]: "with_ld_heap (ld_heap ld) ld = ld"
  by (simp add: with_ld_heap_def ld_heap_def)

lemma ld_alloc_ok: "heap_ok (ld_heap ld) \<Longrightarrow> ld_alloc ld = (True, ld)"
  by (simp add: ld_alloc_def)

lemma ld_full_path_same:
  assumes "heap_ok (ld_heap ld)" and "ld_full_path api f ld = (r, ld')"
  shows "ld' = ld"
proof -
  obtain x h where c: "config_full_path_alloc (ca_fuel api) (ca_full_path api) (ld_module_path ld) f (ld_heap ld) = (x, h)"
    by fastforce
  then have "h = ld_heap ld"
    using resolve_heap [OF assms(1), of "ca_fuel api" "ca_full_path api" "ld_module_path ld" f]
    by (simp add: config_full_path_alloc_def split: if_splits)
  with assms(2) c show ?thesis by (simp add: ld_full_path_def)
qed

definition same_mods :: "loader \<Rightarrow> loader \<Rightarrow> bool" where
  "same_mods ld ld' \<longleftrightarrow> ld_mods ld' = ld_mods ld \<and> ld_module_path ld' = ld_module_path ld \<and> ld_dlls ld' = ld_dlls ld"

lemma set_log_file_mods:
  assumes "heap_ok (ld_heap ld)" and "set_log_file api ld = Some ld'"
  shows "same_mods ld ld'"
proof -
  obtain r ld1 where f: "ld_full_path api (Some (L ''log'' @ [BSLASH] @ L ''YAFSML.log'')) ld = (r, ld1)" by fastforce
  with ld_full_path_same [OF assms(1) f] assms show ?thesis
    by (auto simp: set_log_file_def same_mods_def ld_alloc_ok split: option.splits sum.splits)
qed

lemma ini_setting_other:
  assumes heap: "heap_ok (ld_heap ld)" and "section_of api sec \<noteq> Some ''mod''"
    and "ini_setting api sec name data ld = Some ld'"
  shows "if section_of api sec = Some ''dll''
         then ld' = ld\<lparr>ld_dlls := extdlls_add_spec (ca_utf8 api) (Some name) (Some data) (ld_dlls ld)\<rparr>
         else same_mods ld ld'"
proof -
  have "same_mods ld ld'" if "log_setting api name data ld = Some ld'"
    using that by (auto simp: log_setting_def set_log_level_def same_mods_def split: if_splits option.splits
        dest: set_log_file_mods [OF heap, unfolded same_mods_def])
  then show ?thesis using assms(2,3)
    by (auto simp: ini_setting_def section_of_def set_config_def same_mods_def split: if_splits)
qed

lemma ini_setting_mod:
  assumes sec: "section_of api sec = Some ''mod''" and set: "ini_setting api sec name data ld = Some ld'"
    and ok: "ld_ok ld"
  shows "ld_module_path ld' = ld_module_path ld \<and> ld_dlls ld' = ld_dlls ld \<and> ld_ok ld'
    \<and> (\<exists>given. mod_gives (ca_fuel api) (ca_full_path api) (ca_vfs api) (ld_module_path ld) (ld_mods ld)
           (ca_utf8 api data) (ld_mods ld') given
         \<and> sources (m_vfs (ld_mods ld')) = (case given of None \<Rightarrow> sources (m_vfs (ld_mods ld))
              | Some f \<Rightarrow> sources (m_vfs (ld_mods ld)) ++ f)
         \<and> m_count (ld_mods ld') = m_count (ld_mods ld) + (if given = None then 0 else 1))"
proof -
  have add: "config_add_mod_path api (Some data) ld = Some ld'"
    using sec set by (auto simp: ini_setting_def section_of_def split: if_splits)
  have inv: "vfs_inv (m_vfs (ld_mods ld))" and heap: "heap_ok (ld_heap ld)" using ok by (simp_all add: ld_ok_def)
  show ?thesis
  proof (cases "ca_utf8 api data")
    case None
    then have "ld' = ld" using add by (simp add: config_add_mod_path_def utf8_to_wide_alloc_def)
    then show ?thesis using None ok by (simp add: mod_gives_def mod_package_def)
  next
    case (Some path)
    then obtain m' where m': "mods_add (ca_fuel api) (ca_full_path api) (ca_vfs api) (ld_module_path ld) (Some path)
        (ld_mods ld) = Some m'" "ld' = ld\<lparr>ld_mods := m'\<rparr>"
      using add by (auto simp: config_add_mod_path_def utf8_to_wide_alloc_def ld_mods_add_def ld_alloc_ok [OF heap])
    note spec = mods_add_spec [OF inv heap [unfolded ld_heap_def] m'(1)]
    obtain given where g: "mod_gives (ca_fuel api) (ca_full_path api) (ca_vfs api) (ld_module_path ld) (ld_mods ld)
        (Some path) m' given" "vfs_inv (m_vfs m')"
      "sources (m_vfs m') = (case given of None \<Rightarrow> sources (m_vfs (ld_mods ld))
        | Some f \<Rightarrow> sources (m_vfs (ld_mods ld)) ++ f)"
      "m_count m' = m_count (ld_mods ld) + (if given = None then 0 else 1)"
      using spec by blast
    have "ld_ok (ld\<lparr>ld_mods := m'\<rparr>)" using spec g(2) by (simp add: ld_ok_def ld_heap_def)
    then show ?thesis unfolding Some m'(2) using g(1,3,4) by (intro conjI exI [of _ given]) simp_all
  qed
qed

definition settings :: "config_api \<Rightarrow> (bytes \<times> bytes \<times> bytes) list \<Rightarrow> loader option \<Rightarrow> loader option" where
  "settings api es ld = fold (\<lambda>(s, n, d) ld. Option.bind ld (ini_setting api s n d)) es ld"

lemma settings_None [simp]: "settings api es None = None"
  by (induction es) (auto simp: settings_def)

lemma settings_spec:
  assumes "settings api es (Some ld) = Some ld'" and "ld_ok ld"
  shows "ld_module_path ld' = ld_module_path ld \<and> ld_ok ld'
    \<and> ld_dlls ld' = fold (\<lambda>(n, d). extdlls_add_spec (ca_utf8 api) (Some n) (Some d)) (ini_dlls api es) (ld_dlls ld)
    \<and> (\<exists>givens. config_mods api (ld_module_path ld) (ld_mods ld) (ini_mods api es) givens (ld_mods ld')
         \<and> (\<forall>key. sources (m_vfs (ld_mods ld')) key = (case last_given key givens of Some s \<Rightarrow> Some s
              | None \<Rightarrow> sources (m_vfs (ld_mods ld)) key))
         \<and> m_count (ld_mods ld') = m_count (ld_mods ld) + int (length (filter (\<lambda>g. g \<noteq> None) givens)))"
  using assms
proof (induction es arbitrary: ld)
  case Nil
  then have "ld' = ld" by (simp add: settings_def)
  with Nil show ?case
    by (intro conjI exI [of _ "[]"]) (simp_all add: ini_dlls_def ini_mods_def loaded_Nil)
next
  case (Cons e es)
  obtain s n d where e: "e = (s, n, d)" by (cases e) auto
  have "settings api es (ini_setting api s n d ld) = Some ld'"
    using Cons.prems(1) by (simp add: settings_def e)
  then obtain ld1 where ld1: "ini_setting api s n d ld = Some ld1" "settings api es (Some ld1) = Some ld'"
    by (cases "ini_setting api s n d ld") auto
  show ?case
  proof (cases "section_of api s = Some ''mod''")
    case True
    obtain given where g: "mod_gives (ca_fuel api) (ca_full_path api) (ca_vfs api) (ld_module_path ld) (ld_mods ld)
           (ca_utf8 api d) (ld_mods ld1) given"
      "sources (m_vfs (ld_mods ld1)) = (case given of None \<Rightarrow> sources (m_vfs (ld_mods ld))
              | Some f \<Rightarrow> sources (m_vfs (ld_mods ld)) ++ f)"
      "m_count (ld_mods ld1) = m_count (ld_mods ld) + (if given = None then 0 else 1)"
      and f: "ld_module_path ld1 = ld_module_path ld" "ld_dlls ld1 = ld_dlls ld" "ld_ok ld1"
      using ini_setting_mod [OF True ld1(1) Cons.prems(2)] by blast
    have l: "ini_mods api (e # es) = d # ini_mods api es" "ini_dlls api (e # es) = ini_dlls api es"
      using True by (simp_all add: ini_mods_def ini_dlls_def e)
    obtain givens where gs: "config_mods api (ld_module_path ld1) (ld_mods ld1) (ini_mods api es) givens (ld_mods ld')"
      "\<forall>key. sources (m_vfs (ld_mods ld')) key = (case last_given key givens of Some s \<Rightarrow> Some s
              | None \<Rightarrow> sources (m_vfs (ld_mods ld1)) key)"
      "m_count (ld_mods ld') = m_count (ld_mods ld1) + int (length (filter (\<lambda>g. g \<noteq> None) givens))"
      using Cons.IH [OF ld1(2) f(3)] by blast
    have "config_mods api (ld_module_path ld) (ld_mods ld) (d # ini_mods api es) (given # givens) (ld_mods ld')"
      using loaded_Cons [OF g(1)] gs(1) f(1) by simp
    moreover have "\<forall>key. sources (m_vfs (ld_mods ld')) key = (case last_given key (given # givens) of Some s \<Rightarrow> Some s
              | None \<Rightarrow> sources (m_vfs (ld_mods ld)) key)"
      using gs(2) g(2) by (auto simp: map_add_def split: option.splits)
    moreover have "m_count (ld_mods ld') = m_count (ld_mods ld)
        + int (length (filter (\<lambda>g. g \<noteq> None) (given # givens)))"
      using gs(3) g(3) by simp
    moreover have "ld_module_path ld' = ld_module_path ld" "ld_ok ld'"
      "ld_dlls ld' = fold (\<lambda>(n, d). extdlls_add_spec (ca_utf8 api) (Some n) (Some d)) (ini_dlls api (e # es)) (ld_dlls ld)"
      using Cons.IH [OF ld1(2) f(3)] f(1,2) l by simp_all
    ultimately show ?thesis unfolding l by blast
  next
    case False
    have heap: "heap_ok (ld_heap ld)" using Cons.prems(2) by (simp add: ld_ok_def)
    note o = ini_setting_other [OF heap False ld1(1)]
    have m: "ld_mods ld1 = ld_mods ld" "ld_module_path ld1 = ld_module_path ld"
      "ld_dlls ld1 = (if section_of api s = Some ''dll'' then extdlls_add_spec (ca_utf8 api) (Some n) (Some d) (ld_dlls ld)
        else ld_dlls ld)"
      using o by (auto simp: same_mods_def split: if_splits)
    have l: "ini_mods api (e # es) = ini_mods api es" using False by (simp add: ini_mods_def e)
    have ok: "ld_ok ld1" using Cons.prems(2) m(1) by (simp add: ld_ok_def ld_heap_def)
    note ih = Cons.IH [OF ld1(2) ok, unfolded m(1,2)]
    have "ld_dlls ld' = fold (\<lambda>(n, d). extdlls_add_spec (ca_utf8 api) (Some n) (Some d)) (ini_dlls api (e # es)) (ld_dlls ld)"
      using ih m(3) by (simp add: ini_dlls_def e)
    with ih show ?thesis unfolding l by blast
  qed
qed

lemma config_load_ini_settings:
  assumes "heap_ok h" and "\<And>s ps. (s, ps) \<in> set ss \<Longrightarrow> section_ok s \<and> (\<forall>p\<in>set ps. pair_ok p)"
    and "length (ini_print ss) < SIZE_MAX div 2"
  shows "config_load_ini api (ini_print ss) False h ld = settings api (ini_entries ss) (Some ld)"
proof -
  have "ini_parse_file (ini_read_cb api) (Some ld) (ini_print ss) False h
      = ((0, ini_run (ini_read_cb api) (ini_entries ss) (Some ld)), h)"
    using assms by (intro ini_print_run) (simp_all add: ini_read_cb_def)
  then show ?thesis by (simp add: config_load_ini_def ini_run_def ini_read_cb_def settings_def)
qed

text \<open>
  C5: from the file to the game. When a loader that has no mods yet has read an INI file that holds the
  sections \<open>ss\<close>, and memory lasts, the external DLLs are those of the lines in \<open>[dll]\<close> and the mods
  are those of the lines in \<open>[mod]\<close>, in their order: each line whose path resolves to a package that
  can be added counts and gives that package's files, every other line gives nothing, whatever
  settings stand between them. A search for a path is then served from the last of these lines
  whose package has a file with the path's normal form, and finds nothing when there is none.
\<close>

theorem config_last_mod_wins:
  assumes "heap_ok h" and "heap_ok (ld_heap ld)"
    and "\<And>s ps. (s, ps) \<in> set ss \<Longrightarrow> section_ok s \<and> (\<forall>p\<in>set ps. pair_ok p)"
    and "length (ini_print ss) < SIZE_MAX div 2"
    and "ld_mods ld = mods_init module m0" and "m_count m0 = 0"
    and load: "config_load_ini api (ini_print ss) False h ld = Some ld'"
    and "length path < 2 ^ 60" and "vfs_key path = Some key"
    and "vfs_uid_to_path (Some path) (m_vfs (ld_mods ld')) = None"
  shows "ld_dlls ld' = fold (\<lambda>(n, d). extdlls_add_spec (ca_utf8 api) (Some n) (Some d))
            (ini_dlls api (ini_entries ss)) (ld_dlls ld)
     \<and> (\<exists>givens. config_mods api (ld_module_path ld) (ld_mods ld) (ini_mods api (ini_entries ss)) givens (ld_mods ld')
          \<and> m_count (ld_mods ld') = int (length (filter (\<lambda>g. g \<noteq> None) givens))
          \<and> (case last_given key givens of None \<Rightarrow> fst (mods_file_search (Some path) (ld_mods ld')) = None
             | Some s \<Rightarrow> serves (m_vfs (ld_mods ld')) (fst (mods_file_search (Some path) (ld_mods ld'))) s))"
proof -
  have run: "settings api (ini_entries ss) (Some ld) = Some ld'"
    using load config_load_ini_settings [OF assms(1,3,4)] by simp
  have fresh: "vfs_inv (m_vfs (ld_mods ld))" "m_count (ld_mods ld) = 0" "sources (m_vfs (ld_mods ld)) key = None"
    using assms(5,6) mods_init_fresh by simp_all
  then have "ld_ok ld" using assms(2) by (simp add: ld_ok_def)
  from settings_spec [OF run this]
  obtain givens where g: "config_mods api (ld_module_path ld) (ld_mods ld) (ini_mods api (ini_entries ss)) givens (ld_mods ld')"
    "\<forall>key. sources (m_vfs (ld_mods ld')) key = (case last_given key givens of Some s \<Rightarrow> Some s
              | None \<Rightarrow> sources (m_vfs (ld_mods ld)) key)"
    "m_count (ld_mods ld') = m_count (ld_mods ld) + int (length (filter (\<lambda>g. g \<noteq> None) givens))"
    and f: "ld_ok ld'" "ld_dlls ld' = fold (\<lambda>(n, d). extdlls_add_spec (ca_utf8 api) (Some n) (Some d))
      (ini_dlls api (ini_entries ss)) (ld_dlls ld)"
    by blast
  have count: "m_count (ld_mods ld') = int (length (filter (\<lambda>g. g \<noteq> None) givens))" using g(3) fresh(2) by simp
  have given: "sources (m_vfs (ld_mods ld')) key = last_given key givens"
    using g(2) fresh(3) by (simp split: option.splits)
  have ok: "vfs_inv (m_vfs (ld_mods ld'))" "heap_ok (v_heap (m_vfs (ld_mods ld')))"
    using f(1) by (simp_all add: ld_ok_def ld_heap_def)
  from search_last_given [OF ok(1) given count ok(2) assms(8-10)] g(1) count f(2) show ?thesis by blast
qed

definition example_config_api :: config_api where
  "example_config_api = \<lparr>ca_fuel = Suc (Suc 0), ca_vfs = example_dirs, ca_full_path = (\<lambda>_ s. Inr s),
     ca_lstrcmp = (\<lambda>a b. a = b), ca_utf8 = (\<lambda>b. Some (map ucast b)), ca_remove_extension = (\<lambda>b. b),
     ca_open = (\<lambda>_. None), ca_toml = (\<lambda>_. None)\<rparr>"

definition example_loader :: loader where
  "example_loader = \<lparr>ld_config = config_default, ld_module_path = Some example_dir, ld_env_path = None,
     ld_mods = mods_init (Inl 5) example_mods,
     ld_dlls = \<lparr>xs_dlls = [], xs_capacity = 0, xs_load_counter = 0, xs_heap = (\<lambda>_. True)\<rparr>,
     ld_console = False, ld_log_file = None, ld_log_level = 2\<rparr>"

abbreviation example_ini :: ini_sections where
  "example_ini \<equiv> [(B ''patch'', [(B ''boot_boost'', B ''off'')]), (B ''mod'', [(B ''a'', B ''m'')])]"

lemma example_ini_ok: "(s, ps) \<in> set example_ini \<Longrightarrow> section_ok s \<and> (\<forall>p\<in>set ps. pair_ok p)"
  by (auto simp: section_ok_def pair_ok_def one_line_def comment_free_def ini_find_chars_or_comment_def
      isspace_def stripped_def MAX_SECTION_def)

lemma example_init: "mods_init (Inl 5) example_mods = example_mods"
  by (simp add: mods_init_def example_mods_def ml_path_module_filename_alloc_def module_filename_loop.simps
      ML_PATH_MAX_CCH_def ml_path_buffer_ok v_heap_def vfs_init_def fs_initial_def with_heap_def)

lemma example_configured:
  "\<exists>ld m. config_load_ini example_config_api (ini_print example_ini) False (\<lambda>_. True) example_loader = Some ld
     \<and> ld_mods ld = m
     \<and> mods_load (Suc (Suc 0)) (\<lambda>_ s. Inr s) example_dirs (Some example_dir) [Some [109], None]
          (mods_init (Inl 5) example_mods) = Some m"
proof -
  obtain m where m: "mods_load (Suc (Suc 0)) (\<lambda>_ s. Inr s) example_dirs (Some example_dir) [Some [109], None]
       (mods_init (Inl 5) example_mods) = Some m" using example_search by auto
  then have add: "mods_add (Suc (Suc 0)) (\<lambda>_ s. Inr s) example_dirs (Some example_dir) (Some [109]) example_mods = Some m"
    unfolding example_init by (auto simp: mods_add_def [of _ _ _ _ None] split: option.splits)
  let ?ld = "set_config (\<lambda>c. c\<lparr>boot_boost := False\<rparr>) example_loader"
  have "ld_mods ?ld = example_mods" by (simp add: set_config_def example_loader_def example_init)
  then have "heap_ok (ld_heap ?ld)"
    by (simp add: ld_heap_def) (simp add: example_mods_def v_heap_def vfs_init_def fs_initial_def)
  then have alloc: "ld_alloc ?ld = (True, ?ld)" by (rule ld_alloc_ok)
  have one: "ini_setting example_config_api (B ''patch'') (B ''boot_boost'') (B ''off'') example_loader = Some ?ld"
    by (simp add: ini_setting_def patch_setting_def set_config_def value_to_bool_def example_config_api_def)
  have two: "ini_setting example_config_api (B ''mod'') (B ''a'') (B ''m'') ?ld = Some (?ld\<lparr>ld_mods := m\<rparr>)"
    using alloc add
    by (simp add: ini_setting_def config_add_mod_path_def utf8_to_wide_alloc_def ld_mods_add_def example_config_api_def)
      (simp add: set_config_def example_loader_def example_init)
  have "config_load_ini example_config_api (ini_print example_ini) False (\<lambda>_. True) example_loader
      = settings example_config_api (ini_entries example_ini) (Some example_loader)"
    using example_ini_ok by (intro config_load_ini_settings)
      (simp_all add: ini_print_def section_lines_def section_line_def pair_line_def SIZE_MAX_def)
  also have "\<dots> = Some (?ld\<lparr>ld_mods := m\<rparr>)" using one two by (simp add: settings_def ini_entries_def)
  finally show ?thesis using m by auto
qed

theorem config_last_mod_wins_witness:
  "\<exists>ld givens. config_load_ini example_config_api (ini_print example_ini) False (\<lambda>_. True) example_loader = Some ld
     \<and> config_mods example_config_api (Some example_dir) (ld_mods example_loader) [B ''m''] givens (ld_mods ld)
     \<and> last_given [97] givens \<noteq> None
     \<and> fst (mods_file_search (Some [65]) (ld_mods ld)) = Some (example_dir @ [BSLASH, 109, BSLASH, 65])"
proof -
  obtain ld m where ld: "config_load_ini example_config_api (ini_print example_ini) False (\<lambda>_. True) example_loader = Some ld"
    "ld_mods ld = m" and m: "mods_load (Suc (Suc 0)) (\<lambda>_ s. Inr s) example_dirs (Some example_dir) [Some [109], None]
          (mods_init (Inl 5) example_mods) = Some m"
    using example_configured by blast
  have found: "fst (mods_file_search (Some [65]) m) = Some (example_dir @ [BSLASH, 109, BSLASH, 65])"
    using example_search m by simp
  have heap: "heap_ok (ld_heap example_loader)" using example_heap by (simp add: ld_heap_def example_loader_def)
  have uid: "vfs_uid_to_path (Some [65]) (m_vfs (ld_mods ld)) = None"
    by (simp add: vfs_uid_to_path_def vfs_uid_entry_def uid_prefix_def)
  have key: "vfs_key [65] = Some [97]" by code_simp
  have entries: "ini_mods example_config_api (ini_entries example_ini) = [B ''m'']"
    by (simp add: ini_mods_def ini_entries_def section_of_def example_config_api_def)
  have len: "length (ini_print example_ini) < SIZE_MAX div 2"
    by (simp add: ini_print_def section_lines_def section_line_def pair_line_def SIZE_MAX_def)
  have init: "ld_mods example_loader = mods_init (Inl 5) example_mods" "m_count example_mods = 0"
    "ld_module_path example_loader = Some example_dir"
    by (simp_all add: example_loader_def example_mods_def)
  have small: "length [65 :: wchar] < 2 ^ 60" by simp
  obtain givens where g: "config_mods example_config_api (Some example_dir) (ld_mods example_loader) [B ''m''] givens (ld_mods ld)"
    "case last_given [97] givens of None \<Rightarrow> fst (mods_file_search (Some [65]) (ld_mods ld)) = None
     | Some s \<Rightarrow> serves (m_vfs (ld_mods ld)) (fst (mods_file_search (Some [65]) (ld_mods ld))) s"
    using config_last_mod_wins [OF heap_ok_const heap example_ini_ok len init(1,2) ld(1) small key uid]
    unfolding entries init(3) by blast
  then have "last_given [97] givens \<noteq> None" using found ld(2) by (cases "last_given [97] givens") auto
  with g(1) ld found show ?thesis by blast
qed

end
