(* ===== verification/Spec2Isabelle.thy ===== *)
theory Spec2Isabelle
  imports Prelude KHash Paths VfsPath ZipPackage VfsFile VfsFileInv VfsFileSafety VfsFileContent Vfs VfsIndex Memory VfsUid VfsCache VfsRoutes Vdf VdfTotal VdfRoundtrip SteamApp Lifecycle MinHook HookedCode Hooks Scanner RipScan ExtDll ExtOrder ExtSpec ExtLoad Encryption SaveMapping Ini Mods Config
begin

text \<open>
  \<^bold>\<open>YAFSML\<close>, a mod loader for FromSoftware games: a DLL that the game loads in place of a system
  library. It redirects the game's file requests into mod packages (directories and ZIP archives),
  renames save files, loads further DLLs, and patches the game in memory. This development models
  the logic of the loader as functions and step relations over explicit states, and proves what
  makes each part correct. File names below are relative to \<open>src/src\<close>, except \<open>deps\<close>, which is
  \<open>src/deps\<close>.

  \<^bold>\<open>The program and its model.\<close>

  \<^item> \<^bold>\<open>Foundations.\<close> \<open>Prelude\<close>: strings up to their NUL, the C library's case folding, the outcomes of
    the allocator as a stream of booleans (\<open>heap\<close>; every failing allocation is a branch of the
    model), results with an error code on the left. \<open>KHash\<close> (\<open>common/khash_wstr.h\<close>): the hash of wide
    strings and the locale \<open>table\<close>, the laws that the clients of the vendored \<open>khash.h\<close> rely on,
    interpreted as \<open>kh\<close> on association lists. \<open>Paths\<close> (\<open>common/path.h\<close>): the path helpers.
  \<^item> \<^bold>\<open>Virtual file system.\<close> \<open>VfsPath\<close>, \<open>Vfs\<close> and \<open>VfsCache\<close> model \<open>modloader/vfs.c\<close>: the normaliser of
    virtual paths, the index of package files (record \<open>vfs\<close>, the file's static variables), scanning
    and adding packages, UIDs, the lookups with their caches and generation numbers cut at their
    locks (\<open>lookup_step\<close>), the table of writable paths. \<open>VfsIndex\<close>, \<open>VfsUid\<close>, \<open>VfsCache\<close> and
    \<open>VfsRoutes\<close> prove that the index stays consistent, that adding a package is all or nothing and
    overrides exactly its paths, that UIDs parse back, and that no cache changes an answer.
  \<^item> \<^bold>\<open>Archives and files.\<close> \<open>ZipPackage\<close> (\<open>modloader/zip_package.c\<close>): the index of an archive and
    checked entry streams; over any history of reads a stream delivers the bytes of its entry, whose
    meaning is stated on the archive's bytes alone (\<open>zip_entry_begins\<close>, \<open>zip_entry_is\<close>). \<open>VfsFile\<close>
    (\<open>modloader/vfs_file.c\<close>): seekable files over entries and the decoded caches they share, with
    memory and disk budgets; the caches are cells of a store, so that freeing and sharing are visible.
    \<open>VfsFileInv\<close> proves the invariant of the store for each operation, together with any property of
    the cells (\<open>cell_laws\<close>) that decoding keeps (\<open>decode_laws\<close>); \<open>VfsFileSafety\<close> uses it for what holds in
    every state that \<open>files_step\<close> reaches, \<open>VfsFileContent\<close> for what the decoded bytes are.
  \<^item> \<^bold>\<open>Saves.\<close> \<open>SaveMapping\<close> (\<open>modloader/patches/save_mapping.c\<close>): save paths are registered as writable
    routes of the index, and denied when they cannot be.
  \<^item> \<^bold>\<open>Start-up.\<close> \<open>Lifecycle\<close> (\<open>modloader/lifecycle.c\<close>): phases and observers, cut where a callback or
    another thread can run (\<open>lc_step\<close>). \<open>ExtDll\<close>, \<open>ExtOrder\<close>, \<open>ExtSpec\<close> and \<open>ExtLoad\<close>
    (\<open>modloader/extdll.c\<close> and its observers in \<open>modloader/modloader.c\<close>): the table of external DLLs, its
    dependency order, the syntax of an entry, and loading by the main thread and the deferred
    worker together (\<open>ext_step\<close>).
  \<^item> \<^bold>\<open>Hooks.\<close> \<open>MinHook\<close> (\<open>deps/minhook/hook.c\<close>): the table of hooks and the patched bytes, every
    exported call a step (\<open>mh_step\<close>); \<open>HookedCode\<close> its invariant. \<open>Hooks\<close> (\<open>modloader/hook.c\<close>,
    \<open>modloader/hook_batch.c\<close>): single hooks and batches with rollback. The locale \<open>hook_api\<close> is what a
    batch needs of single hooks; the interpretation \<open>minhook\<close> provides it from the library's model.
  \<^item> \<^bold>\<open>Finding code.\<close> \<open>Scanner\<close> (\<open>process/scanner.c\<close>): patterns and the Boyer-Moore search; \<open>RipScan\<close>
    (\<open>process/rip_scan.c\<close>): string literals and rip-relative operands. \<open>Encryption\<close>
    (\<open>dearxan/encryption.c\<close>, \<open>dearxan/util.c\<close>): the ciphers and the region lists of Arxan stubs.
  \<^item> \<^bold>\<open>Finding the game.\<close> \<open>Vdf\<close>, \<open>VdfTotal\<close> and \<open>VdfRoundtrip\<close> (\<open>steam/vdf.c\<close>): Valve's KeyValues reader,
    its termination and bounds, and the round trip with a printer; \<open>SteamApp\<close> (\<open>steam/app.c\<close>): the
    search through Steam's libraries.
  \<^item> \<^bold>\<open>Configuration.\<close> \<open>Ini\<close> (\<open>deps/inih/ini.c\<close>): the reader of lines and its buffer; \<open>Mods\<close>
    (\<open>modloader/mod.c\<close>): resolving a mod to a package and adding it, and what the mods give together;
    \<open>Config\<close> (\<open>modloader/config.c\<close>, \<open>modloader/path_convert.c\<close>): finding the file and its settings. The
    last theorem goes from the text of the file to the file a game request is served from. \<open>Memory\<close>
    shows of the operations it goes through that memory that lasts goes on lasting.

  \<^bold>\<open>Parameters.\<close> Code that is not in the repository's own sources is an argument: Windows as the records
  \<open>vfs_api\<close>, \<open>disk_api\<close>, \<open>save_api\<close>, \<open>dll_api\<close>, \<open>steam_env\<close> and \<open>file_attributes\<close>; the archive directory,
  inflater and CRC of miniz as \<open>zip_archive\<close>, \<open>inflate_api\<close> and \<open>crc_api\<close>; the trampoline builder and
  buffer allocator of the hooking library as \<open>mh_env\<close>. Where an answer may change from call to call,
  the parameter takes the history of calls or consumes a stream.

  \<^bold>\<open>Loops and fuel.\<close> Most loops are functions with a proved measure. Those on fuel are shown to have
  enough: the KeyValues reader by \<open>vdf_parse_returns\<close>, entry streams by \<open>zip_stream_read_returns\<close>,
  the directory scan by \<open>vfs_scan_returns\<close> (for non-empty names and bounded path lengths, which
  Windows guarantees). The sort of external DLLs counts its moves as the code does, and
  \<open>extdlls_sort_exact\<close> shows that the code's budget suffices exactly when there is no cycle. Queries of
  Windows whose answer can grow between two calls keep their fuel as a parameter.

  \<^bold>\<open>Integers.\<close> Where the code relies on wrap-around or could run into it, values are words: hashes, UIDs
  and generations, ciphers, addresses, signed file positions. Sizes are natural numbers with the
  code's overflow checks written out against the bounds of \<open>size_t\<close>.

  \<^bold>\<open>Atomicity.\<close> An operation that holds its lock throughout is one step. \<open>VfsCache\<close>, \<open>Lifecycle\<close> and
  \<open>ExtLoad\<close> cut the operations at the points where the code releases a lock, waits or calls out, and
  their theorems hold in every interleaving. \<open>VfsFile\<close> and \<open>SaveMapping\<close> take each exported function as
  one step, although the code releases its locks inside some of them; so does
  \<open>vfs_route_writable_path\<close>, which on a miss gives up the shared lock and looks the path up again
  under the exclusive one before it stores the answer.

  \<^bold>\<open>Simplifications.\<close> The depth of the recursion guard of \<open>vfs.c\<close> and the square of the number of
  external DLLs in the sort are natural numbers; the code's \<open>unsigned int\<close> and \<open>int\<close> would need
  billions of nested calls or tens of thousands of DLLs to differ. The scan compares the names
  \<open>.\<close> and \<open>..\<close> as strings. An archive file answers a read by offset and size only, so that it does
  not change under the loader. \<open>lstrcmpA\<close> is a parameter, and the theorem on the configuration holds
  for any: it reads the sections of the file as that comparison does.

  \<^bold>\<open>Not modelled.\<close>
  \<^item> The readers of the configuration's other formats: the vendored TOML parser is a parameter that gives
    the parsed tree. Log output is left out.
  \<^item> The detours of game and Windows functions (\<open>modloader/gamehook.c\<close>, \<open>modloader/patches\<close> but for
    \<open>save_mapping.c\<close>) and the proxies (\<open>modloader/proxy\<close>): their bodies call through pointers into code
    that is not in the repository.
  \<^item> Process inspection (\<open>process\<close> but for the two searches) and Arxan removal (\<open>dearxan\<close> but for the
    ciphers and region lists): they read object layouts of the game from its memory and decode
    instructions with the vendored Zydis.
  \<^item> The game registry (\<open>game\<close>), the launcher (\<open>launcher\<close>), allocators, logging and atomics
    (\<open>common\<close>): constant tables, process creation, forwarding and output.
  \<^item> Everything under \<open>deps\<close> but for the hooking library's table and the INI reader.
\<close>

end
